(* ===== verification/Aamp_Prelude.thy ===== *)
theory Aamp_Prelude
  imports Complex_Main "HOL-Library.Word" "HOL-Library.Signed_Division"
begin

text \<open>
  Shared vocabulary of the development: the widths of the C++ integer types, the C++ standard
  containers the player uses (\<open>std::map\<close> as a list of bindings sorted by key,
  \<open>std::lower_bound\<close> as the bisection it is), the result type of code that may throw, the
  notion of a reachable state of a component, and the generic lemmas the component theories
  share.  Two interfaces are stated here as locales because several components provide them:
  an ordered map and a component with a state invariant.
\<close>

section \<open>Integer types\<close>

type_synonym u8 = "8 word"
type_synonym u16 = "16 word"
type_synonym u32 = "32 word"
type_synonym u64 = "64 word"

definition INT64_MAX :: int where
  "INT64_MAX = 9223372036854775807"

definition INT64_MIN :: int where
  "INT64_MIN = -9223372036854775808"

definition int64 :: "int \<Rightarrow> bool" where
  "int64 x \<longleftrightarrow> INT64_MIN \<le> x \<and> x \<le> INT64_MAX"

definition INT_MAX :: int where
  "INT_MAX = 2147483647"

named_theorems width_defs "the bounds of the fixed-width integer types"

lemmas [width_defs] = INT64_MAX_def INT64_MIN_def int64_def INT_MAX_def

section \<open>Ordered maps: std::map as a list sorted by its keys\<close>

type_synonym ('k, 'v) omap = "('k \<times> 'v) list"

fun om_find :: "'k \<Rightarrow> ('k, 'v) omap \<Rightarrow> 'v option" where
  "om_find k [] = None"
| "om_find k ((a, v) # m) = (if a = k then Some v else om_find k m)"

text \<open>\<open>m[k] = v\<close>: assign, inserting the key when it is absent.\<close>

fun om_assign :: "'k::linorder \<Rightarrow> 'v \<Rightarrow> ('k, 'v) omap \<Rightarrow> ('k, 'v) omap" where
  "om_assign k v [] = [(k, v)]"
| "om_assign k v ((a, w) # m) =
     (if k < a then (k, v) # (a, w) # m
      else if k = a then (k, v) # m
      else (a, w) # om_assign k v m)"

text \<open>\<open>m.insert({k, v})\<close>: keeps the old value of a key that is already present.\<close>

definition om_insert :: "'k::linorder \<Rightarrow> 'v \<Rightarrow> ('k, 'v) omap \<Rightarrow> ('k, 'v) omap" where
  "om_insert k v m = (case om_find k m of None \<Rightarrow> om_assign k v m | Some _ \<Rightarrow> m)"

fun om_erase :: "'k \<Rightarrow> ('k, 'v) omap \<Rightarrow> ('k, 'v) omap" where
  "om_erase k [] = []"
| "om_erase k ((a, v) # m) = (if a = k then m else (a, v) # om_erase k m)"

text \<open>\<open>m.lower_bound(k)\<close>: the bindings from the first key that is not less than \<open>k\<close> on.\<close>

definition om_lower :: "'k::linorder \<Rightarrow> ('k, 'v) omap \<Rightarrow> ('k, 'v) omap" where
  "om_lower k m = dropWhile (\<lambda>(a, _). a < k) m"

definition om_keys :: "('k, 'v) omap \<Rightarrow> 'k list" where
  "om_keys m = map fst m"

definition om_ok :: "('k::linorder, 'v) omap \<Rightarrow> bool" where
  "om_ok m \<longleftrightarrow> sorted_wrt (<) (om_keys m)"

section \<open>std::lower\_bound: bisection over a sequence\<close>

text \<open>
  The loop of \<open>std::lower_bound\<close>: \<open>first\<close> and \<open>len\<close> delimit the part still to be searched,
  \<open>below x\<close> is \<open>comp(x, value)\<close>.  The result is an index into the sequence.
\<close>

fun lower_bound_loop :: "('a \<Rightarrow> bool) \<Rightarrow> 'a list \<Rightarrow> nat \<Rightarrow> nat \<Rightarrow> nat" where
  "lower_bound_loop below xs first len =
     (if len = 0 then first
      else let half = len div 2; mid = first + half
           in if below (xs ! mid) then lower_bound_loop below xs (mid + 1) (len - half - 1)
              else lower_bound_loop below xs first half)"

declare lower_bound_loop.simps [simp del]

definition lower_bound :: "('a \<Rightarrow> bool) \<Rightarrow> 'a list \<Rightarrow> nat" where
  "lower_bound below xs = lower_bound_loop below xs 0 (length xs)"

definition insert_at :: "nat \<Rightarrow> 'a \<Rightarrow> 'a list \<Rightarrow> 'a list" where
  "insert_at i x xs = take i xs @ x # drop i xs"

section \<open>Code that may fail\<close>

text \<open>The second part of a computation runs when the first returns; a fault of either is the result.\<close>

definition ebind :: "'e + 'a \<Rightarrow> ('a \<Rightarrow> 'e + 'b) \<Rightarrow> 'e + 'b" where
  "ebind x f = (case x of Inl e \<Rightarrow> Inl e | Inr a \<Rightarrow> f a)"

lemma ebind_simps [simp]: "ebind (Inr a) f = f a" "ebind (Inl e) f = Inl e"
  by (simp_all add: ebind_def)

lemma ebind_Inr_iff: "ebind x f = Inr b \<longleftrightarrow> (\<exists>a. x = Inr a \<and> f a = Inr b)"
  by (cases x) simp_all

lemma ebind_Inl_iff: "ebind x f = Inl e \<longleftrightarrow> x = Inl e \<or> (\<exists>a. x = Inr a \<and> f a = Inl e)"
  by (cases x) simp_all

section \<open>Reachable states\<close>

inductive reach :: "('s \<Rightarrow> bool) \<Rightarrow> ('s \<Rightarrow> 's \<Rightarrow> bool) \<Rightarrow> 's \<Rightarrow> bool"
  for start :: "'s \<Rightarrow> bool" and step :: "'s \<Rightarrow> 's \<Rightarrow> bool" where
  reach_start: "start s \<Longrightarrow> reach start step s"
| reach_step: "reach start step s \<Longrightarrow> step s t \<Longrightarrow> reach start step t"

section \<open>Lemmas on words\<close>

lemma unat_less_width: "unat (w :: 'a::len word) < 2 ^ LENGTH('a)"
  by (rule unsigned_less)

lemma unat_ucast_mod: "unat (ucast w :: 'c::len word) = unat w mod 2 ^ LENGTH('c)"
  by (simp add: unsigned_ucast_eq take_bit_eq_mod)

lemma unat_ucast_wider:
  "LENGTH('b::len) \<le> LENGTH('c::len) \<Longrightarrow> unat (ucast (w :: 'b word) :: 'c word) = unat w"
proof -
  assume "LENGTH('b) \<le> LENGTH('c)"
  then have "(2::nat) ^ LENGTH('b) \<le> 2 ^ LENGTH('c)" by simp
  then have "unat w < 2 ^ LENGTH('c)" using unat_less_width [of w] by linarith
  then show ?thesis by (simp add: unat_ucast_mod)
qed

section \<open>Lemmas on ordered maps\<close>

lemma om_find_assign [simp]: "om_find k' (om_assign k v m) = (if k' = k then Some v else om_find k' m)"
  by (induction m) auto

lemma om_find_None_iff: "om_find k m = None \<longleftrightarrow> k \<notin> set (om_keys m)"
  by (induction m) (auto simp: om_keys_def split: if_splits)

lemma om_find_Some_in: "om_find k m = Some v \<Longrightarrow> (k, v) \<in> set m"
  by (induction m) (auto split: if_splits)

lemma om_ok_Nil [simp]: "om_ok []"
  by (simp add: om_ok_def om_keys_def)

lemma om_ok_Cons [simp]: "om_ok ((k, v) # m) \<longleftrightarrow> (\<forall>a w. (a, w) \<in> set m \<longrightarrow> k < a) \<and> om_ok m"
  by (force simp: om_ok_def om_keys_def)

lemma om_ok_distinct: "om_ok m \<Longrightarrow> distinct (om_keys m)"
  by (simp add: om_ok_def strict_sorted_iff)

lemma om_ok_hd: "om_ok ((k, v) # m) \<Longrightarrow> (k, w) \<notin> set m"
  by auto

lemma om_in_find: "om_ok m \<Longrightarrow> (k, v) \<in> set m \<Longrightarrow> om_find k m = Some v"
proof (induction m)
  case (Cons b m)
  then show ?case by (cases b) (auto dest: om_ok_hd)
qed simp

lemma om_find_iff: "om_ok m \<Longrightarrow> om_find k m = Some v \<longleftrightarrow> (k, v) \<in> set m"
  by (blast intro: om_in_find dest: om_find_Some_in)

lemma set_om_assign: "om_ok m \<Longrightarrow> set (om_assign k v m) = insert (k, v) {(a, w) \<in> set m. a \<noteq> k}"
proof (induction m)
  case (Cons b m)
  obtain a w where b: "b = (a, w)" by force
  consider "k < a" | "k = a" | "a < k" by force
  then show ?case
    using Cons b by cases (auto dest: less_trans)
qed simp

lemma om_ok_assign [simp]: "om_ok m \<Longrightarrow> om_ok (om_assign k v m)"
proof (induction m)
  case (Cons b m)
  obtain a w where b: "b = (a, w)" by force
  consider "k < a" | "k = a" | "a < k" by force
  then show ?case
    using Cons b by cases (auto simp: set_om_assign dest: less_trans)
qed simp

lemma set_om_erase: "om_ok m \<Longrightarrow> set (om_erase k m) = {(a, w) \<in> set m. a \<noteq> k}"
proof (induction m)
  case (Cons b m)
  obtain a w where b: "b = (a, w)" by force
  show ?case
  proof (cases "a = k")
    case True
    with Cons.prems b have "(k, x) \<notin> set m" for x by (blast dest: om_ok_hd)
    with True b show ?thesis by auto
  qed (use Cons b in auto)
qed simp

lemma om_ok_erase [simp]: "om_ok m \<Longrightarrow> om_ok (om_erase k m)"
  by (induction m) (auto simp: set_om_erase split: if_splits)

lemma om_find_erase [simp]: "om_ok m \<Longrightarrow> om_find k' (om_erase k m) = (if k' = k then None else om_find k' m)"
proof (induction m)
  case (Cons b m)
  obtain a w where b: "b = (a, w)" by force
  show ?case
  proof (cases "a = k")
    case True
    with Cons.prems b have "(k, x) \<notin> set m" for x by (blast dest: om_ok_hd)
    then have "om_find k m = None" using om_find_Some_in by (metis option.exhaust)
    with True b show ?thesis by simp
  qed (use Cons b in auto)
qed simp

lemma om_ok_insert [simp]: "om_ok m \<Longrightarrow> om_ok (om_insert k v m)"
  by (auto simp: om_insert_def split: option.splits)

lemma om_find_insert [simp]:
  "om_find k' (om_insert k v m) =
     (if k' = k \<and> om_find k m = None then Some v else om_find k' m)"
  by (auto simp: om_insert_def split: option.splits)

lemma om_assign_found: "om_ok m \<Longrightarrow> om_find k m = Some v \<Longrightarrow> om_assign k v (om_assign k w m) = m"
proof (induction m)
  case (Cons b m)
  obtain a x where b: "b = (a, x)" by force
  show ?case
  proof (cases "a = k")
    case False
    then have "(k, v) \<in> set m" using Cons.prems b by (auto dest: om_find_Some_in)
    then have "a < k" using Cons.prems(1) b by auto
    then show ?thesis using Cons b by auto
  qed (use Cons b in auto)
qed simp

lemma om_lower_Cons: "om_lower k ((a, w) # m) = (if a < k then om_lower k m else (a, w) # m)"
  by (simp add: om_lower_def)

lemma om_lower_suffix: "om_ok m \<Longrightarrow> set (om_lower k m) = {(a, w) \<in> set m. k \<le> a}"
proof (induction m)
  case (Cons b m)
  obtain a w where b: "b = (a, w)" by force
  show ?case
  proof (cases "a < k")
    case True
    with Cons b show ?thesis by (auto simp: om_lower_Cons)
  next
    case False
    with Cons b show ?thesis by (auto simp: om_lower_Cons dest: less_imp_le order_trans)
  qed
qed (simp add: om_lower_def)

section \<open>Lemmas on bisection\<close>

text \<open>\<open>below\<close> is partitioned over \<open>xs\<close> when the elements below the value come first.\<close>

definition partitioned :: "('a \<Rightarrow> bool) \<Rightarrow> 'a list \<Rightarrow> bool" where
  "partitioned below xs \<longleftrightarrow> (\<forall>i j. i \<le> j \<longrightarrow> j < length xs \<longrightarrow> below (xs ! j) \<longrightarrow> below (xs ! i))"

lemma lower_bound_loop_point:
  assumes "partitioned below xs" "first + len \<le> length xs"
    "\<forall>i < first. below (xs ! i)" "\<forall>i. first + len \<le> i \<longrightarrow> i < length xs \<longrightarrow> \<not> below (xs ! i)"
  shows "lower_bound_loop below xs first len \<le> length xs
    \<and> (\<forall>i < lower_bound_loop below xs first len. below (xs ! i))
    \<and> (\<forall>i. lower_bound_loop below xs first len \<le> i \<longrightarrow> i < length xs \<longrightarrow> \<not> below (xs ! i))"
  using assms
proof (induction below xs first len rule: lower_bound_loop.induct)
  case (1 below xs first len)
  let ?half = "len div 2"
  let ?mid = "first + ?half"
  show ?case
  proof (cases "len = 0")
    case True
    then have "lower_bound_loop below xs first len = first"
      by (subst lower_bound_loop.simps) simp
    with True "1.prems" show ?thesis by simp
  next
    case False
    then have mid: "?mid < length xs" "?mid < first + len" using "1.prems"(2) by linarith+
    show ?thesis
    proof (cases "below (xs ! ?mid)")
      case True
      have pre: "\<forall>i < ?mid + 1. below (xs ! i)"
        using "1.prems"(1) mid True by (auto simp: partitioned_def less_Suc_eq_le)
      have eq: "?mid + 1 + (len - ?half - 1) = first + len" using False by simp
      have "lower_bound_loop below xs first len = lower_bound_loop below xs (?mid + 1) (len - ?half - 1)"
        using False True by (simp add: lower_bound_loop.simps [of below xs first len] Let_def)
      then show ?thesis
        using "1.IH"(1) [OF False refl refl True] "1.prems" pre eq by metis
    next
      case bmid: False
      have post: "\<forall>i. ?mid \<le> i \<longrightarrow> i < length xs \<longrightarrow> \<not> below (xs ! i)"
        using "1.prems"(1) bmid by (auto simp: partitioned_def)
      have "lower_bound_loop below xs first len = lower_bound_loop below xs first ?half"
        using False bmid by (simp add: lower_bound_loop.simps [of below xs first len] Let_def)
      then show ?thesis
        using "1.IH"(2) [OF False refl refl bmid] "1.prems" post mid by simp
    qed
  qed
qed

lemma lower_bound_point:
  assumes "partitioned below xs"
  shows "lower_bound below xs \<le> length xs"
    and "\<And>i. i < lower_bound below xs \<Longrightarrow> below (xs ! i)"
    and "\<And>i. lower_bound below xs \<le> i \<Longrightarrow> i < length xs \<Longrightarrow> \<not> below (xs ! i)"
  using lower_bound_loop_point [OF assms, of 0 "length xs"] by (auto simp: lower_bound_def)

lemma lower_bound_takeWhile:
  assumes "partitioned below xs"
  shows "lower_bound below xs = length (takeWhile below xs)"
proof (rule antisym)
  let ?n = "lower_bound below xs"
  have len: "?n \<le> length xs" by (rule lower_bound_point(1) [OF assms])
  have "takeWhile below (take ?n xs) = take ?n xs"
    by (auto simp: takeWhile_eq_all_conv set_conv_nth lower_bound_point(2) [OF assms])
  then have "length (takeWhile below (take ?n xs @ drop ?n xs)) \<ge> ?n"
    using len by (subst takeWhile_append2) (auto simp: takeWhile_eq_all_conv)
  then show "?n \<le> length (takeWhile below xs)" by simp
  show "length (takeWhile below xs) \<le> ?n"
  proof (rule ccontr)
    assume "\<not> ?thesis"
    then have lt: "?n < length (takeWhile below xs)" by simp
    then have "below (xs ! ?n)" using nth_mem [OF lt] set_takeWhileD takeWhile_nth by metis
    moreover have "?n < length xs" using lt length_takeWhile_le [of below xs] by linarith
    ultimately show False using lower_bound_point(3) [OF assms] by blast
  qed
qed

section \<open>Interfaces\<close>

text \<open>
  An ordered map as its clients use it: what a lookup returns after an assignment, an insertion
  or an erasure, and that every operation keeps the representation invariant.
\<close>

locale ordered_map =
  fixes find :: "'k \<Rightarrow> 'm \<Rightarrow> 'v option"
    and assign :: "'k \<Rightarrow> 'v \<Rightarrow> 'm \<Rightarrow> 'm"
    and insert_new :: "'k \<Rightarrow> 'v \<Rightarrow> 'm \<Rightarrow> 'm"
    and erase :: "'k \<Rightarrow> 'm \<Rightarrow> 'm"
    and ok :: "'m \<Rightarrow> bool"
  assumes find_assign: "ok m \<Longrightarrow> find k' (assign k v m) = (if k' = k then Some v else find k' m)"
    and find_insert_new: "ok m \<Longrightarrow>
          find k' (insert_new k v m) = (if k' = k \<and> find k m = None then Some v else find k' m)"
    and find_erase: "ok m \<Longrightarrow> find k' (erase k m) = (if k' = k then None else find k' m)"
    and ok_assign: "ok m \<Longrightarrow> ok (assign k v m)"
    and ok_insert_new: "ok m \<Longrightarrow> ok (insert_new k v m)"
    and ok_erase: "ok m \<Longrightarrow> ok (erase k m)"
begin

lemma assign_erase: "ok m \<Longrightarrow> find k' (erase k (assign k v m)) = find k' (erase k m)"
  by (simp add: find_erase find_assign ok_assign)

lemma insert_new_keeps: "ok m \<Longrightarrow> find k m = Some w \<Longrightarrow> find k' (insert_new k v m) = find k' m"
  by (simp add: find_insert_new)

end

interpretation om: ordered_map om_find om_assign om_insert om_erase om_ok
  by unfold_locales simp_all

text \<open>
  A comparison function as \<open>std::lower_bound\<close> requires it, a strict weak order, and what the searches
  and insertions of the standard library then guarantee.
\<close>

locale weak_order =
  fixes lt :: "'a \<Rightarrow> 'a \<Rightarrow> bool"
  assumes lt_asym: "lt a b \<Longrightarrow> \<not> lt b a"
    and not_lt_trans: "\<not> lt a b \<Longrightarrow> \<not> lt b c \<Longrightarrow> \<not> lt a c"
begin

definition ordered :: "'a list \<Rightarrow> bool" where
  "ordered xs \<longleftrightarrow> sorted_wrt (\<lambda>x y. \<not> lt y x) xs"

lemma ordered_partitioned: "ordered xs \<Longrightarrow> partitioned (\<lambda>x. lt x a) xs"
  unfolding partitioned_def ordered_def
  by (metis le_neq_implies_less not_lt_trans sorted_wrt_nth_less)

lemma ordered_split:
  "ordered (xs @ a # ys) \<longleftrightarrow> ordered (xs @ ys) \<and> (\<forall>x \<in> set xs. \<not> lt a x) \<and> (\<forall>y \<in> set ys. \<not> lt y a)"
  by (auto simp: ordered_def sorted_wrt_append)

lemma ordered_insert_lower:
  assumes "ordered xs"
  shows "ordered (insert_at (lower_bound (\<lambda>x. lt x a) xs) a xs)"
proof -
  let ?n = "lower_bound (\<lambda>x. lt x a) xs"
  note point = lower_bound_point [OF ordered_partitioned [OF assms, of a]]
  have "\<not> lt a x" if x: "x \<in> set (take ?n xs)" for x
  proof -
    obtain i where "i < ?n" "x = xs ! i" using x by (auto simp: in_set_conv_nth)
    then show ?thesis using point(2) lt_asym by blast
  qed
  moreover have "\<not> lt y a" if y: "y \<in> set (drop ?n xs)" for y
  proof -
    obtain i where "i < length xs - ?n" "y = xs ! (?n + i)" using y by (auto simp: in_set_conv_nth)
    then show ?thesis using point(3) [of "?n + i"] by simp
  qed
  ultimately show ?thesis
    unfolding insert_at_def ordered_split append_take_drop_id using assms by blast
qed

lemma ordered_insert_rear:
  assumes "ordered xs"
  shows "ordered (rev (dropWhile (\<lambda>x. lt a x) (rev xs)) @ a # rev (takeWhile (\<lambda>x. lt a x) (rev xs)))"
proof -
  let ?d = "dropWhile (\<lambda>x. lt a x) (rev xs)" and ?t = "takeWhile (\<lambda>x. lt a x) (rev xs)"
  have xs: "rev ?d @ rev ?t = xs" by (metis rev_append rev_rev_ident takeWhile_dropWhile_id)
  then have o: "ordered (rev ?d @ rev ?t)" using assms by simp
  have "\<not> lt a x" if "x \<in> set ?d" for x
  proof (cases ?d)
    case (Cons y ys)
    then have y: "\<not> lt a y" by (metis dropWhile_eq_Cons_conv)
    have "\<not> lt y x" if "x \<in> set ys" using that o Cons by (auto simp: ordered_def sorted_wrt_append)
    then show ?thesis using y that Cons not_lt_trans by auto
  next
    case Nil
    then show ?thesis using that unfolding Nil by simp
  qed
  moreover have "\<not> lt x a" if "x \<in> set ?t" for x
    using set_takeWhileD [OF that] lt_asym by blast
  ultimately show ?thesis unfolding ordered_split set_rev using o by blast
qed

lemma ordered_filter: "ordered xs \<Longrightarrow> ordered (filter P xs)"
  by (simp add: ordered_def sorted_wrt_filter)

lemma ordered_drop: "ordered xs \<Longrightarrow> ordered (drop n xs)"
  by (simp add: ordered_def sorted_wrt_drop)

lemma ordered_remove1: "ordered xs \<Longrightarrow> ordered (remove1 a xs)"
  by (induction xs) (auto simp: ordered_def dest: notin_set_remove1 [rotated])

end

text \<open>
  A component with an invariant: it holds in every start state and every operation keeps it,
  hence in every state a sequence of operations leads to.
\<close>

locale stateful =
  fixes start :: "'s \<Rightarrow> bool" and step :: "'s \<Rightarrow> 's \<Rightarrow> bool" and inv :: "'s \<Rightarrow> bool"
  assumes inv_start: "start s \<Longrightarrow> inv s"
    and inv_step: "inv s \<Longrightarrow> step s t \<Longrightarrow> inv t"
begin

lemma inv_reach: "reach start step s \<Longrightarrow> inv s"
  by (induction rule: reach.induct) (blast intro: inv_start inv_step)+

end

end
