(* ===== verification/Aamp_Time.thy ===== *)
theory Aamp_Time
  imports Aamp_Prelude
begin

text \<open>
  \<open>AampTime.h\<close>: 64-bit time in nanoseconds.  An \<open>int64_t\<close> is an \<open>int\<close> for which
  \<^const>\<open>int64\<close> holds; signed division truncates towards zero (\<open>sdiv\<close>).  A \<open>double\<close> is the
  rational number it denotes, and the rounding of a floating-point operation is the argument
  \<open>rnd\<close> of the definitions that do floating-point arithmetic.
  The lemmas show that the portable overflow test agrees with the compiler's builtin, that
  tick conversion is exact, saturating and monotone, and that \<open>nearestSecond\<close> is nearest.
\<close>

section \<open>Definitions\<close>

text \<open>
  \<open>mul_overflow(a, b, out)\<close>: \<open>None\<close> is the return value true, \<open>Some p\<close> is the return value
  false with \<open>*out = p\<close>.  With \<open>HAVE_BUILTIN_MUL_OVERFLOW\<close> it is the compiler's builtin.
\<close>

definition mul_overflow_builtin :: "int \<Rightarrow> int \<Rightarrow> int option" where
  "mul_overflow_builtin a b = (if int64 (a * b) then Some (a * b) else None)"

definition mul_overflow_portable :: "int \<Rightarrow> int \<Rightarrow> int option" where
  "mul_overflow_portable a b =
     (if a = 0 \<or> b = 0 then Some 0
      else if a = -1 then (if b = INT64_MIN then None else Some (- b))
      else if b = -1 then (if a = INT64_MIN then None else Some (- a))
      else if 0 < a then
        (if 0 < b then (if INT64_MAX sdiv b < a then None else Some (a * b))
         else (if b < INT64_MIN sdiv a then None else Some (a * b)))
      else
        (if 0 < b then (if a < INT64_MIN sdiv b then None else Some (a * b))
         else (if b < INT64_MAX sdiv a then None else Some (a * b))))"

definition multiplyDivideWithOverflowProtection ::
    "(int \<Rightarrow> int \<Rightarrow> int option) \<Rightarrow> int \<Rightarrow> int \<Rightarrow> int \<Rightarrow> int" where
  "multiplyDivideWithOverflowProtection mul_overflow multiplicand multiplier divisor =
     (if divisor = 0 then 0
      else case mul_overflow multiplicand multiplier of
        None \<Rightarrow> (if (0 < multiplicand) = (0 < multiplier) then INT64_MAX else INT64_MIN)
      | Some product \<Rightarrow> product sdiv divisor)"

record AampTicks =
  ticks :: int
  timescale :: int

definition inMilli :: "AampTicks \<Rightarrow> int" where
  "inMilli t = (if timescale t = 1000 then ticks t
     else multiplyDivideWithOverflowProtection mul_overflow_portable (ticks t) 1000 (timescale t))"

definition baseTimescale :: int where
  "baseTimescale = 1000000000"

record aamp_time =
  baseTime :: int

definition convertTicksWithOverflowProtection :: "int \<Rightarrow> int \<Rightarrow> int" where
  "convertTicksWithOverflowProtection tk ts =
     multiplyDivideWithOverflowProtection mul_overflow_portable tk baseTimescale ts"

definition time_of_ticks :: "AampTicks \<Rightarrow> aamp_time" where
  "time_of_ticks t = \<lparr>baseTime = convertTicksWithOverflowProtection (ticks t) (timescale t)\<rparr>"

text \<open>Conversion of a double to an integer type drops the fraction.\<close>

definition trunc_rat :: "rat \<Rightarrow> int" where
  "trunc_rat x = (if x < 0 then \<lceil>x\<rceil> else \<lfloor>x\<rfloor>)"

definition toBase :: "(rat \<Rightarrow> rat) \<Rightarrow> rat \<Rightarrow> int" where
  "toBase rnd seconds = trunc_rat (rnd (seconds * of_int baseTimescale))"

definition time_of_double :: "(rat \<Rightarrow> rat) \<Rightarrow> rat \<Rightarrow> aamp_time" where
  "time_of_double rnd s = \<lparr>baseTime = toBase rnd s\<rparr>"

definition inSeconds :: "(rat \<Rightarrow> rat) \<Rightarrow> aamp_time \<Rightarrow> rat" where
  "inSeconds rnd t = rnd (rnd (of_int (baseTime t)) / of_int baseTimescale)"

definition seconds :: "aamp_time \<Rightarrow> int" where
  "seconds t = baseTime t sdiv baseTimescale"

definition milliseconds :: "aamp_time \<Rightarrow> int" where
  "milliseconds t = baseTime t sdiv (baseTimescale sdiv 1000)"

definition nearestSecond :: "aamp_time \<Rightarrow> int" where
  "nearestSecond t =
     (let scale = baseTimescale;
          adj = (if 0 \<le> baseTime t then scale sdiv 2 else - (scale sdiv 2))
      in (baseTime t + adj) sdiv scale)"

definition time_lt :: "aamp_time \<Rightarrow> aamp_time \<Rightarrow> bool" where
  "time_lt a b \<longleftrightarrow> baseTime a < baseTime b"

definition time_le :: "aamp_time \<Rightarrow> aamp_time \<Rightarrow> bool" where
  "time_le a b \<longleftrightarrow> baseTime a \<le> baseTime b"

definition time_add :: "aamp_time \<Rightarrow> aamp_time \<Rightarrow> aamp_time" where
  "time_add a b = \<lparr>baseTime = baseTime a + baseTime b\<rparr>"

definition time_sub :: "aamp_time \<Rightarrow> aamp_time \<Rightarrow> aamp_time" where
  "time_sub a b = \<lparr>baseTime = baseTime a - baseTime b\<rparr>"

definition time_neg :: "aamp_time \<Rightarrow> aamp_time" where
  "time_neg a = \<lparr>baseTime = - baseTime a\<rparr>"

section \<open>Truncating division\<close>

lemma sdiv_pos_pos: "0 \<le> (a::int) \<Longrightarrow> 0 < b \<Longrightarrow> a sdiv b = a div b"
  by (cases "a = 0") (auto simp: signed_divide_int_def sgn_if)

lemma sdiv_neg_pos: "(a::int) < 0 \<Longrightarrow> 0 < b \<Longrightarrow> a sdiv b = - ((- a) div b)"
  by (auto simp: signed_divide_int_def sgn_if)

lemma sdiv_pos_neg: "0 \<le> (a::int) \<Longrightarrow> b < 0 \<Longrightarrow> a sdiv b = - (a div (- b))"
  by (cases "a = 0") (auto simp: signed_divide_int_def sgn_if)

lemmas sdiv_cases = sdiv_pos_pos sdiv_neg_pos sdiv_pos_neg

lemma div_less_iff: "0 < (b::int) \<Longrightarrow> m div b < a \<longleftrightarrow> m < a * b"
proof -
  assume b: "0 < b"
  have m: "m = b * (m div b) + m mod b" "0 \<le> m mod b" "m mod b < b"
    using b by simp_all
  show ?thesis
  proof
    assume "m div b < a"
    then have "m div b \<le> a - 1" by simp
    then have "b * (m div b) \<le> b * (a - 1)" using b by (simp only: mult_le_cancel_left_pos)
    then have "b * (m div b) + b \<le> a * b" by (simp add: algebra_simps)
    then show "m < a * b" using m by linarith
  next
    assume "m < a * b"
    then have "m < b * a" by (simp only: mult.commute)
    then have "b * (m div b) < b * a" using m by linarith
    then show "m div b < a" using b by (simp only: mult_less_cancel_left_pos)
  qed
qed

lemma div_le_self: "0 \<le> (m::int) \<Longrightarrow> 0 < b \<Longrightarrow> m div b \<le> m"
  using zdiv_mono2 [of m 1 b] by simp

lemma sdiv_mono: "(a::int) \<le> b \<Longrightarrow> 0 < d \<Longrightarrow> a sdiv d \<le> b sdiv d"
proof -
  assume ab: "a \<le> b" and d: "0 < d"
  consider "0 \<le> a" | "a < 0" "0 \<le> b" | "b < 0" by linarith
  then show ?thesis
  proof cases
    case 1
    with ab d show ?thesis by (simp add: sdiv_pos_pos zdiv_mono1)
  next
    case 2
    with d have "0 \<le> (- a) div d" "0 \<le> b div d" by (simp_all add: pos_imp_zdiv_nonneg_iff)
    with 2 d show ?thesis by (simp add: sdiv_pos_pos sdiv_neg_pos)
  next
    case 3
    with ab d have "(- b) div d \<le> (- a) div d" by (simp add: zdiv_mono1)
    with 3 ab d show ?thesis by (simp add: sdiv_neg_pos)
  qed
qed

lemma sdiv_int64: "int64 a \<Longrightarrow> 0 < d \<Longrightarrow> int64 (a sdiv d)"
proof -
  assume a: "int64 a" and d: "0 < d"
  show ?thesis
  proof (cases "0 \<le> a")
    case True
    then have "0 \<le> a div d" "a div d \<le> a"
      using d by (simp_all add: pos_imp_zdiv_nonneg_iff div_le_self)
    with True a d show ?thesis by (simp add: sdiv_pos_pos width_defs)
  next
    case False
    then have "0 \<le> (- a) div d" "(- a) div d \<le> - a"
      using d by (simp_all add: pos_imp_zdiv_nonneg_iff div_le_self)
    with False a d show ?thesis by (simp add: sdiv_neg_pos width_defs)
  qed
qed

section \<open>The overflow test\<close>

lemma overflow_pos_pos: "0 < a \<Longrightarrow> 0 < b \<Longrightarrow> INT64_MAX sdiv b < a \<longleftrightarrow> \<not> int64 (a * b)"
proof -
  assume "0 < a" "0 < b"
  moreover from this have "0 < a * b" by simp
  ultimately show ?thesis
    unfolding int64_def INT64_MAX_def INT64_MIN_def
    by (subst sdiv_pos_pos, simp, simp, subst div_less_iff, simp) linarith
qed

lemma overflow_pos_neg: "0 < a \<Longrightarrow> b < 0 \<Longrightarrow> b < INT64_MIN sdiv a \<longleftrightarrow> \<not> int64 (a * b)"
proof -
  assume ab: "0 < a" "b < 0"
  have neg: "a * b < 0" using ab by (simp add: mult_pos_neg)
  have "b < INT64_MIN sdiv a \<longleftrightarrow> (- INT64_MIN) div a < - b"
    using ab sdiv_neg_pos [of INT64_MIN a] by (auto simp: INT64_MIN_def)
  also have "\<dots> \<longleftrightarrow> - INT64_MIN < (- b) * a" using ab by (simp add: div_less_iff)
  also have "\<dots> \<longleftrightarrow> a * b < INT64_MIN" by (auto simp: mult.commute)
  also have "\<dots> \<longleftrightarrow> \<not> int64 (a * b)" using neg by (auto simp: width_defs)
  finally show ?thesis .
qed

lemma overflow_neg_neg: "a < 0 \<Longrightarrow> b < 0 \<Longrightarrow> b < INT64_MAX sdiv a \<longleftrightarrow> \<not> int64 (a * b)"
proof -
  assume ab: "a < 0" "b < 0"
  have pos: "0 < a * b" using ab by (rule mult_neg_neg)
  have "b < INT64_MAX sdiv a \<longleftrightarrow> INT64_MAX div (- a) < - b"
    using ab sdiv_pos_neg [of INT64_MAX a] by (auto simp: INT64_MAX_def)
  also have "\<dots> \<longleftrightarrow> INT64_MAX < (- b) * (- a)" using ab by (simp add: div_less_iff)
  also have "\<dots> \<longleftrightarrow> INT64_MAX < a * b" by (simp add: mult.commute)
  also have "\<dots> \<longleftrightarrow> \<not> int64 (a * b)" using pos by (auto simp: width_defs)
  finally show ?thesis .
qed

lemma overflow_neg_pos: "a < 0 \<Longrightarrow> 0 < b \<Longrightarrow> a < INT64_MIN sdiv b \<longleftrightarrow> \<not> int64 (a * b)"
  using overflow_pos_neg [of b a] by (simp add: mult.commute)

lemma overflow_minus_one: "int64 b \<Longrightarrow> b = INT64_MIN \<longleftrightarrow> \<not> int64 (- b)"
  by (auto simp: width_defs)

lemma mul_overflow_portable_builtin:
  assumes "int64 a" "int64 b"
  shows "mul_overflow_portable a b = mul_overflow_builtin a b"
proof -
  consider "a = 0 \<or> b = 0" | "a \<noteq> 0" "b \<noteq> 0" "a = -1 \<or> b = -1"
    | "a \<noteq> -1" "b \<noteq> -1" "0 < a" "0 < b" | "a \<noteq> -1" "b \<noteq> -1" "0 < a" "b < 0"
    | "a \<noteq> -1" "b \<noteq> -1" "a < 0" "0 < b" | "a \<noteq> -1" "b \<noteq> -1" "a < 0" "b < 0"
    by linarith
  then show ?thesis
  proof cases
    case 1
    then show ?thesis by (auto simp: mul_overflow_portable_def mul_overflow_builtin_def width_defs)
  next
    case 2
    then show ?thesis
      using assms overflow_minus_one by (auto simp: mul_overflow_portable_def mul_overflow_builtin_def)
  next
    case 3
    then show ?thesis
      using overflow_pos_pos by (simp add: mul_overflow_portable_def mul_overflow_builtin_def)
  next
    case 4
    then show ?thesis
      using overflow_pos_neg by (simp add: mul_overflow_portable_def mul_overflow_builtin_def)
  next
    case 5
    then show ?thesis
      using overflow_neg_pos by (simp add: mul_overflow_portable_def mul_overflow_builtin_def)
  next
    case 6
    then show ?thesis
      using overflow_neg_neg by (simp add: mul_overflow_portable_def mul_overflow_builtin_def)
  qed
qed

text \<open>
  The tick conversions are monotone, so that a larger tick count never gives an earlier time:
  a product that fits is divided, and one that does not is clamped on its own side.
\<close>

definition clamped_quotient :: "int \<Rightarrow> int \<Rightarrow> int" where
  "clamped_quotient p d = (if int64 p then p sdiv d else if 0 < p then INT64_MAX else INT64_MIN)"

lemma clamped_quotient_int64: "0 < d \<Longrightarrow> int64 (clamped_quotient p d)"
  by (auto simp: clamped_quotient_def sdiv_int64) (auto simp: width_defs)

lemma clamped_quotient_mono: "p \<le> q \<Longrightarrow> 0 < d \<Longrightarrow> clamped_quotient p d \<le> clamped_quotient q d"
proof -
  assume pq: "p \<le> q" and d: "0 < d"
  have lo: "INT64_MIN \<le> clamped_quotient q d" and hi: "clamped_quotient p d \<le> INT64_MAX"
    using clamped_quotient_int64 [OF d] by (auto simp: int64_def)
  consider "int64 p" "int64 q" | "\<not> int64 p" "p \<le> 0" | "\<not> int64 q" "0 < q"
    using pq by (fastforce simp: width_defs)
  then show ?thesis
  proof cases
    case 1
    with pq d show ?thesis by (simp add: clamped_quotient_def sdiv_mono)
  next
    case 2
    then show ?thesis using lo by (simp add: clamped_quotient_def)
  next
    case 3
    then show ?thesis using hi by (simp add: clamped_quotient_def)
  qed
qed

lemma multiplyDivide_clamped:
  assumes "int64 a" "int64 b" "0 < d"
  shows "multiplyDivideWithOverflowProtection mul_overflow_portable a b d = clamped_quotient (a * b) d"
proof (cases "int64 (a * b)")
  case True
  then show ?thesis
    using assms by (simp add: multiplyDivideWithOverflowProtection_def clamped_quotient_def
        mul_overflow_portable_builtin mul_overflow_builtin_def)
next
  case False
  then have "a \<noteq> 0" "b \<noteq> 0" by (auto simp: width_defs)
  then have "(0 < a) = (0 < b) \<longleftrightarrow> 0 < a * b" by (auto simp: zero_less_mult_iff)
  with False assms show ?thesis
    by (simp add: multiplyDivideWithOverflowProtection_def clamped_quotient_def
        mul_overflow_portable_builtin mul_overflow_builtin_def)
qed

section \<open>Properties\<close>

text \<open>
  The portable \<open>mul_overflow\<close> of \<open>AampTime.h\<close> reports an overflow exactly when the product of
  its two 64-bit arguments does not fit 64 bits, and otherwise stores the product: it agrees with
  the compiler builtin on every pair of arguments.
\<close>

theorem mul_overflow_exact:
  assumes "int64 a" and "int64 b"
  shows "mul_overflow_portable a b = (if int64 (a * b) then Some (a * b) else None)
    \<and> mul_overflow_portable a b = mul_overflow_builtin a b"
  using mul_overflow_portable_builtin [OF assms] by (simp_all add: mul_overflow_builtin_def)

theorem mul_overflow_exact_witness:
  "int64 (-3) \<and> int64 4611686018427387904
    \<and> mul_overflow_portable (-3) 4611686018427387904 = None
    \<and> mul_overflow_portable (-3) 4611686018427387904 = mul_overflow_builtin (-3) 4611686018427387904"
proof -
  have a: "int64 (-3)" and b: "int64 4611686018427387904" by (simp_all add: width_defs)
  have "\<not> int64 (-3 * 4611686018427387904)" by (simp add: width_defs)
  then show ?thesis using a b mul_overflow_exact [OF a b] by auto
qed

text \<open>
  Converting ticks to nanoseconds (or to milliseconds) divides the exact product and
  truncates when the product fits 64 bits, clamps to the 64-bit limit of the right sign when it
  does not, always yields a 64-bit value, and never orders two tick counts the wrong way round.
\<close>

theorem convert_ticks_saturating:
  assumes "int64 tk" and "int64 tk'" and "tk \<le> tk'" and "0 < ts" and "ts < 2 ^ 32"
  shows "convertTicksWithOverflowProtection tk ts =
      (if int64 (tk * baseTimescale) then (tk * baseTimescale) sdiv ts
       else if 0 < tk then INT64_MAX else INT64_MIN)
    \<and> int64 (convertTicksWithOverflowProtection tk ts)
    \<and> convertTicksWithOverflowProtection tk ts \<le> convertTicksWithOverflowProtection tk' ts"
proof (intro conjI)
  have ns: "int64 baseTimescale" and pos: "0 < baseTimescale"
    by (simp_all add: baseTimescale_def width_defs)
  have eq: "convertTicksWithOverflowProtection t ts = clamped_quotient (t * baseTimescale) ts"
    if "int64 t" for t
    using that ns assms(4)
    by (simp add: convertTicksWithOverflowProtection_def multiplyDivide_clamped)
  show "convertTicksWithOverflowProtection tk ts =
      (if int64 (tk * baseTimescale) then (tk * baseTimescale) sdiv ts
       else if 0 < tk then INT64_MAX else INT64_MIN)"
    using eq [OF assms(1)] pos by (simp add: clamped_quotient_def zero_less_mult_iff)
  show "int64 (convertTicksWithOverflowProtection tk ts)"
    using eq [OF assms(1)] clamped_quotient_int64 [OF assms(4)] by simp
  have "tk * baseTimescale \<le> tk' * baseTimescale" using assms(3) pos by simp
  then show "convertTicksWithOverflowProtection tk ts \<le> convertTicksWithOverflowProtection tk' ts"
    using eq [OF assms(1)] eq [OF assms(2)] assms(4) by (simp add: clamped_quotient_mono)
qed

theorem convert_ticks_saturating_witness:
  "convertTicksWithOverflowProtection 90000 90000 = 1000000000
    \<and> convertTicksWithOverflowProtection 90000 90000
        \<le> convertTicksWithOverflowProtection 10000000000 90000"
proof -
  have h: "int64 90000" "int64 10000000000" "(90000::int) \<le> 10000000000" "(0::int) < 90000"
      "(90000::int) < 2 ^ 32"
    by (simp_all add: width_defs)
  have "int64 (90000 * baseTimescale)" by (simp add: baseTimescale_def width_defs)
  then show ?thesis
    using convert_ticks_saturating [OF h]
    by (simp add: baseTimescale_def)
qed

text \<open>
  \<open>nearestSecond\<close> returns a second that is at most half a second away from the time, for
  every time (before and after the epoch) that is not within half a second of the 64-bit limits.
\<close>

theorem nearestSecond_nearest:
  assumes "int64 (baseTime t + 500000000)" and "int64 (baseTime t - 500000000)"
  shows "2 * \<bar>nearestSecond t * baseTimescale - baseTime t\<bar> \<le> baseTimescale"
proof (cases "0 \<le> baseTime t")
  case True
  let ?b = "baseTime t"
  have "nearestSecond t = (?b + 500000000) div 1000000000"
    using True by (simp add: nearestSecond_def baseTimescale_def Let_def sdiv_pos_pos)
  then show ?thesis by (simp add: baseTimescale_def abs_le_iff) linarith
next
  case False
  let ?b = "baseTime t"
  have "nearestSecond t = - ((500000000 - ?b) div 1000000000)"
    using False by (simp add: nearestSecond_def baseTimescale_def Let_def sdiv_neg_pos)
  then show ?thesis by (simp add: baseTimescale_def abs_le_iff) linarith
qed

theorem nearestSecond_nearest_witness:
  "2 * \<bar>nearestSecond \<lparr>baseTime = -1500000001\<rparr> * baseTimescale - (-1500000001)\<bar> \<le> baseTimescale"
proof -
  have "int64 (baseTime \<lparr>baseTime = -1500000001\<rparr> + 500000000)"
    "int64 (baseTime \<lparr>baseTime = -1500000001\<rparr> - 500000000)"
    by (simp_all add: width_defs)
  from nearestSecond_nearest [OF this] show ?thesis by simp
qed

end
