(* ===== verification/Uint33.thy ===== *)
theory Uint33
  imports Aamp_Prelude
begin

text \<open>
  \<open>uint33_t.h\<close>: the 33-bit MPEG timestamp.  The struct holds a 33-bit field of a \<open>uint64_t\<close>:
  arithmetic happens at 64 bits and the result is cut to 33 bits when it is stored.
  The lemmas show that this is arithmetic modulo \<open>2 ^ 33\<close> and that the rollover test built from
  \<open>half_max\<close> orders two timestamps that are less than half the range apart.
\<close>

section \<open>Definitions\<close>

type_synonym uint33_t = "33 word"

text \<open>Storing a 64-bit value into the field, and reading the field as a 64-bit value.\<close>

definition u33_store :: "u64 \<Rightarrow> uint33_t" where
  "u33_store i = ucast i"

definition u33_value :: "uint33_t \<Rightarrow> u64" where
  "u33_value x = ucast x"

definition u33_bool :: "uint33_t \<Rightarrow> bool" where
  "u33_bool x \<longleftrightarrow> u33_value x \<noteq> 0"

definition u33_max_value :: uint33_t where
  "u33_max_value = u33_store 0x1ffffffff"

definition u33_half_max :: uint33_t where
  "u33_half_max = u33_store (u33_value u33_max_value div 2)"

definition u33_add :: "uint33_t \<Rightarrow> uint33_t \<Rightarrow> uint33_t" where
  "u33_add l r = u33_store (u33_value l + u33_value r)"

definition u33_sub :: "uint33_t \<Rightarrow> uint33_t \<Rightarrow> uint33_t" where
  "u33_sub l r = u33_store (u33_value l - u33_value r)"

definition u33_lt :: "uint33_t \<Rightarrow> uint33_t \<Rightarrow> bool" where
  "u33_lt l r \<longleftrightarrow> u33_value l < u33_value r"

definition u33_gt :: "uint33_t \<Rightarrow> uint33_t \<Rightarrow> bool" where
  "u33_gt l r \<longleftrightarrow> u33_lt r l"

definition u33_eq :: "uint33_t \<Rightarrow> uint33_t \<Rightarrow> bool" where
  "u33_eq l r \<longleftrightarrow> u33_value l = u33_value r"

definition u33_eq_int :: "uint33_t \<Rightarrow> u64 \<Rightarrow> bool" where
  "u33_eq_int l r \<longleftrightarrow> u33_eq l (u33_store r)"

section \<open>Lemmas\<close>

lemma unat_u33_value: "unat (u33_value x) = unat x"
  by (simp add: u33_value_def unat_ucast_wider)

lemma unat_u33_store: "unat (u33_store i) = unat i mod 2 ^ 33"
  by (simp add: u33_store_def unat_ucast_mod)

lemma u33_bound: "unat (x :: uint33_t) < 2 ^ 33"
  using unat_less_width [of x] by simp

lemma unat_u33_add: "unat (u33_add l r) = (unat l + unat r) mod 2 ^ 33"
proof -
  have "unat (u33_value l + u33_value r) = unat l + unat r"
    using u33_bound [of l] u33_bound [of r]
    by (simp add: unat_word_ariths unat_u33_value)
  then show ?thesis by (simp add: u33_add_def unat_u33_store)
qed

lemma unat_u33_sub:
  "unat (u33_sub l r) = (if unat r \<le> unat l then unat l - unat r else unat l + 2 ^ 33 - unat r)"
proof -
  let ?l = "unat l" and ?r = "unat r"
  have b: "?l < 2 ^ 33" "?r < 2 ^ 33" by (rule u33_bound)+
  have v: "unat (u33_value l - u33_value r) = (if ?r \<le> ?l then ?l - ?r else ?l + 2 ^ 64 - ?r)"
    by (simp add: unat_sub_if_size unat_u33_value word_size)
  show ?thesis
  proof (cases "?r \<le> ?l")
    case True
    with b v show ?thesis by (simp add: u33_sub_def unat_u33_store)
  next
    case False
    have "?l + 2 ^ 64 - ?r = (?l + 2 ^ 33 - ?r) + (2 ^ 31 - 1) * 2 ^ 33" using b by simp
    then have "(?l + 2 ^ 64 - ?r) mod 2 ^ 33 = (?l + 2 ^ 33 - ?r) mod 2 ^ 33"
      by (simp only: mod_mult_self1)
    also have "\<dots> = ?l + 2 ^ 33 - ?r" using False by simp
    finally show ?thesis using False v by (simp add: u33_sub_def unat_u33_store)
  qed
qed

lemma u33_add_sub: "u33_sub (u33_add l r) r = l"
proof -
  have b: "unat l < 2 ^ 33" "unat r < 2 ^ 33" by (rule u33_bound)+
  have "unat (u33_sub (u33_add l r) r) = unat l"
  proof (cases "unat l + unat r < 2 ^ 33")
    case True
    then show ?thesis by (simp add: unat_u33_sub unat_u33_add)
  next
    case False
    then have "(unat l + unat r) mod 2 ^ 33 = unat l + unat r - 2 ^ 33"
      using b by (simp add: le_mod_geq)
    with False b show ?thesis by (simp add: unat_u33_sub unat_u33_add)
  qed
  then show ?thesis by (simp add: word_unat_eq_iff)
qed

lemma u33_lt_unat: "u33_lt l r \<longleftrightarrow> unat l < unat r"
  by (simp add: u33_lt_def word_less_nat_alt unat_u33_value)

section \<open>Properties\<close>

text \<open>
  Addition and subtraction of 33-bit timestamps wrap around modulo \<open>2 ^ 33\<close> (the 64-bit
  intermediate never spoils the stored value), subtraction undoes addition across the rollover,
  and the difference read against \<open>half_max\<close> recovers the direction of a step of at most half
  the range even when the addition rolled over.
\<close>

theorem u33_rollover:
  "unat (u33_add l r) = (unat l + unat r) mod 2 ^ 33
    \<and> u33_sub (u33_add l r) r = l
    \<and> u33_sub (u33_add l r) l = r
    \<and> (u33_gt (u33_sub (u33_add l r) l) u33_half_max \<longleftrightarrow> 2 ^ 32 \<le> unat r)"
proof -
  have comm: "u33_add l r = u33_add r l" by (simp add: u33_add_def add.commute)
  have half: "unat u33_half_max = 2 ^ 32 - 1"
    by (simp add: u33_half_max_def u33_max_value_def unat_u33_store u33_store_def u33_value_def)
  have "u33_gt r u33_half_max \<longleftrightarrow> 2 ^ 32 \<le> unat r"
    by (auto simp: u33_gt_def u33_lt_unat half)
  then show ?thesis
    using u33_add_sub [of l r] u33_add_sub [of r l] comm unat_u33_add [of l r] by simp
qed

end
