(* ===== verification/Base_Conversion.thy ===== *)
theory Base_Conversion
  imports Aamp_Prelude
begin

text \<open>
  \<open>middleware/baseConversion\<close>: the base64 and base16 routines (\<open>_base64.cpp\<close>, \<open>base16.cpp\<close> and the
  macro \<open>WRITE_HASCII\<close> of \<open>PlayerUtils.h\<close>).  A C string or a buffer is the list of its bytes;
  whether \<open>malloc\<close> succeeds for a size is the argument \<open>malloc_ok\<close>.  The decoders' writes and
  reads are compared with the sizes of the buffers.  The lemmas show the round trips, the exact
  lengths, the rejection of characters outside the alphabet and where base16 runs out of bounds.
\<close>

unbundle bit_operations_syntax

section \<open>Base64: definitions\<close>

definition b64_encode_table :: "u8 list" where
  "b64_encode_table =
     map of_char ''ABCDEFGHIJKLMNOPQRSTUVWXYZabcdefghijklmnopqrstuvwxyz0123456789+/''"

definition b64_decode_table :: "int list" where
  "b64_decode_table =
     [-1, -1, -1, -1, -1, -1, -1, -1, -1, -1, -1, -1, -1, -1, -1, -1,
      -1, -1, -1, -1, -1, -1, -1, -1, -1, -1, -1, -1, -1, -1, -1, -1,
      -1, -1, -1, -1, -1, -1, -1, -1, -1, -1, -1, 62, -1, 63, -1, 63,
      52, 53, 54, 55, 56, 57, 58, 59, 60, 61, -1, -1, -1, 0, -1, -1,
      -1, 0, 1, 2, 3, 4, 5, 6, 7, 8, 9, 10, 11, 12, 13, 14,
      15, 16, 17, 18, 19, 20, 21, 22, 23, 24, 25, -1, -1, -1, -1, -1,
      -1, 26, 27, 28, 29, 30, 31, 32, 33, 34, 35, 36, 37, 38, 39, 40,
      41, 42, 43, 44, 45, 46, 47, 48, 49, 50, 51, -1, -1, -1, -1, -1,
      -1, -1, -1, -1, -1, -1, -1, -1, -1, -1, -1, -1, -1, -1, -1, -1,
      -1, -1, -1, -1, -1, -1, -1, -1, -1, -1, -1, -1, -1, -1, -1, -1,
      -1, -1, -1, -1, -1, -1, -1, -1, -1, -1, -1, -1, -1, -1, -1, -1,
      -1, -1, -1, -1, -1, -1, -1, -1, -1, -1, -1, -1, -1, -1, -1, -1,
      -1, -1, -1, -1, -1, -1, -1, -1, -1, -1, -1, -1, -1, -1, -1, -1,
      -1, -1, -1, -1, -1, -1, -1, -1, -1, -1, -1, -1, -1, -1, -1, -1,
      -1, -1, -1, -1, -1, -1, -1, -1, -1, -1, -1, -1, -1, -1, -1, -1,
      -1, -1, -1, -1, -1, -1, -1, -1, -1, -1, -1, -1, -1, -1, -1, -1]"

definition b64_pad :: u8 where
  "b64_pad = of_char (CHR ''='')"

text \<open>\<open>if( src<fin ) temp |= (*src++) << sh; else pad++;\<close>\<close>

fun b64_next :: "nat \<Rightarrow> u32 \<times> nat \<times> u8 list \<Rightarrow> u32 \<times> nat \<times> u8 list" where
  "b64_next sh (temp, pad, []) = (temp, pad + 1, [])"
| "b64_next sh (temp, pad, c # src) = (temp OR push_bit sh (ucast c), pad, src)"

lemma b64_next_length: "length (snd (snd (b64_next sh st))) \<le> length (snd (snd st))"
  by (induction sh st rule: b64_next.induct) auto

text \<open>The four characters one pass of the encoder's loop writes.\<close>

definition b64_group :: "u32 \<Rightarrow> nat \<Rightarrow> u8 list" where
  "b64_group temp pad =
     [b64_encode_table ! unat (drop_bit 18 (temp AND 0x00FC0000)),
      b64_encode_table ! unat (drop_bit 12 (temp AND 0x0003F000)),
      if 2 \<le> pad then b64_pad else b64_encode_table ! unat (drop_bit 6 (temp AND 0x00000FC0)),
      if 1 \<le> pad then b64_pad else b64_encode_table ! unat (temp AND 0x0000003F)]"

function b64_encode_loop :: "nat \<Rightarrow> u8 list \<Rightarrow> u8 list" where
  "b64_encode_loop pad [] = []"
| "b64_encode_loop pad (c # src) =
     (let st = b64_next 0 (b64_next 8 (push_bit 16 (ucast c), pad, src))
      in b64_group (fst st) (fst (snd st)) @ b64_encode_loop (fst (snd st)) (snd (snd st)))"
  by pat_completeness auto
termination
proof (relation "measure (length \<circ> snd)", simp)
  fix pad :: nat and c :: u8 and src :: "u8 list" and st
  assume "st = b64_next 0 (b64_next 8 (push_bit 16 (ucast c), pad, src))"
  then have "length (snd (snd st)) \<le> length src"
    using b64_next_length [of 0 "b64_next 8 (push_bit 16 (ucast c), pad, src)"]
      b64_next_length [of 8 "(push_bit 16 (ucast c), pad, src)"] by simp
  then show "((fst (snd st), snd (snd st)), pad, c # src) \<in> measure (length \<circ> snd)" by simp
qed

text \<open>The string is NUL-terminated; the buffer holds \<open>((len+2)/3)*4+1\<close> bytes.\<close>

definition base64_Encode :: "(nat \<Rightarrow> bool) \<Rightarrow> u8 list \<Rightarrow> u8 list option" where
  "base64_Encode malloc_ok src =
     (if malloc_ok ((length src + 2) div 3 * 4 + 1) then Some (b64_encode_loop 0 src @ [0]) else None)"

text \<open>\<open>while( srcLen>0 && src[srcLen-1] == '=' ) srcLen--;\<close>\<close>

definition b64_strip :: "u8 list \<Rightarrow> u8 list" where
  "b64_strip src = rev (dropWhile (\<lambda>c. c = b64_pad) (rev src))"

text \<open>
  The inner loop of the decoder: \<open>i\<close> passes are left; \<open>None\<close> is the exit on an invalid character.
\<close>

fun b64_quad :: "nat \<Rightarrow> u32 \<Rightarrow> nat \<Rightarrow> u8 list \<Rightarrow> (u32 \<times> nat \<times> u8 list) option" where
  "b64_quad 0 buf count src = Some (buf, count, src)"
| "b64_quad (Suc i) buf count [] = b64_quad i (push_bit 6 buf) count []"
| "b64_quad (Suc i) buf count (c # src) =
     (let digit64 = b64_decode_table ! unat c
      in if digit64 < 0 then None
         else b64_quad i (push_bit 6 buf OR word_of_int digit64) (count + 1) src)"

definition b64_bytes :: "u32 \<Rightarrow> nat \<Rightarrow> u8 list" where
  "b64_bytes buf count =
     (if 2 \<le> count then [ucast (drop_bit 16 buf AND 0xff)] else [])
     @ (if 3 \<le> count then [ucast (drop_bit 8 buf AND 0xff)] else [])
     @ (if 4 \<le> count then [ucast (buf AND 0xff)] else [])"

lemma b64_quad_length:
  "b64_quad i buf count src = Some (buf', count', src')
    \<Longrightarrow> length src' = length src - i \<and> count' = count + min i (length src)"
  by (induction i buf count src rule: b64_quad.induct) (auto simp: Let_def split: if_splits)

function b64_decode_loop :: "u8 list \<Rightarrow> u8 list option" where
  "b64_decode_loop src =
     (if src = [] then Some []
      else case b64_quad 4 0 0 src of
        None \<Rightarrow> None
      | Some (buf, count, src') \<Rightarrow>
          (case b64_decode_loop src' of
             None \<Rightarrow> None
           | Some rest \<Rightarrow> Some (b64_bytes buf count @ rest)))"
  by pat_completeness auto
termination
  by (relation "measure length") (auto dest: b64_quad_length)

declare b64_decode_loop.simps [simp del]

text \<open>The returned pointer (\<open>None\<close> for NULL) and \<open>*outLen\<close>.\<close>

definition base64_Decode :: "(nat \<Rightarrow> bool) \<Rightarrow> u8 list \<Rightarrow> u8 list option \<times> nat" where
  "base64_Decode malloc_ok src =
     (if malloc_ok (length src * 3 div 4)
      then (case b64_decode_loop (b64_strip src) of
              None \<Rightarrow> (None, 0)
            | Some out \<Rightarrow> (Some out, length out))
      else (None, 0))"

section \<open>Base16: definitions\<close>

definition b16_digits :: "u8 list" where
  "b16_digits = map of_char ''0123456789abcdef''"

definition WRITE_HASCII :: "u8 \<Rightarrow> u8 list" where
  "WRITE_HASCII byte = [b16_digits ! unat (drop_bit 4 byte), b16_digits ! unat (byte AND 0xf)]"

definition base16_Encode :: "(nat \<Rightarrow> bool) \<Rightarrow> u8 list \<Rightarrow> u8 list option" where
  "base16_Encode malloc_ok src =
     (if malloc_ok (1 + length src * 2) then Some (concat (map WRITE_HASCII src) @ [0]) else None)"

definition mBase16CharToIndex :: "int list" where
  "mBase16CharToIndex =
     [-1, -1, -1, -1, -1, -1, -1, -1, -1, -1, -1, -1, -1, -1, -1, -1,
      -1, -1, -1, -1, -1, -1, -1, -1, -1, -1, -1, -1, -1, -1, -1, -1,
      -1, -1, -1, -1, -1, -1, -1, -1, -1, -1, -1, -1, -1, -1, -1, -1,
      0, 1, 2, 3, 4, 5, 6, 7, 8, 9, -1, -1, -1, -1, -1, -1,
      -1, 10, 11, 12, 13, 14, 15, -1, -1, -1, -1, -1, -1, -1, -1, -1,
      -1, -1, -1, -1, -1, -1, -1, -1, -1, -1, -1, -1, -1, -1, -1, -1,
      -1, 10, 11, 12, 13, 14, 15, -1, -1, -1, -1, -1, -1, -1, -1, -1,
      -1, -1, -1, -1, -1, -1, -1, -1, -1, -1, -1, -1, -1, -1, -1, -1,
      -1, -1, -1, -1, -1, -1, -1, -1, -1, -1, -1, -1, -1, -1, -1, -1,
      -1, -1, -1, -1, -1, -1, -1, -1, -1, -1, -1, -1, -1, -1, -1, -1,
      -1, -1, -1, -1, -1, -1, -1, -1, -1, -1, -1, -1, -1, -1, -1, -1,
      -1, -1, -1, -1, -1, -1, -1, -1, -1, -1, -1, -1, -1, -1, -1, -1,
      -1, -1, -1, -1, -1, -1, -1, -1, -1, -1, -1, -1, -1, -1, -1, -1,
      -1, -1, -1, -1, -1, -1, -1, -1, -1, -1, -1, -1, -1, -1, -1, -1,
      -1, -1, -1, -1, -1, -1, -1, -1, -1, -1, -1, -1, -1, -1, -1, -1,
      -1, -1, -1, -1, -1, -1, -1, -1, -1, -1, -1, -1, -1, -1, -1, -1]"

text \<open>
  The decoder's loop reads two characters a pass while \<open>srcPtr < finish\<close>.  \<open>beyond\<close> is the byte
  the second read of a pass finds when only one character was left; the flag of the result says
  whether that read happened.
\<close>

fun b16_decode_loop :: "u8 \<Rightarrow> u8 list \<Rightarrow> u8 list \<times> bool" where
  "b16_decode_loop beyond [] = ([], False)"
| "b16_decode_loop beyond [c] =
     ([word_of_int (mBase16CharToIndex ! unat c * 16) OR word_of_int (mBase16CharToIndex ! unat beyond)],
      True)"
| "b16_decode_loop beyond (c # d # src) =
     (let (out, over) = b16_decode_loop beyond src
      in ((word_of_int (mBase16CharToIndex ! unat c * 16) OR word_of_int (mBase16CharToIndex ! unat d))
            # out, over))"

text \<open>The allocated size, the bytes written, \<open>*len\<close> and whether a read left the string.\<close>

record b16_result =
  b16_alloc :: nat
  b16_written :: "u8 list"
  b16_len :: nat
  b16_over_read :: bool

definition base16_Decode :: "(nat \<Rightarrow> bool) \<Rightarrow> u8 \<Rightarrow> u8 list \<Rightarrow> b16_result option" where
  "base16_Decode malloc_ok beyond src =
     (let numChars = length src div 2
      in if malloc_ok numChars
         then (let (out, over) = b16_decode_loop beyond src
               in Some \<lparr>b16_alloc = numChars, b16_written = out, b16_len = numChars,
                        b16_over_read = over\<rparr>)
         else None)"

section \<open>Base64: lemmas\<close>

lemma b64_masks:
  "(0x00FC0000 :: u32) = push_bit 18 (mask 6)" "(0x0003F000 :: u32) = push_bit 12 (mask 6)"
  "(0x00000FC0 :: u32) = push_bit 6 (mask 6)" "(0x0000003F :: u32) = mask 6" "(0xff :: u32) = mask 8"
  by (simp_all add: mask_eq_exp_minus_1)

lemma b64_encode_table_bytes:
  "b64_encode_table = [65, 66, 67, 68, 69, 70, 71, 72, 73, 74, 75, 76, 77, 78, 79, 80, 81, 82, 83, 84,
     85, 86, 87, 88, 89, 90, 97, 98, 99, 100, 101, 102, 103, 104, 105, 106, 107, 108, 109, 110, 111,
     112, 113, 114, 115, 116, 117, 118, 119, 120, 121, 122, 48, 49, 50, 51, 52, 53, 54, 55, 56, 57, 43, 47]"
  unfolding b64_encode_table_def by simp

lemma b64_pad_byte: "b64_pad = 61"
  unfolding b64_pad_def by simp

lemma b64_table_inverse_map: "map (\<lambda>c. b64_decode_table ! unat c) b64_encode_table = map int [0..<64]"
proof -
  have "map int [0..<64] = [0, 1, 2, 3, 4, 5, 6, 7, 8, 9, 10, 11, 12, 13, 14, 15, 16, 17, 18, 19, 20, 21,
      22, 23, 24, 25, 26, 27, 28, 29, 30, 31, 32, 33, 34, 35, 36, 37, 38, 39, 40, 41, 42, 43, 44, 45, 46,
      47, 48, 49, 50, 51, 52, 53, 54, 55, 56, 57, 58, 59, 60, 61, 62, 63]"
    by code_simp
  then show ?thesis unfolding b64_encode_table_bytes b64_decode_table_def by simp
qed

lemma b64_table_inverse:
  "k < 64 \<Longrightarrow> b64_decode_table ! unat (b64_encode_table ! k) = int k \<and> b64_encode_table ! k \<noteq> b64_pad"
proof -
  assume k: "k < 64"
  have len: "length b64_encode_table = 64" by (simp add: b64_encode_table_bytes)
  have "map (\<lambda>c. b64_decode_table ! unat c) b64_encode_table ! k = map int [0..<64] ! k"
    by (simp only: b64_table_inverse_map)
  moreover have "b64_pad \<notin> set b64_encode_table" by (simp add: b64_encode_table_bytes b64_pad_byte)
  ultimately show ?thesis using k len nth_mem [of k b64_encode_table] by (metis add_0 diff_zero length_upt nth_map nth_upt)
qed

text \<open>The base64 digit of a group that starts at bit \<open>k\<close>, and its character.\<close>

definition b64_digit :: "nat \<Rightarrow> u32 \<Rightarrow> u32" where
  "b64_digit k t = take_bit 6 (drop_bit k t)"

definition b64_char :: "nat \<Rightarrow> u32 \<Rightarrow> u8" where
  "b64_char k t = b64_encode_table ! unat (b64_digit k t)"

lemma b64_digit_masks:
  "drop_bit 18 (t AND 0x00FC0000) = b64_digit 18 t" "drop_bit 12 (t AND 0x0003F000) = b64_digit 12 t"
  "drop_bit 6 (t AND 0x00000FC0) = b64_digit 6 t" "t AND 0x0000003F = b64_digit 0 t"
  unfolding b64_masks b64_digit_def by (rule bit_word_eqI, auto simp: bit_simps)+

lemma b64_group_chars:
  "b64_group t pad = [b64_char 18 t, b64_char 12 t,
     if 2 \<le> pad then b64_pad else b64_char 6 t, if 1 \<le> pad then b64_pad else b64_char 0 t]"
  by (simp only: b64_group_def b64_digit_masks b64_char_def)

lemma unat_b64_digit: "unat (b64_digit k t) < 64"
proof -
  have "unat (b64_digit k t) = take_bit 6 (unat (drop_bit k t))"
    by (simp only: b64_digit_def unsigned_take_bit_eq)
  also have "\<dots> < 2 ^ 6" by (rule take_bit_nat_less_exp)
  finally show ?thesis by simp
qed

lemma b64_char_decode:
  "b64_decode_table ! unat (b64_char k t) = uint (b64_digit k t)" "b64_char k t \<noteq> b64_pad"
  using b64_table_inverse [OF unat_b64_digit [of k t]] by (simp_all add: b64_char_def)

lemma b64_quad_char:
  "b64_quad (Suc i) buf count (b64_char k t # src) =
     b64_quad i (push_bit 6 buf OR b64_digit k t) (count + 1) src"
  by (simp add: b64_char_decode Let_def)

lemma b64_quad_4: "b64_quad 4 = b64_quad (Suc (Suc (Suc (Suc 0))))"
  by (simp add: numeral_eq_Suc)

lemma b64_digits_join:
  assumes "\<And>n. 24 \<le> n \<Longrightarrow> \<not> bit t n"
  shows "push_bit 6 (push_bit 6 (push_bit 6 (b64_digit 18 t) OR b64_digit 12 t) OR b64_digit 6 t)
    OR b64_digit 0 t = t"
proof (rule bit_word_eqI)
  fix n assume "n < LENGTH(32)"
  consider "n < 6" | "6 \<le> n" "n < 12" | "12 \<le> n" "n < 18" | "18 \<le> n" "n < 24" | "24 \<le> n" by linarith
  then show "bit (push_bit 6 (push_bit 6 (push_bit 6 (b64_digit 18 t) OR b64_digit 12 t)
      OR b64_digit 6 t) OR b64_digit 0 t) n = bit t n"
    using \<open>n < LENGTH(32)\<close> assms
    by cases (auto simp: b64_digit_def bit_simps)
qed

text \<open>The encoder's group of three, two or one bytes, and the bytes the decoder reads back.\<close>

definition b64_word :: "u8 \<Rightarrow> u8 \<Rightarrow> u8 \<Rightarrow> u32" where
  "b64_word a b c = push_bit 16 (ucast a) OR push_bit 8 (ucast b) OR ucast c"

lemma b64_word_high: "24 \<le> n \<Longrightarrow> \<not> bit (b64_word a b c) n"
  by (auto simp: b64_word_def bit_simps dest: bit_imp_le_length)

lemma b64_word_bytes:
  "b64_bytes (b64_word a b c) 4 = [a, b, c]" "b64_bytes (b64_word a b c) 3 = [a, b]"
  "b64_bytes (b64_word a b c) 2 = [a]"
proof -
  have "ucast (drop_bit 16 (b64_word a b c) AND 0xff) = a"
    "ucast (drop_bit 8 (b64_word a b c) AND 0xff) = b" "ucast (b64_word a b c AND 0xff) = c"
    unfolding b64_masks b64_word_def
    by (rule bit_word_eqI, auto simp: bit_simps dest: bit_imp_le_length)+
  then show "b64_bytes (b64_word a b c) 4 = [a, b, c]" "b64_bytes (b64_word a b c) 3 = [a, b]"
    "b64_bytes (b64_word a b c) 2 = [a]"
    by (simp_all add: b64_bytes_def)
qed

lemma b64_word_tail: "b64_digit 0 (b64_word a b 0) = 0" "b64_digit 6 (b64_word a 0 0) = 0"
  by (rule bit_word_eqI, auto simp: b64_digit_def b64_word_def bit_simps dest: bit_imp_le_length)+

text \<open>The encoded text without its padding, three bytes at a time.\<close>

fun b64_body :: "u8 list \<Rightarrow> u8 list" where
  "b64_body (a # b # c # src) = map (\<lambda>k. b64_char k (b64_word a b c)) [18, 12, 6, 0] @ b64_body src"
| "b64_body [a, b] = map (\<lambda>k. b64_char k (b64_word a b 0)) [18, 12, 6]"
| "b64_body [a] = map (\<lambda>k. b64_char k (b64_word a 0 0)) [18, 12]"
| "b64_body [] = []"

lemma b64_encode_body:
  "b64_encode_loop 0 src = b64_body src @ replicate ((3 - length src mod 3) mod 3) b64_pad"
proof (induction src rule: b64_body.induct)
  case (1 a b c src)
  have "Suc (Suc (Suc (length src))) mod 3 = length src mod 3" by presburger
  with 1 show ?case by (simp add: b64_group_chars b64_word_def or.assoc)
qed (simp_all add: b64_group_chars b64_word_def numeral_2_eq_2)

lemma b64_body_no_pad: "b64_pad \<notin> set (b64_body src)"
  by (induction src rule: b64_body.induct) (auto simp: b64_char_decode(2) [symmetric])

lemma dropWhile_replicate: "P x \<Longrightarrow> dropWhile P (replicate n x @ ys) = dropWhile P ys"
  by (induction n) auto

lemma b64_strip_body: "b64_pad \<notin> set xs \<Longrightarrow> b64_strip (xs @ replicate n b64_pad) = xs"
proof -
  assume no: "b64_pad \<notin> set xs"
  have "dropWhile (\<lambda>c. c = b64_pad) (rev xs) = rev xs"
    using no by (cases "rev xs") (auto simp flip: set_rev [of xs])
  then show ?thesis by (simp add: b64_strip_def dropWhile_replicate)
qed

lemma b64_decode_step:
  "b64_quad 4 0 0 src = Some (buf, count, src') \<Longrightarrow> b64_decode_loop src' = Some rest
    \<Longrightarrow> src \<noteq> [] \<Longrightarrow> b64_decode_loop src = Some (b64_bytes buf count @ rest)"
  by (subst b64_decode_loop.simps) simp

lemma b64_decode_Nil: "b64_decode_loop [] = Some []"
  by (subst b64_decode_loop.simps) simp

lemma b64_decode_body: "b64_decode_loop (b64_body src) = Some src"
proof (induction src rule: b64_body.induct)
  case (1 a b c src)
  have "b64_quad 4 0 0 (b64_body (a # b # c # src)) = Some (b64_word a b c, 4, b64_body src)"
    using b64_digits_join [OF b64_word_high, of a b c]
    by (simp add: b64_quad_4 b64_quad_char del: b64_quad.simps(3))
  from b64_decode_step [OF this 1] show ?case by (simp add: b64_word_bytes)
next
  case (2 a b)
  have "b64_quad 4 0 0 (b64_body [a, b]) = Some (b64_word a b 0, 3, [])"
    using b64_digits_join [OF b64_word_high, of a b 0]
    by (simp add: b64_quad_4 b64_quad_char b64_word_tail del: b64_quad.simps(3))
  from b64_decode_step [OF this b64_decode_Nil] show ?case by (simp add: b64_word_bytes)
next
  case (3 a)
  have "b64_quad 4 0 0 (b64_body [a]) = Some (b64_word a 0 0, 2, [])"
    using b64_digits_join [OF b64_word_high, of a 0 0]
    by (simp add: b64_quad_4 b64_quad_char b64_word_tail del: b64_quad.simps(3))
  from b64_decode_step [OF this b64_decode_Nil] show ?case by (simp add: b64_word_bytes)
qed (simp add: b64_decode_Nil)

lemma b64_round_trip: "b64_decode_loop (b64_strip (b64_encode_loop 0 src)) = Some src"
  by (simp add: b64_encode_body b64_strip_body b64_body_no_pad b64_decode_body)

lemma b64_body_length: "length (b64_body src) + (3 - length src mod 3) mod 3 = (length src + 2) div 3 * 4"
proof (induction src rule: b64_body.induct)
  case (1 a b c src)
  have "Suc (Suc (Suc (length src))) mod 3 = length src mod 3"
    "(Suc (Suc (Suc (length src))) + 2) div 3 = Suc ((length src + 2) div 3)" by presburger+
  with 1 show ?case by simp
qed simp_all

lemma b64_encode_length: "length (b64_encode_loop 0 src) = (length src + 2) div 3 * 4"
  by (simp add: b64_encode_body b64_body_length)

lemma b64_quad_None:
  "b64_quad i buf count src = None \<longleftrightarrow> (\<exists>c \<in> set (take i src). b64_decode_table ! unat c < 0)"
  by (induction i buf count src rule: b64_quad.induct) (auto simp: Let_def)

lemma b64_quad_rest: "b64_quad i buf count src = Some (buf', count', src') \<Longrightarrow> src' = drop i src"
  by (induction i buf count src rule: b64_quad.induct) (auto simp: Let_def split: if_splits)

lemma b64_bytes_length: "count \<le> 4 \<Longrightarrow> length (b64_bytes buf count) = count - 1"
  by (auto simp: b64_bytes_def)

lemma b64_decode_length: "b64_decode_loop src = Some out \<Longrightarrow> length out = length src * 3 div 4"
proof (induction src arbitrary: out rule: b64_decode_loop.induct)
  case (1 src)
  show ?case
  proof (cases "src = []")
    case True
    with 1 show ?thesis by (simp add: b64_decode_Nil)
  next
    case False
    then obtain buf count src' rest where q: "b64_quad 4 0 0 src = Some (buf, count, src')"
      and r: "b64_decode_loop src' = Some rest" and out: "out = b64_bytes buf count @ rest"
      using "1.prems" by (subst (asm) b64_decode_loop.simps) (auto split: option.splits)
    have cnt: "count = min 4 (length src)" and len: "length src' = length src - 4"
      using b64_quad_length [OF q] by simp_all
    have "length rest = (length src - 4) * 3 div 4"
      using "1.IH" [OF False q refl refl r] len by simp
    then have "length out = (min 4 (length src) - 1) + (length src - 4) * 3 div 4"
      using cnt out by (simp add: b64_bytes_length)
    moreover have "0 < length src" using False by simp
    ultimately show ?thesis by (cases "4 \<le> length src") (auto simp: min_def)
  qed
qed

lemma b64_decode_None: "b64_decode_loop src = None \<longleftrightarrow> (\<exists>c \<in> set src. b64_decode_table ! unat c < 0)"
proof (induction src rule: b64_decode_loop.induct)
  case (1 src)
  have split: "set src = set (take 4 src) \<union> set (drop 4 src)"
    by (metis append_take_drop_id set_append)
  consider "src = []" | "src \<noteq> []" "b64_quad 4 0 0 src = None" | "src \<noteq> []" "b64_quad 4 0 0 src \<noteq> None"
    by blast
  then show ?case
  proof cases
    case 1
    then show ?thesis by (simp add: b64_decode_Nil)
  next
    case 2
    then have "b64_decode_loop src = None" by (subst b64_decode_loop.simps) simp
    then show ?thesis using 2 b64_quad_None [of 4 0 0 src] split by auto
  next
    case 3
    then obtain buf count src' where q: "b64_quad 4 0 0 src = Some (buf, count, src')" by auto
    have src': "src' = drop 4 src" by (rule b64_quad_rest [OF q])
    have "b64_decode_loop src = None \<longleftrightarrow> b64_decode_loop src' = None"
      using 3 q by (subst b64_decode_loop.simps) (auto split: option.splits)
    moreover have "\<not> (\<exists>c \<in> set (take 4 src). b64_decode_table ! unat c < 0)"
      using q b64_quad_None [of 4 0 0 src] by simp
    ultimately show ?thesis using "1.IH" [OF 3(1) q refl refl] src' split by auto
  qed
qed

section \<open>Base16: lemmas\<close>

lemma b16_table_inverse_map:
  "map (\<lambda>c. mBase16CharToIndex ! unat c) b16_digits = [0, 1, 2, 3, 4, 5, 6, 7, 8, 9, 10, 11, 12, 13, 14, 15]"
  unfolding b16_digits_def mBase16CharToIndex_def by simp

lemma b16_table_inverse: "k < 16 \<Longrightarrow> mBase16CharToIndex ! unat (b16_digits ! k) = int k"
proof -
  assume k: "k < 16"
  have len: "length b16_digits = 16" by (simp add: b16_digits_def)
  have "[0, 1, 2, 3, 4, 5, 6, 7, 8, 9, 10, 11, 12, 13, 14, 15] = map int [0..<16]" by code_simp
  then have "map (\<lambda>c. mBase16CharToIndex ! unat c) b16_digits ! k = map int [0..<16] ! k"
    by (simp only: b16_table_inverse_map)
  with k len show ?thesis by simp
qed

lemma b16_nibbles:
  fixes b :: u8
  shows "unat (drop_bit 4 b) < 16" "unat (b AND 0xf) < 16"
    and "word_of_int (uint (drop_bit 4 b) * 16) OR (b AND 0xf) = b"
proof -
  have f: "(0xf :: u8) = mask 4" by (simp add: mask_eq_exp_minus_1)
  have "unat b < 256" using unat_less_width [of b] by simp
  then show "unat (drop_bit 4 b) < 16" by (simp add: drop_bit_eq_div unat_div)
  have "unat (b AND 0xf) = take_bit 4 (unat b)"
    by (simp only: f unsigned_take_bit_eq flip: take_bit_eq_mask)
  then show "unat (b AND 0xf) < 16" using take_bit_nat_less_exp [of 4 "unat b"] by simp
  have "word_of_int (uint (drop_bit 4 b) * 16) = drop_bit 4 b * (16 :: u8)" by simp
  also have "\<dots> = push_bit 4 (drop_bit 4 b)" by (simp add: push_bit_eq_mult)
  finally have hi: "word_of_int (uint (drop_bit 4 b) * 16) = push_bit 4 (drop_bit 4 b)" .
  show "word_of_int (uint (drop_bit 4 b) * 16) OR (b AND 0xf) = b"
    unfolding hi f by (rule bit_word_eqI) (auto simp: bit_simps)
qed

lemma b16_decode_byte: "b16_decode_loop x (WRITE_HASCII b @ src) =
    (b # fst (b16_decode_loop x src), snd (b16_decode_loop x src))"
proof -
  have lo: "word_of_int (uint (b AND 0xf)) = b AND 0xf" by simp
  show ?thesis
    using b16_nibbles(3) [of b]
    by (simp add: WRITE_HASCII_def b16_table_inverse b16_nibbles Let_def lo split: prod.split)
qed

lemma b16_round_trip: "b16_decode_loop x (concat (map WRITE_HASCII src)) = (src, False)"
  by (induction src) (simp_all add: b16_decode_byte)

lemma b16_encode_length: "length (concat (map WRITE_HASCII src)) = length src * 2"
  by (induction src) (simp_all add: WRITE_HASCII_def)

lemma b16_loop_writes: "length (fst (b16_decode_loop x src)) = (length src + 1) div 2
    \<and> snd (b16_decode_loop x src) = odd (length src)"
  by (induction x src rule: b16_decode_loop.induct) (auto simp: Let_def split: prod.split)

section \<open>A codec and what its clients get\<close>

text \<open>
  Both encodings are used the same way (the SCTE-35 and the DRM code decode text that a peer
  encoded): decoding gives back what was encoded, so distinct data have distinct encodings.
\<close>

locale byte_codec =
  fixes enc :: "u8 list \<Rightarrow> u8 list" and dec :: "u8 list \<Rightarrow> u8 list option"
  assumes dec_enc: "dec (enc xs) = Some xs"
begin

lemma enc_inj: "enc xs = enc ys \<longleftrightarrow> xs = ys"
  by (metis dec_enc option.inject)

lemma dec_surj: "\<exists>s. dec s = Some xs"
  by (blast intro: dec_enc)

end

interpretation base64: byte_codec "b64_encode_loop 0" "\<lambda>s. fst (base64_Decode (\<lambda>_. True) s)"
  by unfold_locales (simp add: base64_Decode_def b64_round_trip)

interpretation base16: byte_codec "\<lambda>xs. concat (map WRITE_HASCII xs)"
    "\<lambda>s. map_option b16_written (base16_Decode (\<lambda>_. True) 0 s)"
  by unfold_locales (simp add: base16_Decode_def b16_round_trip Let_def)

section \<open>Properties\<close>


text \<open>
  \<open>base64_Decode\<close> rejects a text (NULL and length 0) exactly when the text without its
  trailing padding holds a character that is not in the decoding table, and whatever it accepts
  fits the \<open>srcLen*3/4\<close> bytes it allocates, so it never writes past the buffer.
\<close>

theorem base64_decode_safe:
  "(fst (base64_Decode (\<lambda>_. True) src) = None \<longleftrightarrow>
      (\<exists>c \<in> set (b64_strip src). b64_decode_table ! unat c < 0))
    \<and> snd (base64_Decode (\<lambda>_. True) src) \<le> length src * 3 div 4
    \<and> snd (base64_Decode (\<lambda>_. True) src) =
        (case fst (base64_Decode (\<lambda>_. True) src) of None \<Rightarrow> 0 | Some out \<Rightarrow> length out)"
proof -
  have "length (b64_strip src) \<le> length src"
    using length_dropWhile_le [of "\<lambda>c. c = b64_pad" "rev src"] by (simp add: b64_strip_def)
  then have "length out \<le> length src * 3 div 4" if "b64_decode_loop (b64_strip src) = Some out" for out
    using b64_decode_length [OF that] by (simp add: div_le_mono)
  then show ?thesis
    using b64_decode_None [of "b64_strip src"] by (auto simp: base64_Decode_def split: option.split)
qed

text \<open>
  \<open>base16_Decode\<close> inverts \<open>base16_Encode\<close>; on a text of even length it writes exactly the bytes
  it allocated and reads only the text, and on a text of odd length its last pass reads one byte
  beyond the text and writes one byte beyond the buffer.
\<close>

theorem base16_roundtrip_and_bounds:
  "base16_Encode (\<lambda>_. True) xs = Some (concat (map WRITE_HASCII xs) @ [0])
    \<and> map_option b16_written (base16_Decode (\<lambda>_. True) beyond (concat (map WRITE_HASCII xs))) = Some xs
    \<and> (\<exists>r. base16_Decode (\<lambda>_. True) beyond src = Some r
         \<and> length (b16_written r) = b16_alloc r + length src mod 2
         \<and> (b16_over_read r \<longleftrightarrow> odd (length src)))"
proof -
  have "(length src + 1) div 2 = length src div 2 + length src mod 2" by presburger
  then show ?thesis
    using b16_loop_writes [of beyond src]
    by (auto simp: base16_Encode_def base16_Decode_def b16_round_trip Let_def split: prod.split)
qed

end
