(* ===== verification/Crc32.thy ===== *)
theory Crc32
  imports Aamp_Prelude
begin

text \<open>
  \<open>aamp_ComputeCRC32\<close> of \<open>AampUtils.cpp\<close>: the MPEG CRC-32 with a lookup table that the first call
  builds.  The loop that builds an entry stops only when its marker bit reaches the top, so it is
  run with fuel; nine passes are enough for each of the 256 entries.
  The lemmas show that the table-driven routine is the bitwise CRC, and that appending the CRC of
  some data is the only way to make the CRC of the whole zero, which the SCTE-35 parser relies on.
\<close>

unbundle bit_operations_syntax

section \<open>Definitions\<close>

definition crc_poly :: u32 where
  "crc_poly = 0x04c11db7"

fun crc_entry_loop :: "nat \<Rightarrow> u32 \<Rightarrow> u32 \<Rightarrow> u32 option" where
  "crc_entry_loop 0 j k = None"
| "crc_entry_loop (Suc fuel) j k =
     (if j = 0x80000000 then Some k
      else crc_entry_loop fuel (push_bit 1 j)
             (push_bit 1 k XOR (if (k XOR j) AND 0x80000000 \<noteq> 0 then crc_poly else 0)))"

definition crc_entry :: "u32 \<Rightarrow> u32 option" where
  "crc_entry i = crc_entry_loop 9 (push_bit 24 i OR 0x800000) 0"

fun crc_collect :: "u32 option list \<Rightarrow> u32 list option" where
  "crc_collect [] = Some []"
| "crc_collect (None # xs) = None"
| "crc_collect (Some x # xs) = map_option ((#) x) (crc_collect xs)"

text \<open>The loop over \<open>i = 0 .. 255\<close>; \<open>None\<close> would be an entry whose loop does not end.\<close>

definition crc32_table :: "u32 list option" where
  "crc32_table = crc_collect (map (\<lambda>i. crc_entry (of_nat i)) [0..<256])"

definition crc_table_step :: "u32 list \<Rightarrow> u32 \<Rightarrow> u8 \<Rightarrow> u32" where
  "crc_table_step table result d = push_bit 8 result XOR table ! unat (drop_bit 24 result XOR ucast d)"

definition aamp_ComputeCRC32 :: "u8 list \<Rightarrow> u32 \<Rightarrow> u32 option" where
  "aamp_ComputeCRC32 data initial =
     (case crc32_table of
        None \<Rightarrow> None
      | Some table \<Rightarrow> Some (foldl (crc_table_step table) initial data))"

section \<open>The bitwise CRC\<close>

definition crc_bit :: "u32 \<Rightarrow> bool \<Rightarrow> u32" where
  "crc_bit r x = push_bit 1 r XOR (if bit r 31 \<noteq> x then crc_poly else 0)"

definition crc_bits :: "u32 \<Rightarrow> bool list \<Rightarrow> u32" where
  "crc_bits r xs = foldl crc_bit r xs"

definition byte_bits :: "u8 \<Rightarrow> bool list" where
  "byte_bits b = map (bit b) [7, 6, 5, 4, 3, 2, 1, 0]"

definition crc_bitwise :: "u8 list \<Rightarrow> u32 \<Rightarrow> u32" where
  "crc_bitwise data initial = crc_bits initial (concat (map byte_bits data))"

definition be_bytes :: "u32 \<Rightarrow> u8 list" where
  "be_bytes v = [ucast (drop_bit 24 v), ucast (drop_bit 16 v), ucast (drop_bit 8 v), ucast v]"

definition top_bits :: "nat \<Rightarrow> u32 \<Rightarrow> bool list" where
  "top_bits n v = map (\<lambda>i. bit v (31 - i)) [0..<n]"

section \<open>Lemmas\<close>

lemma crc_bits_Nil [simp]: "crc_bits r [] = r"
  and crc_bits_Cons [simp]: "crc_bits r (x # xs) = crc_bits (crc_bit r x) xs"
  and crc_bits_append [simp]: "crc_bits r (xs @ ys) = crc_bits (crc_bits r xs) ys"
  by (simp_all add: crc_bits_def)

lemma crc_bit_linear: "crc_bit (r XOR s) (x = (\<not> y)) = crc_bit r x XOR crc_bit s y"
  by (rule bit_word_eqI) (auto simp: crc_bit_def bit_simps)

lemma crc_bits_linear:
  "length xs = length ys \<Longrightarrow>
    crc_bits (r XOR s) (map2 (\<lambda>x y. x = (\<not> y)) xs ys) = crc_bits r xs XOR crc_bits s ys"
  by (induction xs ys arbitrary: r s rule: list_induct2) (simp_all add: crc_bit_linear)

lemma top_bits_Suc:
  assumes "n \<le> 31"
  shows "top_bits (Suc n) v = bit v 31 # top_bits n (push_bit 1 v)"
proof -
  have "bit v (31 - Suc i) = bit (push_bit 1 v) (31 - i)" if "i < n" for i
    using that assms by (auto simp: bit_simps simp del: One_nat_def push_bit_Suc)
  then have "map (\<lambda>i. bit v (31 - Suc i)) [0..<n] = map (\<lambda>i. bit (push_bit 1 v) (31 - i)) [0..<n]"
    by simp
  then have "map (\<lambda>i. bit v (31 - i)) (map Suc [0..<n]) = map (\<lambda>i. bit (push_bit 1 v) (31 - i)) [0..<n]"
    by (simp only: map_map comp_def)
  then show ?thesis by (simp only: top_bits_def upt_conv_Cons [OF zero_less_Suc] map_Suc_upt list.map) simp
qed

lemma crc_bits_absorb: "n \<le> 32 \<Longrightarrow> crc_bits v (top_bits n v) = push_bit n v"
proof (induction n arbitrary: v)
  case 0
  then show ?case by (simp add: top_bits_def)
next
  case (Suc n)
  have "crc_bit v (bit v 31) = push_bit 1 v" by (simp only: crc_bit_def) simp
  with Suc.IH [of "push_bit 1 v"] Suc.prems show ?case
    by (simp add: top_bits_Suc)
qed

lemma crc_bit_zero_inj: "crc_bit r False = crc_bit s False \<Longrightarrow> r = s"
proof -
  assume eq: "crc_bit r False = crc_bit s False"
  have b0: "bit (crc_bit t False) 0 = bit t 31" for t
    by (simp add: crc_bit_def bit_simps crc_poly_def del: One_nat_def push_bit_Suc)
  have "bit (crc_bit r False) 0 = bit (crc_bit s False) 0" by (simp only: eq)
  then have top: "bit r 31 = bit s 31" by (simp only: b0)
  then have sh: "push_bit 1 r XOR (if bit s 31 then crc_poly else 0) = push_bit 1 s XOR (if bit s 31 then crc_poly else 0)"
    using eq by (simp only: crc_bit_def bool_simps)
  have "a = b" if "a XOR c = b XOR c" for a b c :: u32
  proof -
    have "a = (a XOR c) XOR c" by (simp only: xor.assoc bit.xor_self xor.right_neutral)
    also have "\<dots> = b" by (simp only: that xor.assoc bit.xor_self xor.right_neutral)
    finally show ?thesis .
  qed
  from this [OF sh] have sh1: "push_bit 1 r = push_bit 1 s" .
  have low: "bit r n = bit s n" if "n < 31" for n
  proof -
    have "bit (push_bit 1 t) (n + 1) = bit t n" for t :: u32
      using that by (simp add: bit_simps del: One_nat_def push_bit_Suc)
    then show ?thesis using sh1 by metis
  qed
  show "r = s"
  proof (rule bit_word_eqI)
    fix n assume "n < LENGTH(32)"
    then consider "n < 31" | "n = 31" by force
    then show "bit r n = bit s n" using top low by cases auto
  qed
qed

lemma crc_zero_bits: "crc_bits r (replicate n False) = 0 \<longleftrightarrow> r = 0"
proof (induction n arbitrary: r)
  case (Suc n)
  have "crc_bit 0 False = 0" by (simp add: crc_bit_def)
  then have "crc_bit r False = 0 \<longleftrightarrow> r = 0" using crc_bit_zero_inj by metis
  with Suc show ?case by simp
qed simp

lemma length_top_bits [simp]: "length (top_bits n v) = n"
  by (simp add: top_bits_def)

lemma map2_False: "n = length xs \<Longrightarrow> map2 (\<lambda>x y. x = (\<not> y)) xs (replicate n False) = xs"
  by (induction xs arbitrary: n) auto

text \<open>Feeding the 32 bits of a value \<open>v\<close> into the state \<open>r\<close> gives zero only for \<open>v = r\<close>.\<close>

lemma crc_bits_value_zero: "crc_bits r (top_bits 32 v) = 0 \<longleftrightarrow> v = r"
proof -
  have "crc_bits (v XOR (r XOR v)) (map2 (\<lambda>x y. x = (\<not> y)) (top_bits 32 v) (replicate 32 False)) =
      crc_bits v (top_bits 32 v) XOR crc_bits (r XOR v) (replicate 32 False)"
    by (rule crc_bits_linear) simp
  moreover have "v XOR (r XOR v) = r" by (rule bit_word_eqI) (auto simp: bit_simps)
  moreover have "crc_bits v (top_bits 32 v) = 0"
    by (simp only: crc_bits_absorb order_refl) (rule bit_word_eqI, simp add: bit_simps)
  ultimately have "crc_bits r (top_bits 32 v) = crc_bits (r XOR v) (replicate 32 False)"
    by (simp add: map2_False)
  moreover have "r XOR v = 0 \<longleftrightarrow> v = r"
    by (metis bit.xor_self xor.right_neutral xor.assoc xor.left_neutral)
  ultimately show ?thesis by (simp only: crc_zero_bits)
qed

lemma upt_0_32: "[0..<32] = [0, 1, 2, 3, 4, 5, 6, 7, 8, 9, 10, 11, 12, 13, 14, 15, 16, 17, 18, 19, 20, 21,
    22, 23, 24, 25, 26, 27, 28, 29, 30, 31]"
  by code_simp

lemma be_bytes_bits: "concat (map byte_bits (be_bytes v)) = top_bits 32 v"
  by (simp add: be_bytes_def byte_bits_def top_bits_def bit_simps upt_0_32)

section \<open>The table\<close>

text \<open>The loop variable \<open>j\<close> of the table entry for \<open>b\<close>: the byte and below it the marker bit.\<close>

definition crc_marker :: "u8 \<Rightarrow> u32" where
  "crc_marker b = push_bit 24 (ucast b) OR 0x800000"

lemma bit_two_power: "bit ((2 :: u32) ^ m) n \<longleftrightarrow> n = m \<and> n < 32"
  by (auto simp: bit_exp_iff)

lemma bit_crc_marker: "bit (crc_marker b) n \<longleftrightarrow> (24 \<le> n \<and> bit b (n - 24)) \<or> n = 23"
proof -
  have m: "bit (0x800000 :: u32) n \<longleftrightarrow> n = 23" for n
    using bit_two_power [of 23 n] by auto
  show ?thesis unfolding crc_marker_def
    by (simp only: bit_or_iff m) (auto simp: bit_simps dest: bit_imp_le_length)
qed

lemma bit_top_mask: "bit (0x80000000 :: u32) n \<longleftrightarrow> n = 31"
  using bit_two_power [of 31 n] by auto

lemma crc_marker_end: "m \<le> 8 \<Longrightarrow> push_bit m (crc_marker b) = 0x80000000 \<longleftrightarrow> m = 8"
proof
  assume m: "m \<le> 8" and eq: "push_bit m (crc_marker b) = 0x80000000"
  have "bit (push_bit m (crc_marker b)) (23 + m)" using m by (simp add: bit_simps bit_crc_marker)
  then have "bit (0x80000000 :: u32) (23 + m)" by (simp only: eq)
  then show "m = 8" by (simp only: bit_top_mask)
next
  assume "m = 8"
  then show "push_bit m (crc_marker b) = 0x80000000"
    by (intro bit_word_eqI) (simp only: bit_push_bit_iff bit_top_mask bit_crc_marker,
        auto dest: bit_imp_le_length)
qed

lemma crc_top_test: "w AND 0x80000000 \<noteq> 0 \<longleftrightarrow> bit (w :: u32) 31"
proof -
  have "(0x80000000 :: u32) = 2 ^ 31" by simp
  then show ?thesis by (simp only: and_exp_eq_0_iff_not_bit) simp
qed

lemma crc_entry_loop_bits:
  "m \<le> 8 \<Longrightarrow> crc_entry_loop (9 - m) (push_bit m (crc_marker b)) k =
    Some (crc_bits k (map (\<lambda>i. bit b (7 - i)) [m..<8]))"
proof (induction "8 - m" arbitrary: m k)
  case 0
  then have "m = 8" by simp
  then have "9 - m = Suc 0" "push_bit m (crc_marker b) = 0x80000000" using crc_marker_end by auto
  with \<open>m = 8\<close> show ?case by simp
next
  case (Suc n)
  then have m: "m < 8" and fuel: "9 - m = Suc (9 - Suc m)" by auto
  have ne: "push_bit m (crc_marker b) \<noteq> 0x80000000" using m crc_marker_end [of m b] by auto
  have "bit (push_bit m (crc_marker b)) 31 = bit b (7 - m)"
    using m by (auto simp: bit_simps bit_crc_marker)
  then have bitm: "(k XOR push_bit m (crc_marker b)) AND 0x80000000 \<noteq> 0 \<longleftrightarrow> bit k 31 \<noteq> bit b (7 - m)"
    by (simp only: crc_top_test bit_xor_iff)
  have sh: "push_bit 1 (push_bit m (crc_marker b)) = push_bit (Suc m) (crc_marker b)"
    by (simp only: push_bit_push_bit) simp
  have "crc_entry_loop (9 - m) (push_bit m (crc_marker b)) k =
      crc_entry_loop (9 - Suc m) (push_bit (Suc m) (crc_marker b)) (crc_bit k (bit b (7 - m)))"
    by (simp only: fuel crc_entry_loop.simps ne if_False sh bitm crc_bit_def)
  also have "\<dots> = Some (crc_bits (crc_bit k (bit b (7 - m))) (map (\<lambda>i. bit b (7 - i)) [Suc m..<8]))"
    using Suc.hyps(1) [of "Suc m"] Suc.hyps(2) m by simp
  finally show ?case using m by (simp add: upt_conv_Cons)
qed

lemma crc_entry_byte: "crc_entry (ucast b) = Some (crc_bits 0 (byte_bits b))"
proof -
  have "[0..<8] = [0, 1, 2, 3, 4, 5, 6, 7 :: nat]" by code_simp
  then have "map (\<lambda>i. bit b (7 - i)) [0..<8] = byte_bits b" by (simp add: byte_bits_def)
  then show ?thesis using crc_entry_loop_bits [of 0 b 0]
    by (simp add: crc_entry_def crc_marker_def)
qed

lemma crc_collect_map: "(\<And>x. x \<in> set xs \<Longrightarrow> f x = Some (g x)) \<Longrightarrow> crc_collect (map f xs) = Some (map g xs)"
  by (induction xs) auto

lemma crc32_table_entries:
  "crc32_table = Some (map (\<lambda>i. crc_bits 0 (byte_bits (of_nat i))) [0..<256])"
proof -
  have "crc_entry (of_nat i) = Some (crc_bits 0 (byte_bits (of_nat i)))" if "i < 256" for i
  proof -
    have "unat (of_nat i :: u8) = i" using that by (simp add: unat_of_nat)
    then have "(of_nat i :: u32) = ucast (of_nat i :: u8)"
      by (metis of_nat_unat)
    then show ?thesis by (simp only: crc_entry_byte)
  qed
  then show ?thesis unfolding crc32_table_def by (intro crc_collect_map) auto
qed

lemma crc_table_step_bits:
  assumes "crc32_table = Some table"
  shows "crc_table_step table r d = crc_bits r (byte_bits d)"
proof -
  let ?e = "ucast (drop_bit 24 r) XOR d :: u8"
  have idx: "drop_bit 24 r XOR ucast d = (ucast ?e :: u32)"
    by (rule bit_word_eqI) (auto simp: bit_simps dest: bit_imp_le_length)
  have lt: "unat ?e < 256" using unat_less_width [of ?e] by simp
  have "table ! unat (drop_bit 24 r XOR ucast d) = crc_bits 0 (byte_bits ?e)"
    using assms lt by (auto simp: crc32_table_entries idx unat_ucast_wider)
  then have "crc_table_step table r d = crc_bits r (top_bits 8 r) XOR crc_bits 0 (byte_bits ?e)"
    by (simp add: crc_table_step_def crc_bits_absorb)
  also have "\<dots> = crc_bits (r XOR 0) (map2 (\<lambda>x y. x = (\<not> y)) (top_bits 8 r) (byte_bits ?e))"
    by (rule crc_bits_linear [symmetric]) (simp add: byte_bits_def)
  also have "map2 (\<lambda>x y. x = (\<not> y)) (top_bits 8 r) (byte_bits ?e) = byte_bits d"
  proof -
    have "[0..<8] = [0, 1, 2, 3, 4, 5, 6, 7 :: nat]" by code_simp
    then show ?thesis by (auto simp: top_bits_def byte_bits_def bit_simps)
  qed
  finally show ?thesis by simp
qed

lemma compute_bitwise: "aamp_ComputeCRC32 data r = Some (crc_bitwise data r)"
proof -
  obtain table where t: "crc32_table = Some table" by (simp add: crc32_table_entries)
  have "foldl (crc_table_step table) r data = crc_bits r (concat (map byte_bits data))"
    by (induction data arbitrary: r) (simp_all add: crc_table_step_bits [OF t])
  then show ?thesis by (simp add: aamp_ComputeCRC32_def t crc_bitwise_def)
qed

section \<open>Properties\<close>

text \<open>
  C34: the table-driven \<open>aamp_ComputeCRC32\<close> returns for every input (the loops that build the table
  end) and computes the bitwise MPEG CRC-32; computing over two pieces in turn, passing the first
  result as the initial value of the second call, is computing over their concatenation.
\<close>

theorem crc32_is_bitwise:
  "aamp_ComputeCRC32 data initial = Some (crc_bitwise data initial)
    \<and> aamp_ComputeCRC32 (data @ more) initial =
        Option.bind (aamp_ComputeCRC32 data initial) (aamp_ComputeCRC32 more)"
  by (simp add: compute_bitwise crc_bitwise_def)

text \<open>
  Over data followed by a big-endian 32-bit value the CRC is zero exactly when that value is
  the CRC of the data, so the zero test of the SCTE-35 parser accepts the right CRC and no other.
\<close>

theorem crc32_zero_iff_stored:
  "aamp_ComputeCRC32 (data @ be_bytes v) initial = Some 0 \<longleftrightarrow> aamp_ComputeCRC32 data initial = Some v"
proof -
  have "crc_bitwise (data @ be_bytes v) initial = crc_bits (crc_bitwise data initial) (top_bits 32 v)"
    by (simp only: crc_bitwise_def map_append concat_append crc_bits_append be_bytes_bits)
  then show ?thesis by (auto simp: compute_bitwise crc_bits_value_zero)
qed

end
