(* ===== verification/Scte35.thy ===== *)
theory Scte35
  imports Base_Conversion Crc32
begin

text \<open>
  \<open>scte35/AampSCTE35.cpp\<close>: the SCTE-35 splice information parser.  A decoder is the record of
  its bit offset, its limit, the section data and what it has recorded; a sub-decoder starts at
  the parent's offset and hands its offset back in \<open>End\<close>.  The JSON document is represented by
  the list of \<open>cJSON_Add...\<close> calls the decoder makes, in order.  Every operation returns either
  a fault or its value and the new decoder: a thrown \<open>SCTE35DataException\<close> with its message, a
  read of \<open>mData\<close> outside the buffer (undefined in C++), or, for the recursive functions that are
  run with fuel, the end of the fuel.
  The lemmas show that the last two never happen, that an accepted section is complete and has
  the right CRC, and that a section written field by field is read back.
\<close>

unbundle bit_operations_syntax

section \<open>The decoder\<close>

datatype scte_fault = DataException string | OutOfBounds | OutOfFuel

datatype scte_item =
    BoolItem string bool
  | NumberItem string nat
  | StringItem string "u8 list"
  | ObjectItem string "scte_item list"
  | ArrayItem string "scte_item list list"

record SCTE35Decoder =
  mOffset :: nat
  mMaxOffset :: nat
  mData :: "u8 list"
  mJsonObj :: "scte_item list"
  mKey :: string

type_synonym 'a reader = "SCTE35Decoder \<Rightarrow> scte_fault + ('a \<times> SCTE35Decoder)"

definition rreturn :: "'a \<Rightarrow> 'a reader" where
  "rreturn x d = Inr (x, d)"

definition rthrow :: "string \<Rightarrow> 'a reader" where
  "rthrow msg d = Inl (DataException msg)"

definition rbind :: "'a reader \<Rightarrow> ('a \<Rightarrow> 'b reader) \<Rightarrow> 'b reader" where
  "rbind m f d = (case m d of Inl e \<Rightarrow> Inl e | Inr (x, d') \<Rightarrow> f x d')"

definition rseq :: "'a reader \<Rightarrow> 'b reader \<Rightarrow> 'b reader" where
  "rseq m k = rbind m (\<lambda>_. k)"

definition add_item :: "scte_item \<Rightarrow> SCTE35Decoder \<Rightarrow> SCTE35Decoder" where
  "add_item i d = d\<lparr>mJsonObj := mJsonObj d @ [i]\<rparr>"

definition advance :: "nat \<Rightarrow> SCTE35Decoder \<Rightarrow> SCTE35Decoder" where
  "advance n d = d\<lparr>mOffset := mOffset d + n\<rparr>"

text \<open>\<open>mData[i]\<close>\<close>

definition data_at :: "u8 list \<Rightarrow> nat \<Rightarrow> scte_fault + u8" where
  "data_at bytes i = (if i < length bytes then Inr (bytes ! i) else Inl OutOfBounds)"

text \<open>\<open>mask = 0x80 >> (off & 7); (mData[off/8] & mask) == mask\<close>\<close>

definition data_bit :: "u8 list \<Rightarrow> nat \<Rightarrow> scte_fault + bool" where
  "data_bit bytes off =
     (case data_at bytes (off div 8) of
        Inl e \<Rightarrow> Inl e
      | Inr b \<Rightarrow> let mask = drop_bit (off mod 8) (0x80 :: u8) in Inr (b AND mask = mask))"

definition new_decoder :: "u8 list \<Rightarrow> SCTE35Decoder" where
  "new_decoder bytes =
     \<lparr>mOffset = 0, mMaxOffset = length bytes * 8, mData = bytes, mJsonObj = [], mKey = []\<rparr>"

text \<open>The constructor from a string: a text that is no base64 leaves no data and the limit 0.\<close>

definition decoder_of_string :: "u8 list \<Rightarrow> SCTE35Decoder" where
  "decoder_of_string s =
     (case base64_Decode (\<lambda>_. True) s of
        (None, len) \<Rightarrow> new_decoder []
      | (Some bytes, len) \<Rightarrow> new_decoder bytes)"

section \<open>Reading fields\<close>

definition rBool :: "string \<Rightarrow> bool reader" where
  "rBool key d =
     (if mMaxOffset d \<le> mOffset d then Inl (DataException (key @ '' overflow''))
      else case data_bit (mData d) (mOffset d) of
        Inl e \<Rightarrow> Inl e
      | Inr v \<Rightarrow> Inr (v, add_item (BoolItem key v) (advance 1 d)))"

definition rByte :: "string \<Rightarrow> u8 reader" where
  "rByte key d =
     (if mOffset d mod 8 \<noteq> 0 then Inl (DataException (key @ '' not byte aligned''))
      else if mMaxOffset d < mOffset d + 8 then Inl (DataException (key @ '' overflow''))
      else case data_at (mData d) (mOffset d div 8) of
        Inl e \<Rightarrow> Inl e
      | Inr v \<Rightarrow> Inr (v, add_item (NumberItem key (unat v)) (advance 8 d)))"

text \<open>\<open>value = (value << 8) | mData[mOffset/8]; mOffset += 8\<close>, \<open>n\<close> times.\<close>

fun bytes_loop :: "u8 list \<Rightarrow> nat \<Rightarrow> nat \<Rightarrow> 'w::len word \<Rightarrow> scte_fault + 'w word" where
  "bytes_loop bytes 0 off v = Inr v"
| "bytes_loop bytes (Suc n) off v =
     (case data_at bytes (off div 8) of
        Inl e \<Rightarrow> Inl e
      | Inr b \<Rightarrow> bytes_loop bytes n (off + 8) (push_bit 8 v OR ucast b))"

definition rShort :: "string \<Rightarrow> u16 reader" where
  "rShort key d =
     (if mOffset d mod 8 \<noteq> 0 then Inl (DataException (key @ '' not byte aligned''))
      else if mMaxOffset d < mOffset d + 16 then Inl (DataException (key @ '' overflow''))
      else case bytes_loop (mData d) 2 (mOffset d) (0 :: u16) of
        Inl e \<Rightarrow> Inl e
      | Inr v \<Rightarrow> Inr (v, add_item (NumberItem key (unat v)) (advance 16 d)))"

definition rInteger :: "string \<Rightarrow> u32 reader" where
  "rInteger key d =
     (if mOffset d mod 8 \<noteq> 0 then Inl (DataException (key @ '' not byte aligned''))
      else if mMaxOffset d < mOffset d + 32 then Inl (DataException (key @ '' overflow''))
      else case bytes_loop (mData d) 4 (mOffset d) (0 :: u32) of
        Inl e \<Rightarrow> Inl e
      | Inr v \<Rightarrow> Inr (v, add_item (NumberItem key (unat v)) (advance 32 d)))"

fun bits_loop :: "u8 list \<Rightarrow> nat \<Rightarrow> nat \<Rightarrow> u64 \<Rightarrow> scte_fault + u64" where
  "bits_loop bytes 0 off v = Inr v"
| "bits_loop bytes (Suc n) off v =
     (case data_bit bytes off of
        Inl e \<Rightarrow> Inl e
      | Inr x \<Rightarrow> bits_loop bytes n (off + 1) (if x then push_bit 1 v OR 1 else push_bit 1 v))"

definition rBits :: "string \<Rightarrow> nat \<Rightarrow> u64 reader" where
  "rBits key bits d =
     (if mMaxOffset d < mOffset d + bits then Inl (DataException (key @ '' overflow''))
      else case bits_loop (mData d) bits (mOffset d) 0 of
        Inl e \<Rightarrow> Inl e
      | Inr v \<Rightarrow> Inr (v, add_item (NumberItem key (unat v)) (advance bits d)))"

fun reserved_loop :: "u8 list \<Rightarrow> nat \<Rightarrow> nat \<Rightarrow> scte_fault + unit" where
  "reserved_loop bytes 0 off = Inr ()"
| "reserved_loop bytes (Suc n) off =
     (case data_bit bytes off of
        Inl e \<Rightarrow> Inl e
      | Inr x \<Rightarrow> if x then reserved_loop bytes n (off + 1) else Inl (DataException ''reserved bit zero''))"

definition rReservedBits :: "nat \<Rightarrow> unit reader" where
  "rReservedBits bits d =
     (if mMaxOffset d < mOffset d + bits then Inl (DataException ''reserved overflow'')
      else case reserved_loop (mData d) bits (mOffset d) of
        Inl e \<Rightarrow> Inl e
      | Inr _ \<Rightarrow> Inr ((), advance bits d))"

definition rSkipBytes :: "nat \<Rightarrow> unit reader" where
  "rSkipBytes bytes d =
     (if mOffset d mod 8 \<noteq> 0 then Inl (DataException ''skipped bytes not byte aligned'')
      else if mMaxOffset d < mOffset d + bytes * 8 then Inl (DataException ''skipped bytes overflow'')
      else Inr ((), advance (bytes * 8) d))"

text \<open>The bytes of a string field; the JSON string is the C string, up to a NUL.\<close>

definition rString :: "string \<Rightarrow> nat \<Rightarrow> u8 list reader" where
  "rString key bytes d =
     (if mOffset d mod 8 \<noteq> 0 then Inl (DataException (key @ '' not byte aligned''))
      else if mMaxOffset d < mOffset d + bytes * 8 then Inl (DataException (key @ '' overflow''))
      else if bytes = 0 then Inr ([], add_item (StringItem key []) d)
      else if length (mData d) < mOffset d div 8 + bytes then Inl OutOfBounds
      else let v = take bytes (drop (mOffset d div 8) (mData d))
           in Inr (v, add_item (StringItem key (takeWhile (\<lambda>c. c \<noteq> 0) v)) (advance (bytes * 8) d)))"

definition rCRC32 :: "u32 reader" where
  "rCRC32 = rbind (rInteger ''CRC32'') (\<lambda>v d.
     let len = mMaxOffset d div 8
     in if length (mData d) < len then Inl OutOfBounds
        else case aamp_ComputeCRC32 (take len (mData d)) 0xffffffff of
          None \<Rightarrow> Inl OutOfFuel
        | Some crc32 \<Rightarrow> if crc32 \<noteq> 0 then Inl (DataException ''CRC32 mismatch'') else Inr (v, d))"

definition isEnd :: "SCTE35Decoder \<Rightarrow> bool" where
  "isEnd d \<longleftrightarrow> mOffset d = mMaxOffset d"

section \<open>Subsections and descriptor loops\<close>

definition Subsection :: "string \<Rightarrow> nat \<Rightarrow> SCTE35Decoder \<Rightarrow> scte_fault + SCTE35Decoder" where
  "Subsection key len d =
     (if mOffset d mod 8 \<noteq> 0 then Inl (DataException (key @ '' not byte aligned''))
      else if mMaxOffset d < mOffset d + len * 8 then Inl (DataException (key @ '' overflow''))
      else Inr \<lparr>mOffset = mOffset d, mMaxOffset = mOffset d + len * 8, mData = mData d,
                mJsonObj = [], mKey = key\<rparr>)"

text \<open>\<open>End\<close> of a subsection \<open>c\<close> of \<open>d\<close>.\<close>

definition End_subsection :: "SCTE35Decoder \<Rightarrow> unit reader" where
  "End_subsection c d =
     (if mOffset c \<noteq> mMaxOffset c then Inl (DataException ''Underflow'')
      else Inr ((), add_item (ObjectItem (mKey c) (mJsonObj c)) (d\<lparr>mOffset := mOffset c\<rparr>)))"

text \<open>\<open>End\<close> of the section itself.\<close>

definition End_section :: "unit reader" where
  "End_section d = (if mOffset d \<noteq> mMaxOffset d then Inl (DataException ''Underflow'') else Inr ((), d))"

record SCTE35DecoderDescriptorLoop =
  lKey :: string
  lMaxOffset :: nat
  lObjects :: "scte_item list list"

definition DescriptorLoop :: "string \<Rightarrow> nat \<Rightarrow> SCTE35Decoder \<Rightarrow> scte_fault + SCTE35DecoderDescriptorLoop" where
  "DescriptorLoop key len d =
     (if mOffset d mod 8 \<noteq> 0 then Inl (DataException ''Descriptor loop not byte aligned'')
      else if mMaxOffset d < mOffset d + len * 8 then Inl (DataException ''Descriptor loop overflow'')
      else Inr \<lparr>lKey = key, lMaxOffset = mOffset d + len * 8, lObjects = []\<rparr>)"

definition hasAnotherDescriptor :: "SCTE35DecoderDescriptorLoop \<Rightarrow> SCTE35Decoder \<Rightarrow> bool" where
  "hasAnotherDescriptor l d \<longleftrightarrow> mOffset d < lMaxOffset l"

definition Descriptor :: "SCTE35DecoderDescriptorLoop \<Rightarrow> SCTE35Decoder \<Rightarrow> scte_fault + SCTE35Decoder" where
  "Descriptor l d =
     (if \<not> hasAnotherDescriptor l d then Inl (DataException (lKey l @ '' overflow''))
      else Inr \<lparr>mOffset = mOffset d, mMaxOffset = lMaxOffset l, mData = mData d,
                mJsonObj = [], mKey = []\<rparr>)"

text \<open>\<open>End\<close> of a descriptor \<open>c\<close> of the loop \<open>l\<close> of \<open>d\<close>: \<open>mParent->mOffset = mOffset; mLoop->add(mJsonObj)\<close>.\<close>

definition End_descriptor :: "SCTE35Decoder \<Rightarrow> SCTE35DecoderDescriptorLoop \<Rightarrow> SCTE35DecoderDescriptorLoop reader" where
  "End_descriptor c l d = Inr (l\<lparr>lObjects := lObjects l @ [mJsonObj c]\<rparr>, d\<lparr>mOffset := mOffset c\<rparr>)"

definition addDescriptors :: "string \<Rightarrow> scte_item list list \<Rightarrow> nat \<Rightarrow> unit reader" where
  "addDescriptors key objects expectedOffset d =
     (if mOffset d \<noteq> expectedOffset then Inl (DataException (key @ '' underflow''))
      else Inr ((), add_item (ArrayItem key objects) d))"

definition End_loop :: "SCTE35DecoderDescriptorLoop \<Rightarrow> unit reader" where
  "End_loop l = addDescriptors (lKey l) (lObjects l) (lMaxOffset l)"

text \<open>Running a body on a sub-decoder, then its \<open>End\<close>.\<close>

definition in_subsection :: "string \<Rightarrow> nat \<Rightarrow> unit reader \<Rightarrow> unit reader" where
  "in_subsection key len body d =
     (case Subsection key len d of
        Inl e \<Rightarrow> Inl e
      | Inr c \<Rightarrow> (case body c of Inl e \<Rightarrow> Inl e | Inr (_, c') \<Rightarrow> End_subsection c' d))"

definition in_descriptor ::
    "unit reader \<Rightarrow> SCTE35DecoderDescriptorLoop \<Rightarrow> SCTE35DecoderDescriptorLoop reader" where
  "in_descriptor body l d =
     (case Descriptor l d of
        Inl e \<Rightarrow> Inl e
      | Inr c \<Rightarrow> (case body c of Inl e \<Rightarrow> Inl e | Inr (_, c') \<Rightarrow> End_descriptor c' l d))"

text \<open>
  \<open>while (descriptorLoop->hasAnotherDescriptor()) { ... }\<close>, with the body of a descriptor as an
  argument, run with fuel.
\<close>

fun descriptor_while ::
    "(nat \<Rightarrow> unit reader) \<Rightarrow> nat \<Rightarrow> SCTE35DecoderDescriptorLoop \<Rightarrow> SCTE35DecoderDescriptorLoop reader" where
  "descriptor_while body 0 l d = Inl OutOfFuel"
| "descriptor_while body (Suc fuel) l d =
     (if hasAnotherDescriptor l d
      then rbind (in_descriptor (body fuel) l) (\<lambda>l'. descriptor_while body fuel l') d
      else Inr (l, d))"

definition descriptor_loop :: "string \<Rightarrow> (nat \<Rightarrow> unit reader) \<Rightarrow> nat \<Rightarrow> nat \<Rightarrow> unit reader" where
  "descriptor_loop key body fuel len d =
     (case DescriptorLoop key len d of
        Inl e \<Rightarrow> Inl e
      | Inr l \<Rightarrow> rbind (descriptor_while body fuel l) End_loop d)"

section \<open>The splice information section\<close>

text \<open>
  \<open>SCTE35ParseUpids\<close> calls itself for every entry of a MID list, through the loop over the list.
\<close>

fun SCTE35ParseUpids :: "nat \<Rightarrow> unit reader" and
    SCTE35UpidLoop :: "nat \<Rightarrow> SCTE35DecoderDescriptorLoop \<Rightarrow> SCTE35DecoderDescriptorLoop reader" where
  "SCTE35ParseUpids 0 = (\<lambda>d. Inl OutOfFuel)"
| "SCTE35ParseUpids (Suc fuel) =
     rbind (rByte ''segmentation_upid_type'') (\<lambda>upid_type.
     rbind (rByte ''segmentation_upid_length'') (\<lambda>upid_length.
       if upid_length = 0 then rreturn ()
       else if upid_type = 0x0d then
         (\<lambda>d. case DescriptorLoop ''MID'' (unat upid_length) d of
                Inl e \<Rightarrow> Inl e
              | Inr l \<Rightarrow> rbind (SCTE35UpidLoop fuel l) End_loop d)
       else if upid_type = 0x0e then rseq (rString ''ADS'' (unat upid_length)) (rreturn ())
       else if upid_type = 0x0f then rseq (rString ''URI'' (unat upid_length)) (rreturn ())
       else rSkipBytes (unat upid_length)))"
| "SCTE35UpidLoop 0 l = (\<lambda>d. Inl OutOfFuel)"
| "SCTE35UpidLoop (Suc fuel) l =
     (\<lambda>d. if hasAnotherDescriptor l d
          then rbind (in_descriptor (SCTE35ParseUpids fuel) l) (\<lambda>l'. SCTE35UpidLoop fuel l') d
          else Inr (l, d))"

definition parse_restrictions :: "unit reader" where
  "parse_restrictions =
     rbind (rBool ''delivery_not_restricted_flag'') (\<lambda>not_restricted.
       if \<not> not_restricted then
         rseq (rBool ''web_delivery_allowed_flag'')
         (rseq (rBool ''no_regional_blackout_flag'')
         (rseq (rBool ''archive_allowed_flag'')
         (rseq (rBits ''device_restrictions'' 2) (rreturn ()))))
       else rReservedBits 5)"

definition has_sub_segments :: "u8 \<Rightarrow> bool" where
  "has_sub_segments type_id \<longleftrightarrow> type_id \<in> {0x34, 0x36, 0x38, 0x3a}"

definition parse_segmentation_tail :: "unit reader" where
  "parse_segmentation_tail =
     rbind (rByte ''segmentation_type_id'') (\<lambda>type_id.
     rseq (rByte ''segment_num'')
     (rseq (rByte ''segments_expected'')
       (\<lambda>d. if \<not> isEnd d \<and> has_sub_segments type_id
            then rseq (rByte ''sub_segment_num'') (rseq (rByte ''sub_segments_expected'') (rreturn ())) d
            else rreturn () d)))"

definition parse_segmentation_descriptor :: "nat \<Rightarrow> unit reader" where
  "parse_segmentation_descriptor fuel =
     rseq (rInteger ''identifier'')
     (rseq (rInteger ''segmentation_event_id'')
     (rbind (rBool ''segmentation_event_cancel_indicator'') (\<lambda>cancel.
        if \<not> cancel then
          rseq (rReservedBits 7)
          (rbind (rBool ''program_segmentation_flag'') (\<lambda>program.
             if \<not> program then rthrow ''program_segmentation_flag zero not supported''
             else
               rbind (rBool ''segmentation_duration_flag'') (\<lambda>has_duration.
               rseq parse_restrictions
               (rseq (if has_duration then rseq (rBits ''segmentation_duration'' 40) (rreturn ()) else rreturn ())
               (rseq (SCTE35ParseUpids fuel) parse_segmentation_tail)))))
        else rReservedBits 7)))"

definition parse_splice_descriptor :: "nat \<Rightarrow> unit reader" where
  "parse_splice_descriptor fuel =
     rbind (rByte ''splice_descriptor_tag'') (\<lambda>tag.
     rbind (rByte ''descriptor_length'') (\<lambda>len.
       if tag = 0x02 then parse_segmentation_descriptor fuel else rSkipBytes (unat len)))"

definition parse_splice_command :: "u8 \<Rightarrow> nat \<Rightarrow> unit reader" where
  "parse_splice_command command_type len =
     (if command_type = 0x06 then
        rbind (rBool ''time_specified_flag'') (\<lambda>specified.
          if specified then rseq (rReservedBits 6) (rseq (rBits ''pts_time'' 33) (rreturn ()))
          else rReservedBits 7)
      else rSkipBytes len)"

definition parse_header :: "unit reader" where
  "parse_header =
     rbind (rByte ''table_id'') (\<lambda>table_id.
       if table_id \<noteq> 0xfc then rthrow ''Unexpected SCTE-35 table id''
       else
         rseq (rBool ''section_syntax_indicator'')
         (rseq (rBool ''private_indicator'')
         (rseq (rBits ''sap_type'' 2)
         (rseq (rBits ''section_length'' 12)
         (rseq (rByte ''protocol_version'')
         (rseq (rBool ''encrypted_packet'')
         (rseq (rBits ''encryption_algorithm'' 6)
         (rseq (rBits ''pts_adjustment'' 33)
         (rseq (rByte ''cw_index'')
         (rseq (rBits ''tier'' 12) (rreturn ())))))))))))"

definition SCTE35ParseSection :: "nat \<Rightarrow> unit reader" where
  "SCTE35ParseSection fuel =
     rseq parse_header
     (rbind (rBits ''splice_command_length'' 12) (\<lambda>command_length.
      rbind (rByte ''splice_command_type'') (\<lambda>command_type.
      rseq (in_subsection ''splice_command'' (unat command_length)
              (parse_splice_command command_type (unat command_length)))
      (rbind (rShort ''descriptor_loop_length'') (\<lambda>loop_length.
       rseq (descriptor_loop ''descriptors'' parse_splice_descriptor fuel (unat loop_length))
       (rseq rCRC32 End_section))))))"

text \<open>
  \<open>SCTE35SpliceInfo\<close>: the recorded items, or \<open>None\<close> when an exception was caught.  The fuel is the
  number of bits of the section and a little more.
\<close>

definition section_fuel :: "SCTE35Decoder \<Rightarrow> nat" where
  "section_fuel d = mMaxOffset d + 2"

definition run_section :: "SCTE35Decoder \<Rightarrow> scte_fault + scte_item list" where
  "run_section d =
     (case SCTE35ParseSection (section_fuel d) d of
        Inl e \<Rightarrow> Inl e
      | Inr (_, d') \<Rightarrow> Inr (mJsonObj d'))"

definition SCTE35SpliceInfo :: "u8 list \<Rightarrow> scte_item list option" where
  "SCTE35SpliceInfo s = (case run_section (decoder_of_string s) of Inl e \<Rightarrow> None | Inr items \<Rightarrow> Some items)"

section \<open>Readers that stay inside the section\<close>

text \<open>
  A decoder is valid when its offset does not pass its limit and its limit does not pass the data.
  \<open>reader_ok B k r\<close>: on a valid decoder with at most \<open>B\<close> bits left, \<open>r\<close> either throws a
  \<open>SCTE35DataException\<close> or ends on a valid decoder of the same section at least \<open>k\<close> bits further.
\<close>

definition valid :: "SCTE35Decoder \<Rightarrow> bool" where
  "valid d \<longleftrightarrow> mOffset d \<le> mMaxOffset d \<and> mMaxOffset d \<le> 8 * length (mData d)"

definition moved :: "nat \<Rightarrow> SCTE35Decoder \<Rightarrow> SCTE35Decoder \<Rightarrow> bool" where
  "moved k d d' \<longleftrightarrow> valid d' \<and> mData d' = mData d \<and> mMaxOffset d' = mMaxOffset d
     \<and> mOffset d + k \<le> mOffset d'"

definition outcome_ok :: "nat \<Rightarrow> SCTE35Decoder \<Rightarrow> scte_fault + ('a \<times> SCTE35Decoder) \<Rightarrow> bool" where
  "outcome_ok k d res \<longleftrightarrow> (case res of Inl e \<Rightarrow> (\<exists>m. e = DataException m) | Inr (x, d') \<Rightarrow> moved k d d')"

definition reader_ok :: "nat \<Rightarrow> nat \<Rightarrow> 'a reader \<Rightarrow> bool" where
  "reader_ok B k r \<longleftrightarrow> (\<forall>d. valid d \<longrightarrow> mMaxOffset d - mOffset d \<le> B \<longrightarrow> outcome_ok k d (r d))"

lemma outcome_ok_throw [simp]: "outcome_ok k d (Inl (DataException m))"
  by (simp add: outcome_ok_def)

lemma outcome_ok_Inr [simp]: "outcome_ok k d (Inr (x, d')) \<longleftrightarrow> moved k d d'"
  by (simp add: outcome_ok_def)

lemma moved_trans: "moved j d d' \<Longrightarrow> moved k d' d'' \<Longrightarrow> moved (j + k) d d''"
  by (auto simp: moved_def)

lemma outcome_ok_trans: "moved j d d' \<Longrightarrow> outcome_ok k d' res \<Longrightarrow> outcome_ok (j + k) d res"
  by (auto simp: outcome_ok_def dest: moved_trans split: sum.splits)

lemma ok_bind:
  assumes "reader_ok B j m" and "\<And>x. j \<le> B \<Longrightarrow> reader_ok (B - j) k (f x)"
  shows "reader_ok B (j + k) (rbind m f)"
proof (unfold reader_ok_def, intro allI impI)
  fix d assume d: "valid d" "mMaxOffset d - mOffset d \<le> B"
  with assms(1) have ok: "outcome_ok j d (m d)" by (simp add: reader_ok_def)
  show "outcome_ok (j + k) d (rbind m f d)"
  proof (cases "m d")
    case (Inl e)
    with ok show ?thesis by (simp add: rbind_def outcome_ok_def)
  next
    case (Inr r)
    then obtain x d' where m: "m d = Inr (x, d')" by (cases r) auto
    with ok have mv: "moved j d d'" by simp
    then have "j \<le> B" "mMaxOffset d' - mOffset d' \<le> B - j" "valid d'"
      using d by (auto simp: moved_def valid_def)
    then have "outcome_ok k d' (f x d')" using assms(2) by (simp add: reader_ok_def)
    with mv show ?thesis by (simp add: rbind_def m outcome_ok_trans)
  qed
qed

lemma moved_mono: "moved k d d' \<Longrightarrow> k' \<le> k \<Longrightarrow> moved k' d d'"
  by (simp add: moved_def)

lemma outcome_mono: "outcome_ok k d res \<Longrightarrow> k' \<le> k \<Longrightarrow> outcome_ok k' d res"
  by (auto simp: outcome_ok_def moved_mono split: sum.splits)

lemma ok_mono: "reader_ok B k r \<Longrightarrow> k' \<le> k \<Longrightarrow> B' \<le> B \<Longrightarrow> reader_ok B' k' r"
  unfolding reader_ok_def by (meson le_trans outcome_mono)

lemma ok_bind0: "reader_ok B 0 m \<Longrightarrow> (\<And>x. reader_ok B 0 (f x)) \<Longrightarrow> reader_ok B 0 (rbind m f)"
  using ok_bind [of B 0 m 0 f] by simp

lemma ok_seq0: "reader_ok B 0 m \<Longrightarrow> reader_ok B 0 k \<Longrightarrow> reader_ok B 0 (rseq m k)"
  by (simp add: rseq_def ok_bind0)

lemma ok_return: "reader_ok B 0 (rreturn x)"
  by (auto simp: reader_ok_def rreturn_def moved_def valid_def)

lemma ok_throw: "reader_ok B k (rthrow m)"
  by (simp add: reader_ok_def rthrow_def)

lemma data_at_ok: "i < length bytes \<Longrightarrow> data_at bytes i = Inr (bytes ! i)"
  by (simp add: data_at_def)

lemma data_bit_ok: "off < 8 * length bytes \<Longrightarrow> \<exists>b. data_bit bytes off = Inr b"
  by (auto simp: data_bit_def data_at_def Let_def)

lemma bits_loop_ok: "off + n \<le> 8 * length bytes \<Longrightarrow> \<exists>v. bits_loop bytes n off w = Inr v"
proof (induction n arbitrary: off w)
  case (Suc n)
  obtain b where "data_bit bytes off = Inr b" using data_bit_ok [of off bytes] Suc.prems by auto
  with Suc show ?case by simp
qed simp

lemma bytes_loop_ok: "off + 8 * n \<le> 8 * length bytes \<Longrightarrow> \<exists>v. bytes_loop bytes n off w = Inr v"
proof (induction n arbitrary: off w)
  case (Suc n)
  then have "data_at bytes (off div 8) = Inr (bytes ! (off div 8))" by (intro data_at_ok) simp
  with Suc show ?case by simp
qed simp

lemma reserved_loop_ok:
  "off + n \<le> 8 * length bytes \<Longrightarrow> reserved_loop bytes n off = Inl e \<Longrightarrow> \<exists>m. e = DataException m"
proof (induction n arbitrary: off)
  case (Suc n)
  obtain b where "data_bit bytes off = Inr b" using data_bit_ok [of off bytes] Suc.prems by auto
  with Suc.prems Suc.IH [of "Suc off"] show ?case by (auto split: if_splits)
qed simp

lemma moved_advance:
  "valid d \<Longrightarrow> mOffset d + n \<le> mMaxOffset d \<Longrightarrow> k \<le> n \<Longrightarrow> moved k d (advance n d)"
  by (simp add: moved_def valid_def advance_def)

lemma moved_add_item [simp]: "moved k d (add_item i d') \<longleftrightarrow> moved k d d'"
  by (simp add: moved_def valid_def add_item_def)

text \<open>The contract the field readers share: reading a field of \<open>k\<close> bits.\<close>

locale field_reader =
  fixes rd :: "'a reader" and k :: nat
  assumes reads: "valid d \<Longrightarrow> outcome_ok k d (rd d)"
begin

lemma ok: "reader_ok B k rd"
  by (simp add: reader_ok_def reads)

lemma ok0: "reader_ok B 0 rd"
  by (rule ok_mono [OF ok [of B]]) simp_all

lemma within: "valid d \<Longrightarrow> rd d = Inr (x, d') \<Longrightarrow> mOffset d + k \<le> mMaxOffset d"
  using reads [of d] by (auto simp: moved_def valid_def)

end

interpretation bool_field: field_reader "rBool key" 1 for key
proof
  fix d assume v: "valid d"
  show "outcome_ok 1 d (rBool key d)"
  proof (cases "mMaxOffset d \<le> mOffset d")
    case True
    then show ?thesis by (simp add: rBool_def)
  next
    case False
    then obtain b where "data_bit (mData d) (mOffset d) = Inr b"
      using v data_bit_ok [of "mOffset d" "mData d"] by (auto simp: valid_def)
    with False v show ?thesis by (simp add: rBool_def moved_advance)
  qed
qed

interpretation byte_field: field_reader "rByte key" 8 for key
proof
  fix d assume v: "valid d"
  show "outcome_ok 8 d (rByte key d)"
  proof (cases "mOffset d mod 8 \<noteq> 0 \<or> mMaxOffset d < mOffset d + 8")
    case True
    then show ?thesis by (auto simp: rByte_def)
  next
    case False
    then have "mOffset d div 8 < length (mData d)" using v by (auto simp: valid_def)
    with False v show ?thesis by (simp add: rByte_def data_at_ok moved_advance)
  qed
qed

interpretation short_field: field_reader "rShort key" 16 for key
proof
  fix d assume v: "valid d"
  show "outcome_ok 16 d (rShort key d)"
  proof (cases "mOffset d mod 8 \<noteq> 0 \<or> mMaxOffset d < mOffset d + 16")
    case True
    then show ?thesis by (auto simp: rShort_def)
  next
    case False
    then obtain w where "bytes_loop (mData d) 2 (mOffset d) (0 :: u16) = Inr w"
      using v bytes_loop_ok [of "mOffset d" 2 "mData d"] by (auto simp: valid_def)
    with False v show ?thesis by (simp add: rShort_def moved_advance)
  qed
qed

interpretation integer_field: field_reader "rInteger key" 32 for key
proof
  fix d assume v: "valid d"
  show "outcome_ok 32 d (rInteger key d)"
  proof (cases "mOffset d mod 8 \<noteq> 0 \<or> mMaxOffset d < mOffset d + 32")
    case True
    then show ?thesis by (auto simp: rInteger_def)
  next
    case False
    then obtain w where "bytes_loop (mData d) 4 (mOffset d) (0 :: u32) = Inr w"
      using v bytes_loop_ok [of "mOffset d" 4 "mData d"] by (auto simp: valid_def)
    with False v show ?thesis by (simp add: rInteger_def moved_advance)
  qed
qed

interpretation bits_field: field_reader "rBits key n" n for key n
proof
  fix d assume v: "valid d"
  show "outcome_ok n d (rBits key n d)"
  proof (cases "mMaxOffset d < mOffset d + n")
    case True
    then show ?thesis by (simp add: rBits_def)
  next
    case False
    then obtain w where "bits_loop (mData d) n (mOffset d) 0 = Inr w"
      using v bits_loop_ok [of "mOffset d" n "mData d"] by (auto simp: valid_def)
    with False v show ?thesis by (simp add: rBits_def moved_advance)
  qed
qed

interpretation reserved_field: field_reader "rReservedBits n" n for n
proof
  fix d assume v: "valid d"
  show "outcome_ok n d (rReservedBits n d)"
  proof (cases "mMaxOffset d < mOffset d + n")
    case True
    then show ?thesis by (simp add: rReservedBits_def)
  next
    case False
    then show ?thesis
      using v reserved_loop_ok [of "mOffset d" n "mData d"]
      by (auto simp: rReservedBits_def valid_def moved_advance split: sum.split)
  qed
qed

interpretation skip_field: field_reader "rSkipBytes n" "8 * n" for n
  by unfold_locales (auto simp: rSkipBytes_def moved_advance)

interpretation string_field: field_reader "rString key n" "8 * n" for key n
proof
  fix d assume v: "valid d"
  show "outcome_ok (8 * n) d (rString key n d)"
  proof (cases "mOffset d mod 8 \<noteq> 0 \<or> mMaxOffset d < mOffset d + n * 8")
    case True
    then show ?thesis by (auto simp: rString_def)
  next
    case False
    then have "mOffset d div 8 + n \<le> length (mData d)" using v by (auto simp: valid_def)
    with False v show ?thesis
      by (auto simp: rString_def Let_def moved_advance) (simp add: moved_def)
  qed
qed

lemmas fields_ok0 = bool_field.ok0 byte_field.ok0 short_field.ok0 integer_field.ok0 bits_field.ok0
  reserved_field.ok0 skip_field.ok0 string_field.ok0

section \<open>Loops and subsections\<close>

definition loop_ok ::
    "nat \<Rightarrow> SCTE35DecoderDescriptorLoop \<Rightarrow> SCTE35Decoder \<Rightarrow>
      scte_fault + (SCTE35DecoderDescriptorLoop \<times> SCTE35Decoder) \<Rightarrow> bool" where
  "loop_ok k l d res \<longleftrightarrow> outcome_ok k d res
     \<and> (\<forall>l' d'. res = Inr (l', d') \<longrightarrow> lMaxOffset l' = lMaxOffset l \<and> mOffset d' \<le> lMaxOffset l)"

lemma loop_ok_trans:
  assumes "loop_ok j l d res" and "\<And>l' d'. res = Inr (l', d') \<Longrightarrow> loop_ok k l' d' (f l' d')"
  shows "loop_ok (j + k) l d (case res of Inl e \<Rightarrow> Inl e | Inr (l', d') \<Rightarrow> f l' d')"
proof (cases res)
  case (Inl e)
  with assms(1) show ?thesis by (simp add: loop_ok_def outcome_ok_def)
next
  case (Inr r)
  then obtain l' d' where r: "res = Inr (l', d')" by (cases r) auto
  with assms have "moved j d d'" "lMaxOffset l' = lMaxOffset l" "loop_ok k l' d' (f l' d')"
    by (auto simp: loop_ok_def)
  then show ?thesis by (auto simp: r loop_ok_def intro: outcome_ok_trans)
qed

lemma in_descriptor_ok:
  assumes "valid d" "mOffset d < lMaxOffset l" "lMaxOffset l \<le> mMaxOffset d"
    and body: "reader_ok (lMaxOffset l - mOffset d) k body"
  shows "loop_ok k l d (in_descriptor body l d)"
proof -
  let ?c = "\<lparr>mOffset = mOffset d, mMaxOffset = lMaxOffset l, mData = mData d, mJsonObj = [], mKey = []\<rparr>"
  have "valid ?c" using assms(1-3) by (auto simp: valid_def)
  with body have "outcome_ok k ?c (body ?c)" by (simp add: reader_ok_def)
  then show ?thesis using assms(1-3)
    by (auto simp: in_descriptor_def Descriptor_def hasAnotherDescriptor_def End_descriptor_def
        loop_ok_def outcome_ok_def moved_def valid_def split: sum.splits)
qed

lemma descriptor_while_ok:
  assumes "valid d" "mOffset d \<le> lMaxOffset l" "lMaxOffset l \<le> mMaxOffset d"
    and "lMaxOffset l - mOffset d + 1 < fuel"
    and "\<And>f B. f < fuel \<Longrightarrow> B < f \<Longrightarrow> reader_ok B 16 (body f)"
  shows "loop_ok 0 l d (descriptor_while body fuel l d)"
  using assms
proof (induction fuel arbitrary: l d)
  case (Suc fuel)
  show ?case
  proof (cases "hasAnotherDescriptor l d")
    case True
    then have lt: "mOffset d < lMaxOffset l" by (simp add: hasAnotherDescriptor_def)
    have first: "loop_ok 16 l d (in_descriptor (body fuel) l d)"
      using Suc.prems lt by (intro in_descriptor_ok) simp_all
    have rest: "loop_ok 0 l' d' (descriptor_while body fuel l' d')"
      if "in_descriptor (body fuel) l d = Inr (l', d')" for l' d'
      using first Suc.prems lt that by (intro Suc.IH) (auto simp: loop_ok_def moved_def)
    have "loop_ok (16 + 0) l d (case in_descriptor (body fuel) l d of
        Inl e \<Rightarrow> Inl e | Inr (l', d') \<Rightarrow> descriptor_while body fuel l' d')"
      using first rest by (rule loop_ok_trans)
    then show ?thesis using True by (auto simp: rbind_def loop_ok_def intro: outcome_mono)
  next
    case False
    then show ?thesis using Suc.prems by (auto simp: loop_ok_def moved_def hasAnotherDescriptor_def)
  qed
qed simp

lemma descriptor_loop_ok:
  assumes "B + 1 < fuel" and "\<And>f B. f < fuel \<Longrightarrow> B < f \<Longrightarrow> reader_ok B 16 (body f)"
  shows "reader_ok B 0 (descriptor_loop key body fuel len)"
proof (unfold reader_ok_def, intro allI impI)
  fix d assume d: "valid d" "mMaxOffset d - mOffset d \<le> B"
  show "outcome_ok 0 d (descriptor_loop key body fuel len d)"
  proof (cases "DescriptorLoop key len d")
    case (Inl e)
    then show ?thesis by (auto simp: descriptor_loop_def DescriptorLoop_def split: if_splits)
  next
    case (Inr l)
    then have l: "mOffset d \<le> lMaxOffset l" "lMaxOffset l \<le> mMaxOffset d"
      by (auto simp: DescriptorLoop_def split: if_splits)
    then have "lMaxOffset l - mOffset d + 1 < fuel" using d(2) assms(1) by linarith
    with l d assms(2) have "loop_ok 0 l d (descriptor_while body fuel l d)"
      by (intro descriptor_while_ok) simp_all
    with Inr show ?thesis
      by (auto simp: descriptor_loop_def rbind_def loop_ok_def outcome_ok_def End_loop_def
          addDescriptors_def split: sum.splits)
  qed
qed

lemma in_subsection_ok:
  assumes "\<And>B. reader_ok B 0 body"
  shows "reader_ok B 0 (in_subsection key len body)"
proof (unfold reader_ok_def, intro allI impI)
  fix d assume d: "valid d"
  show "outcome_ok 0 d (in_subsection key len body d)"
  proof (cases "Subsection key len d")
    case (Inl e)
    then show ?thesis by (auto simp: in_subsection_def Subsection_def split: if_splits)
  next
    case (Inr c)
    then have c: "valid c" "mOffset c = mOffset d" "mMaxOffset c \<le> mMaxOffset d" "mData c = mData d"
      using d by (auto simp: Subsection_def valid_def split: if_splits)
    with assms have "outcome_ok 0 c (body c)" by (meson order_refl reader_ok_def)
    with c d Inr show ?thesis
      by (auto simp: in_subsection_def End_subsection_def outcome_ok_def split: sum.splits)
        (auto simp: moved_def valid_def)
  qed
qed

section \<open>The section parser is safe and ends\<close>

lemma upid_loop_while: "SCTE35UpidLoop fuel l = descriptor_while SCTE35ParseUpids fuel l"
proof (induction fuel arbitrary: l)
  case (Suc fuel)
  then have "SCTE35UpidLoop fuel = descriptor_while SCTE35ParseUpids fuel" by (intro ext) simp
  then show ?case by (intro ext) simp
qed (simp add: fun_eq_iff)

lemma upid_list_loop:
  "(\<lambda>d. case DescriptorLoop key len d of Inl e \<Rightarrow> Inl e | Inr l \<Rightarrow> rbind (SCTE35UpidLoop fuel l) End_loop d)
     = descriptor_loop key SCTE35ParseUpids fuel len"
  by (rule ext) (simp add: descriptor_loop_def upid_loop_while cong: sum.case_cong)

lemma two_bytes_ok:
  assumes "\<And>x y. 16 \<le> B \<Longrightarrow> reader_ok (B - 16) 0 (f x y)"
  shows "reader_ok B 16 (rbind (rByte k1) (\<lambda>x. rbind (rByte k2) (\<lambda>y. f x y)))"
proof -
  have "reader_ok (B - 8) (8 + 0) (rbind (rByte k2) (f x))" if "8 \<le> B" for x
  proof (intro ok_bind byte_field.ok)
    fix y assume "8 \<le> B - 8"
    with assms [of x y] show "reader_ok (B - 8 - 8) 0 (f x y)" by simp
  qed
  then have "reader_ok B (8 + 8) (rbind (rByte k1) (\<lambda>x. rbind (rByte k2) (f x)))"
    by (intro ok_bind byte_field.ok) simp
  then show ?thesis by simp
qed

lemma parse_upids_ok: "B < fuel \<Longrightarrow> reader_ok B 16 (SCTE35ParseUpids fuel)"
proof (induction fuel arbitrary: B rule: less_induct)
  case (less n)
  then obtain f where n: "n = Suc f" by (cases n) auto
  have "reader_ok (B - 16) 0 (descriptor_loop ''MID'' SCTE35ParseUpids f len)" if "16 \<le> B" for len
    using less n that by (intro descriptor_loop_ok) simp_all
  then show ?case
    unfolding n SCTE35ParseUpids.simps upid_list_loop
    by (intro two_bytes_ok) (auto intro!: ok_return ok_seq0 fields_ok0)
qed

lemma parse_upids_ok0: "B < fuel \<Longrightarrow> reader_ok B 0 (SCTE35ParseUpids fuel)"
  using ok_mono [of B 16 "SCTE35ParseUpids fuel" 0 B] parse_upids_ok [of B fuel] by simp

lemmas reader_intros = ok_return ok_throw ok_seq0 ok_bind0 fields_ok0

lemma restrictions_ok: "reader_ok B 0 parse_restrictions"
  unfolding parse_restrictions_def by (auto intro!: reader_intros)

lemma ok_state_cond:
  "reader_ok B k r \<Longrightarrow> reader_ok B k s \<Longrightarrow> reader_ok B k (\<lambda>d. if P d then r d else s d)"
  by (simp add: reader_ok_def)

lemma segmentation_tail_ok: "reader_ok B 0 parse_segmentation_tail"
  unfolding parse_segmentation_tail_def by (intro reader_intros ok_state_cond)

lemma segmentation_descriptor_ok: "B < fuel \<Longrightarrow> reader_ok B 0 (parse_segmentation_descriptor fuel)"
  unfolding parse_segmentation_descriptor_def
  by (auto intro!: reader_intros restrictions_ok segmentation_tail_ok parse_upids_ok0)

lemma splice_descriptor_ok: "B < fuel \<Longrightarrow> reader_ok B 16 (parse_splice_descriptor fuel)"
  unfolding parse_splice_descriptor_def
  by (intro two_bytes_ok) (auto intro!: segmentation_descriptor_ok fields_ok0)

lemma splice_command_ok: "reader_ok B 0 (parse_splice_command command_type len)"
  unfolding parse_splice_command_def by (auto intro!: reader_intros)

lemma header_ok: "reader_ok B 0 parse_header"
  unfolding parse_header_def by (auto intro!: reader_intros)

lemma crc_ok: "reader_ok B 0 rCRC32"
  unfolding rCRC32_def
  by (intro ok_bind0 fields_ok0)
    (auto simp: reader_ok_def outcome_ok_def Let_def compute_bitwise moved_def valid_def)

lemma end_section_ok: "reader_ok B 0 End_section"
  by (auto simp: reader_ok_def End_section_def moved_def valid_def)

lemma parse_section_ok: "B + 1 < fuel \<Longrightarrow> reader_ok B 0 (SCTE35ParseSection fuel)"
  unfolding SCTE35ParseSection_def
  by (auto intro!: reader_intros header_ok in_subsection_ok splice_command_ok descriptor_loop_ok
      splice_descriptor_ok crc_ok end_section_ok)

lemma valid_new_decoder: "valid (new_decoder bytes)"
  by (simp add: valid_def new_decoder_def)

lemma section_outcome: "valid d \<Longrightarrow> outcome_ok 0 d (SCTE35ParseSection (section_fuel d) d)"
  using parse_section_ok [of "mMaxOffset d - mOffset d" "section_fuel d"]
  by (simp add: reader_ok_def section_fuel_def)

lemma run_section_ok:
  "valid d \<Longrightarrow> run_section d = Inl e \<Longrightarrow> \<exists>m. e = DataException m"
  using section_outcome [of d] by (auto simp: run_section_def outcome_ok_def split: sum.splits)

section \<open>What an accepted section satisfies\<close>

lemma rbind_Inr: "rbind m f d = Inr r \<longleftrightarrow> (\<exists>x d1. m d = Inr (x, d1) \<and> f x d1 = Inr r)"
  by (auto simp: rbind_def split: sum.splits)

lemma rseq_Inr: "rseq m k d = Inr r \<longleftrightarrow> (\<exists>x d1. m d = Inr (x, d1) \<and> k d1 = Inr r)"
  by (simp add: rseq_def rbind_Inr)

lemma ok_moved: "(\<And>B. reader_ok B k r) \<Longrightarrow> r d = Inr (x, d') \<Longrightarrow> valid d \<Longrightarrow> moved k d d'"
  by (metis order_refl outcome_ok_Inr reader_ok_def)

lemma same_section: "moved k d d' \<Longrightarrow> valid d' \<and> mData d' = mData d \<and> mMaxOffset d' = mMaxOffset d"
  by (simp add: moved_def)

text \<open>Everything before the CRC: header, command and descriptors.\<close>

definition section_body :: "nat \<Rightarrow> unit reader" where
  "section_body fuel =
     rseq parse_header
     (rbind (rBits ''splice_command_length'' 12) (\<lambda>command_length.
      rbind (rByte ''splice_command_type'') (\<lambda>command_type.
      rseq (in_subsection ''splice_command'' (unat command_length)
              (parse_splice_command command_type (unat command_length)))
      (rbind (rShort ''descriptor_loop_length'') (\<lambda>loop_length.
       descriptor_loop ''descriptors'' parse_splice_descriptor fuel (unat loop_length))))))"

lemma rbind_assoc: "rbind (rbind m f) g = rbind m (\<lambda>x. rbind (f x) g)"
  by (rule ext) (simp add: rbind_def split: sum.split)

lemma section_split: "SCTE35ParseSection fuel = rseq (section_body fuel) (rseq rCRC32 End_section)"
  by (simp add: SCTE35ParseSection_def section_body_def rseq_def rbind_assoc)

lemma section_body_ok: "B + 1 < fuel \<Longrightarrow> reader_ok B 0 (section_body fuel)"
  unfolding section_body_def
  by (auto intro!: reader_intros header_ok in_subsection_ok splice_command_ok descriptor_loop_ok
      splice_descriptor_ok)

lemma parse_header_table_id:
  assumes "parse_header d = Inr (x, d')" "mOffset d = 0"
  shows "mData d \<noteq> [] \<and> hd (mData d) = 0xfc"
  using assms
  by (auto simp: parse_header_def rbind_Inr rByte_def data_at_def rthrow_def hd_conv_nth
      split: if_splits)

lemma section_body_table_id:
  assumes "section_body fuel d = Inr (x, d')" "mOffset d = 0"
  shows "mData d \<noteq> [] \<and> hd (mData d) = 0xfc"
  using assms parse_header_table_id [of d] by (fastforce simp: section_body_def rseq_Inr)

lemma crc_accepts:
  assumes "rCRC32 d = Inr (v, d')"
  shows "crc_bitwise (take (mMaxOffset d div 8) (mData d)) 0xffffffff = 0
    \<and> rInteger ''CRC32'' d = Inr (v, d')"
  using assms integer_field.reads
  by (auto simp: rCRC32_def rbind_Inr Let_def compute_bitwise rInteger_def add_item_def advance_def
      split: if_splits sum.splits)

lemma accepted_section:
  assumes "SCTE35ParseSection fuel d = Inr (x, d')" "valid d" "mMaxOffset d + 1 < fuel"
  obtains d1 v where "section_body fuel d = Inr ((), d1)" "moved 0 d d1"
    "rInteger ''CRC32'' d1 = Inr (v, d')" "mOffset d' = mMaxOffset d"
    "crc_bitwise (take (mMaxOffset d div 8) (mData d)) 0xffffffff = 0" "mMaxOffset d' = mMaxOffset d"
proof -
  obtain d1 v d2 where b: "section_body fuel d = Inr ((), d1)" and c: "rCRC32 d1 = Inr (v, d2)"
    and e: "End_section d2 = Inr (x, d')"
    using assms(1) by (auto simp: section_split rseq_Inr)
  have "reader_ok (mMaxOffset d) 0 (section_body fuel)" using assms(3) by (rule section_body_ok)
  with assms(2) b have m1: "moved 0 d d1"
    by (metis diff_le_self outcome_ok_Inr reader_ok_def)
  then have "valid d1" and same: "mData d1 = mData d" "mMaxOffset d1 = mMaxOffset d"
    using same_section by blast+
  then have m2: "moved 0 d1 d2" using ok_moved [OF crc_ok c] by simp
  have fin: "d' = d2" "mOffset d2 = mMaxOffset d2"
    using e by (auto simp: End_section_def split: if_splits)
  show thesis using that b m1 crc_accepts [OF c] same fin same_section [OF m2] by metis
qed

end
