(* ===== verification/Scte35_Roundtrip.thy ===== *)
theory Scte35_Roundtrip
  imports Scte35
begin

text \<open>
  What the SCTE-35 parser reads, as bits.  A writer lays a splice information section out field by
  field; the lemmas show for every reader which bits it consumes and what it records, and combine
  them into the round trip: a written section is read back.  The properties of the parser are at
  the end.
\<close>

unbundle bit_operations_syntax

section \<open>The bits of a section\<close>

definition bits_of :: "u8 list \<Rightarrow> bool list" where
  "bits_of bytes = concat (map byte_bits bytes)"

definition bit_step :: "'w::len word \<Rightarrow> bool \<Rightarrow> 'w word" where
  "bit_step w x = push_bit 1 w OR of_bool x"

fun to_bits :: "nat \<Rightarrow> nat \<Rightarrow> bool list" where
  "to_bits 0 v = []"
| "to_bits (Suc n) v = bit v n # to_bits n v"

lemma length_to_bits [simp]: "length (to_bits n v) = n"
  by (induction n) auto

lemma length_byte_bits [simp]: "length (byte_bits b) = 8"
  by (simp add: byte_bits_def)

lemma bits_of_Nil [simp]: "bits_of [] = []"
  and bits_of_Cons: "bits_of (b # bs) = byte_bits b @ bits_of bs"
  and bits_of_append: "bits_of (bs @ cs) = bits_of bs @ bits_of cs"
  by (simp_all add: bits_of_def)

lemma length_bits_of [simp]: "length (bits_of bytes) = 8 * length bytes"
  by (induction bytes) (auto simp: bits_of_Cons)

lemma drop_bits_of: "drop (8 * n) (bits_of bytes) = bits_of (drop n bytes)"
proof (induction n arbitrary: bytes)
  case (Suc n)
  then show ?case by (cases bytes) (simp_all add: bits_of_Cons)
qed simp

lemma take_bits_of: "take (8 * n) (bits_of bytes) = bits_of (take n bytes)"
proof (induction n arbitrary: bytes)
  case (Suc n)
  then show ?case by (cases bytes) (simp_all add: bits_of_Cons)
qed simp

lemma eight_cases: "(i :: nat) < 8 \<Longrightarrow> i = 0 \<or> i = 1 \<or> i = 2 \<or> i = 3 \<or> i = 4 \<or> i = 5 \<or> i = 6 \<or> i = 7"
  by arith

lemma nth_byte_bits: "i < 8 \<Longrightarrow> byte_bits b ! i = bit b (7 - i)"
  by (drule eight_cases) (elim disjE; simp add: byte_bits_def)

lemma nth_bits_of: "off < 8 * length bytes \<Longrightarrow> bits_of bytes ! off = bit (bytes ! (off div 8)) (7 - off mod 8)"
proof (induction bytes arbitrary: off)
  case (Cons b bytes)
  show ?case
  proof (cases "off < 8")
    case True
    then show ?thesis by (simp add: bits_of_Cons nth_append nth_byte_bits)
  next
    case False
    then have "off div 8 = Suc ((off - 8) div 8)" "off mod 8 = (off - 8) mod 8"
      by (simp_all add: le_div_geq le_mod_geq)
    with False Cons show ?thesis by (simp add: bits_of_Cons nth_append)
  qed
qed simp

lemma mask_test: "b AND drop_bit i (0x80 :: u8) = drop_bit i 0x80 \<longleftrightarrow> bit b (7 - i)" if "i < 8"
proof -
  have "drop_bit i (0x80 :: u8) = 2 ^ (7 - i)"
    using eight_cases [OF that] by (elim disjE) simp_all
  moreover have "bit b (7 - i)" if "b AND 2 ^ (7 - i) = 2 ^ (7 - i)"
  proof -
    have "bit (b AND 2 ^ (7 - i)) (7 - i)" unfolding that by (simp add: bit_simps)
    then show ?thesis by (simp add: bit_and_iff)
  qed
  moreover have "b AND 2 ^ (7 - i) = 2 ^ (7 - i)" if "bit b (7 - i)"
    using that by (intro bit_word_eqI) (auto simp: bit_simps)
  ultimately show ?thesis by auto
qed

lemma data_bit_nth: "off < 8 * length bytes \<Longrightarrow> data_bit bytes off = Inr (bits_of bytes ! off)"
  by (auto simp: data_bit_def data_at_def Let_def mask_test nth_bits_of)

lemma bit_bit_step: "bit (bit_step w x) n \<longleftrightarrow> n < LENGTH('w) \<and> (if n = 0 then x else bit (w :: 'w::len word) (n - 1))"
  unfolding bit_step_def bit_or_iff bit_push_bit_iff bit_of_bool_iff
  by (cases n) (auto dest: bit_imp_le_length)

lemma bit_foldl_step:
  "bit (foldl bit_step w xs) n \<longleftrightarrow>
     n < LENGTH('w) \<and> (if n < length xs then rev xs ! n else bit (w :: 'w::len word) (n - length xs))"
proof (induction xs arbitrary: w)
  case (Cons x xs)
  show ?case
    by (auto simp: Cons.IH bit_bit_step nth_append not_less le_Suc_eq dest: bit_imp_le_length)
qed (auto dest: bit_imp_le_length)

lemma rev_to_bits: "i < n \<Longrightarrow> rev (to_bits n v) ! i = bit v i"
  by (induction n) (auto simp: nth_append less_Suc_eq)

lemma bit_nat_bound: "v < 2 ^ n \<Longrightarrow> bit (v :: nat) i \<Longrightarrow> i < n"
  by (metis bit_take_bit_iff take_bit_nat_eq_self)

lemma foldl_to_bits: "v < 2 ^ n \<Longrightarrow> foldl bit_step 0 (to_bits n v) = (of_nat v :: 'w::len word)"
  by (rule bit_word_eqI) (auto simp: bit_foldl_step rev_to_bits bit_simps dest: bit_nat_bound)

lemma bits_loop_foldl:
  "off + n \<le> 8 * length bytes \<Longrightarrow>
     bits_loop bytes n off w = Inr (foldl bit_step w (take n (drop off (bits_of bytes))))"
proof (induction n arbitrary: off w)
  case (Suc n)
  then have "drop off (bits_of bytes) = bits_of bytes ! off # drop (Suc off) (bits_of bytes)"
    by (intro Cons_nth_drop_Suc [symmetric]) simp
  with Suc.prems Suc.IH [of "Suc off"] show ?case
    by (simp add: data_bit_nth bit_step_def del: push_bit_Suc)
qed simp

lemma byte_foldl: "foldl bit_step w (byte_bits b) = push_bit 8 w OR ucast b"
proof (rule bit_word_eqI)
  fix n assume n: "n < LENGTH('a)"
  have "rev (byte_bits b) ! n = bit b n" if "n < 8"
    using that by (simp add: rev_nth nth_byte_bits)
  then show "bit (foldl bit_step w (byte_bits b)) n = bit (push_bit 8 w OR ucast b) n"
    using n by (auto simp: bit_foldl_step bit_simps dest: bit_imp_le_length)
qed

lemma bytes_loop_foldl:
  "off mod 8 = 0 \<Longrightarrow> off + 8 * n \<le> 8 * length bytes \<Longrightarrow>
     bytes_loop bytes n off w = Inr (foldl bit_step w (take (8 * n) (drop off (bits_of bytes))))"
proof (induction n arbitrary: off w)
  case (Suc n)
  define k where "k = off div 8"
  then have off: "off = 8 * k" and k: "k < length bytes" using Suc.prems by auto
  have "drop off (bits_of bytes) = byte_bits (bytes ! k) @ drop (off + 8) (bits_of bytes)"
    using k Cons_nth_drop_Suc [of k bytes]
    by (metis off drop_bits_of bits_of_Cons mult_Suc_right add.commute)
  then have "take (8 * Suc n) (drop off (bits_of bytes))
      = byte_bits (bytes ! k) @ take (8 * n) (drop (off + 8) (bits_of bytes))" by simp
  with Suc.prems Suc.IH [of "off + 8"] show ?case
    using k off by (simp add: data_at_ok byte_foldl)
qed simp
section \<open>Reading back what is written\<close>

text \<open>
  \<open>view d rest\<close>: the bits left up to the limit of the valid decoder \<open>d\<close>.  \<open>reads a r bits items x\<close>: from
  an offset that is \<open>a\<close> modulo 8, \<open>r\<close> consumes \<open>bits\<close>, records \<open>items\<close> and returns \<open>x\<close>.
\<close>

definition view :: "SCTE35Decoder \<Rightarrow> bool list \<Rightarrow> bool" where
  "view d rest \<longleftrightarrow> valid d \<and> rest = take (mMaxOffset d - mOffset d) (drop (mOffset d) (bits_of (mData d)))"

definition recorded :: "nat \<Rightarrow> scte_item list \<Rightarrow> SCTE35Decoder \<Rightarrow> SCTE35Decoder" where
  "recorded n items d = d\<lparr>mOffset := mOffset d + n, mJsonObj := mJsonObj d @ items\<rparr>"

definition reads :: "nat \<Rightarrow> 'a reader \<Rightarrow> bool list \<Rightarrow> scte_item list \<Rightarrow> 'a \<Rightarrow> bool" where
  "reads a r bits items x \<longleftrightarrow>
     (\<forall>d rest. view d (bits @ rest) \<longrightarrow> mOffset d mod 8 = a \<longrightarrow> r d = Inr (x, recorded (length bits) items d))"

lemma readsD:
  "reads a r bits items x \<Longrightarrow> view d (bits @ rest) \<Longrightarrow> mOffset d mod 8 = a \<Longrightarrow>
     r d = Inr (x, recorded (length bits) items d)"
  by (auto simp: reads_def)

lemma view_length: "view d rest \<Longrightarrow> mOffset d + length rest = mMaxOffset d"
  by (auto simp: view_def valid_def)

lemma view_within: "view d (bits @ rest) \<Longrightarrow> mOffset d + length bits \<le> mMaxOffset d"
  using view_length [of d "bits @ rest"] by simp

lemma view_bits: "view d (bits @ rest) \<Longrightarrow> take (length bits) (drop (mOffset d) (bits_of (mData d))) = bits"
proof -
  assume v: "view d (bits @ rest)"
  then have "take (length bits) (bits @ rest)
      = take (length bits) (take (mMaxOffset d - mOffset d) (drop (mOffset d) (bits_of (mData d))))"
    by (simp add: view_def)
  then show ?thesis using view_within [OF v] by (simp add: min_absorb1)
qed

lemma view_recorded: "view d (bits @ rest) \<Longrightarrow> view (recorded (length bits) items d) rest"
proof -
  assume v: "view d (bits @ rest)"
  then have "rest = drop (length bits) (take (mMaxOffset d - mOffset d) (drop (mOffset d) (bits_of (mData d))))"
    by (simp add: view_def append_eq_conv_conj)
  also have "\<dots> = take (mMaxOffset d - (mOffset d + length bits)) (drop (mOffset d + length bits) (bits_of (mData d)))"
    by (simp add: drop_take add.commute)
  finally show ?thesis using v view_within [OF v] by (simp add: view_def recorded_def valid_def)
qed

lemma recorded_recorded [simp]: "recorded m js (recorded n is d) = recorded (n + m) (is @ js) d"
  by (simp add: recorded_def)

lemma recorded_fields [simp]:
  "mOffset (recorded n items d) = mOffset d + n"
  "mMaxOffset (recorded n items d) = mMaxOffset d"
  "mData (recorded n items d) = mData d"
  by (simp_all add: recorded_def)

lemma reads_bind:
  assumes "reads a m b1 i1 x" "reads ((a + length b1) mod 8) (f x) b2 i2 y"
  shows "reads a (rbind m f) (b1 @ b2) (i1 @ i2) y"
proof (unfold reads_def, intro allI impI)
  fix d rest assume v: "view d ((b1 @ b2) @ rest)" and a: "mOffset d mod 8 = a"
  then have v1: "view d (b1 @ (b2 @ rest))" by simp
  have "(mOffset d + length b1) mod 8 = (a + length b1) mod 8" using a by (simp add: mod_simps flip: a)
  moreover have "m d = Inr (x, recorded (length b1) i1 d)" using assms(1) v1 a unfolding reads_def by blast
  moreover from calculation(1) have "f x (recorded (length b1) i1 d)
      = Inr (y, recorded (length b2) i2 (recorded (length b1) i1 d))"
    using assms(2) view_recorded [OF v1, of i1] unfolding reads_def recorded_fields by fastforce
  ultimately show "rbind m f d = Inr (y, recorded (length (b1 @ b2)) (i1 @ i2) d)"
    by (simp add: rbind_def)
qed

lemma reads_seq:
  "reads a m b1 i1 x \<Longrightarrow> reads ((a + length b1) mod 8) k b2 i2 y \<Longrightarrow> reads a (rseq m k) (b1 @ b2) (i1 @ i2) y"
  unfolding rseq_def by (rule reads_bind)

lemma reads_return: "reads a (rreturn x) [] [] x"
  by (simp add: reads_def rreturn_def recorded_def)

lemma reads_then_return: "reads a m b i x \<Longrightarrow> reads a (rseq m (rreturn ())) b i ()"
  using reads_seq [OF _ reads_return, of a m b i x "()"] by simp

lemma recorded_item: "add_item i (advance n d) = recorded n [i] d"
  by (simp add: add_item_def advance_def recorded_def)

lemma advance_recorded: "advance n d = recorded n [] d"
  by (simp add: advance_def recorded_def)

lemma reads_bits:
  assumes "v < 2 ^ n" "n \<le> 64"
  shows "reads a (rBits key n) (to_bits n v) [NumberItem key v] (of_nat v)"
proof (unfold reads_def, intro allI impI)
  fix d rest assume v: "view d (to_bits n v @ rest)"
  then have "mOffset d + n \<le> mMaxOffset d" "mOffset d + n \<le> 8 * length (mData d)"
    using view_within [OF v] by (auto simp: view_def valid_def)
  moreover have "unat (of_nat v :: u64) = v"
    using assms power_increasing [of n 64 "2 :: nat"] by (simp add: unat_of_nat)
  ultimately show "rBits key n d = Inr (of_nat v, recorded (length (to_bits n v)) [NumberItem key v] d)"
    using view_bits [OF v] assms(1)
    by (simp add: rBits_def bits_loop_foldl foldl_to_bits recorded_item)
qed

lemma reads_bool: "reads a (rBool key) [x] [BoolItem key x] x"
proof (unfold reads_def, intro allI impI)
  fix d rest assume v: "view d ([x] @ rest)"
  then have o: "mOffset d < mMaxOffset d" "mOffset d < 8 * length (mData d)"
    using view_within [OF v] by (auto simp: view_def valid_def)
  then have "bits_of (mData d) ! mOffset d = x"
    using view_bits [OF v] by (simp add: take_Suc_conv_app_nth [of 0, simplified] hd_drop_conv_nth take_Suc)
  with o show "rBool key d = Inr (x, recorded (length [x]) [BoolItem key x] d)"
    by (simp add: rBool_def data_bit_nth recorded_item)
qed

lemma reads_reserved: "reads a (rReservedBits n) (replicate n True) [] ()"
proof (unfold reads_def, intro allI impI)
  fix d rest assume v: "view d (replicate n True @ rest)"
  then have o: "mOffset d + n \<le> mMaxOffset d" "mOffset d + n \<le> 8 * length (mData d)"
    using view_within [OF v] by (auto simp: view_def valid_def)
  have "off + m \<le> 8 * length bytes \<Longrightarrow> take m (drop off (bits_of bytes)) = replicate m True
      \<Longrightarrow> reserved_loop bytes m off = Inr ()" for bytes m off
  proof (induction m arbitrary: off)
    case (Suc m)
    then have "drop off (bits_of bytes) = bits_of bytes ! off # drop (Suc off) (bits_of bytes)"
      by (intro Cons_nth_drop_Suc [symmetric]) simp
    with Suc show ?case by (simp add: data_bit_nth)
  qed simp
  from this [OF o(2)] o show "rReservedBits n d = Inr ((), recorded (length (replicate n True)) [] d)"
    using view_bits [OF v] by (simp add: rReservedBits_def advance_recorded)
qed

lemma reads_byte:
  assumes "v < 2 ^ 8"
  shows "reads 0 (rByte key) (to_bits 8 v) [NumberItem key v] (of_nat v)"
proof (unfold reads_def, intro allI impI)
  fix d rest assume v: "view d (to_bits 8 v @ rest)" and a: "mOffset d mod 8 = 0"
  then have o: "mOffset d + 8 \<le> mMaxOffset d" "mOffset d + 8 * 1 \<le> 8 * length (mData d)"
    using view_within [OF v] by (auto simp: view_def valid_def)
  have "bytes_loop (mData d) 1 (mOffset d) (0 :: u8) = Inr (of_nat v)"
    using view_bits [OF v] assms by (simp add: bytes_loop_foldl [OF a o(2)] foldl_to_bits del: One_nat_def)
  then have "data_at (mData d) (mOffset d div 8) = Inr (of_nat v)"
    by (simp add: One_nat_def split: sum.splits)
  moreover have "unat (of_nat v :: u8) = v" using assms by (simp add: unat_of_nat)
  ultimately show "rByte key d = Inr (of_nat v, recorded (length (to_bits 8 v)) [NumberItem key v] d)"
    using a o by (simp add: rByte_def recorded_item)
qed

lemma reads_short:
  assumes "v < 2 ^ 16"
  shows "reads 0 (rShort key) (to_bits 16 v) [NumberItem key v] (of_nat v)"
proof (unfold reads_def, intro allI impI)
  fix d rest assume v: "view d (to_bits 16 v @ rest)" and a: "mOffset d mod 8 = 0"
  then have o: "mOffset d + 16 \<le> mMaxOffset d" "mOffset d + 8 * 2 \<le> 8 * length (mData d)"
    using view_within [OF v] by (auto simp: view_def valid_def)
  have "unat (of_nat v :: u16) = v" using assms by (simp add: unat_of_nat)
  then show "rShort key d = Inr (of_nat v, recorded (length (to_bits 16 v)) [NumberItem key v] d)"
    using a o view_bits [OF v] assms
    by (simp add: rShort_def bytes_loop_foldl [OF a o(2)] foldl_to_bits recorded_item)
qed

lemma reads_integer:
  assumes "v < 2 ^ 32"
  shows "reads 0 (rInteger key) (to_bits 32 v) [NumberItem key v] (of_nat v)"
proof (unfold reads_def, intro allI impI)
  fix d rest assume v: "view d (to_bits 32 v @ rest)" and a: "mOffset d mod 8 = 0"
  then have o: "mOffset d + 32 \<le> mMaxOffset d" "mOffset d + 8 * 4 \<le> 8 * length (mData d)"
    using view_within [OF v] by (auto simp: view_def valid_def)
  have "unat (of_nat v :: u32) = v" using assms by (simp add: unat_of_nat)
  then show "rInteger key d = Inr (of_nat v, recorded (length (to_bits 32 v)) [NumberItem key v] d)"
    using a o view_bits [OF v] assms
    by (simp add: rInteger_def bytes_loop_foldl [OF a o(2)] foldl_to_bits recorded_item)
qed

lemma reads_skip: "length bits = 8 * n \<Longrightarrow> reads 0 (rSkipBytes n) bits [] ()"
proof (unfold reads_def, intro allI impI)
  fix d rest assume n: "length bits = 8 * n" and v: "view d (bits @ rest)" and a: "mOffset d mod 8 = 0"
  then show "rSkipBytes n d = Inr ((), recorded (length bits) [] d)"
    using view_within [OF v] by (simp add: rSkipBytes_def advance_recorded mult.commute)
qed

lemma byte_bits_inj: "byte_bits b = byte_bits c \<Longrightarrow> b = c"
proof (rule bit_word_eqI)
  fix n assume eq: "byte_bits b = byte_bits c" and "n < LENGTH(8)"
  then have "n = 7 - (7 - n)" "7 - n < 8" by simp_all
  then show "bit b n = bit c n" using nth_byte_bits [of "7 - n"] eq by metis
qed

lemma bits_of_inj: "bits_of bs = bits_of cs \<Longrightarrow> bs = cs"
proof (induction bs arbitrary: cs)
  case Nil
  then show ?case using length_bits_of [of cs] by simp
next
  case (Cons b bs)
  then obtain c cs' where "cs = c # cs'"
    by (cases cs) (auto simp: bits_of_Cons byte_bits_def)
  with Cons show ?case by (auto simp: bits_of_Cons byte_bits_inj)
qed

lemma reads_string:
  assumes "length p = n" "p \<noteq> []"
  shows "reads 0 (rString key n) (bits_of p) [StringItem key (takeWhile (\<lambda>c. c \<noteq> 0) p)] p"
proof (unfold reads_def, intro allI impI)
  fix d rest assume v: "view d (bits_of p @ rest)" and a: "mOffset d mod 8 = 0"
  define k where "k = mOffset d div 8"
  then have k: "mOffset d = 8 * k" using a by auto
  have o: "mOffset d + 8 * n \<le> mMaxOffset d" "k + n \<le> length (mData d)"
    using view_within [OF v] v assms k by (auto simp: view_def valid_def)
  have "bits_of (take n (drop k (mData d))) = bits_of p"
    using view_bits [OF v] assms k by (simp flip: take_bits_of drop_bits_of)
  then have "take n (drop k (mData d)) = p" by (rule bits_of_inj)
  with a o k_def assms show "rString key n d
      = Inr (p, recorded (length (bits_of p)) [StringItem key (takeWhile (\<lambda>c. c \<noteq> 0) p)] d)"
    by (auto simp: rString_def Let_def recorded_item mult.commute)
qed
subsection \<open>Reading loops and subsections\<close>

lemma view_sub:
  assumes "view d (bits @ rest)"
  shows "view \<lparr>mOffset = mOffset d, mMaxOffset = mOffset d + length bits, mData = mData d,
               mJsonObj = js, mKey = key\<rparr> bits"
  using assms view_bits [OF assms] view_within [OF assms] by (simp add: view_def valid_def)

lemma reads_subsection:
  assumes "reads 0 body bits items ()" "length bits = 8 * len"
  shows "reads 0 (in_subsection key len body) bits [ObjectItem key items] ()"
proof (unfold reads_def, intro allI impI)
  fix d rest assume v: "view d (bits @ rest)" and a: "mOffset d mod 8 = 0"
  let ?c = "\<lparr>mOffset = mOffset d, mMaxOffset = mOffset d + length bits, mData = mData d,
             mJsonObj = [], mKey = key\<rparr>"
  have "view ?c (bits @ [])" using view_sub [OF v] by simp
  then have "body ?c = Inr ((), recorded (length bits) items ?c)"
    using assms(1) a unfolding reads_def by fastforce
  moreover have "Subsection key len d = Inr ?c"
    using view_within [OF v] a assms(2) by (simp add: Subsection_def mult.commute)
  ultimately show "in_subsection key len body d = Inr ((), recorded (length bits) [ObjectItem key items] d)"
    by (simp add: in_subsection_def End_subsection_def recorded_def add_item_def)
qed

definition readable :: "(nat \<Rightarrow> unit reader) \<Rightarrow> (bool list \<times> scte_item list) \<Rightarrow> bool" where
  "readable body p \<longleftrightarrow> fst p \<noteq> [] \<and> length (fst p) mod 8 = 0
     \<and> (\<forall>fuel > length (fst p). reads 0 (body fuel) (fst p) (snd p) ())"

lemma descriptor_while_reads:
  assumes "list_all (readable body) ps" "length (concat (map fst ps)) + 1 < fuel"
    and "view d (concat (map fst ps) @ rest)" "mOffset d mod 8 = 0"
    and "lMaxOffset l = mOffset d + length (concat (map fst ps))"
  shows "descriptor_while body fuel l d
    = Inr (l\<lparr>lObjects := lObjects l @ map snd ps\<rparr>, recorded (length (concat (map fst ps))) [] d)"
  using assms
proof (induction ps arbitrary: fuel l d)
  case Nil
  then show ?case by (cases fuel) (simp_all add: hasAnotherDescriptor_def recorded_def)
next
  case (Cons p ps)
  obtain bits items where p: "p = (bits, items)" by fastforce
  obtain f where fuel: "fuel = Suc f" using Cons.prems(2) by (cases fuel) auto
  let ?more = "concat (map fst ps)"
  let ?c = "\<lparr>mOffset = mOffset d, mMaxOffset = lMaxOffset l, mData = mData d, mJsonObj = [], mKey = []\<rparr>"
  have r: "bits \<noteq> []" "length bits mod 8 = 0" "reads 0 (body f) bits items ()"
    using Cons.prems(1,2) by (auto simp: p readable_def fuel)
  have "0 < length bits" using r(1) by simp
  then have short: "length ?more + 1 < f" using Cons.prems(2) by (simp add: p fuel del: length_greater_0_conv)
  have v: "view d ((bits @ ?more) @ rest)" using Cons.prems(3) by (simp add: p)
  have "view ?c (bits @ ?more)"
    using view_sub [OF v, of "[]" "[]"] Cons.prems(5) by (simp add: p)
  then have "body f ?c = Inr ((), recorded (length bits) items ?c)"
    using r(3) Cons.prems(4) unfolding reads_def by fastforce
  moreover have more: "hasAnotherDescriptor l d"
    using Cons.prems(5) r(1) by (simp add: p hasAnotherDescriptor_def)
  ultimately have first: "in_descriptor (body f) l d
      = Inr (l\<lparr>lObjects := lObjects l @ [items]\<rparr>, recorded (length bits) [] d)"
    by (simp add: in_descriptor_def Descriptor_def End_descriptor_def recorded_def)
  have v2: "view (recorded (length bits) [] d) (?more @ rest)"
    using view_recorded [of d bits "?more @ rest"] v by simp
  have "descriptor_while body f (l\<lparr>lObjects := lObjects l @ [items]\<rparr>) (recorded (length bits) [] d)
      = Inr (l\<lparr>lObjects := lObjects l @ [items] @ map snd ps\<rparr>,
             recorded (length ?more) [] (recorded (length bits) [] d))"
    using Cons.prems r v2 short by (subst Cons.IH) (auto simp: p fuel mod_add_eq [symmetric])
  with first more show ?case by (simp add: fuel p rbind_def)
qed

lemma reads_descriptor_loop:
  assumes "list_all (readable body) ps" "length (concat (map fst ps)) + 1 < fuel"
    and "length (concat (map fst ps)) = 8 * len"
  shows "reads 0 (descriptor_loop key body fuel len) (concat (map fst ps)) [ArrayItem key (map snd ps)] ()"
proof (unfold reads_def, intro allI impI)
  fix d rest assume v: "view d (concat (map fst ps) @ rest)" and a: "mOffset d mod 8 = 0"
  let ?l = "\<lparr>lKey = key, lMaxOffset = mOffset d + len * 8, lObjects = []\<rparr>"
  have "DescriptorLoop key len d = Inr ?l"
    using view_within [OF v] a assms(3) by (simp add: DescriptorLoop_def mult.commute)
  moreover have "descriptor_while body fuel ?l d
      = Inr (?l\<lparr>lObjects := lObjects ?l @ map snd ps\<rparr>, recorded (length (concat (map fst ps))) [] d)"
    using assms v a by (intro descriptor_while_reads) simp_all
  ultimately show "descriptor_loop key body fuel len d
      = Inr ((), recorded (length (concat (map fst ps))) [ArrayItem key (map snd ps)] d)"
    using assms(3)
    by (simp add: descriptor_loop_def rbind_def End_loop_def addDescriptors_def recorded_def add_item_def)
qed

lemma reads_u8: "a = 0 \<Longrightarrow> reads a (rByte key) (to_bits 8 (unat b)) [NumberItem key (unat b)] b"
  using reads_byte [of "unat b" key] unat_less_width [of b] by simp

lemma reads_byte': "a = 0 \<Longrightarrow> v < 256 \<Longrightarrow> reads a (rByte key) (to_bits 8 v) [NumberItem key v] (of_nat v)"
  using reads_byte [of v key] by simp

lemma reads_integer': "a = 0 \<Longrightarrow> v < 2 ^ 32 \<Longrightarrow> reads a (rInteger key) (to_bits 32 v) [NumberItem key v] (of_nat v)"
  using reads_integer [of v key] by simp

lemma reads_reserved_seq:
  "reads ((a + n) mod 8) k b i y \<Longrightarrow> reads a (rseq (rReservedBits n) k) (replicate n True @ b) i y"
  using reads_seq [OF reads_reserved, of a n k b i y] by simp

lemma reads_at: "reads b r bits items x \<Longrightarrow> a = b \<Longrightarrow> reads a r bits items x"
  by simp

section \<open>Writing a section\<close>

datatype upid = Upid u8 "u8 list" | Mid "upid list"

fun upid_bits :: "upid \<Rightarrow> bool list" where
  "upid_bits (Upid t p) = to_bits 8 (unat t) @ to_bits 8 (length p) @ bits_of p"
| "upid_bits (Mid us) = to_bits 8 0x0d @ to_bits 8 (length (concat (map upid_bits us)) div 8)
     @ concat (map upid_bits us)"

fun upid_items :: "upid \<Rightarrow> scte_item list" where
  "upid_items (Upid t p) = [NumberItem ''segmentation_upid_type'' (unat t)]
     @ [NumberItem ''segmentation_upid_length'' (length p)]
     @ (if p = [] then []
        else if t = 0x0e then [StringItem ''ADS'' (takeWhile (\<lambda>c. c \<noteq> 0) p)]
        else if t = 0x0f then [StringItem ''URI'' (takeWhile (\<lambda>c. c \<noteq> 0) p)] else [])"
| "upid_items (Mid us) = [NumberItem ''segmentation_upid_type'' 0x0d]
     @ [NumberItem ''segmentation_upid_length'' (length (concat (map upid_bits us)) div 8)]
     @ (if us = [] then [] else [ArrayItem ''MID'' (map upid_items us)])"

fun upid_wf :: "upid \<Rightarrow> bool" where
  "upid_wf (Upid t p) \<longleftrightarrow> t \<noteq> 0x0d \<and> length p < 256"
| "upid_wf (Mid us) \<longleftrightarrow> list_all upid_wf us \<and> length (concat (map upid_bits us)) div 8 < 256"

lemma upid_bits_aligned: "length (upid_bits u) mod 8 = 0"
proof (induction u)
  case (Mid us)
  have "length (concat (map upid_bits us)) mod 8 = 0"
    using Mid by (induction us) (auto simp: mod_add_eq [symmetric])
  then show ?case by (simp add: mod_add_eq [symmetric])
qed (simp add: mod_add_eq [symmetric])

lemma upid_bits_length: "16 \<le> length (upid_bits u)"
  by (cases u) auto

lemma upid_list_aligned: "length (concat (map upid_bits us)) mod 8 = 0"
  by (induction us) (auto simp: upid_bits_aligned mod_add_eq [symmetric])

lemma of_nat_u8: "v < 256 \<Longrightarrow> unat (of_nat v :: u8) = v"
  by (simp add: unat_of_nat)

lemma of_nat_u8_eq: "v < 256 \<Longrightarrow> of_nat v = (w :: u8) \<longleftrightarrow> v = unat w"
  by (auto simp: of_nat_u8)

lemma reads_upids:
  "upid_wf u \<Longrightarrow> length (upid_bits u) < fuel \<Longrightarrow> reads 0 (SCTE35ParseUpids fuel) (upid_bits u) (upid_items u) ()"
proof (induction u arbitrary: fuel)
  case (Upid t p)
  then obtain f where f: "fuel = Suc f" by (cases fuel) auto
  show ?case
    unfolding f SCTE35ParseUpids.simps upid_bits.simps upid_items.simps upid_list_loop
    using Upid.prems
    by (rule_tac reads_bind, rule_tac reads_u8, simp, rule_tac reads_bind, rule_tac reads_byte')
      (auto simp: of_nat_u8 of_nat_u8_eq intro!: reads_return reads_then_return reads_string reads_skip)
next
  case (Mid us)
  then obtain f where f: "fuel = Suc f" by (cases fuel) auto
  let ?n = "length (concat (map upid_bits us))"
  let ?ps = "map (\<lambda>u. (upid_bits u, upid_items u)) us"
  have n: "?n = 8 * (?n div 8)" using upid_list_aligned [of us] by auto
  have pos: "0 < ?n div 8" if "us \<noteq> []"
    using that upid_bits_length [of "hd us"] by (cases us) auto
  have "upid_bits u \<noteq> []" for u using upid_bits_length [of u] by auto
  then have "list_all (readable SCTE35ParseUpids) ?ps"
    using Mid by (auto simp: readable_def list_all_iff upid_bits_aligned)
  then have loop: "reads 0 (descriptor_loop ''MID'' SCTE35ParseUpids f (?n div 8)) (concat (map upid_bits us))
      [ArrayItem ''MID'' (map upid_items us)] ()"
    using reads_descriptor_loop [of SCTE35ParseUpids ?ps f "?n div 8" "''MID''"] n Mid.prems
    by (simp add: f comp_def)
  show ?case
    unfolding f SCTE35ParseUpids.simps upid_bits.simps upid_items.simps upid_list_loop
    using Mid.prems loop pos
    by (rule_tac reads_bind, rule_tac reads_byte', simp, simp, rule_tac reads_bind, rule_tac reads_byte')
      (auto simp: of_nat_u8 of_nat_u8_eq intro!: reads_return)
qed
subsection \<open>Descriptors\<close>

type_synonym restrictions = "(bool \<times> bool \<times> bool \<times> nat) option"

fun restrictions_bits :: "restrictions \<Rightarrow> bool list" where
  "restrictions_bits None = [True] @ replicate 5 True"
| "restrictions_bits (Some (w, r, a, dev)) = [False] @ [w] @ [r] @ [a] @ to_bits 2 dev"

fun restrictions_items :: "restrictions \<Rightarrow> scte_item list" where
  "restrictions_items None = [BoolItem ''delivery_not_restricted_flag'' True] @ []"
| "restrictions_items (Some (w, r, a, dev)) = [BoolItem ''delivery_not_restricted_flag'' False]
     @ [BoolItem ''web_delivery_allowed_flag'' w] @ [BoolItem ''no_regional_blackout_flag'' r]
     @ [BoolItem ''archive_allowed_flag'' a] @ [NumberItem ''device_restrictions'' dev]"

fun restrictions_wf :: "restrictions \<Rightarrow> bool" where
  "restrictions_wf None \<longleftrightarrow> True"
| "restrictions_wf (Some (w, r, a, dev)) \<longleftrightarrow> dev < 4"

lemma length_restrictions_bits [simp]: "length (restrictions_bits r) = 6"
  by (induction r rule: restrictions_bits.induct) simp_all

lemma reads_restrictions:
  "restrictions_wf r \<Longrightarrow> reads a parse_restrictions (restrictions_bits r) (restrictions_items r) ()"
proof (induction r rule: restrictions_bits.induct)
  case 1
  show ?case unfolding parse_restrictions_def restrictions_bits.simps restrictions_items.simps
    by (rule reads_bind, rule reads_bool) (simp add: reads_reserved)
next
  case (2 w r b dev)
  then show ?case unfolding parse_restrictions_def restrictions_bits.simps restrictions_items.simps
    by (rule_tac reads_bind, rule_tac reads_bool, simp only: not_False_eq_True if_True,
        rule_tac reads_seq, rule_tac reads_bool, rule_tac reads_seq, rule_tac reads_bool,
        rule_tac reads_seq, rule_tac reads_bool, rule_tac reads_then_return, rule_tac reads_bits) simp_all
qed

record segmentation =
  sg_duration :: "nat option"
  sg_restrictions :: restrictions
  sg_upid :: upid
  sg_type_id :: u8
  sg_num :: nat
  sg_expected :: nat
  sg_sub :: "(nat \<times> nat) option"

definition sub_bits :: "(nat \<times> nat) option \<Rightarrow> bool list" where
  "sub_bits s = (case s of None \<Rightarrow> [] | Some (n, m) \<Rightarrow> to_bits 8 n @ to_bits 8 m)"

definition sub_items :: "(nat \<times> nat) option \<Rightarrow> scte_item list" where
  "sub_items s = (case s of None \<Rightarrow> [] | Some (n, m) \<Rightarrow>
     [NumberItem ''sub_segment_num'' n] @ [NumberItem ''sub_segments_expected'' m])"

definition tail_bits :: "segmentation \<Rightarrow> bool list" where
  "tail_bits g = to_bits 8 (unat (sg_type_id g)) @ to_bits 8 (sg_num g) @ to_bits 8 (sg_expected g)
     @ sub_bits (sg_sub g)"

definition tail_items :: "segmentation \<Rightarrow> scte_item list" where
  "tail_items g = [NumberItem ''segmentation_type_id'' (unat (sg_type_id g))]
     @ [NumberItem ''segment_num'' (sg_num g)] @ [NumberItem ''segments_expected'' (sg_expected g)]
     @ sub_items (sg_sub g)"

definition tail_wf :: "segmentation \<Rightarrow> bool" where
  "tail_wf g \<longleftrightarrow> sg_num g < 256 \<and> sg_expected g < 256
     \<and> (case sg_sub g of None \<Rightarrow> \<not> has_sub_segments (sg_type_id g)
        | Some (n, m) \<Rightarrow> has_sub_segments (sg_type_id g) \<and> n < 256 \<and> m < 256)"

lemma reads_state_cond:
  assumes "reads a r bits items x" and "\<And>d rest. view d (bits @ rest) \<Longrightarrow> P d"
  shows "reads a (\<lambda>d. if P d then r d else s d) bits items x"
  using assms unfolding reads_def by metis

lemma reads_sub_segments:
  assumes "tail_wf g"
  shows "reads 0 (\<lambda>d. if \<not> isEnd d \<and> has_sub_segments (sg_type_id g)
      then rseq (rByte ''sub_segment_num'') (rseq (rByte ''sub_segments_expected'') (rreturn ())) d
      else rreturn () d) (sub_bits (sg_sub g)) (sub_items (sg_sub g)) ()"
proof (cases "sg_sub g")
  case None
  with assms show ?thesis by (simp add: tail_wf_def sub_bits_def sub_items_def reads_return)
next
  case (Some p)
  then obtain n m where p: "sg_sub g = Some (n, m)" by (cases p) auto
  with assms have wf: "has_sub_segments (sg_type_id g)" "n < 256" "m < 256" by (auto simp: tail_wf_def)
  have "reads 0 (rseq (rByte ''sub_segment_num'') (rseq (rByte ''sub_segments_expected'') (rreturn ())))
      (sub_bits (sg_sub g)) (sub_items (sg_sub g)) ()"
    unfolding p sub_bits_def sub_items_def option.case prod.case
    using wf by (rule_tac reads_seq, rule_tac reads_byte', simp, simp, rule_tac reads_then_return,
        rule_tac reads_byte') simp_all
  moreover have "\<not> isEnd d" if "view d (sub_bits (sg_sub g) @ rest)" for d rest
    using view_within [OF that] by (simp add: p sub_bits_def isEnd_def)
  ultimately show ?thesis using wf(1) by (intro reads_state_cond) simp_all
qed

lemma reads_tail: "tail_wf g \<Longrightarrow> reads 0 parse_segmentation_tail (tail_bits g) (tail_items g) ()"
  unfolding parse_segmentation_tail_def tail_bits_def tail_items_def
  by (rule reads_bind, rule reads_u8, simp, rule reads_seq, rule reads_byte', simp,
      simp add: tail_wf_def, rule reads_seq, rule reads_byte', simp, simp add: tail_wf_def,
      rule reads_at, erule reads_sub_segments, simp)

text \<open>A descriptor: a cancelled or a running segmentation event, or a descriptor of another kind.\<close>

datatype splice_desc =
    Segmentation nat nat "segmentation option"
  | Unknown u8 "u8 list"

definition duration_bits :: "nat option \<Rightarrow> bool list" where
  "duration_bits t = (case t of None \<Rightarrow> [] | Some v \<Rightarrow> to_bits 40 v)"

definition duration_items :: "nat option \<Rightarrow> scte_item list" where
  "duration_items t = (case t of None \<Rightarrow> [] | Some v \<Rightarrow> [NumberItem ''segmentation_duration'' v])"

fun event_bits :: "segmentation option \<Rightarrow> bool list" where
  "event_bits None = [True] @ replicate 7 True"
| "event_bits (Some g) = [False] @ replicate 7 True @ [True] @ [sg_duration g \<noteq> None]
     @ restrictions_bits (sg_restrictions g) @ duration_bits (sg_duration g)
     @ upid_bits (sg_upid g) @ tail_bits g"

fun event_items :: "segmentation option \<Rightarrow> scte_item list" where
  "event_items None = [BoolItem ''segmentation_event_cancel_indicator'' True] @ []"
| "event_items (Some g) = [BoolItem ''segmentation_event_cancel_indicator'' False]
     @ [BoolItem ''program_segmentation_flag'' True]
     @ [BoolItem ''segmentation_duration_flag'' (sg_duration g \<noteq> None)]
     @ restrictions_items (sg_restrictions g) @ duration_items (sg_duration g)
     @ upid_items (sg_upid g) @ tail_items g"

fun event_wf :: "segmentation option \<Rightarrow> bool" where
  "event_wf None \<longleftrightarrow> True"
| "event_wf (Some g) \<longleftrightarrow> restrictions_wf (sg_restrictions g) \<and> upid_wf (sg_upid g) \<and> tail_wf g
     \<and> (case sg_duration g of None \<Rightarrow> True | Some v \<Rightarrow> v < 2 ^ 40)"

definition payload_bits :: "splice_desc \<Rightarrow> bool list" where
  "payload_bits s = (case s of
      Segmentation ident event ev \<Rightarrow> to_bits 32 ident @ to_bits 32 event @ event_bits ev
    | Unknown tag p \<Rightarrow> bits_of p)"

fun desc_bits :: "splice_desc \<Rightarrow> bool list" where
  "desc_bits (Segmentation ident event ev) = to_bits 8 0x02
     @ to_bits 8 (length (payload_bits (Segmentation ident event ev)) div 8)
     @ to_bits 32 ident @ to_bits 32 event @ event_bits ev"
| "desc_bits (Unknown tag p) = to_bits 8 (unat tag) @ to_bits 8 (length p) @ bits_of p"

fun desc_items :: "splice_desc \<Rightarrow> scte_item list" where
  "desc_items (Segmentation ident event ev) = [NumberItem ''splice_descriptor_tag'' 0x02]
     @ [NumberItem ''descriptor_length'' (length (payload_bits (Segmentation ident event ev)) div 8)]
     @ [NumberItem ''identifier'' ident] @ [NumberItem ''segmentation_event_id'' event] @ event_items ev"
| "desc_items (Unknown tag p) = [NumberItem ''splice_descriptor_tag'' (unat tag)]
     @ [NumberItem ''descriptor_length'' (length p)] @ []"

fun desc_wf :: "splice_desc \<Rightarrow> bool" where
  "desc_wf (Segmentation ident event ev) \<longleftrightarrow> ident < 2 ^ 32 \<and> event < 2 ^ 32 \<and> event_wf ev
     \<and> length (payload_bits (Segmentation ident event ev)) div 8 < 256"
| "desc_wf (Unknown tag p) \<longleftrightarrow> tag \<noteq> 0x02 \<and> length p < 256"

lemma duration_aligned: "length (duration_bits t) mod 8 = 0"
  by (simp add: duration_bits_def split: option.split)

lemma tail_aligned: "length (tail_bits g) mod 8 = 0"
  by (simp add: tail_bits_def sub_bits_def split: option.split)

lemma event_aligned: "length (event_bits ev) mod 8 = 0"
  using duration_aligned tail_aligned upid_bits_aligned
  by (cases ev) (simp_all add: mod_add_eq [symmetric])

lemma desc_aligned: "length (desc_bits s) mod 8 = 0"
  using event_aligned by (cases s) (simp_all add: mod_add_eq [symmetric])

lemma reads_duration:
  "(case t of None \<Rightarrow> True | Some v \<Rightarrow> v < 2 ^ 40) \<Longrightarrow>
   reads a (if t \<noteq> None then rseq (rBits ''segmentation_duration'' 40) (rreturn ()) else rreturn ())
     (duration_bits t) (duration_items t) ()"
  by (auto simp: duration_bits_def duration_items_def split: option.splits
      intro!: reads_return reads_then_return reads_bits)

lemma reads_event:
  assumes "event_wf ev" "length (event_bits ev) < fuel" "a = 0"
  shows "reads a (rbind (rBool ''segmentation_event_cancel_indicator'') (\<lambda>cancel.
        if \<not> cancel then
          rseq (rReservedBits 7)
          (rbind (rBool ''program_segmentation_flag'') (\<lambda>program.
             if \<not> program then rthrow ''program_segmentation_flag zero not supported''
             else
               rbind (rBool ''segmentation_duration_flag'') (\<lambda>has_duration.
               rseq parse_restrictions
               (rseq (if has_duration then rseq (rBits ''segmentation_duration'' 40) (rreturn ()) else rreturn ())
               (rseq (SCTE35ParseUpids fuel) parse_segmentation_tail)))))
        else rReservedBits 7)) (event_bits ev) (event_items ev) ()"
proof (cases ev)
  case None
  show ?thesis unfolding None event_bits.simps event_items.simps
    by (rule reads_bind, rule reads_bool) (simp add: reads_reserved)
next
  case (Some g)
  with assms have wf: "restrictions_wf (sg_restrictions g)" "upid_wf (sg_upid g)" "tail_wf g"
    "case sg_duration g of None \<Rightarrow> True | Some v \<Rightarrow> v < 2 ^ 40" "length (upid_bits (sg_upid g)) < fuel"
    by auto
  have dur: "length (duration_bits (sg_duration g)) mod 8 = 0"
    and up: "length (upid_bits (sg_upid g)) mod 8 = 0" by (simp_all add: duration_aligned upid_bits_aligned)
  show ?thesis unfolding Some event_bits.simps event_items.simps
    apply (rule reads_bind, rule reads_bool, simp only: not_False_eq_True if_True)
    apply (rule reads_reserved_seq, rule reads_bind, rule reads_bool, simp only: not_True_eq_False if_False)
    apply (rule reads_bind, rule reads_bool, rule reads_seq, rule reads_restrictions, rule wf)
    apply (rule reads_seq, rule reads_duration, rule wf, rule reads_seq, rule reads_at, rule reads_upids, rule wf)
    using dur up assms(3) wf(3,5)
    by (auto simp: mod_simps mod_add_eq [symmetric] intro: reads_at [OF reads_tail])
qed
lemma event_fuel: "16 + length (event_bits ev) \<le> length (desc_bits (Segmentation ident event ev))"
  by simp

lemma reads_descriptor:
  assumes "desc_wf s" "length (desc_bits s) < fuel"
  shows "reads 0 (parse_splice_descriptor fuel) (desc_bits s) (desc_items s) ()"
proof (cases s)
  case (Segmentation ident event ev)
  with assms have wf: "ident < 2 ^ 32" "event < 2 ^ 32" "event_wf ev" "length (event_bits ev) < fuel"
    "length (payload_bits s) div 8 < 256" by auto
  have "reads 0 (parse_segmentation_descriptor fuel)
      (to_bits 32 ident @ to_bits 32 event @ event_bits ev)
      ([NumberItem ''identifier'' ident] @ [NumberItem ''segmentation_event_id'' event] @ event_items ev) ()"
    unfolding parse_segmentation_descriptor_def
    by (rule reads_seq, rule reads_integer', simp, rule wf, rule reads_seq, rule reads_integer', simp,
        rule wf, rule reads_event, rule wf, rule wf, simp)
  with wf(5) show ?thesis unfolding Segmentation parse_splice_descriptor_def desc_bits.simps desc_items.simps
    by (rule_tac reads_bind, rule_tac reads_byte', simp, simp, rule_tac reads_bind, rule_tac reads_byte') simp_all
next
  case (Unknown tag p)
  with assms show ?thesis unfolding Unknown parse_splice_descriptor_def desc_bits.simps desc_items.simps
    by (rule_tac reads_bind, rule_tac reads_u8, simp, rule_tac reads_bind, rule_tac reads_byte')
      (auto simp: of_nat_u8 intro!: reads_skip)
qed

lemma desc_bits_nonempty: "desc_bits s \<noteq> []"
  by (cases s) (simp_all flip: length_greater_0_conv)

lemma descriptor_readable: "desc_wf s \<Longrightarrow> readable parse_splice_descriptor (desc_bits s, desc_items s)"
  by (simp add: readable_def desc_aligned reads_descriptor desc_bits_nonempty)

subsection \<open>The section\<close>

datatype splice_command = TimeSignal "nat option" | OtherCommand u8 "u8 list"

fun command_type :: "splice_command \<Rightarrow> u8" where
  "command_type (TimeSignal t) = 0x06"
| "command_type (OtherCommand ty p) = ty"

fun command_bits :: "splice_command \<Rightarrow> bool list" where
  "command_bits (TimeSignal None) = [False] @ replicate 7 True"
| "command_bits (TimeSignal (Some t)) = [True] @ replicate 6 True @ to_bits 33 t"
| "command_bits (OtherCommand ty p) = bits_of p"

fun command_items :: "splice_command \<Rightarrow> scte_item list" where
  "command_items (TimeSignal None) = [BoolItem ''time_specified_flag'' False] @ []"
| "command_items (TimeSignal (Some t)) =
     [BoolItem ''time_specified_flag'' True] @ [NumberItem ''pts_time'' t]"
| "command_items (OtherCommand ty p) = []"

fun command_wf :: "splice_command \<Rightarrow> bool" where
  "command_wf (TimeSignal None) \<longleftrightarrow> True"
| "command_wf (TimeSignal (Some t)) \<longleftrightarrow> t < 2 ^ 33"
| "command_wf (OtherCommand ty p) \<longleftrightarrow> ty \<noteq> 0x06 \<and> length p < 2 ^ 12"

lemma command_aligned: "length (command_bits c) mod 8 = 0"
  by (induction c rule: command_bits.induct) simp_all

lemma command_length: "command_wf c \<Longrightarrow> length (command_bits c) div 8 < 2 ^ 12"
  by (induction c rule: command_bits.induct) simp_all

lemma reads_command:
  "command_wf c \<Longrightarrow> reads 0 (parse_splice_command (command_type c) (length (command_bits c) div 8))
     (command_bits c) (command_items c) ()"
proof (induction c rule: command_bits.induct)
  case 1
  show ?case unfolding parse_splice_command_def command_bits.simps command_items.simps command_type.simps
    by (simp only: simp_thms if_True, rule reads_bind, rule reads_bool) (simp add: reads_reserved)
next
  case (2 t)
  then show ?case unfolding parse_splice_command_def command_bits.simps command_items.simps command_type.simps
    by (simp only: simp_thms if_True, rule_tac reads_bind, rule_tac reads_bool, simp only: if_True,
        rule_tac reads_reserved_seq, rule_tac reads_then_return, rule_tac reads_bits) simp_all
next
  case (3 ty p)
  then show ?case by (simp add: parse_splice_command_def reads_skip)
qed

record splice_section =
  sc_syntax_indicator :: bool
  sc_private :: bool
  sc_sap :: nat
  sc_length :: nat
  sc_version :: nat
  sc_encrypted :: bool
  sc_algorithm :: nat
  sc_pts_adjustment :: nat
  sc_cw_index :: nat
  sc_tier :: nat
  sc_command :: splice_command
  sc_descriptors :: "splice_desc list"

definition header_bits :: "splice_section \<Rightarrow> bool list" where
  "header_bits s = to_bits 8 0xfc @ [sc_syntax_indicator s] @ [sc_private s] @ to_bits 2 (sc_sap s)
     @ to_bits 12 (sc_length s) @ to_bits 8 (sc_version s) @ [sc_encrypted s]
     @ to_bits 6 (sc_algorithm s) @ to_bits 33 (sc_pts_adjustment s) @ to_bits 8 (sc_cw_index s)
     @ to_bits 12 (sc_tier s)"

definition header_items :: "splice_section \<Rightarrow> scte_item list" where
  "header_items s = [NumberItem ''table_id'' 0xfc]
     @ [BoolItem ''section_syntax_indicator'' (sc_syntax_indicator s)]
     @ [BoolItem ''private_indicator'' (sc_private s)] @ [NumberItem ''sap_type'' (sc_sap s)]
     @ [NumberItem ''section_length'' (sc_length s)] @ [NumberItem ''protocol_version'' (sc_version s)]
     @ [BoolItem ''encrypted_packet'' (sc_encrypted s)]
     @ [NumberItem ''encryption_algorithm'' (sc_algorithm s)]
     @ [NumberItem ''pts_adjustment'' (sc_pts_adjustment s)] @ [NumberItem ''cw_index'' (sc_cw_index s)]
     @ [NumberItem ''tier'' (sc_tier s)]"

definition loop_bits :: "splice_section \<Rightarrow> bool list" where
  "loop_bits s = concat (map desc_bits (sc_descriptors s))"

definition body_bits :: "splice_section \<Rightarrow> bool list" where
  "body_bits s = header_bits s @ to_bits 12 (length (command_bits (sc_command s)) div 8)
     @ to_bits 8 (unat (command_type (sc_command s))) @ command_bits (sc_command s)
     @ to_bits 16 (length (loop_bits s) div 8) @ loop_bits s"

definition body_items :: "splice_section \<Rightarrow> scte_item list" where
  "body_items s = header_items s
     @ [NumberItem ''splice_command_length'' (length (command_bits (sc_command s)) div 8)]
     @ [NumberItem ''splice_command_type'' (unat (command_type (sc_command s)))]
     @ [ObjectItem ''splice_command'' (command_items (sc_command s))]
     @ [NumberItem ''descriptor_loop_length'' (length (loop_bits s) div 8)]
     @ [ArrayItem ''descriptors'' (map desc_items (sc_descriptors s))]"

definition section_wf :: "splice_section \<Rightarrow> bool" where
  "section_wf s \<longleftrightarrow> sc_sap s < 4 \<and> sc_length s < 2 ^ 12 \<and> sc_version s < 256 \<and> sc_algorithm s < 64
     \<and> sc_pts_adjustment s < 2 ^ 33 \<and> sc_cw_index s < 256 \<and> sc_tier s < 2 ^ 12
     \<and> command_wf (sc_command s) \<and> list_all desc_wf (sc_descriptors s)
     \<and> length (loop_bits s) div 8 < 2 ^ 16"

lemma reads_header:
  assumes "section_wf s"
  shows "reads 0 parse_header (header_bits s) (header_items s) ()"
proof -
  have wf: "sc_sap s < 2 ^ 2" "sc_length s < 2 ^ 12" "sc_version s < 256" "sc_algorithm s < 2 ^ 6"
    "sc_pts_adjustment s < 2 ^ 33" "sc_cw_index s < 256" "sc_tier s < 2 ^ 12"
    using assms by (simp_all add: section_wf_def)
  show ?thesis unfolding parse_header_def header_bits_def header_items_def
    apply (rule reads_bind, rule reads_byte', simp, simp, simp only: of_nat_numeral simp_thms if_False)
    apply (rule reads_seq, rule reads_bool, rule reads_seq, rule reads_bool)
    apply (rule reads_seq, rule reads_bits, rule wf, simp, rule reads_seq, rule reads_bits, rule wf, simp)
    apply (rule reads_seq, rule reads_byte', simp, rule wf, rule reads_seq, rule reads_bool)
    apply (rule reads_seq, rule reads_bits, rule wf, simp, rule reads_seq, rule reads_bits, rule wf, simp)
    apply (rule reads_seq, rule reads_byte', simp, rule wf, rule reads_then_return, rule reads_bits, rule wf, simp)
    done
qed

lemma length_header_bits [simp]: "length (header_bits s) = 92"
  by (simp add: header_bits_def)

lemma loop_aligned: "length (loop_bits s) = 8 * (length (loop_bits s) div 8)"
proof -
  have "length (concat (map desc_bits ds)) mod 8 = 0" for ds
    by (induction ds) (auto simp: desc_aligned mod_add_eq [symmetric])
  then have "8 dvd length (loop_bits s)" by (simp add: loop_bits_def dvd_eq_mod_eq_0)
  then show ?thesis by (rule dvd_mult_div_cancel [symmetric])
qed

lemma reads_short': "a = 0 \<Longrightarrow> v < 2 ^ 16 \<Longrightarrow> reads a (rShort key) (to_bits 16 v) [NumberItem key v] (of_nat v)"
  using reads_short [of v key] by simp

lemma reads_body:
  assumes wf: "section_wf s" and fuel: "length (body_bits s) < fuel"
  shows "reads 0 (section_body fuel) (body_bits s) (body_items s) ()"
proof -
  let ?c = "sc_command s" and ?ds = "sc_descriptors s"
  let ?cl = "length (command_bits ?c) div 8" and ?ll = "length (loop_bits s) div 8"
  let ?ps = "map (\<lambda>x. (desc_bits x, desc_items x)) ?ds"
  have cw: "command_wf ?c" "?ll < 2 ^ 16" using wf by (simp_all add: section_wf_def)
  have cl: "length (command_bits ?c) = 8 * ?cl" using command_aligned [of ?c] by auto
  have "list_all (readable parse_splice_descriptor) ?ps"
    using wf by (simp add: section_wf_def list_all_iff descriptor_readable)
  moreover have ps: "concat (map fst ?ps) = loop_bits s" "map snd ?ps = map desc_items ?ds"
    by (simp_all add: loop_bits_def comp_def)
  moreover have "length (loop_bits s) + 1 < fuel" using fuel by (simp add: body_bits_def)
  ultimately have loop: "reads 0 (descriptor_loop ''descriptors'' parse_splice_descriptor fuel ?ll) (loop_bits s)
      [ArrayItem ''descriptors'' (map desc_items ?ds)] ()"
    using reads_descriptor_loop [of parse_splice_descriptor ?ps fuel ?ll "''descriptors''"] loop_aligned [of s]
    unfolding ps by blast
  have cmd: "reads 0 (in_subsection ''splice_command'' ?cl (parse_splice_command (command_type ?c) ?cl))
      (command_bits ?c) [ObjectItem ''splice_command'' (command_items ?c)] ()"
    using reads_subsection [OF reads_command [OF cw(1)] cl] .
  have u: "unat (of_nat ?cl :: u64) = ?cl" "unat (of_nat ?ll :: u16) = ?ll"
    using command_length [OF cw(1)] cw(2) by (simp_all add: unat_of_nat)
  have m: "(8 * ?cl) mod 8 = 0" by simp
  show ?thesis unfolding section_body_def body_bits_def body_items_def
    apply (rule reads_seq, rule reads_header, rule wf)
    apply (rule reads_bind, rule reads_bits, rule command_length, rule cw, simp)
    apply (rule reads_bind, rule reads_u8, simp, unfold u)
    apply (rule reads_seq, rule reads_at, rule cmd, simp)
    apply (rule reads_bind, rule reads_short', subst cl, simp, rule cw, unfold u)
    apply (rule reads_at, rule loop, simp add: command_aligned)
    done
qed
subsection \<open>Bytes of a written section\<close>

fun pack_bits :: "bool list \<Rightarrow> u8 list" where
  "pack_bits [] = []"
| "pack_bits (x # xs) = foldl bit_step 0 (take 8 (x # xs)) # pack_bits (drop 8 (x # xs))"

lemma byte_bits_foldl: "length xs = 8 \<Longrightarrow> byte_bits (foldl bit_step 0 xs) = xs"
  by (rule nth_equalityI) (auto simp: nth_byte_bits bit_foldl_step rev_nth)

lemma bits_of_pack: "length xs mod 8 = 0 \<Longrightarrow> bits_of (pack_bits xs) = xs"
proof (induction xs rule: pack_bits.induct)
  case (2 x xs)
  then have len: "8 \<le> length (x # xs)" by (cases "length (x # xs) < 8") auto
  then have "length (drop 8 (x # xs)) mod 8 = 0"
    using 2(2) le_mod_geq [of 8 "length (x # xs)"] by (simp only: length_drop)
  with 2(1) have "bits_of (pack_bits (drop 8 (x # xs))) = drop 8 (x # xs)" .
  moreover have "byte_bits (foldl bit_step 0 (take 8 (x # xs))) = take 8 (x # xs)"
    using len by (intro byte_bits_foldl) (simp only: length_take min_absorb2)
  ultimately show ?case
    by (simp only: pack_bits.simps bits_of_Cons append_take_drop_id)
qed simp

definition section_crc :: "splice_section \<Rightarrow> u32" where
  "section_crc s = crc_bitwise (pack_bits (body_bits s)) 0xffffffff"

definition section_bytes :: "splice_section \<Rightarrow> u8 list" where
  "section_bytes s = pack_bits (body_bits s) @ be_bytes (section_crc s)"

lemma nth_to_bits: "i < n \<Longrightarrow> to_bits n v ! i = bit v (n - Suc i)"
  using rev_to_bits [of "n - Suc i" n v] by (simp add: rev_nth)

lemma byte_bits_to_bits: "byte_bits b = to_bits 8 (unat b)"
  by (rule nth_equalityI) (auto simp: nth_to_bits nth_byte_bits bit_unsigned_iff)

lemma be_bytes_to_bits: "bits_of (be_bytes v) = to_bits 32 (unat v)"
proof -
  have "top_bits 32 v = to_bits 32 (unat v)"
    by (rule nth_equalityI) (auto simp: top_bits_def nth_to_bits bit_simps)
  then show ?thesis by (simp only: bits_of_def be_bytes_bits)
qed

lemma body_aligned: "length (body_bits s) mod 8 = 0"
proof -
  have "8 dvd length (command_bits (sc_command s))" by (simp add: dvd_eq_mod_eq_0 command_aligned)
  moreover have "8 dvd length (loop_bits s)" using loop_aligned [of s] by (rule dvdI)
  ultimately have "8 dvd 128 + (length (command_bits (sc_command s)) + length (loop_bits s))" by simp
  then show ?thesis by (simp add: body_bits_def dvd_eq_mod_eq_0 add.assoc)
qed

lemma section_bits: "bits_of (section_bytes s) = body_bits s @ to_bits 32 (unat (section_crc s))"
  by (simp add: section_bytes_def bits_of_append bits_of_pack body_aligned be_bytes_to_bits)

lemma section_crc_zero: "crc_bitwise (section_bytes s) 0xffffffff = 0"
  unfolding crc_bitwise_def section_bytes_def map_append concat_append crc_bits_append be_bytes_bits
    crc_bits_value_zero
  by (simp add: section_crc_def crc_bitwise_def)

lemma length_section_bytes: "8 * length (section_bytes s) = length (body_bits s) + 32"
  using length_bits_of [of "section_bytes s"] by (simp add: section_bits)

lemma view_new_decoder: "view (new_decoder bytes) (bits_of bytes)"
  by (simp add: view_def valid_new_decoder) (simp add: new_decoder_def)

lemma section_read_back:
  assumes "section_wf s"
  shows "run_section (new_decoder (section_bytes s))
    = Inr (body_items s @ [NumberItem ''CRC32'' (unat (section_crc s))])"
proof -
  let ?d = "new_decoder (section_bytes s)" and ?crc = "section_crc s"
  let ?fuel = "section_fuel ?d" and ?n = "length (body_bits s)"
  have d: "mOffset ?d = 0" "mMaxOffset ?d = ?n + 32" "mData ?d = section_bytes s" "mJsonObj ?d = []"
    using length_section_bytes [of s] by (simp_all add: new_decoder_def)
  have v: "view ?d (body_bits s @ to_bits 32 (unat ?crc))"
    using view_new_decoder [of "section_bytes s"] by (simp add: section_bits)
  have "reads 0 (section_body ?fuel) (body_bits s) (body_items s) ()"
    using assms by (intro reads_body) (simp_all add: section_fuel_def d)
  with v d(1) have b: "section_body ?fuel ?d = Inr ((), recorded ?n (body_items s) ?d)"
    unfolding reads_def by (metis mod_0)
  have v2: "view (recorded ?n (body_items s) ?d) (to_bits 32 (unat ?crc) @ [])"
    using view_recorded [OF v] by simp
  have "reads 0 (rInteger ''CRC32'') (to_bits 32 (unat ?crc)) [NumberItem ''CRC32'' (unat ?crc)] ?crc"
    using reads_integer [of "unat ?crc" "''CRC32''"] unat_less_width [of ?crc] by simp
  moreover have "mOffset (recorded ?n (body_items s) ?d) mod 8 = 0" by (simp add: d body_aligned)
  ultimately have i: "rInteger ''CRC32'' (recorded ?n (body_items s) ?d)
      = Inr (?crc, recorded (?n + 32) (body_items s @ [NumberItem ''CRC32'' (unat ?crc)]) ?d)"
    using v2 unfolding reads_def by (metis length_to_bits recorded_recorded)
  have len: "(?n + 32) div 8 = length (section_bytes s)" using length_section_bytes [of s] by simp
  have "rCRC32 (recorded ?n (body_items s) ?d)
      = Inr (?crc, recorded (?n + 32) (body_items s @ [NumberItem ''CRC32'' (unat ?crc)]) ?d)"
    by (simp add: rCRC32_def rbind_def i Let_def d len compute_bitwise section_crc_zero)
  then show ?thesis
    by (simp add: run_section_def section_split rseq_def rbind_def b End_section_def d)
      (simp add: recorded_def d)
qed

lemma spliceinfo_of_encoded:
  assumes "section_wf s"
  shows "SCTE35SpliceInfo (b64_encode_loop 0 (section_bytes s))
    = Some (body_items s @ [NumberItem ''CRC32'' (unat (section_crc s))])"
proof -
  have "decoder_of_string (b64_encode_loop 0 (section_bytes s)) = new_decoder (section_bytes s)"
    by (simp add: decoder_of_string_def base64_Decode_def b64_round_trip)
  then show ?thesis by (simp add: SCTE35SpliceInfo_def section_read_back [OF assms])
qed

text \<open>A time signal with two segmentation descriptors, one carrying a list of UPIDs.\<close>

definition sample_section :: splice_section where
  "sample_section =
     \<lparr>sc_syntax_indicator = False, sc_private = False, sc_sap = 3, sc_length = 74, sc_version = 0,
      sc_encrypted = False, sc_algorithm = 0, sc_pts_adjustment = 900000, sc_cw_index = 255,
      sc_tier = 4095, sc_command = TimeSignal (Some 1924989008),
      sc_descriptors =
        [Segmentation 0x43554549 7 (Some \<lparr>sg_duration = Some 2702700, sg_restrictions = None,
           sg_upid = Mid [Upid 0x0e [0x61, 0x64], Upid 0x09 [1, 2, 3]], sg_type_id = 0x34, sg_num = 1,
           sg_expected = 2, sg_sub = Some (1, 1)\<rparr>),
         Segmentation 0x43554549 8 (Some \<lparr>sg_duration = None, sg_restrictions = Some (True, False, True, 2),
           sg_upid = Upid 0x0f [0x75, 0x72, 0x69], sg_type_id = 0x35, sg_num = 0, sg_expected = 0,
           sg_sub = None\<rparr>),
         Segmentation 0x43554549 9 None, Unknown 0x01 [5, 6]]\<rparr>"

lemma sample_section_wf: "section_wf sample_section"
  by (simp add: section_wf_def sample_section_def tail_wf_def has_sub_segments_def payload_bits_def
      loop_bits_def duration_bits_def tail_bits_def sub_bits_def)

subsection \<open>The CRC field of an accepted section\<close>

lemma to_bits_foldl: "length xs = 32 \<Longrightarrow> to_bits 32 (unat (foldl bit_step (0 :: u32) xs)) = xs"
  by (rule nth_equalityI) (auto simp: nth_to_bits bit_unsigned_iff bit_foldl_step rev_nth)

lemma integer_reads_bytes:
  assumes "rInteger key d = Inr (v, d')" "valid d"
  shows "8 dvd mOffset d \<and> mOffset d' = mOffset d + 32
    \<and> be_bytes v = take 4 (drop (mOffset d div 8) (mData d))
    \<and> mJsonObj d' = mJsonObj d @ [NumberItem key (unat v)]"
proof -
  have a: "mOffset d mod 8 = 0" and o: "mOffset d + 32 \<le> mMaxOffset d"
    and l: "bytes_loop (mData d) 4 (mOffset d) (0 :: u32) = Inr v"
    and d': "d' = add_item (NumberItem key (unat v)) (advance 32 d)"
    using assms(1) by (auto simp: rInteger_def split: if_splits sum.splits)
  define k where "k = mOffset d div 8"
  have k: "mOffset d = 8 * k" using a by (auto simp: k_def)
  have len: "k + 4 \<le> length (mData d)" using o assms(2) k by (auto simp: valid_def)
  have "v = foldl bit_step 0 (bits_of (take 4 (drop k (mData d))))"
    using l bytes_loop_foldl [OF a, of 4 "mData d" "0 :: u32"] len k
    by (simp add: flip: take_bits_of drop_bits_of)
  then have "to_bits 32 (unat v) = bits_of (take 4 (drop k (mData d)))"
    using to_bits_foldl [of "bits_of (take 4 (drop k (mData d)))"] len by simp
  then have "be_bytes v = take 4 (drop k (mData d))" by (intro bits_of_inj) (simp add: be_bytes_to_bits)
  then show ?thesis by (simp add: d' add_item_def advance_def k)
qed

lemma crc_stored: "crc_bitwise (body @ be_bytes v) r = 0 \<Longrightarrow> crc_bitwise body r = v"
  unfolding crc_bitwise_def map_append concat_append crc_bits_append be_bytes_bits crc_bits_value_zero
  by simp

lemma accepted_bytes:
  assumes "run_section (new_decoder bytes) = Inr items"
  obtains body v where "bytes = body @ be_bytes v" "hd bytes = 0xfc" "crc_bitwise body 0xffffffff = v"
    "last items = NumberItem ''CRC32'' (unat v)"
proof -
  let ?d = "new_decoder bytes"
  obtain d' where p: "SCTE35ParseSection (section_fuel ?d) ?d = Inr ((), d')" and i: "items = mJsonObj d'"
    using assms by (auto simp: run_section_def split: sum.splits)
  obtain d1 v where b: "section_body (section_fuel ?d) ?d = Inr ((), d1)" and m: "moved 0 ?d d1"
    and r: "rInteger ''CRC32'' d1 = Inr (v, d')" and e: "mOffset d' = mMaxOffset ?d"
    and c: "crc_bitwise (take (mMaxOffset ?d div 8) (mData ?d)) 0xffffffff = 0"
    using p by (rule accepted_section) (simp_all add: valid_new_decoder section_fuel_def)
  have d: "mOffset ?d = 0" "mMaxOffset ?d = 8 * length bytes" "mData ?d = bytes"
    by (simp_all add: new_decoder_def)
  have d1: "valid d1" "mData d1 = bytes" using same_section [OF m] d by auto
  note int = integer_reads_bytes [OF r d1(1)]
  then obtain k where k8: "mOffset d1 = 8 * k" by blast
  with int d1(2) e d have k: "be_bytes v = take 4 (drop k bytes)"
    "k + 4 = length bytes" "last items = NumberItem ''CRC32'' (unat v)"
    by (simp_all add: i)
  then have split: "bytes = take k bytes @ be_bytes v" by simp
  moreover have "hd bytes = 0xfc" using section_body_table_id [OF b] d by simp
  moreover have "crc_bitwise (take k bytes) 0xffffffff = v"
    using c crc_stored [of "take k bytes" v] split d by simp
  ultimately show thesis using that k(3) by metis
qed

section \<open>Properties\<close>


text \<open>
  C7: the round trip.  A section written field by field to the layout of SCTE-35 (header, a time
  signal or another command, descriptors with restrictions, duration, nested UPID lists and
  sub-segments, and the CRC-32) and encoded in base64 is parsed into exactly its fields, every one
  with its full value and in order.
\<close>

theorem scte35_roundtrip:
  assumes "section_wf s"
  shows "\<exists>text. base64_Encode (\<lambda>_. True) (section_bytes s) = Some (text @ [0])
    \<and> SCTE35SpliceInfo text = Some (body_items s @ [NumberItem ''CRC32'' (unat (section_crc s))])"
  using spliceinfo_of_encoded [OF assms] by (auto simp: base64_Encode_def)

theorem scte35_roundtrip_witness:
  "section_wf sample_section
    \<and> (\<exists>text. base64_Encode (\<lambda>_. True) (section_bytes sample_section) = Some (text @ [0])
        \<and> SCTE35SpliceInfo text
          = Some (body_items sample_section @ [NumberItem ''CRC32'' (unat (section_crc sample_section))]))"
  using scte35_roundtrip [OF sample_section_wf] sample_section_wf by blast

text \<open>
  C31: a text is accepted only if it is base64 of a section whose first byte is the table id 0xfc and
  whose last four bytes are the CRC-32 of everything before them; that CRC is the last field
  recorded, so the parser has consumed the whole section.
\<close>

theorem scte35_accepted:
  assumes "SCTE35SpliceInfo s = Some items"
  shows "\<exists>body crc. base64_Decode (\<lambda>_. True) s = (Some (body @ be_bytes crc), length body + 4)
    \<and> hd (body @ be_bytes crc) = 0xfc \<and> aamp_ComputeCRC32 body 0xffffffff = Some crc
    \<and> last items = NumberItem ''CRC32'' (unat crc)"
proof -
  obtain bytes where d: "run_section (new_decoder bytes) = Inr items"
    and b: "bytes \<noteq> [] \<longrightarrow> base64_Decode (\<lambda>_. True) s = (Some bytes, length bytes)"
    using assms
    by (fastforce simp: SCTE35SpliceInfo_def decoder_of_string_def base64_Decode_def
        split: sum.splits option.splits)
  obtain body v where *: "bytes = body @ be_bytes v" "hd bytes = 0xfc" "crc_bitwise body 0xffffffff = v"
    "last items = NumberItem ''CRC32'' (unat v)"
    using d by (rule accepted_bytes)
  then have "bytes \<noteq> []" "length bytes = length body + 4" by (simp_all add: be_bytes_def)
  with b * show ?thesis by (metis compute_bitwise)
qed

theorem scte35_accepted_witness:
  "\<exists>s items body crc. SCTE35SpliceInfo s = Some items
    \<and> base64_Decode (\<lambda>_. True) s = (Some (body @ be_bytes crc), length body + 4)
    \<and> hd (body @ be_bytes crc) = 0xfc \<and> aamp_ComputeCRC32 body 0xffffffff = Some crc
    \<and> last items = NumberItem ''CRC32'' (unat crc)"
  using scte35_accepted [OF spliceinfo_of_encoded [OF sample_section_wf]]
    spliceinfo_of_encoded [OF sample_section_wf] by blast

text \<open>
  \<open>isEnd\<close> compares with the end of the descriptor loop and not with the end of the descriptor,
  and the length of a segmentation descriptor is not used: after a descriptor of one of the types
  0x34, 0x36, 0x38, 0x3a written without the optional sub-segment fields, the parser consumes the
  two bytes that follow, the tag and the length of the next descriptor, as \<open>sub_segment_num\<close>
  and \<open>sub_segments_expected\<close>.
\<close>

theorem scte35_sub_segments_from_next_descriptor:
  assumes "has_sub_segments (sg_type_id g)" "sg_sub g = None" "sg_num g < 256" "sg_expected g < 256"
    and "view d (tail_bits g @ to_bits 8 tag @ to_bits 8 len @ rest)" "mOffset d mod 8 = 0"
    and "tag < 256" "len < 256"
  shows "\<exists>d'. parse_segmentation_tail d = Inr ((), d') \<and> view d' rest
    \<and> mJsonObj d' = mJsonObj d @ tail_items g
        @ [NumberItem ''sub_segment_num'' tag, NumberItem ''sub_segments_expected'' len]"
proof -
  let ?g = "g\<lparr>sg_sub := Some (tag, len)\<rparr>"
  have rd: "reads 0 parse_segmentation_tail (tail_bits ?g) (tail_items ?g) ()"
    using assms by (intro reads_tail) (simp add: tail_wf_def)
  have bits: "tail_bits ?g = tail_bits g @ to_bits 8 tag @ to_bits 8 len"
    and items: "tail_items ?g = tail_items g
        @ [NumberItem ''sub_segment_num'' tag, NumberItem ''sub_segments_expected'' len]"
    using assms(2) by (simp_all add: tail_bits_def tail_items_def sub_bits_def sub_items_def)
  have v: "view d (tail_bits ?g @ rest)" using assms(5) by (simp add: bits)
  have "parse_segmentation_tail d = Inr ((), recorded (length (tail_bits ?g)) (tail_items ?g) d)"
    using rd v assms(6) by (rule readsD)
  then show ?thesis using view_recorded [OF v] by (auto simp: items recorded_def)
qed

definition sub_segment_sample :: segmentation where
  "sub_segment_sample = \<lparr>sg_duration = None, sg_restrictions = None, sg_upid = Upid 0 [], sg_type_id = 0x34,
     sg_num = 1, sg_expected = 2, sg_sub = None\<rparr>"

theorem scte35_sub_segments_from_next_descriptor_witness:
  "\<exists>d'. parse_segmentation_tail (new_decoder [0x34, 1, 2, 0x02, 0x0a, 9]) = Inr ((), d') \<and> view d' (to_bits 8 9)
    \<and> mJsonObj d' = [] @ tail_items sub_segment_sample
        @ [NumberItem ''sub_segment_num'' 2, NumberItem ''sub_segments_expected'' 10]"
proof -
  have "bits_of [0x34, 1, 2, 0x02, 0x0a, 9]
      = tail_bits sub_segment_sample @ to_bits 8 2 @ to_bits 8 10 @ to_bits 8 9"
    by (simp add: bits_of_Cons byte_bits_to_bits tail_bits_def sub_bits_def sub_segment_sample_def)
  then have "view (new_decoder [0x34, 1, 2, 0x02, 0x0a, 9])
      (tail_bits sub_segment_sample @ to_bits 8 2 @ to_bits 8 10 @ to_bits 8 9)"
    using view_new_decoder [of "[0x34, 1, 2, 0x02, 0x0a, 9]"] by simp
  moreover have "mOffset (new_decoder [0x34, 1, 2, 0x02, 0x0a, 9]) = 0"
    "mJsonObj (new_decoder [0x34, 1, 2, 0x02, 0x0a, 9]) = []" by (simp_all add: new_decoder_def)
  ultimately show ?thesis
    using scte35_sub_segments_from_next_descriptor [of sub_segment_sample "new_decoder [0x34, 1, 2, 0x02, 0x0a, 9]" 2 10 "to_bits 8 9"]
    by (simp add: sub_segment_sample_def has_sub_segments_def)
qed

end
