(* ===== verification/Media_Type.thy ===== *)
theory Media_Type
  imports Aamp_Prelude
begin

text \<open>
  The media types of \<open>AampMediaType.h\<close>, shared by the cache, the time-shift buffer and the buffer
  accounting.
\<close>

datatype AampMediaType =
    eMEDIATYPE_VIDEO
  | eMEDIATYPE_AUDIO
  | eMEDIATYPE_SUBTITLE
  | eMEDIATYPE_RESERVED
  | eMEDIATYPE_MANIFEST
  | eMEDIATYPE_LICENCE
  | eMEDIATYPE_IFRAME
  | eMEDIATYPE_INIT_VIDEO
  | eMEDIATYPE_INIT_AUDIO
  | eMEDIATYPE_INIT_SUBTITLE
  | eMEDIATYPE_INIT_RESERVED
  | eMEDIATYPE_PLAYLIST_VIDEO
  | eMEDIATYPE_PLAYLIST_AUDIO
  | eMEDIATYPE_PLAYLIST_SUBTITLE
  | eMEDIATYPE_PLAYLIST_RESERVED
  | eMEDIATYPE_PLAYLIST_IFRAME
  | eMEDIATYPE_INIT_IFRAME
  | eMEDIATYPE_DSM_CC
  | eMEDIATYPE_IMAGE
  | eMEDIATYPE_DEFAULT

end
