(* ===== verification/Cache_Handler.thy ===== *)
theory Cache_Handler
  imports Media_Type
begin

text \<open>
  \<open>AampCacheHandler.h\<close> and \<open>AampCacheHandler.cpp\<close>: the cache of playlists and initialization
  fragments.  \<open>shared_ptr\<close> is explicit: a cache holds the list of all entry objects and of all
  buffers ever made, numbered by their position, and the bindings of the hash map; an object lives
  while the map or a living object refers to it, a buffer while a living object does, and the
  deleter of a buffer subtracts its size from \<open>totalCachedBytes\<close> when its last reference goes.  An
  object is numbered after the alias object it points to.  Failing assertions and the use of
  \<open>end()\<close> are faults.
  The lemmas show that the byte count is right in every reachable state, that what is inserted is
  found, that the playlist limit and the number of initialization fragments per track are kept and
  that the least recently used entry is the one evicted.
\<close>

section \<open>Entries, references and bytes\<close>

record AampCachedData =
  effectiveUrl :: string
  buffer :: nat
  mediaType :: AampMediaType
  cdSeqNo :: int
  eUrlCachedDataPtr :: "nat option"

datatype AampCacheType = eCACHE_TYPE_INIT_FRAGMENT | eCACHE_TYPE_PLAYLIST

datatype cache_fault = AssertFailed | DerefEnd

record AampCache =
  cacheType :: AampCacheType
  totalCachedBytes :: u64
  seqNo :: int
  maxCachedInitFragmentsPerTrack :: int
  maxPlaylistCacheBytes :: int
  cache :: "(string \<times> nat) list"
  objects :: "AampCachedData list"
  buffers :: "u8 list list"

text \<open>The objects an object keeps alive: itself and what its pointer leads to.\<close>

function chain :: "AampCachedData list \<Rightarrow> nat \<Rightarrow> nat list" where
  "chain objs i = i # (case eUrlCachedDataPtr (objs ! i) of
     None \<Rightarrow> [] | Some p \<Rightarrow> if p < i then chain objs p else [])"
  by pat_completeness auto
termination
  by (relation "measure snd") auto

declare chain.simps [simp del]

definition live_objects :: "AampCache \<Rightarrow> nat list" where
  "live_objects c = remdups (concat (map (\<lambda>(k, i). chain (objects c) i) (cache c)))"

definition live_buffers :: "AampCache \<Rightarrow> nat list" where
  "live_buffers c = remdups (map (\<lambda>i. buffer (objects c ! i)) (live_objects c))"

definition use_count :: "nat \<Rightarrow> AampCache \<Rightarrow> nat" where
  "use_count i c = length (filter (\<lambda>(k, j). j = i) (cache c))
     + length (filter (\<lambda>j. eUrlCachedDataPtr (objects c ! j) = Some i) (live_objects c))"

text \<open>
  The deleters that run between \<open>c\<close> and \<open>c'\<close>: \<open>totalCachedBytes -= bytes\<close> for every buffer that lost
  its last reference.
\<close>

definition run_deleters :: "AampCache \<Rightarrow> AampCache \<Rightarrow> AampCache" where
  "run_deleters c c' = c'\<lparr>totalCachedBytes := totalCachedBytes c'
     - of_nat (sum_list (map (\<lambda>b. length (buffers c ! b))
         (filter (\<lambda>b. b \<notin> set (live_buffers c')) (live_buffers c))))\<rparr>"

definition entry :: "string \<Rightarrow> AampCache \<Rightarrow> nat option" where
  "entry url c = map_of (cache c) url"

definition erase_where :: "(nat \<Rightarrow> bool) \<Rightarrow> AampCache \<Rightarrow> AampCache" where
  "erase_where P c = run_deleters c (c\<lparr>cache := filter (\<lambda>(k, i). \<not> P i) (cache c)\<rparr>)"

definition erase_key :: "string \<Rightarrow> AampCache \<Rightarrow> AampCache" where
  "erase_key url c = run_deleters c (c\<lparr>cache := filter (\<lambda>(k, i). k \<noteq> url) (cache c)\<rparr>)"

section \<open>Operations of a cache\<close>

definition new_cache :: "AampCacheType \<Rightarrow> AampCache" where
  "new_cache ty = \<lparr>cacheType = ty, totalCachedBytes = 0, seqNo = 0, maxCachedInitFragmentsPerTrack = 5,
     maxPlaylistCacheBytes = 3 * 1024 * 1024, cache = [], objects = [], buffers = []\<rparr>"

definition Clear :: "AampCache \<Rightarrow> AampCache" where
  "Clear c = (erase_where (\<lambda>_. True) c)\<lparr>totalCachedBytes := 0\<rparr>"

text \<open>A signed value converted to \<open>size_t\<close>.\<close>

definition size_t :: "int \<Rightarrow> u64" where
  "size_t x = word_of_int x"

definition reduceCacheSize :: "AampMediaType \<Rightarrow> u64 \<Rightarrow> AampCache \<Rightarrow> AampCache" where
  "reduceCacheSize ty target c =
     (let c1 = erase_where (\<lambda>i. \<not> (mediaType (objects c ! i) = eMEDIATYPE_MANIFEST
                                   \<or> mediaType (objects c ! i) \<noteq> ty)) c
      in if target < totalCachedBytes c1
         then erase_where (\<lambda>i. mediaType (objects c1 ! i) \<noteq> eMEDIATYPE_MANIFEST) c1
         else c1)"

definition makeRoomForPlaylist :: "AampMediaType \<Rightarrow> u64 \<Rightarrow> AampCache \<Rightarrow> bool \<times> AampCache" where
  "makeRoomForPlaylist ty bytesNeeded c =
     (if ty = eMEDIATYPE_MANIFEST then (True, Clear c)
      else if maxPlaylistCacheBytes c \<noteq> -1 then
        (if size_t (maxPlaylistCacheBytes c) < totalCachedBytes c + bytesNeeded then
           let c1 = reduceCacheSize ty (size_t (maxPlaylistCacheBytes c) - bytesNeeded) c
           in (totalCachedBytes c1 + bytesNeeded \<le> size_t (maxPlaylistCacheBytes c1), c1)
         else (True, c))
      else (True, c))"

definition Remove :: "string \<Rightarrow> AampCache \<Rightarrow> cache_fault + AampCache" where
  "Remove url c =
     (case entry url c of
        None \<Rightarrow> Inl AssertFailed
      | Some i \<Rightarrow>
          if effectiveUrl (objects c ! i) = [] then Inl AssertFailed
          else let c1 = (case eUrlCachedDataPtr (objects c ! i) of
                           None \<Rightarrow> c
                         | Some p \<Rightarrow> if use_count p c = 2 then erase_key (effectiveUrl (objects c ! i)) c else c)
               in Inr (erase_key url c1))"

text \<open>The scan of \<open>makeRoomForInitFragment\<close>: the least recently used entry so far, and the count.\<close>

fun lru_scan :: "AampCachedData list \<Rightarrow> AampMediaType \<Rightarrow> (string \<times> nat) list \<Rightarrow> (string \<times> nat) option \<Rightarrow> nat
    \<Rightarrow> (string \<times> nat) option \<times> nat" where
  "lru_scan objs ty [] lru count = (lru, count)"
| "lru_scan objs ty ((k, i) # rest) lru count =
     (if mediaType (objs ! i) = ty \<and> effectiveUrl (objs ! i) \<noteq> []
      then lru_scan objs ty rest
             (case lru of
                None \<Rightarrow> Some (k, i)
              | Some (k', j) \<Rightarrow> if cdSeqNo (objs ! i) < cdSeqNo (objs ! j) then Some (k, i) else lru)
             (count + 1)
      else lru_scan objs ty rest lru count)"

definition makeRoomForInitFragment :: "AampMediaType \<Rightarrow> AampCache \<Rightarrow> cache_fault + (bool \<times> AampCache)" where
  "makeRoomForInitFragment ty c =
     (let (lru, count) = lru_scan (objects c) ty (cache c) None 0
      in if maxCachedInitFragmentsPerTrack c \<le> int count
         then (case lru of
                 None \<Rightarrow> Inl DerefEnd
               | Some (k, i) \<Rightarrow>
                   (case Remove k c of Inl e \<Rightarrow> Inl e | Inr c1 \<Rightarrow> Inr (True, c1)))
         else Inr (True, c))"

text \<open>
  The insertion itself, once there is room.  \<open>alloc\<close> says whether the allocations succeed; when they
  do not, \<open>std::bad_alloc\<close> is caught and the buffer, if it was made, is released again.
\<close>

definition store :: "bool \<Rightarrow> string \<Rightarrow> u8 list \<Rightarrow> string \<Rightarrow> AampMediaType \<Rightarrow> AampCache \<Rightarrow> AampCache" where
  "store alloc url buf effUrl ty c =
     (if \<not> alloc then c
      else
        let cachedBuf = length (buffers c);
            c1 = c\<lparr>buffers := buffers c @ [buf], totalCachedBytes := totalCachedBytes c + of_nat (length buf)\<rparr>;
            (ptr, c2) =
              (if url = effUrl then (None, c1)
               else case entry effUrl c1 of
                 None \<Rightarrow>
                   (let aliasData = \<lparr>effectiveUrl = [], buffer = cachedBuf, mediaType = ty, cdSeqNo = 0,
                                     eUrlCachedDataPtr = None\<rparr>
                    in (Some (length (objects c1)),
                        c1\<lparr>objects := objects c1 @ [aliasData],
                           cache := (effUrl, length (objects c1)) # cache c1\<rparr>))
               | Some j \<Rightarrow>
                   (Some j, c1\<lparr>objects := (objects c1)[j := (objects c1 ! j)\<lparr>buffer := cachedBuf, mediaType := ty\<rparr>]\<rparr>));
            cachedData = \<lparr>effectiveUrl = effUrl, buffer = cachedBuf, mediaType = ty, cdSeqNo = seqNo c2 + 1,
                          eUrlCachedDataPtr = ptr\<rparr>;
            c3 = c2\<lparr>objects := objects c2 @ [cachedData], seqNo := seqNo c2 + 1,
                    cache := (url, length (objects c2)) # cache c2\<rparr>
        in run_deleters c c3)"

definition Insert :: "bool \<Rightarrow> string \<Rightarrow> u8 list \<Rightarrow> string \<Rightarrow> AampMediaType \<Rightarrow> AampCache \<Rightarrow> cache_fault + AampCache" where
  "Insert alloc url buf effUrl ty c =
     (if entry url c \<noteq> None then Inr c
      else if buf = [] then Inr c
      else case (case cacheType c of
                   eCACHE_TYPE_INIT_FRAGMENT \<Rightarrow> makeRoomForInitFragment ty c
                 | eCACHE_TYPE_PLAYLIST \<Rightarrow> Inr (makeRoomForPlaylist ty (of_nat (length buf)) c)) of
             Inl e \<Rightarrow> Inl e
           | Inr (ok, c1) \<Rightarrow> if ok then Inr (store alloc url buf effUrl ty c1) else Inr c1)"

text \<open>\<open>Find\<close> marks the entry as used; the result is the object found.\<close>

definition Find :: "string \<Rightarrow> AampCache \<Rightarrow> nat option \<times> AampCache" where
  "Find url c =
     (case entry url c of
        None \<Rightarrow> (None, c)
      | Some i \<Rightarrow> (Some i, c\<lparr>seqNo := seqNo c + 1,
                            objects := (objects c)[i := (objects c ! i)\<lparr>cdSeqNo := seqNo c + 1\<rparr>]\<rparr>))"

section \<open>The handler\<close>

text \<open>
  The clean-up thread is at the head of its loop, waiting to be notified, waiting for ten seconds,
  or has returned.
\<close>

datatype cleanup_pc = NoThread | AtLoop | Waiting | TimedWait | Returned

record AampCacheHandler =
  mPlaylistCache :: AampCache
  mInitFragmentCache :: AampCache
  mbCleanUpTaskInitialized :: bool
  mCacheActive :: bool
  mAsyncCacheCleanUpThread :: bool
  cleanup :: cleanup_pc

definition new_handler :: AampCacheHandler where
  "new_handler = \<lparr>mPlaylistCache = new_cache eCACHE_TYPE_PLAYLIST,
     mInitFragmentCache = new_cache eCACHE_TYPE_INIT_FRAGMENT, mbCleanUpTaskInitialized = False,
     mCacheActive = False, mAsyncCacheCleanUpThread = False, cleanup = NoThread\<rparr>"

definition start_thread :: "AampCacheHandler \<Rightarrow> AampCacheHandler" where
  "start_thread h = h\<lparr>cleanup := AtLoop\<rparr>"

definition thread_started :: "AampCacheHandler \<Rightarrow> AampCacheHandler" where
  "thread_started h = h\<lparr>mAsyncCacheCleanUpThread := True, mbCleanUpTaskInitialized := True\<rparr>"

text \<open>\<open>mCondVar.notify_one()\<close>: a waiting thread leaves its wait and tests what follows it.\<close>

definition notify :: "AampCacheHandler \<Rightarrow> AampCacheHandler" where
  "notify h = (case cleanup h of
      Waiting \<Rightarrow> h\<lparr>cleanup := (if mCacheActive h then AtLoop else TimedWait)\<rparr>
    | TimedWait \<Rightarrow> h\<lparr>cleanup := AtLoop\<rparr>
    | _ \<Rightarrow> h)"

text \<open>The steps of the thread: the test of the loop, and the end of the ten seconds.\<close>

definition cleanup_loop :: "AampCacheHandler \<Rightarrow> AampCacheHandler" where
  "cleanup_loop h = (if cleanup h = AtLoop
     then h\<lparr>cleanup := (if mAsyncCacheCleanUpThread h then Waiting else Returned)\<rparr> else h)"

text \<open>
  The new thread may reach the test of its loop before the flag is set, which \<open>early\<close> says: the
  thread is created first and \<open>mAsyncCacheCleanUpThread\<close> is set afterwards.
\<close>

definition InitializeIfNeeded :: "bool \<Rightarrow> AampCacheHandler \<Rightarrow> AampCacheHandler" where
  "InitializeIfNeeded early h =
     (if mbCleanUpTaskInitialized h then h
      else thread_started (if early then cleanup_loop (start_thread h) else start_thread h))"

definition cleanup_timeout :: "AampCacheHandler \<Rightarrow> AampCacheHandler" where
  "cleanup_timeout h = (if cleanup h = TimedWait
     then h\<lparr>mPlaylistCache := Clear (mPlaylistCache h), mInitFragmentCache := Clear (mInitFragmentCache h),
            cleanup := AtLoop\<rparr> else h)"

text \<open>\<open>join\<close> returns when the thread has.\<close>

definition ClearCacheHandler :: "AampCacheHandler \<Rightarrow> AampCacheHandler" where
  "ClearCacheHandler h =
     (if mbCleanUpTaskInitialized h
      then (notify (h\<lparr>mCacheActive := True, mAsyncCacheCleanUpThread := False\<rparr>))
             \<lparr>cleanup := NoThread, mPlaylistCache := Clear (mPlaylistCache h),
              mInitFragmentCache := Clear (mInitFragmentCache h), mbCleanUpTaskInitialized := False\<rparr>
      else h)"

definition InsertToPlaylistCache ::
    "bool \<Rightarrow> bool \<Rightarrow> string \<Rightarrow> u8 list \<Rightarrow> string \<Rightarrow> bool \<Rightarrow> AampMediaType \<Rightarrow> AampCacheHandler \<Rightarrow> cache_fault + AampCacheHandler" where
  "InsertToPlaylistCache early alloc url buf effUrl isLive ty h =
     (if effUrl = [] then Inl AssertFailed
      else if ty = eMEDIATYPE_MANIFEST \<or> \<not> isLive then
        let h1 = InitializeIfNeeded early h
        in (case Insert alloc url buf effUrl ty (mPlaylistCache h1) of
              Inl e \<Rightarrow> Inl e
            | Inr c \<Rightarrow> Inr (h1\<lparr>mPlaylistCache := c\<rparr>))
      else Inr h)"

definition StartPlaylistCache :: "AampCacheHandler \<Rightarrow> AampCacheHandler" where
  "StartPlaylistCache h = notify (h\<lparr>mCacheActive := True\<rparr>)"

definition StopPlaylistCache :: "AampCacheHandler \<Rightarrow> AampCacheHandler" where
  "StopPlaylistCache h = notify (h\<lparr>mCacheActive := False\<rparr>)"

text \<open>What a hit returns: the buffer and the effective URL.\<close>

definition hit :: "string \<Rightarrow> nat option \<Rightarrow> AampCache \<Rightarrow> (u8 list \<times> string) option" where
  "hit url found c =
     (case found of
        None \<Rightarrow> None
      | Some i \<Rightarrow> Some (buffers c ! buffer (objects c ! i),
          if effectiveUrl (objects c ! i) = [] then url else effectiveUrl (objects c ! i)))"

definition RetrieveFromPlaylistCache ::
    "string \<Rightarrow> AampCacheHandler \<Rightarrow> (u8 list \<times> string) option \<times> AampCacheHandler" where
  "RetrieveFromPlaylistCache url h =
     (let (found, c) = Find url (mPlaylistCache h) in (hit url found c, h\<lparr>mPlaylistCache := c\<rparr>))"

definition SetMaxPlaylistCacheSize :: "int \<Rightarrow> AampCacheHandler \<Rightarrow> AampCacheHandler" where
  "SetMaxPlaylistCacheSize maxBytes h =
     h\<lparr>mPlaylistCache := (mPlaylistCache h)\<lparr>maxPlaylistCacheBytes := maxBytes\<rparr>\<rparr>"

definition SetMaxInitFragCacheSize :: "int \<Rightarrow> AampCacheHandler \<Rightarrow> AampCacheHandler" where
  "SetMaxInitFragCacheSize maxFragmentsPerTrack h =
     h\<lparr>mInitFragmentCache := (mInitFragmentCache h)\<lparr>maxCachedInitFragmentsPerTrack := maxFragmentsPerTrack\<rparr>\<rparr>"

definition IsPlaylistUrlCached :: "string \<Rightarrow> AampCacheHandler \<Rightarrow> bool \<times> AampCacheHandler" where
  "IsPlaylistUrlCached url h =
     (let (found, c) = Find url (mPlaylistCache h) in (found \<noteq> None, h\<lparr>mPlaylistCache := c\<rparr>))"

definition RemoveFromPlaylistCache :: "string \<Rightarrow> AampCacheHandler \<Rightarrow> cache_fault + AampCacheHandler" where
  "RemoveFromPlaylistCache url h =
     (case Remove url (mPlaylistCache h) of Inl e \<Rightarrow> Inl e | Inr c \<Rightarrow> Inr (h\<lparr>mPlaylistCache := c\<rparr>))"

definition InsertToInitFragCache ::
    "bool \<Rightarrow> bool \<Rightarrow> string \<Rightarrow> u8 list \<Rightarrow> string \<Rightarrow> AampMediaType \<Rightarrow> AampCacheHandler \<Rightarrow> cache_fault + AampCacheHandler" where
  "InsertToInitFragCache early alloc url buf effUrl ty h =
     (if effUrl = [] then Inl AssertFailed
      else let h1 = InitializeIfNeeded early h
           in (case Insert alloc url buf effUrl ty (mInitFragmentCache h1) of
                 Inl e \<Rightarrow> Inl e
               | Inr c \<Rightarrow> Inr (h1\<lparr>mInitFragmentCache := c\<rparr>)))"

definition RetrieveFromInitFragmentCache ::
    "string \<Rightarrow> AampCacheHandler \<Rightarrow> (u8 list \<times> string) option \<times> AampCacheHandler" where
  "RetrieveFromInitFragmentCache url h =
     (let (found, c) = Find url (mInitFragmentCache h) in (hit url found c, h\<lparr>mInitFragmentCache := c\<rparr>))"

text \<open>
  The steps of the system: the calls of the handler, each under \<open>mCacheAccessMutex\<close>, and the steps of
  the clean-up thread; a wait may also end without a notification.
\<close>

inductive cache_step :: "AampCacheHandler \<Rightarrow> AampCacheHandler \<Rightarrow> bool" where
  "InsertToPlaylistCache early alloc url buf effUrl isLive ty h = Inr h' \<Longrightarrow> cache_step h h'"
| "InsertToInitFragCache early alloc url buf effUrl ty h = Inr h' \<Longrightarrow> cache_step h h'"
| "RemoveFromPlaylistCache url h = Inr h' \<Longrightarrow> cache_step h h'"
| "cache_step h (snd (RetrieveFromPlaylistCache url h))"
| "cache_step h (snd (RetrieveFromInitFragmentCache url h))"
| "cache_step h (snd (IsPlaylistUrlCached url h))"
| "cache_step h (SetMaxPlaylistCacheSize n h)"
| "cache_step h (SetMaxInitFragCacheSize n h)"
| "cache_step h (StartPlaylistCache h)"
| "cache_step h (StopPlaylistCache h)"
| "cache_step h (ClearCacheHandler h)"
| "cache_step h (notify h)"
| "cache_step h (cleanup_loop h)"
| "cache_step h (cleanup_timeout h)"

section \<open>The invariant of a cache\<close>

definition live_bytes :: "AampCache \<Rightarrow> nat" where
  "live_bytes c = (\<Sum>b \<in> set (live_buffers c). length (buffers c ! b))"

definition shape_ok :: "AampCache \<Rightarrow> bool" where
  "shape_ok c \<longleftrightarrow> distinct (map fst (cache c))
     \<and> (\<forall>(k, i) \<in> set (cache c). i < length (objects c))
     \<and> (\<forall>i < length (objects c). buffer (objects c ! i) < length (buffers c)
          \<and> (\<forall>p. eUrlCachedDataPtr (objects c ! i) = Some p \<longrightarrow> p < i))"

definition cache_ok :: "AampCache \<Rightarrow> bool" where
  "cache_ok c \<longleftrightarrow> shape_ok c \<and> totalCachedBytes c = of_nat (live_bytes c)"

lemma chain_cong:
  "(\<And>j. j \<le> i \<Longrightarrow> eUrlCachedDataPtr (objs ! j) = eUrlCachedDataPtr (objs' ! j)) \<Longrightarrow> chain objs i = chain objs' i"
proof (induction objs i rule: chain.induct)
  case (1 objs i)
  then have "eUrlCachedDataPtr (objs ! i) = eUrlCachedDataPtr (objs' ! i)" by simp
  then show ?case using 1 by (auto simp: chain.simps [of objs i] chain.simps [of objs' i] split: option.split)
qed

lemma chain_self: "i \<in> set (chain objs i)"
  by (simp add: chain.simps [of objs i])

lemma chain_le: "x \<in> set (chain objs i) \<Longrightarrow> x \<le> i"
proof (induction objs i rule: chain.induct)
  case (1 objs i)
  show ?case
  proof (cases "eUrlCachedDataPtr (objs ! i)")
    case None
    with "1.prems" show ?thesis by (simp add: chain.simps [of objs i])
  next
    case (Some p)
    with "1.prems" "1.IH" [of p] show ?thesis
      by (auto simp: chain.simps [of objs i] split: if_splits dest: order.strict_implies_order order_trans)
  qed
qed

lemma chain_last:
  "eUrlCachedDataPtr (objs ! i) = Some p \<Longrightarrow> p < i \<Longrightarrow> set (chain objs i) = insert i (set (chain objs p))"
  "eUrlCachedDataPtr (objs ! i) = None \<Longrightarrow> set (chain objs i) = {i}"
  by (simp_all add: chain.simps [of objs i])

lemma set_live_objects: "set (live_objects c) = (\<Union>(k, i) \<in> set (cache c). set (chain (objects c) i))"
  by (auto simp: live_objects_def)

lemma set_live_buffers: "set (live_buffers c) = (\<lambda>i. buffer (objects c ! i)) ` set (live_objects c)"
  by (simp add: live_buffers_def)

lemma live_buffers_bound: "shape_ok c \<Longrightarrow> b \<in> set (live_buffers c) \<Longrightarrow> b < length (buffers c)"
  by (fastforce simp: set_live_buffers set_live_objects shape_ok_def dest: chain_le)

lemma deleters_bytes:
  "sum_list (map f (filter (\<lambda>b. b \<notin> B) (live_buffers c))) = (\<Sum>b \<in> set (live_buffers c) - B. f b)"
proof -
  have "distinct (live_buffers c)" by (simp add: live_buffers_def)
  then show ?thesis by (simp add: sum_list_distinct_conv_sum_set set_diff_eq)
qed

text \<open>What a step does to the bytes: the buffers that stay, go and come.\<close>

lemma run_deleters_total:
  fixes c c' :: AampCache
  assumes "totalCachedBytes c' = of_nat (live_bytes c + n)"
    and "n = (\<Sum>b \<in> set (live_buffers c') - set (live_buffers c). length (buffers c' ! b))"
    and "\<And>b. b \<in> set (live_buffers c) \<Longrightarrow> buffers c' ! b = buffers c ! b"
  shows "totalCachedBytes (run_deleters c c') = of_nat (live_bytes c')"
proof -
  let ?L = "set (live_buffers c)" and ?L' = "set (live_buffers c')" and ?f = "\<lambda>b. length (buffers c ! b)"
  have "live_bytes c' = (\<Sum>b \<in> ?L' - ?L. length (buffers c' ! b)) + (\<Sum>b \<in> ?L' \<inter> ?L. length (buffers c' ! b))"
    unfolding live_bytes_def by (metis List.finite_set add.commute sum.Int_Diff)
  moreover have "(\<Sum>b \<in> ?L' \<inter> ?L. length (buffers c' ! b)) = sum ?f (?L \<inter> ?L')"
    using assms(3) by (intro sum.cong) auto
  moreover have "live_bytes c = sum ?f (?L \<inter> ?L') + sum ?f (?L - ?L')"
    unfolding live_bytes_def by (simp add: sum.Int_Diff [of ?L ?f ?L'])
  ultimately have "live_bytes c + n = live_bytes c' + sum ?f (?L - ?L')" using assms(2) by simp
  then have "totalCachedBytes c' = of_nat (live_bytes c') + of_nat (sum ?f (?L - ?L'))"
    using assms(1) by (simp only: of_nat_add)
  then show ?thesis unfolding run_deleters_def deleters_bytes by simp
qed

lemma run_deleters_fields [simp]:
  "cache (run_deleters c c') = cache c'" "objects (run_deleters c c') = objects c'"
  "buffers (run_deleters c c') = buffers c'" "seqNo (run_deleters c c') = seqNo c'"
  "cacheType (run_deleters c c') = cacheType c'"
  "maxCachedInitFragmentsPerTrack (run_deleters c c') = maxCachedInitFragmentsPerTrack c'"
  "maxPlaylistCacheBytes (run_deleters c c') = maxPlaylistCacheBytes c'"
  by (simp_all add: run_deleters_def)

lemma live_fields [simp]:
  "live_objects (c\<lparr>totalCachedBytes := t\<rparr>) = live_objects c" "live_buffers (c\<lparr>totalCachedBytes := t\<rparr>) = live_buffers c"
  "live_bytes (c\<lparr>totalCachedBytes := t\<rparr>) = live_bytes c" "shape_ok (c\<lparr>totalCachedBytes := t\<rparr>) = shape_ok c"
  "live_objects (run_deleters d c) = live_objects c" "live_buffers (run_deleters d c) = live_buffers c"
  "live_bytes (run_deleters d c) = live_bytes c" "shape_ok (run_deleters d c) = shape_ok c"
  by (simp_all add: live_objects_def live_buffers_def live_bytes_def shape_ok_def run_deleters_def)

text \<open>Removing bindings.\<close>

lemma filter_live:
  "set (live_buffers (c\<lparr>cache := filter P (cache c)\<rparr>)) \<subseteq> set (live_buffers c)"
  by (auto simp: set_live_buffers set_live_objects)

lemma filter_shape: "shape_ok c \<Longrightarrow> shape_ok (c\<lparr>cache := filter P (cache c)\<rparr>)"
  by (auto simp: shape_ok_def distinct_map_filter)

lemma filter_ok:
  assumes "cache_ok c"
  shows "cache_ok (run_deleters c (c\<lparr>cache := filter P (cache c)\<rparr>))"
proof -
  let ?c = "c\<lparr>cache := filter P (cache c)\<rparr>"
  have "totalCachedBytes (run_deleters c ?c) = of_nat (live_bytes ?c)"
    using assms filter_live [of P c]
    by (intro run_deleters_total [where n = 0]) (auto simp: cache_ok_def Diff_eq_empty_iff)
  then show ?thesis using assms filter_shape by (simp add: cache_ok_def)
qed

lemma filter_bytes: "live_bytes (c\<lparr>cache := filter P (cache c)\<rparr>) \<le> live_bytes c"
  unfolding live_bytes_def using filter_live [of P c] by (simp add: sum_mono2)

lemmas erase_defs = erase_where_def erase_key_def

lemma erase_ok: "cache_ok c \<Longrightarrow> cache_ok (erase_where P c)" "cache_ok c \<Longrightarrow> cache_ok (erase_key url c)"
  by (simp_all add: erase_defs filter_ok)

lemma erase_bytes: "live_bytes (erase_where Q c) \<le> live_bytes c" "live_bytes (erase_key url c) \<le> live_bytes c"
  by (simp_all add: erase_defs filter_bytes)

lemma erase_fields [simp]:
  "objects (erase_where P c) = objects c" "objects (erase_key url c) = objects c"
  "buffers (erase_where P c) = buffers c" "buffers (erase_key url c) = buffers c"
  "seqNo (erase_where P c) = seqNo c" "seqNo (erase_key url c) = seqNo c"
  "cacheType (erase_where P c) = cacheType c" "cacheType (erase_key url c) = cacheType c"
  "maxPlaylistCacheBytes (erase_where P c) = maxPlaylistCacheBytes c"
  "maxPlaylistCacheBytes (erase_key url c) = maxPlaylistCacheBytes c"
  "maxCachedInitFragmentsPerTrack (erase_where P c) = maxCachedInitFragmentsPerTrack c"
  "maxCachedInitFragmentsPerTrack (erase_key url c) = maxCachedInitFragmentsPerTrack c"
  "cache (erase_where P c) = filter (\<lambda>(k, i). \<not> P i) (cache c)"
  "cache (erase_key url c) = filter (\<lambda>(k, i). k \<noteq> url) (cache c)"
  by (simp_all add: erase_defs)

lemma Clear_ok: "cache_ok c \<Longrightarrow> cache_ok (Clear c)"
proof -
  have "live_buffers (erase_where (\<lambda>_. True) c) = []" by (simp add: live_buffers_def live_objects_def)
  then have "live_bytes (erase_where (\<lambda>_. True) c) = 0" by (simp add: live_bytes_def)
  moreover assume "cache_ok c"
  ultimately show ?thesis using erase_ok(1) [of c "\<lambda>_. True"] by (simp add: Clear_def cache_ok_def)
qed

lemma reduce_ok: "cache_ok c \<Longrightarrow> cache_ok (reduceCacheSize ty target c)"
  by (simp add: reduceCacheSize_def Let_def erase_ok)

lemma playlist_room_ok: "cache_ok c \<Longrightarrow> cache_ok (snd (makeRoomForPlaylist ty n c))"
  by (simp add: makeRoomForPlaylist_def Let_def Clear_ok reduce_ok)

lemma Remove_ok: "cache_ok c \<Longrightarrow> Remove url c = Inr c' \<Longrightarrow> cache_ok c'"
  by (auto simp: Remove_def Let_def erase_ok split: option.splits if_splits)

lemma init_room_ok: "cache_ok c \<Longrightarrow> makeRoomForInitFragment ty c = Inr (ok, c') \<Longrightarrow> cache_ok c'"
  by (auto simp: makeRoomForInitFragment_def Let_def split: prod.splits if_splits option.splits sum.splits
      dest: Remove_ok)

text \<open>Adding a buffer: new bindings to new objects, and old objects that may take the new buffer.\<close>

definition growth :: "AampCache \<Rightarrow> AampCache \<Rightarrow> (string \<times> nat) list \<Rightarrow> u8 list \<Rightarrow> bool" where
  "growth c c' bs buf \<longleftrightarrow> cache_ok c \<and> buffers c' = buffers c @ [buf]
     \<and> totalCachedBytes c' = totalCachedBytes c + of_nat (length buf)
     \<and> cache c' = bs @ cache c \<and> bs \<noteq> [] \<and> distinct (map fst (bs @ cache c))
     \<and> length (objects c) \<le> length (objects c')
     \<and> (\<forall>i < length (objects c). eUrlCachedDataPtr (objects c' ! i) = eUrlCachedDataPtr (objects c ! i)
          \<and> buffer (objects c' ! i) \<in> {buffer (objects c ! i), length (buffers c)})
     \<and> (\<forall>i. length (objects c) \<le> i \<longrightarrow> i < length (objects c') \<longrightarrow> buffer (objects c' ! i) = length (buffers c)
          \<and> (\<forall>p. eUrlCachedDataPtr (objects c' ! i) = Some p \<longrightarrow>
               p < i \<and> (length (objects c) \<le> p \<or> p \<in> snd ` set (cache c))))
     \<and> (\<forall>k i. (k, i) \<in> set bs \<longrightarrow> length (objects c) \<le> i \<and> i < length (objects c'))"

lemma growthD:
  assumes "growth c c' bs buf"
  shows growth_ok: "cache_ok c"
    and growth_bufs: "buffers c' = buffers c @ [buf]"
    and growth_total: "totalCachedBytes c' = totalCachedBytes c + of_nat (length buf)"
    and growth_bindings: "cache c' = bs @ cache c" "bs \<noteq> []" "distinct (map fst (bs @ cache c))"
    and growth_longer: "length (objects c) \<le> length (objects c')"
    and growth_old: "\<And>i. i < length (objects c) \<Longrightarrow>
        eUrlCachedDataPtr (objects c' ! i) = eUrlCachedDataPtr (objects c ! i)
        \<and> buffer (objects c' ! i) \<in> {buffer (objects c ! i), length (buffers c)}"
    and growth_new: "\<And>i. length (objects c) \<le> i \<Longrightarrow> i < length (objects c') \<Longrightarrow>
        buffer (objects c' ! i) = length (buffers c)
        \<and> (\<forall>p. eUrlCachedDataPtr (objects c' ! i) = Some p \<longrightarrow>
             p < i \<and> (length (objects c) \<le> p \<or> p \<in> snd ` set (cache c)))"
    and growth_fresh: "\<And>k i. (k, i) \<in> set bs \<Longrightarrow> length (objects c) \<le> i \<and> i < length (objects c')"
    and growth_shape: "shape_ok c"
  using assms unfolding growth_def cache_ok_def by blast+

lemma old_chain:
  assumes g: "growth c c' bs buf"
  shows "(k, i) \<in> set (cache c) \<Longrightarrow> chain (objects c') i = chain (objects c) i"
  using growth_old [OF g] growth_shape [OF g] by (intro chain_cong) (fastforce simp: shape_ok_def)

lemma new_chain:
  assumes g: "growth c c' bs buf"
  shows "length (objects c) \<le> i \<Longrightarrow> i < length (objects c') \<Longrightarrow>
     set (chain (objects c') i) \<subseteq> set (live_objects c) \<union> {length (objects c)..}"
proof (induction i rule: less_induct)
  case (less i)
  show ?case
  proof (cases "eUrlCachedDataPtr (objects c' ! i)")
    case None
    with less.prems show ?thesis by (simp add: chain_last)
  next
    case (Some p)
    then have p: "p < i" "length (objects c) \<le> p \<or> p \<in> snd ` set (cache c)"
      using growth_new [OF g] less.prems by blast+
    moreover have "set (chain (objects c') p) \<subseteq> set (live_objects c) \<union> {length (objects c)..}"
    proof (cases "length (objects c) \<le> p")
      case True
      with less p(1) show ?thesis by simp
    next
      case False
      with p(2) obtain k where "(k, p) \<in> set (cache c)" by auto
      then show ?thesis using old_chain [OF g] by (auto simp: set_live_objects)
    qed
    ultimately show ?thesis using Some less.prems by (auto simp: chain_last(1))
  qed
qed

lemma grown_objects:
  assumes g: "growth c c' bs buf"
  shows "x \<in> set (live_objects c') \<Longrightarrow> x \<in> set (live_objects c) \<or> length (objects c) \<le> x"
proof -
  assume "x \<in> set (live_objects c')"
  then obtain k i where k: "(k, i) \<in> set (bs @ cache c)" "x \<in> set (chain (objects c') i)"
    using growth_bindings(1) [OF g] by (auto simp: set_live_objects)
  show ?thesis
  proof (cases "(k, i) \<in> set (cache c)")
    case True
    then show ?thesis using k old_chain [OF g, of k i] by (auto simp: set_live_objects)
  next
    case False
    then have "length (objects c) \<le> i" "i < length (objects c')" using k(1) growth_fresh [OF g, of k i] by auto
    then show ?thesis using new_chain [OF g, of i] k(2) by auto
  qed
qed

lemma live_bound:
  assumes g: "growth c c' bs buf"
  shows "x \<in> set (live_objects c') \<Longrightarrow> x < length (objects c')"
proof -
  assume "x \<in> set (live_objects c')"
  then obtain k i where k: "(k, i) \<in> set (bs @ cache c)" "x \<in> set (chain (objects c') i)"
    using growth_bindings(1) [OF g] by (auto simp: set_live_objects)
  have "i < length (objects c')"
    using k(1) growth_fresh [OF g, of k i] growth_shape [OF g] growth_longer [OF g] by (auto simp: shape_ok_def)
  then show ?thesis using chain_le [OF k(2)] by simp
qed

lemma grown_buffers:
  assumes g: "growth c c' bs buf"
  shows "set (live_buffers c') \<subseteq> insert (length (buffers c)) (set (live_buffers c))"
proof
  fix b assume "b \<in> set (live_buffers c')"
  then obtain x where x: "x \<in> set (live_objects c')" "b = buffer (objects c' ! x)"
    by (auto simp: set_live_buffers)
  show "b \<in> insert (length (buffers c)) (set (live_buffers c))"
  proof (cases "x < length (objects c)")
    case True
    then show ?thesis using x growth_old [OF g, of x] grown_objects [OF g, of x] by (auto simp: set_live_buffers)
  next
    case False
    then show ?thesis using x growth_new [OF g, of x] live_bound [OF g, of x] by auto
  qed
qed

lemma has_new_buffer:
  assumes g: "growth c c' bs buf"
  shows "length (buffers c) \<in> set (live_buffers c')"
proof -
  obtain k i bs' where b: "bs = (k, i) # bs'" using growth_bindings(2) [OF g] by (cases bs) auto
  then have "i \<in> set (live_objects c')" using growth_bindings(1) [OF g] chain_self by (auto simp: set_live_objects)
  moreover have "buffer (objects c' ! i) = length (buffers c)" using b growth_fresh [OF g, of k i] growth_new [OF g, of i] by auto
  ultimately show ?thesis by (force simp: set_live_buffers)
qed

lemma grown_shape:
  assumes g: "growth c c' bs buf"
  shows "shape_ok c'"
proof -
  have "i < length (objects c')" if "(k, i) \<in> set (cache c')" for k i
    using that growth_bindings(1) [OF g] growth_fresh [OF g, of k i] growth_longer [OF g] growth_shape [OF g] by (auto simp: shape_ok_def)
  moreover have "buffer (objects c' ! i) < length (buffers c')
      \<and> (\<forall>p. eUrlCachedDataPtr (objects c' ! i) = Some p \<longrightarrow> p < i)" if i: "i < length (objects c')" for i
  proof (cases "i < length (objects c)")
    case True
    then have "buffer (objects c ! i) < length (buffers c)" "\<forall>p. eUrlCachedDataPtr (objects c ! i) = Some p \<longrightarrow> p < i"
      using growth_shape [OF g] by (auto simp: shape_ok_def)
    then show ?thesis using growth_old [OF g, OF True] growth_bufs [OF g] by auto
  next
    case False
    then show ?thesis using growth_new [OF g, of i] i growth_bufs [OF g] by auto
  qed
  ultimately show ?thesis using growth_bindings [OF g] by (auto simp: shape_ok_def)
qed

lemma grown_ok:
  assumes g: "growth c c' bs buf"
  shows "cache_ok (run_deleters c c')"
proof -
  have nb: "length (buffers c) \<notin> set (live_buffers c)" using live_buffers_bound [OF growth_shape [OF g]] by blast
  then have "set (live_buffers c') - set (live_buffers c) = {length (buffers c)}"
    using grown_buffers [OF g] has_new_buffer [OF g] by auto
  then have "totalCachedBytes (run_deleters c c') = of_nat (live_bytes c')"
    using growth_ok [OF g] growth_total [OF g] live_buffers_bound [OF growth_shape [OF g]]
    by (intro run_deleters_total [where n = "length buf"]) (auto simp: cache_ok_def growth_bufs [OF g] nth_append)
  then show ?thesis using grown_shape [OF g] by (simp add: cache_ok_def)
qed

lemma grown_bytes:
  assumes g: "growth c c' bs buf"
  shows "live_bytes c' \<le> live_bytes c + length buf"
proof -
  let ?n = "length (buffers c)"
  have nb: "?n \<notin> set (live_buffers c)" using live_buffers_bound [OF growth_shape [OF g]] by blast
  have "live_bytes c' \<le> (\<Sum>b \<in> insert ?n (set (live_buffers c)). length (buffers c' ! b))"
    unfolding live_bytes_def using grown_buffers [OF g] by (intro sum_mono2) auto
  also have "\<dots> = length (buffers c' ! ?n) + (\<Sum>b \<in> set (live_buffers c). length (buffers c' ! b))"
    using nb by simp
  also have "(\<Sum>b \<in> set (live_buffers c). length (buffers c' ! b)) = live_bytes c"
    unfolding live_bytes_def using live_buffers_bound [OF growth_shape [OF g]]
    by (intro sum.cong) (auto simp: growth_bufs [OF g] nth_append)
  finally show ?thesis by (simp add: growth_bufs [OF g])
qed

text \<open>The three ways an insertion goes: no alias, a new alias, an existing alias.\<close>

definition grown :: "string \<Rightarrow> u8 list \<Rightarrow> string \<Rightarrow> AampMediaType \<Rightarrow> AampCache \<Rightarrow> AampCache" where
  "grown url buf effUrl ty c =
     (let nb = length (buffers c); n = length (objects c); sq = seqNo c + 1;
          main = (\<lambda>ptr. \<lparr>effectiveUrl = effUrl, buffer = nb, mediaType = ty, cdSeqNo = sq, eUrlCachedDataPtr = ptr\<rparr>);
          c1 = c\<lparr>buffers := buffers c @ [buf], totalCachedBytes := totalCachedBytes c + of_nat (length buf), seqNo := sq\<rparr>
      in if url = effUrl then c1\<lparr>objects := objects c @ [main None], cache := (url, n) # cache c\<rparr>
         else case entry effUrl c of
           None \<Rightarrow> c1\<lparr>objects := objects c @ [\<lparr>effectiveUrl = [], buffer = nb, mediaType = ty, cdSeqNo = 0,
                       eUrlCachedDataPtr = None\<rparr>, main (Some n)],
                     cache := (url, n + 1) # (effUrl, n) # cache c\<rparr>
         | Some j \<Rightarrow> c1\<lparr>objects := (objects c)[j := (objects c ! j)\<lparr>buffer := nb, mediaType := ty\<rparr>] @ [main (Some j)],
                       cache := (url, n) # cache c\<rparr>)"

lemma store_grown: "store True url buf effUrl ty c = run_deleters c (grown url buf effUrl ty c)"
  by (cases c) (simp add: store_def grown_def Let_def entry_def split: option.split)

lemma entry_in: "entry url c = Some i \<Longrightarrow> (url, i) \<in> set (cache c)"
  by (simp add: entry_def map_of_SomeD)

lemma entry_None: "entry url c = None \<longleftrightarrow> url \<notin> fst ` set (cache c)"
  by (simp add: entry_def map_of_eq_None_iff)

definition new_bindings :: "string \<Rightarrow> string \<Rightarrow> AampCache \<Rightarrow> (string \<times> nat) list" where
  "new_bindings url effUrl c = (let n = length (objects c) in
     if url \<noteq> effUrl \<and> entry effUrl c = None then [(url, n + 1), (effUrl, n)] else [(url, n)])"

lemma grown_growth:
  assumes "cache_ok c" "entry url c = None"
  shows "growth c (grown url buf effUrl ty c) (new_bindings url effUrl c) buf"
proof -
  have d: "distinct (map fst (cache c))" and u: "url \<notin> fst ` set (cache c)"
    using assms by (auto simp: cache_ok_def shape_ok_def entry_None)
  consider "url = effUrl" | "url \<noteq> effUrl" "entry effUrl c = None" | j where "url \<noteq> effUrl" "entry effUrl c = Some j"
    by fastforce
  then show ?thesis
  proof cases
    case 1
    then show ?thesis using assms d u
      by (auto simp: growth_def grown_def new_bindings_def Let_def nth_append)
  next
    case 2
    then have "effUrl \<notin> fst ` set (cache c)" by (simp add: entry_None)
    with 2 show ?thesis using assms d u
      by (auto simp: growth_def grown_def new_bindings_def Let_def nth_append nth_Cons split: nat.splits)
  next
    case 3
    then have "(effUrl, j) \<in> set (cache c)" by (simp add: entry_in)
    moreover from this have "j < length (objects c)" using assms by (auto simp: cache_ok_def shape_ok_def)
    ultimately show ?thesis using assms d u 3
      by (auto simp: growth_def grown_def new_bindings_def Let_def nth_append nth_list_update image_iff, force+)
  qed
qed

lemma store_ok: "cache_ok c \<Longrightarrow> entry url c = None \<Longrightarrow> cache_ok (store alloc url buf effUrl ty c)"
proof (cases alloc)
  case True
  moreover assume "cache_ok c" "entry url c = None"
  ultimately show ?thesis using grown_ok [OF grown_growth] store_grown by metis
qed (simp add: store_def)

lemma store_bytes:
  "cache_ok c \<Longrightarrow> entry url c = None \<Longrightarrow> live_bytes (store alloc url buf effUrl ty c) \<le> live_bytes c + length buf"
proof (cases alloc)
  case True
  moreover assume "cache_ok c" "entry url c = None"
  ultimately show ?thesis using grown_bytes [OF grown_growth] by (simp add: store_grown)
qed (simp add: store_def)

section \<open>Making room only removes bindings\<close>

definition shrunk :: "AampCache \<Rightarrow> AampCache \<Rightarrow> bool" where
  "shrunk c c' \<longleftrightarrow> set (cache c') \<subseteq> set (cache c) \<and> objects c' = objects c \<and> buffers c' = buffers c
     \<and> seqNo c' = seqNo c \<and> cacheType c' = cacheType c
     \<and> maxPlaylistCacheBytes c' = maxPlaylistCacheBytes c
     \<and> maxCachedInitFragmentsPerTrack c' = maxCachedInitFragmentsPerTrack c"

lemma shrunk_refl [simp]: "shrunk c c"
  by (simp add: shrunk_def)

lemma shrunk_trans: "shrunk c c1 \<Longrightarrow> shrunk c1 c2 \<Longrightarrow> shrunk c c2"
  by (auto simp: shrunk_def)

lemma shrunk_erase [simp]: "shrunk c (erase_where P c)" "shrunk c (erase_key url c)"
  by (auto simp: shrunk_def)

lemma shrunk_erase2 [simp]:
  "shrunk c (erase_where P (erase_where Q c))" "shrunk c (erase_key url (erase_key url' c))"
  by (auto simp: shrunk_def)

lemma shrunk_entry: "shrunk c c' \<Longrightarrow> entry url c = None \<Longrightarrow> entry url c' = None"
  by (auto simp: shrunk_def entry_None)

lemma shrunk_reduce: "shrunk c (reduceCacheSize ty target c)"
  by (simp add: reduceCacheSize_def Let_def)

lemma shrunk_playlist: "shrunk c (snd (makeRoomForPlaylist ty n c))"
proof -
  have "shrunk c (Clear c)" by (simp add: Clear_def shrunk_def)
  then show ?thesis by (simp add: makeRoomForPlaylist_def Let_def shrunk_reduce)
qed

lemma shrunk_Remove: "Remove url c = Inr c' \<Longrightarrow> shrunk c c'"
  by (auto simp: Remove_def Let_def split: option.splits if_splits)

lemma shrunk_init: "makeRoomForInitFragment ty c = Inr (ok, c') \<Longrightarrow> shrunk c c'"
  by (auto simp: makeRoomForInitFragment_def Let_def split: prod.splits if_splits option.splits sum.splits
      dest: shrunk_Remove)

text \<open>An insertion that is not refused at once makes room and then stores or gives up.\<close>

lemma Insert_cases:
  assumes "Insert alloc url buf effUrl ty c = Inr c'"
  obtains "c' = c" "entry url c \<noteq> None \<or> buf = []"
  | ok c1 where "entry url c = None" "buf \<noteq> []" "shrunk c c1" "cache_ok c \<longrightarrow> cache_ok c1"
      "c' = (if ok then store alloc url buf effUrl ty c1 else c1)"
      "case cacheType c of eCACHE_TYPE_INIT_FRAGMENT \<Rightarrow> makeRoomForInitFragment ty c = Inr (ok, c1)
       | eCACHE_TYPE_PLAYLIST \<Rightarrow> makeRoomForPlaylist ty (of_nat (length buf)) c = (ok, c1)"
proof (cases "entry url c \<noteq> None \<or> buf = []")
  case True
  then show ?thesis using assms that(1) by (auto simp: Insert_def split: if_splits)
next
  case False
  show ?thesis
  proof (cases "cacheType c")
    case eCACHE_TYPE_INIT_FRAGMENT
    then obtain ok c1 where m: "makeRoomForInitFragment ty c = Inr (ok, c1)"
      and "c' = (if ok then store alloc url buf effUrl ty c1 else c1)"
      using assms False by (auto simp: Insert_def split: sum.splits if_splits)
    then show ?thesis using False eCACHE_TYPE_INIT_FRAGMENT shrunk_init [OF m] init_room_ok [OF _ m] that(2) by auto
  next
    case eCACHE_TYPE_PLAYLIST
    obtain ok c1 where m: "makeRoomForPlaylist ty (of_nat (length buf)) c = (ok, c1)" by fastforce
    then have "c' = (if ok then store alloc url buf effUrl ty c1 else c1)"
      using assms False eCACHE_TYPE_PLAYLIST by (auto simp: Insert_def split: if_splits)
    then show ?thesis
      using False eCACHE_TYPE_PLAYLIST m shrunk_playlist [of c ty "of_nat (length buf)"]
        playlist_room_ok [of c ty "of_nat (length buf)"] that(2) by auto
  qed
qed

lemma Insert_ok:
  assumes "Insert alloc url buf effUrl ty c = Inr c'" "cache_ok c"
  shows "cache_ok c'"
  using assms(1)
  by (rule Insert_cases) (use assms(2) in \<open>auto simp: store_ok shrunk_entry\<close>)

lemma touch_nth [simp]:
  "buffer (objs[i := (objs ! i)\<lparr>cdSeqNo := n\<rparr>] ! j) = buffer (objs ! j)"
  "eUrlCachedDataPtr (objs[i := (objs ! i)\<lparr>cdSeqNo := n\<rparr>] ! j) = eUrlCachedDataPtr (objs ! j)"
  "effectiveUrl (objs[i := (objs ! i)\<lparr>cdSeqNo := n\<rparr>] ! j) = effectiveUrl (objs ! j)"
  "mediaType (objs[i := (objs ! i)\<lparr>cdSeqNo := n\<rparr>] ! j) = mediaType (objs ! j)"
  by (cases "i < length objs"; cases "i = j"; simp add: list_update_beyond)+

lemma store_type: "cacheType (store alloc url buf effUrl ty c) = cacheType c"
  by (simp add: store_def Let_def split: option.split)

lemma Insert_type: "Insert alloc url buf effUrl ty c = Inr c' \<Longrightarrow> cacheType c' = cacheType c"
  by (erule Insert_cases) (auto simp: store_type shrunk_def)

lemma same_type [simp]: "cacheType (Clear c) = cacheType c" "cacheType (snd (Find url c)) = cacheType c"
  by (simp_all add: Clear_def Find_def split: option.split)

lemma Remove_type: "Remove url c = Inr c' \<Longrightarrow> cacheType c' = cacheType c"
  using shrunk_Remove by (auto simp: shrunk_def)

lemma Find_live: "live_buffers (snd (Find url c)) = live_buffers c"
proof -
  have "chain (objs[i := (objs ! i)\<lparr>cdSeqNo := n\<rparr>]) j = chain objs j" for objs i n j
    by (rule chain_cong) simp
  then show ?thesis by (simp add: Find_def live_buffers_def live_objects_def split: option.split)
qed

lemma Find_ok: "cache_ok c \<Longrightarrow> cache_ok (snd (Find url c))"
proof -
  assume ok: "cache_ok c"
  have "shape_ok (snd (Find url c))"
    using ok by (auto simp: cache_ok_def shape_ok_def Find_def split: option.split)
  moreover have "live_bytes (snd (Find url c)) = live_bytes c"
    by (simp add: live_bytes_def Find_live) (simp add: Find_def split: option.split)
  ultimately show ?thesis
    using ok by (simp add: cache_ok_def) (simp add: Find_def split: option.split)
qed

section \<open>The invariant of the handler\<close>

definition handler_ok :: "AampCacheHandler \<Rightarrow> bool" where
  "handler_ok h \<longleftrightarrow> cache_ok (mPlaylistCache h) \<and> cacheType (mPlaylistCache h) = eCACHE_TYPE_PLAYLIST
     \<and> cache_ok (mInitFragmentCache h) \<and> cacheType (mInitFragmentCache h) = eCACHE_TYPE_INIT_FRAGMENT"

lemma new_cache_ok: "cache_ok (new_cache ty)"
  by (simp add: cache_ok_def shape_ok_def new_cache_def live_bytes_def live_buffers_def live_objects_def)

lemma handler_ok_control [simp]:
  "handler_ok (notify h) = handler_ok h" "handler_ok (cleanup_loop h) = handler_ok h"
  "handler_ok (InitializeIfNeeded early h) = handler_ok h"
  "handler_ok (h\<lparr>mCacheActive := b\<rparr>) = handler_ok h"
  by (auto simp: handler_ok_def notify_def cleanup_loop_def InitializeIfNeeded_def thread_started_def
      start_thread_def split: cleanup_pc.split)

lemma cache_ok_limits [simp]:
  "cache_ok (c\<lparr>maxPlaylistCacheBytes := n\<rparr>) = cache_ok c"
  "cache_ok (c\<lparr>maxCachedInitFragmentsPerTrack := m\<rparr>) = cache_ok c"
  by (simp_all add: cache_ok_def shape_ok_def live_bytes_def live_buffers_def live_objects_def)

lemma init_caches [simp]:
  "mPlaylistCache (InitializeIfNeeded early h) = mPlaylistCache h"
  "mInitFragmentCache (InitializeIfNeeded early h) = mInitFragmentCache h"
  by (simp_all add: InitializeIfNeeded_def thread_started_def cleanup_loop_def start_thread_def)

lemma insert_playlist_ok:
  "InsertToPlaylistCache early alloc url buf effUrl isLive ty h = Inr h' \<Longrightarrow> handler_ok h \<Longrightarrow> handler_ok h'"
  by (auto simp: InsertToPlaylistCache_def handler_ok_def Let_def split: if_splits sum.splits dest: Insert_ok Insert_type)

lemma insert_init_ok:
  "InsertToInitFragCache early alloc url buf effUrl ty h = Inr h' \<Longrightarrow> handler_ok h \<Longrightarrow> handler_ok h'"
  by (auto simp: InsertToInitFragCache_def handler_ok_def Let_def split: if_splits sum.splits dest: Insert_ok Insert_type)

lemma handler_ok_step: "cache_step h h' \<Longrightarrow> handler_ok h \<Longrightarrow> handler_ok h'"
proof (induction rule: cache_step.induct)
  case (1 early alloc url buf effUrl isLive ty h h')
  then show ?case by (rule insert_playlist_ok)
next
  case (2 early alloc url buf effUrl ty h h')
  then show ?case by (rule insert_init_ok)
next
  case (3 url h h')
  then show ?case by (auto simp: RemoveFromPlaylistCache_def handler_ok_def split: sum.splits dest: Remove_ok Remove_type)
next
  case (4 h url)
  then show ?case using Find_ok [of "mPlaylistCache h" url]
    by (simp add: RetrieveFromPlaylistCache_def handler_ok_def case_prod_beta)
next
  case (5 h url)
  then show ?case using Find_ok [of "mInitFragmentCache h" url]
    by (simp add: RetrieveFromInitFragmentCache_def handler_ok_def case_prod_beta)
next
  case (6 h url)
  then show ?case using Find_ok [of "mPlaylistCache h" url]
    by (simp add: IsPlaylistUrlCached_def handler_ok_def case_prod_beta)
next
  case (11 h)
  then show ?case by (simp add: ClearCacheHandler_def handler_ok_def Clear_ok)
next
  case (14 h)
  then show ?case by (simp add: cleanup_timeout_def handler_ok_def Clear_ok)
qed (simp_all add: StartPlaylistCache_def StopPlaylistCache_def,
    simp_all add: SetMaxPlaylistCacheSize_def SetMaxInitFragCacheSize_def handler_ok_def)

interpretation cache_handler: stateful "\<lambda>h. h = new_handler" cache_step handler_ok
proof
  show "handler_ok h" if "h = new_handler" for h
    using that by (simp add: new_handler_def handler_ok_def new_cache_ok) (simp add: new_cache_def)
qed (rule handler_ok_step)
section \<open>Lookups after an insertion\<close>

lemma grown_lookup:
  assumes "shape_ok c" "entry url c = None"
  shows "\<exists>i. entry url (grown url buf effUrl ty c) = Some i
      \<and> effectiveUrl (objects (grown url buf effUrl ty c) ! i) = effUrl
      \<and> buffers (grown url buf effUrl ty c) ! buffer (objects (grown url buf effUrl ty c) ! i) = buf"
    and "\<exists>j. entry effUrl (grown url buf effUrl ty c) = Some j
      \<and> buffers (grown url buf effUrl ty c) ! buffer (objects (grown url buf effUrl ty c) ! j) = buf"
proof -
  have "j < length (objects c)" if "entry effUrl c = Some j" for j
    using entry_in [OF that] assms(1) by (auto simp: shape_ok_def)
  then show "\<exists>i. entry url (grown url buf effUrl ty c) = Some i
      \<and> effectiveUrl (objects (grown url buf effUrl ty c) ! i) = effUrl
      \<and> buffers (grown url buf effUrl ty c) ! buffer (objects (grown url buf effUrl ty c) ! i) = buf"
    and "\<exists>j. entry effUrl (grown url buf effUrl ty c) = Some j
      \<and> buffers (grown url buf effUrl ty c) ! buffer (objects (grown url buf effUrl ty c) ! j) = buf"
    using assms(2) by (auto simp: grown_def Let_def entry_def nth_append nth_Cons split: option.splits)
qed

lemma entry_deleters [simp]: "entry url (run_deleters c c') = entry url c'"
  by (simp add: entry_def)

lemma hit_Find:
  "hit url (fst (Find url c)) (snd (Find url c)) = (case entry url c of None \<Rightarrow> None
     | Some i \<Rightarrow> Some (buffers c ! buffer (objects c ! i),
         if effectiveUrl (objects c ! i) = [] then url else effectiveUrl (objects c ! i)))"
  by (simp add: hit_def Find_def split: option.split)

lemma retrieve_hit:
  "fst (RetrieveFromPlaylistCache url h) = hit url (fst (Find url (mPlaylistCache h))) (snd (Find url (mPlaylistCache h)))"
  "fst (RetrieveFromInitFragmentCache url h)
     = hit url (fst (Find url (mInitFragmentCache h))) (snd (Find url (mInitFragmentCache h)))"
  by (simp_all add: RetrieveFromPlaylistCache_def RetrieveFromInitFragmentCache_def case_prod_beta)

lemma store_hits:
  assumes "cache_ok c" "entry url c = None" "effUrl \<noteq> []" "c' = store True url buf effUrl ty c"
  shows "hit url (fst (Find url c')) (snd (Find url c')) = Some (buf, effUrl)"
    and "\<exists>e. hit effUrl (fst (Find effUrl c')) (snd (Find effUrl c')) = Some (buf, e)"
  using grown_lookup [where c = c and url = url and buf = buf and effUrl = effUrl and ty = ty] assms
  by (auto simp: store_grown hit_Find cache_ok_def)

section \<open>The playlist limit\<close>

lemma unat_size_t: "0 \<le> m \<Longrightarrow> m \<le> INT_MAX \<Longrightarrow> unat (size_t m) = nat m"
  by (simp add: size_t_def INT_MAX_def unat_eq_nat_uint uint_word_of_int)

lemma unat_sum: "a + b < 2 ^ 64 \<Longrightarrow> unat (of_nat a + of_nat b :: u64) = a + b"
  by (simp add: unat_of_nat flip: of_nat_add)

lemma limit_test:
  assumes "cache_ok c" "0 \<le> maxPlaylistCacheBytes c" "maxPlaylistCacheBytes c \<le> INT_MAX" "live_bytes c + n < 2 ^ 64"
  shows "size_t (maxPlaylistCacheBytes c) < totalCachedBytes c + of_nat n \<longleftrightarrow>
    nat (maxPlaylistCacheBytes c) < live_bytes c + n"
  using assms by (simp add: word_less_nat_alt cache_ok_def unat_size_t unat_sum)

lemma reduce_bytes: "live_bytes (reduceCacheSize ty target c) \<le> live_bytes c"
  using erase_bytes(1) order_trans by (auto simp: reduceCacheSize_def Let_def intro: order_trans [OF erase_bytes(1)])

lemma reduce_keeps_manifest:
  "(k, i) \<in> set (cache c) \<Longrightarrow> mediaType (objects c ! i) = eMEDIATYPE_MANIFEST \<Longrightarrow>
     (k, i) \<in> set (cache (reduceCacheSize ty target c))"
  by (simp add: reduceCacheSize_def Let_def)

lemma playlist_room:
  assumes "makeRoomForPlaylist ty (of_nat n) c = (ok, c1)" "cache_ok c" "ty \<noteq> eMEDIATYPE_MANIFEST"
    "0 \<le> maxPlaylistCacheBytes c" "maxPlaylistCacheBytes c \<le> INT_MAX" "live_bytes c + n < 2 ^ 64"
  shows "live_bytes c1 \<le> live_bytes c" "ok \<longleftrightarrow> live_bytes c1 + n \<le> nat (maxPlaylistCacheBytes c)"
    "\<And>k i. (k, i) \<in> set (cache c) \<Longrightarrow> mediaType (objects c ! i) = eMEDIATYPE_MANIFEST \<Longrightarrow> (k, i) \<in> set (cache c1)"
proof -
  let ?max = "maxPlaylistCacheBytes c"
  let ?r = "reduceCacheSize ty (size_t ?max - of_nat n) c"
  have rb: "live_bytes ?r \<le> live_bytes c" by (rule reduce_bytes)
  have same: "maxPlaylistCacheBytes ?r = ?max" using shrunk_reduce by (simp add: shrunk_def)
  have "live_bytes ?r + n < 2 ^ 64" using rb assms(6) by linarith
  then have "size_t ?max < totalCachedBytes ?r + of_nat n \<longleftrightarrow> nat ?max < live_bytes ?r + n"
    using limit_test [of ?r n] reduce_ok [OF assms(2)] assms(4,5) same by simp
  then have "totalCachedBytes ?r + of_nat n \<le> size_t ?max \<longleftrightarrow> \<not> nat ?max < live_bytes ?r + n"
    by (metis linorder_not_less)
  then have cases: "(\<not> nat ?max < live_bytes c + n \<and> c1 = c \<and> ok)
      \<or> (nat ?max < live_bytes c + n \<and> c1 = ?r \<and> (ok \<longleftrightarrow> live_bytes ?r + n \<le> nat ?max))"
    using assms(1,3) limit_test [OF assms(2,4-6)] assms(4) same
    by (auto simp: makeRoomForPlaylist_def Let_def not_less split: if_splits)
  then show "live_bytes c1 \<le> live_bytes c" "ok \<longleftrightarrow> live_bytes c1 + n \<le> nat ?max"
    using rb by auto
  show "(k, i) \<in> set (cache c1)" if "(k, i) \<in> set (cache c)" "mediaType (objects c ! i) = eMEDIATYPE_MANIFEST" for k i
    using cases that reduce_keeps_manifest [of k i c] by auto
qed

lemma store_keeps: "set (cache c) \<subseteq> set (cache (store alloc url buf effUrl ty c))"
  by (auto simp: store_def Let_def split: option.split)

section \<open>The least recently used entry\<close>

definition main_of :: "AampCachedData list \<Rightarrow> AampMediaType \<Rightarrow> (string \<times> nat) \<Rightarrow> bool" where
  "main_of objs ty b \<longleftrightarrow> mediaType (objs ! snd b) = ty \<and> effectiveUrl (objs ! snd b) \<noteq> []"

definition init_count :: "AampMediaType \<Rightarrow> AampCache \<Rightarrow> nat" where
  "init_count ty c = length (filter (main_of (objects c) ty) (cache c))"

definition least_used :: "AampMediaType \<Rightarrow> AampCache \<Rightarrow> (string \<times> nat) \<Rightarrow> bool" where
  "least_used ty c b \<longleftrightarrow> b \<in> set (cache c) \<and> main_of (objects c) ty b
     \<and> list_all (\<lambda>b'. main_of (objects c) ty b' \<longrightarrow> cdSeqNo (objects c ! snd b) \<le> cdSeqNo (objects c ! snd b')) (cache c)"

lemma lru_scan_count: "snd (lru_scan objs ty bs lru n) = n + length (filter (main_of objs ty) bs)"
  by (induction objs ty bs lru n rule: lru_scan.induct) (auto simp: main_of_def)

lemma lru_scan_least:
  "fst (lru_scan objs ty bs lru n) = Some b \<Longrightarrow>
     b \<in> set_option lru \<union> set (filter (main_of objs ty) bs)
     \<and> (\<forall>b' \<in> set_option lru \<union> set (filter (main_of objs ty) bs). cdSeqNo (objs ! snd b) \<le> cdSeqNo (objs ! snd b'))"
proof (induction objs ty bs lru n rule: lru_scan.induct)
  case (2 objs ty k i rest lru n)
  let ?new = "case lru of None \<Rightarrow> Some (k, i)
    | Some (k', j) \<Rightarrow> if cdSeqNo (objs ! i) < cdSeqNo (objs ! j) then Some (k, i) else lru"
  show ?case
  proof (cases "mediaType (objs ! i) = ty \<and> effectiveUrl (objs ! i) \<noteq> []")
    case True
    with 2 have *: "b \<in> set_option ?new \<union> set (filter (main_of objs ty) rest)
        \<and> (\<forall>b' \<in> set_option ?new \<union> set (filter (main_of objs ty) rest). cdSeqNo (objs ! snd b) \<le> cdSeqNo (objs ! snd b'))"
      by simp
    show ?thesis
    proof (cases lru)
      case None
      with * True show ?thesis by (auto simp: main_of_def)
    next
      case (Some p)
      with * True show ?thesis by (cases p) (fastforce simp: main_of_def split: if_splits)
    qed
  next
    case False
    with 2 show ?thesis by (auto simp: main_of_def)
  qed
qed simp

lemma lru_scan_none:
  "fst (lru_scan objs ty bs lru n) = None \<longleftrightarrow> lru = None \<and> filter (main_of objs ty) bs = []"
  by (induction objs ty bs lru n rule: lru_scan.induct) (auto simp: main_of_def split: option.splits if_splits)

lemma lru_scan_result:
  "lru_scan (objects c) ty (cache c) None 0 = (lru, count) \<Longrightarrow>
     count = init_count ty c \<and> (lru = None \<longleftrightarrow> init_count ty c = 0) \<and> (\<forall>b. lru = Some b \<longrightarrow> least_used ty c b)"
  using lru_scan_count [of "objects c" ty "cache c" None 0] lru_scan_none [of "objects c" ty "cache c" None 0]
    lru_scan_least [of "objects c" ty "cache c" None 0]
  by (auto simp: init_count_def least_used_def list_all_iff)

lemma least_used_entry: "shape_ok c \<Longrightarrow> least_used ty c (k, i) \<Longrightarrow> entry k c = Some i \<and> effectiveUrl (objects c ! i) \<noteq> []"
  by (auto simp: least_used_def main_of_def entry_def shape_ok_def)

lemma Remove_least_used:
  assumes "shape_ok c" "least_used ty c (k, i)"
  obtains c1 where "Remove k c = Inr c1" "shrunk c c1" "k \<notin> fst ` set (cache c1)"
    "cache c1 = filter (\<lambda>(k', i'). k' \<noteq> k) (cache c) \<or>
     cache c1 = filter (\<lambda>(k', i'). k' \<noteq> k) (filter (\<lambda>(k', i'). k' \<noteq> effectiveUrl (objects c ! i)) (cache c))"
proof -
  obtain c1 where r: "Remove k c = Inr c1"
    using least_used_entry [OF assms] by (auto simp: Remove_def Let_def)
  moreover have "cache c1 = filter (\<lambda>(k', i'). k' \<noteq> k) (cache c) \<or>
     cache c1 = filter (\<lambda>(k', i'). k' \<noteq> k) (filter (\<lambda>(k', i'). k' \<noteq> effectiveUrl (objects c ! i)) (cache c))"
    using r least_used_entry [OF assms] by (auto simp: Remove_def Let_def split: option.splits if_splits)
  moreover from this have "k \<notin> fst ` set (cache c1)" by auto
  ultimately show ?thesis using that shrunk_Remove by blast
qed

lemma filter_fewer: "x \<in> set xs \<Longrightarrow> P x \<Longrightarrow> \<not> Q x \<Longrightarrow> length (filter P (filter Q xs)) < length (filter P xs)"
proof (induction xs)
  case (Cons y ys)
  have "length (filter P (filter Q ys)) \<le> length (filter P ys)"
    by (induction ys) auto
  with Cons show ?case by (auto split: if_splits)
qed simp
lemma filter_length_mono: "(\<And>x. P x \<Longrightarrow> Q x) \<Longrightarrow> length (filter P xs) \<le> length (filter Q xs)"
  by (induction xs) auto

lemma victim_count:
  assumes "shape_ok c" "least_used ty c (k, i)" "Remove k c = Inr c1"
  shows "init_count ty c1 < init_count ty c"
proof -
  let ?m = "main_of (objects c) ty" and ?not_k = "\<lambda>(k', i' :: nat). k' \<noteq> k"
  have v: "(k, i) \<in> set (cache c)" "?m (k, i)" using assms(2) by (auto simp: least_used_def)
  have o: "objects c1 = objects c" using shrunk_Remove [OF assms(3)] by (simp add: shrunk_def)
  have "cache c1 = filter ?not_k (cache c)
      \<or> cache c1 = filter ?not_k (filter (\<lambda>(k', i'). k' \<noteq> effectiveUrl (objects c ! i)) (cache c))"
    using Remove_least_used [OF assms(1,2)] assms(3) by (metis sum.inject(2))
  then have "length (filter ?m (cache c1)) \<le> length (filter ?m (filter ?not_k (cache c)))"
    by (auto simp: filter_filter intro!: filter_length_mono)
  also have "\<dots> < length (filter ?m (cache c))" using filter_fewer [of "(k, i)" "cache c" ?m ?not_k] v by simp
  finally show ?thesis by (simp add: init_count_def o)
qed

lemma init_room_cases:
  assumes "shape_ok c" "1 \<le> maxCachedInitFragmentsPerTrack c"
  obtains (room) "int (init_count ty c) < maxCachedInitFragmentsPerTrack c" "makeRoomForInitFragment ty c = Inr (True, c)"
  | (evict) k i c1 where "maxCachedInitFragmentsPerTrack c \<le> int (init_count ty c)" "least_used ty c (k, i)"
      "Remove k c = Inr c1" "makeRoomForInitFragment ty c = Inr (True, c1)"
proof -
  obtain lru count where scan: "lru_scan (objects c) ty (cache c) None 0 = (lru, count)" by fastforce
  note res = lru_scan_result [OF scan]
  show ?thesis
  proof (cases "maxCachedInitFragmentsPerTrack c \<le> int (init_count ty c)")
    case True
    with assms(2) res obtain k i where l: "lru = Some (k, i)" "least_used ty c (k, i)" by fastforce
    obtain c1 where rem: "Remove k c = Inr c1" using Remove_least_used [OF assms(1) l(2)] by blast
    then have "makeRoomForInitFragment ty c = Inr (True, c1)"
      using True l scan res by (simp add: makeRoomForInitFragment_def)
    with rem show ?thesis using True evict l(2) by blast
  next
    case False
    then show ?thesis using room scan res by (simp add: makeRoomForInitFragment_def)
  qed
qed

lemma init_room_fault:
  assumes "shape_ok c"
  shows "makeRoomForInitFragment ty c = Inl e \<longleftrightarrow>
    e = DerefEnd \<and> maxCachedInitFragmentsPerTrack c \<le> 0 \<and> init_count ty c = 0"
proof -
  obtain lru count where scan: "lru_scan (objects c) ty (cache c) None 0 = (lru, count)" by fastforce
  note res = lru_scan_result [OF scan]
  show ?thesis
  proof (cases lru)
    case None
    with res scan show ?thesis by (auto simp: makeRoomForInitFragment_def)
  next
    case (Some b)
    obtain k i where b: "b = (k, i)" by fastforce
    then obtain c1 where "Remove k c = Inr c1"
      using Remove_least_used [OF assms, of ty k i] res Some by blast
    with res scan Some b show ?thesis by (auto simp: makeRoomForInitFragment_def split: if_splits)
  qed
qed

definition alias_only :: "string \<Rightarrow> string \<Rightarrow> AampCache \<Rightarrow> bool" where
  "alias_only url effUrl c \<longleftrightarrow> url = effUrl
     \<or> (case entry effUrl c of None \<Rightarrow> True | Some j \<Rightarrow> effectiveUrl (objects c ! j) = [])"

lemma shrunk_alias:
  "shrunk c c1 \<Longrightarrow> shape_ok c \<Longrightarrow> alias_only url effUrl c \<Longrightarrow> alias_only url effUrl c1"
proof -
  assume *: "shrunk c c1" "shape_ok c" "alias_only url effUrl c"
  have "entry effUrl c = Some j" if "entry effUrl c1 = Some j" for j
    using entry_in [OF that] * by (auto simp: shrunk_def shape_ok_def entry_def)
  with * show ?thesis by (auto simp: alias_only_def shrunk_def split: option.splits)
qed

lemma grown_bindings: "cache (grown url buf effUrl ty c) = new_bindings url effUrl c @ cache c"
  by (auto simp: grown_def new_bindings_def Let_def split: option.split)

lemma grown_main:
  assumes "shape_ok c" "alias_only url effUrl c" "b \<in> set (cache c)"
  shows "main_of (objects (grown url buf effUrl ty c)) t b \<longleftrightarrow> main_of (objects c) t b"
proof -
  have b: "snd b < length (objects c)" using assms(1,3) by (cases b) (auto simp: shape_ok_def)
  have "j < length (objects c)" if "entry effUrl c = Some j" for j
    using entry_in [OF that] assms(1) by (auto simp: shape_ok_def)
  with b assms(2) show ?thesis
    by (auto simp: grown_def Let_def main_of_def alias_only_def nth_append nth_list_update split: option.splits)
qed

lemma grown_count:
  assumes "shape_ok c" "alias_only url effUrl c" "effUrl \<noteq> []"
  shows "init_count ty (grown url buf effUrl ty c) = init_count ty c + 1"
proof -
  let ?g = "grown url buf effUrl ty c"
  have "filter (main_of (objects ?g) ty) (cache c) = filter (main_of (objects c) ty) (cache c)"
    using grown_main [OF assms(1,2)] by (intro filter_cong) auto
  moreover have "cache ?g = new_bindings url effUrl c @ cache c" by (rule grown_bindings)
  moreover have "length (filter (main_of (objects ?g) ty) (new_bindings url effUrl c)) = 1"
    using assms(3)
    by (auto simp: grown_def new_bindings_def Let_def main_of_def nth_append split: option.split)
  ultimately show ?thesis by (simp add: init_count_def)
qed

lemma store_entry:
  assumes "cache_ok c" "entry url c = None" "entry url (store alloc url buf effUrl ty c) = None"
  shows "store alloc url buf effUrl ty c = c"
proof (cases alloc)
  case True
  then show ?thesis
    using assms grown_lookup(1) [where c = c and url = url and buf = buf and effUrl = effUrl and ty = ty]
    by (auto simp: store_grown cache_ok_def)
qed (simp add: store_def)

lemma playlist_insert_total:
  assumes "cacheType (mPlaylistCache h) = eCACHE_TYPE_PLAYLIST" "effUrl \<noteq> []"
  obtains h' where "InsertToPlaylistCache early alloc url buf effUrl isLive ty h = Inr h'"
proof -
  obtain b c1 where "makeRoomForPlaylist ty (of_nat (length buf)) (mPlaylistCache h) = (b, c1)" by fastforce
  with assms have "\<exists>h'. InsertToPlaylistCache early alloc url buf effUrl isLive ty h = Inr h'"
    by (auto simp: InsertToPlaylistCache_def Insert_def Let_def)
  with that show ?thesis by blast
qed

section \<open>Properties\<close>


definition sample_handler :: AampCacheHandler where
  "sample_handler = (case InsertToPlaylistCache False True ''main'' [1, 2, 3] ''cdn'' True eMEDIATYPE_MANIFEST new_handler of
     Inr h \<Rightarrow> h | Inl _ \<Rightarrow> new_handler)"

lemma sample_reach: "reach (\<lambda>h. h = new_handler) cache_step sample_handler"
proof (cases "InsertToPlaylistCache False True ''main'' [1, 2, 3] ''cdn'' True eMEDIATYPE_MANIFEST new_handler")
  case (Inl e)
  then show ?thesis by (simp add: sample_handler_def reach_start)
next
  case (Inr h)
  then show ?thesis
    unfolding sample_handler_def by (auto intro: reach_step [OF reach_start] cache_step.intros(1))
qed


text \<open>
  C37: a playlist that is inserted under a new URL is retrieved with the same bytes and its
  effective URL, and the effective URL itself leads to the same bytes, whether it was cached
  before or not.  The insertion takes place for a manifest, for an unlimited cache, and whenever
  the bytes fit the limit.
\<close>

theorem playlist_insert_then_retrieve:
  assumes "reach (\<lambda>h. h = new_handler) cache_step h" "entry url (mPlaylistCache h) = None"
    and "buf \<noteq> []" "effUrl \<noteq> []" "ty = eMEDIATYPE_MANIFEST \<or> \<not> isLive"
    and "ty = eMEDIATYPE_MANIFEST \<or> maxPlaylistCacheBytes (mPlaylistCache h) = -1
      \<or> (0 \<le> maxPlaylistCacheBytes (mPlaylistCache h) \<and> maxPlaylistCacheBytes (mPlaylistCache h) \<le> INT_MAX
          \<and> live_bytes (mPlaylistCache h) + length buf \<le> nat (maxPlaylistCacheBytes (mPlaylistCache h)))"
  shows "\<exists>h'. InsertToPlaylistCache early True url buf effUrl isLive ty h = Inr h'
    \<and> fst (RetrieveFromPlaylistCache url h') = Some (buf, effUrl)
    \<and> (\<exists>e. fst (RetrieveFromPlaylistCache effUrl h') = Some (buf, e))"
proof -
  let ?c = "mPlaylistCache h"
  have ok: "cache_ok ?c" "cacheType ?c = eCACHE_TYPE_PLAYLIST"
    using cache_handler.inv_reach [OF assms(1)] by (simp_all add: handler_ok_def)
  obtain b c1 where room: "makeRoomForPlaylist ty (of_nat (length buf)) ?c = (b, c1)" by fastforce
  have b
  proof (cases "ty = eMEDIATYPE_MANIFEST \<or> maxPlaylistCacheBytes ?c = -1")
    case True
    then show ?thesis using room by (auto simp: makeRoomForPlaylist_def split: if_splits)
  next
    case False
    then have f: "0 \<le> maxPlaylistCacheBytes ?c" "maxPlaylistCacheBytes ?c \<le> INT_MAX"
      "live_bytes ?c + length buf \<le> nat (maxPlaylistCacheBytes ?c)" using assms(6) by auto
    then have "live_bytes ?c + length buf < 2 ^ 64" by (simp add: INT_MAX_def)
    then show ?thesis using playlist_room(1,2) [OF room ok(1) _ f(1,2)] f(3) False by auto
  qed
  have c1: "cache_ok c1" "entry url c1 = None"
    using room playlist_room_ok [OF ok(1), of ty "of_nat (length buf)"]
      shrunk_playlist [of ?c ty "of_nat (length buf)"] assms(2) by (auto simp: shrunk_entry)
  have "Insert True url buf effUrl ty ?c = Inr (store True url buf effUrl ty c1)"
    using assms(2,3) ok(2) room \<open>b\<close> by (simp add: Insert_def)
  then show ?thesis
    using assms(4,5) store_hits [OF c1 assms(4) refl, of buf ty]
    by (auto simp: InsertToPlaylistCache_def retrieve_hit Let_def)
qed

theorem playlist_insert_then_retrieve_witness:
  "\<exists>h'. InsertToPlaylistCache True True ''main'' [1, 2, 3] ''cdn'' False eMEDIATYPE_PLAYLIST_VIDEO new_handler = Inr h'
    \<and> fst (RetrieveFromPlaylistCache ''main'' h') = Some ([1, 2, 3], ''cdn'')
    \<and> (\<exists>e. fst (RetrieveFromPlaylistCache ''cdn'' h') = Some ([1, 2, 3], e))"
  by (rule playlist_insert_then_retrieve [OF reach_start])
    (simp_all add: new_handler_def new_cache_def entry_def INT_MAX_def live_bytes_def live_buffers_def live_objects_def)

text \<open>
  With a limit in force, inserting a playlist other than the main manifest never takes the
  cache over its limit: if the playlist is cached, the living bytes are within the limit; if it is
  not, they are no more than before; and no entry of a main manifest is evicted for it.
\<close>

theorem playlist_limit_kept:
  assumes "reach (\<lambda>h. h = new_handler) cache_step h" "ty \<noteq> eMEDIATYPE_MANIFEST"
    and "InsertToPlaylistCache early alloc url buf effUrl isLive ty h = Inr h'"
    and "entry url (mPlaylistCache h) = None" "live_bytes (mPlaylistCache h) + length buf < 2 ^ 64"
    and "0 \<le> maxPlaylistCacheBytes (mPlaylistCache h)" "maxPlaylistCacheBytes (mPlaylistCache h) \<le> INT_MAX"
  shows "(entry url (mPlaylistCache h') \<noteq> None \<longrightarrow>
        live_bytes (mPlaylistCache h') \<le> nat (maxPlaylistCacheBytes (mPlaylistCache h)))
    \<and> (entry url (mPlaylistCache h') = None \<longrightarrow> live_bytes (mPlaylistCache h') \<le> live_bytes (mPlaylistCache h))
    \<and> (\<forall>(k, i) \<in> set (cache (mPlaylistCache h)).
        mediaType (objects (mPlaylistCache h) ! i) = eMEDIATYPE_MANIFEST \<longrightarrow> (k, i) \<in> set (cache (mPlaylistCache h')))"
proof (cases "isLive")
  case True
  then show ?thesis using assms(2,3,4) by (auto simp: InsertToPlaylistCache_def split: if_splits)
next
  case False
  let ?c = "mPlaylistCache h" and ?c' = "mPlaylistCache h'"
  have ok: "cache_ok ?c" "cacheType ?c = eCACHE_TYPE_PLAYLIST"
    using cache_handler.inv_reach [OF assms(1)] by (simp_all add: handler_ok_def)
  have "Insert alloc url buf effUrl ty ?c = Inr ?c'"
    using assms(3) False by (auto simp: InsertToPlaylistCache_def Let_def split: if_splits sum.splits)
  then show ?thesis
  proof (cases rule: Insert_cases)
    case (2 b c1)
    then have room: "makeRoomForPlaylist ty (of_nat (length buf)) ?c = (b, c1)" using ok(2) by simp
    note r = playlist_room [OF room ok(1) assms(2) assms(6,7,5)]
    have n: "entry url c1 = None" using 2 by (simp add: shrunk_entry)
    have c1: "cache_ok c1" using 2 ok(1) by simp
    have keep: "set (cache c1) \<subseteq> set (cache ?c')" using 2(5) store_keeps by auto
    have "entry url ?c' \<noteq> None \<Longrightarrow> b" using 2(5) n by (auto split: if_splits)
    moreover have "entry url ?c' = None \<Longrightarrow> ?c' = c1"
      using 2(5) store_entry [OF c1 n] by (auto split: if_splits)
    moreover have "b \<Longrightarrow> live_bytes ?c' \<le> live_bytes c1 + length buf"
      using store_bytes [OF c1 n, of alloc buf effUrl ty] 2(5) by simp
    ultimately show ?thesis using r keep by auto
  qed (use assms(4) in auto)
qed

theorem playlist_limit_kept_witness:
  "\<exists>h'. InsertToPlaylistCache False True ''v'' [1, 2] ''v'' False eMEDIATYPE_PLAYLIST_VIDEO new_handler = Inr h'
    \<and> (entry ''v'' (mPlaylistCache h') \<noteq> None \<longrightarrow> live_bytes (mPlaylistCache h') \<le> 3 * 1024 * 1024)"
proof -
  have fits: "entry ''v'' (mPlaylistCache new_handler) = None" "live_bytes (mPlaylistCache new_handler) = 0"
    "maxPlaylistCacheBytes (mPlaylistCache new_handler) = 3 * 1024 * 1024"
    by (simp_all add: new_handler_def new_cache_def entry_def live_bytes_def live_buffers_def live_objects_def)
  obtain h' where h': "InsertToPlaylistCache False True ''v'' [1, 2] ''v'' False eMEDIATYPE_PLAYLIST_VIDEO new_handler = Inr h'"
    by (rule playlist_insert_total [of new_handler "''v''"]) (simp_all add: new_handler_def new_cache_def)
  show ?thesis
    using playlist_limit_kept [OF reach_start _ h'] fits h' by (simp add: INT_MAX_def)
qed



text \<open>
  The only way an insertion can go wrong is an initialization-fragment cache whose maximum was
  set to zero or less and that has no entry of the media type: \<open>Remove(lru->first)\<close> then
  dereferences \<open>end()\<close>.  The assertions of \<open>Remove\<close> never fail when an insertion makes room; called
  from outside, they fail exactly for a URL that is not cached or is only an alias.
\<close>

theorem cache_faults:
  assumes "reach (\<lambda>h. h = new_handler) cache_step h" "effUrl \<noteq> []"
  shows "(InsertToInitFragCache early alloc url buf effUrl ty h = Inl e \<longleftrightarrow>
        e = DerefEnd \<and> entry url (mInitFragmentCache h) = None \<and> buf \<noteq> []
        \<and> maxCachedInitFragmentsPerTrack (mInitFragmentCache h) \<le> 0 \<and> init_count ty (mInitFragmentCache h) = 0)
    \<and> (\<exists>h'. InsertToPlaylistCache early alloc url buf effUrl isLive ty h = Inr h')
    \<and> (RemoveFromPlaylistCache url h = Inl AssertFailed \<longleftrightarrow>
        (case entry url (mPlaylistCache h) of None \<Rightarrow> True
         | Some i \<Rightarrow> effectiveUrl (objects (mPlaylistCache h) ! i) = []))"
proof -
  let ?c = "mInitFragmentCache h"
  have ok: "shape_ok ?c" "cacheType ?c = eCACHE_TYPE_INIT_FRAGMENT" "cacheType (mPlaylistCache h) = eCACHE_TYPE_PLAYLIST"
    using cache_handler.inv_reach [OF assms(1)] by (simp_all add: handler_ok_def cache_ok_def)
  have "makeRoomForInitFragment ty ?c = Inl e \<longleftrightarrow>
      e = DerefEnd \<and> maxCachedInitFragmentsPerTrack ?c \<le> 0 \<and> init_count ty ?c = 0"
    by (rule init_room_fault [OF ok(1)])
  then have "InsertToInitFragCache early alloc url buf effUrl ty h = Inl e \<longleftrightarrow>
        e = DerefEnd \<and> entry url ?c = None \<and> buf \<noteq> [] \<and> maxCachedInitFragmentsPerTrack ?c \<le> 0 \<and> init_count ty ?c = 0"
    using assms(2) ok(2) by (auto simp: InsertToInitFragCache_def Insert_def Let_def split: sum.split)
  moreover have "\<exists>h'. InsertToPlaylistCache early alloc url buf effUrl isLive ty h = Inr h'"
    using playlist_insert_total [OF ok(3) assms(2)] by blast
  moreover have "RemoveFromPlaylistCache url h = Inl AssertFailed \<longleftrightarrow>
        (case entry url (mPlaylistCache h) of None \<Rightarrow> True
         | Some i \<Rightarrow> effectiveUrl (objects (mPlaylistCache h) ! i) = [])"
    by (simp add: RemoveFromPlaylistCache_def Remove_def Let_def split: option.split)
  ultimately show ?thesis by blast
qed

theorem cache_faults_witness:
  "InsertToInitFragCache False True ''i'' [7] ''i'' eMEDIATYPE_INIT_VIDEO (SetMaxInitFragCacheSize 0 new_handler) = Inl DerefEnd
    \<and> RemoveFromPlaylistCache ''x'' new_handler = Inl AssertFailed"
proof -
  have "reach (\<lambda>h. h = new_handler) cache_step (SetMaxInitFragCacheSize 0 new_handler)"
    by (rule reach_step [OF reach_start [where s = new_handler]], simp, rule cache_step.intros)
  then show ?thesis
    using cache_faults [where h = "SetMaxInitFragCacheSize 0 new_handler" and url = "''i''" and effUrl = "''i''"
        and early = False and alloc = True and buf = "[7]" and ty = eMEDIATYPE_INIT_VIDEO and e = DerefEnd]
      cache_faults [OF reach_start [where s = new_handler], where url = "''x''" and effUrl = "''x''"]
    by (simp add: SetMaxInitFragCacheSize_def new_handler_def new_cache_def entry_def init_count_def)
qed

text \<open>
  The clean-up thread.  A waiting thread that is notified while caching is stopped waits ten
  seconds, then empties both caches and waits again; notified while caching runs, it empties
  nothing.  But \<open>InitializeIfNeeded\<close> creates the thread before it sets \<open>mAsyncCacheCleanUpThread\<close>: if the
  new thread tests its loop first, it returns at once, and since \<open>mbCleanUpTaskInitialized\<close> is set no
  other is created, so that no later call but \<open>ClearCacheHandler\<close> brings a clean-up back.
\<close>

theorem cleanup_thread:
  "cleanup (StopPlaylistCache (h\<lparr>cleanup := Waiting\<rparr>)) = TimedWait
    \<and> cleanup (StartPlaylistCache (h\<lparr>cleanup := Waiting\<rparr>)) = AtLoop
    \<and> live_bytes (mPlaylistCache (cleanup_timeout (h\<lparr>cleanup := TimedWait\<rparr>))) = 0
    \<and> totalCachedBytes (mInitFragmentCache (cleanup_timeout (h\<lparr>cleanup := TimedWait\<rparr>))) = 0
    \<and> cleanup (cleanup_loop (cleanup_timeout (h\<lparr>cleanup := TimedWait, mAsyncCacheCleanUpThread := True\<rparr>))) = Waiting
    \<and> cleanup (InitializeIfNeeded False new_handler) = AtLoop
    \<and> cleanup (InitializeIfNeeded True new_handler) = Returned
    \<and> mbCleanUpTaskInitialized (InitializeIfNeeded True new_handler)
    \<and> cleanup_timeout (notify (cleanup_loop (h\<lparr>cleanup := Returned\<rparr>))) = h\<lparr>cleanup := Returned\<rparr>
    \<and> cleanup (InitializeIfNeeded early (h\<lparr>cleanup := Returned, mbCleanUpTaskInitialized := True\<rparr>)) = Returned"
  by (simp add: StopPlaylistCache_def StartPlaylistCache_def notify_def cleanup_timeout_def cleanup_loop_def
      InitializeIfNeeded_def start_thread_def thread_started_def new_handler_def Clear_def live_bytes_def
      live_buffers_def live_objects_def)

end
