(* ===== verification/Tsb_MetaData.thy ===== *)
theory Tsb_MetaData
  imports Aamp_Time "HOL-Library.Multiset"
begin

text \<open>
  \<open>AampTsbMetaDataManager\<close> and its base class \<open>AampTsbMetaData\<close>: the ad metadata of the time-shift
  buffer, one list per registered type, ordered by position and then by the order of addition.  A
  metadata object is known by its address; the objects are a function from addresses to their
  fields, so that a change of position or order is seen through every list.  A null pointer is
  \<open>None\<close>.
  The lemmas show that the lists stay ordered, without duplicates and of the right type, what a
  removal up to a position leaves, what a query of a range returns, and what the counts are.
\<close>

section \<open>Data\<close>

datatype Type = AD_RESERVATION_METADATA_TYPE | AD_PLACEMENT_METADATA_TYPE

instantiation Type :: linorder
begin

definition less_Type :: "Type \<Rightarrow> Type \<Rightarrow> bool" where
  "less_Type a b \<longleftrightarrow> a = AD_RESERVATION_METADATA_TYPE \<and> b = AD_PLACEMENT_METADATA_TYPE"

definition less_eq_Type :: "Type \<Rightarrow> Type \<Rightarrow> bool" where
  "less_eq_Type a b \<longleftrightarrow> a = b \<or> (a = AD_RESERVATION_METADATA_TYPE \<and> b = AD_PLACEMENT_METADATA_TYPE)"

instance
proof
  show "a \<le> b \<or> b \<le> a" for a b :: Type by (cases a; cases b; simp add: less_eq_Type_def)
qed (auto simp: less_Type_def less_eq_Type_def)

end

record AampTsbMetaData =
  mdType :: Type
  mPosition :: aamp_time
  mOrderAdded :: u32

type_synonym objects = "nat \<Rightarrow> AampTsbMetaData"

record AampTsbMetaDataManager =
  mMetaDataMap :: "(Type, nat list) omap"
  mTypeTransienceMap :: "(Type, bool) omap"
  mNextOrderAdded :: u32
  objs :: objects

section \<open>Operations\<close>

definition new_manager :: "objects \<Rightarrow> AampTsbMetaDataManager" where
  "new_manager h = \<lparr>mMetaDataMap = [], mTypeTransienceMap = [], mNextOrderAdded = 1, objs = h\<rparr>"

definition Initialize :: "AampTsbMetaDataManager \<Rightarrow> AampTsbMetaDataManager" where
  "Initialize m = m\<lparr>mMetaDataMap := [], mTypeTransienceMap := []\<rparr>"

definition Cleanup :: "AampTsbMetaDataManager \<Rightarrow> AampTsbMetaDataManager" where
  "Cleanup m = m\<lparr>mMetaDataMap := [], mTypeTransienceMap := []\<rparr>"

definition RegisterMetaDataType :: "Type \<Rightarrow> bool \<Rightarrow> AampTsbMetaDataManager \<Rightarrow> bool \<times> AampTsbMetaDataManager" where
  "RegisterMetaDataType ty isTransient m =
     (if om_find ty (mMetaDataMap m) \<noteq> None then (False, m)
      else (True, m\<lparr>mMetaDataMap := om_assign ty [] (mMetaDataMap m),
                    mTypeTransienceMap := om_assign ty isTransient (mTypeTransienceMap m)\<rparr>))"

text \<open>The transience and the list of a registered type.\<close>

definition IsRegisteredType :: "Type \<Rightarrow> AampTsbMetaDataManager \<Rightarrow> (bool \<times> nat list) option" where
  "IsRegisteredType ty m =
     (case (om_find ty (mTypeTransienceMap m), om_find ty (mMetaDataMap m)) of
        (Some isTransient, Some l) \<Rightarrow> Some (isTransient, l)
      | _ \<Rightarrow> None)"

definition CalculateTotalCount :: "AampTsbMetaDataManager \<Rightarrow> nat" where
  "CalculateTotalCount m = sum_list (map (length \<circ> snd) (mMetaDataMap m))"

definition GetSize :: "AampTsbMetaDataManager \<Rightarrow> nat" where
  "GetSize m = CalculateTotalCount m"

text \<open>\<open>compareMetaData\<close>\<close>

definition compareMetaData :: "objects \<Rightarrow> nat \<Rightarrow> nat \<Rightarrow> bool" where
  "compareMetaData h a b =
     (if mPosition (h a) \<noteq> mPosition (h b) then time_lt (mPosition (h a)) (mPosition (h b))
      else mOrderAdded (h a) < mOrderAdded (h b))"

definition set_list :: "Type \<Rightarrow> nat list \<Rightarrow> AampTsbMetaDataManager \<Rightarrow> AampTsbMetaDataManager" where
  "set_list ty l m = m\<lparr>mMetaDataMap := om_assign ty l (mMetaDataMap m)\<rparr>"

definition next_order :: "u32 \<Rightarrow> u32" where
  "next_order n = (if n + 1 = 0 then 1 else n + 1)"

definition AddMetaData :: "nat option \<Rightarrow> AampTsbMetaDataManager \<Rightarrow> bool \<times> AampTsbMetaDataManager" where
  "AddMetaData p m =
     (case p of
        None \<Rightarrow> (False, m)
      | Some a \<Rightarrow>
          (case IsRegisteredType (mdType (objs m a)) m of
             None \<Rightarrow> (False, m)
           | Some (isTransient, l) \<Rightarrow>
               if a \<in> set l then (False, m)
               else let h = (objs m)(a := (objs m a)\<lparr>mOrderAdded := mNextOrderAdded m\<rparr>);
                        it = lower_bound (\<lambda>b. compareMetaData h b a) l
                    in (True, set_list (mdType (objs m a)) (insert_at it a l)
                                (m\<lparr>objs := h, mNextOrderAdded := next_order (mNextOrderAdded m)\<rparr>))))"

definition RemoveMetaDataObject :: "nat option \<Rightarrow> AampTsbMetaDataManager \<Rightarrow> bool \<times> AampTsbMetaDataManager" where
  "RemoveMetaDataObject p m =
     (case p of
        None \<Rightarrow> (False, m)
      | Some a \<Rightarrow>
          (case IsRegisteredType (mdType (objs m a)) m of
             None \<Rightarrow> (False, m)
           | Some (isTransient, l) \<Rightarrow>
               (a \<in> set l, if a \<in> set l then set_list (mdType (objs m a)) (remove1 a l) m else m)))"

text \<open>The scan for the latest metadata at or before the position: how many elements it passes.\<close>

fun upto_position :: "objects \<Rightarrow> aamp_time \<Rightarrow> nat list \<Rightarrow> nat" where
  "upto_position h position [] = 0"
| "upto_position h position (x # l) =
     (if time_lt position (mPosition (h x)) then 0 else Suc (upto_position h position l))"

definition cut_list :: "objects \<Rightarrow> aamp_time \<Rightarrow> bool \<Rightarrow> nat list \<Rightarrow> nat list" where
  "cut_list h position isTransient l =
     (let n = upto_position h position l
      in if n = 0 then l else if isTransient then drop n l else drop (n - 1) l)"

definition RemoveMetaData :: "aamp_time \<Rightarrow> AampTsbMetaDataManager \<Rightarrow> nat \<times> AampTsbMetaDataManager" where
  "RemoveMetaData position m =
     (let cut = (\<lambda>(ty, l). case om_find ty (mTypeTransienceMap m) of
                   None \<Rightarrow> l | Some isTransient \<Rightarrow> cut_list (objs m) position isTransient l)
      in (sum_list (map (\<lambda>b. length (snd b) - length (cut b)) (mMetaDataMap m)),
          m\<lparr>mMetaDataMap := map (\<lambda>b. (fst b, cut b)) (mMetaDataMap m)\<rparr>))"

definition RemoveMetaDataIf :: "(nat \<Rightarrow> bool) option \<Rightarrow> AampTsbMetaDataManager \<Rightarrow> nat \<times> AampTsbMetaDataManager" where
  "RemoveMetaDataIf filt m =
     (case filt of
        None \<Rightarrow> (0, m)
      | Some f \<Rightarrow>
          (sum_list (map (\<lambda>b. length (snd b) - length (filter (\<lambda>x. \<not> f x) (snd b))) (mMetaDataMap m)),
           m\<lparr>mMetaDataMap := map (\<lambda>b. (fst b, filter (\<lambda>x. \<not> f x) (snd b))) (mMetaDataMap m)\<rparr>))"

text \<open>The search from the rear for the place of an object whose position changed.\<close>

definition reinsert :: "objects \<Rightarrow> nat \<Rightarrow> nat list \<Rightarrow> nat list" where
  "reinsert h a l =
     (let stop = (\<lambda>x. time_lt (mPosition (h x)) (mPosition (h a))
                       \<or> (mPosition (h x) = mPosition (h a) \<and> mOrderAdded (h x) \<le> mOrderAdded (h a)))
      in rev (dropWhile (\<lambda>x. \<not> stop x) (rev l)) @ a # rev (takeWhile (\<lambda>x. \<not> stop x) (rev l)))"

definition change_one :: "aamp_time \<Rightarrow> nat option \<Rightarrow> bool \<times> AampTsbMetaDataManager \<Rightarrow> bool \<times> AampTsbMetaDataManager" where
  "change_one newPosition p st =
     (case p of
        None \<Rightarrow> (False, snd st)
      | Some a \<Rightarrow>
          (case IsRegisteredType (mdType (objs (snd st) a)) (snd st) of
             None \<Rightarrow> (False, snd st)
           | Some (isTransient, l) \<Rightarrow>
               if a \<notin> set l then (False, snd st)
               else let h = (objs (snd st))(a := (objs (snd st) a)\<lparr>mPosition := newPosition\<rparr>)
                    in (fst st, set_list (mdType (h a)) (reinsert h a (remove1 a l)) ((snd st)\<lparr>objs := h\<rparr>))))"

definition ChangeMetaDataPosition ::
    "nat option list \<Rightarrow> aamp_time \<Rightarrow> AampTsbMetaDataManager \<Rightarrow> bool \<times> AampTsbMetaDataManager" where
  "ChangeMetaDataPosition ps newPosition m =
     (if ps = [] then (False, m) else fold (change_one newPosition) ps (True, m))"

text \<open>
  The two queries.  \<open>is_T a\<close> says whether the object at \<open>a\<close> is of the class asked for, the result of the
  dynamic cast.
\<close>

fun range_scan :: "objects \<Rightarrow> (nat \<Rightarrow> bool) \<Rightarrow> bool \<Rightarrow> aamp_time \<Rightarrow> aamp_time \<Rightarrow> nat list \<Rightarrow> nat list \<Rightarrow> nat list" where
  "range_scan h is_T isTransient rangeStart rangeEnd [] result = result"
| "range_scan h is_T isTransient rangeStart rangeEnd (x # xs) result =
     (if \<not> is_T x then range_scan h is_T isTransient rangeStart rangeEnd xs result
      else if time_lt (mPosition (h x)) rangeStart then
        (if \<not> isTransient \<and> (result = [] \<or> time_lt rangeStart (mPosition (h (hd result))))
         then x # result else result)
      else range_scan h is_T isTransient rangeStart rangeEnd xs
             (if mPosition (h x) = rangeStart \<or> time_lt (mPosition (h x)) rangeEnd then x # result else result))"

definition GetMetaDataByType ::
    "(nat \<Rightarrow> bool) \<Rightarrow> Type \<Rightarrow> aamp_time \<Rightarrow> aamp_time \<Rightarrow> AampTsbMetaDataManager \<Rightarrow> nat list" where
  "GetMetaDataByType is_T ty rangeStart rangeEnd m =
     (case IsRegisteredType ty m of
        None \<Rightarrow> []
      | Some (isTransient, l) \<Rightarrow>
          if time_lt rangeEnd rangeStart then []
          else range_scan (objs m) is_T isTransient rangeStart rangeEnd (rev l) [])"

definition GetMetaDataByTypeFilter ::
    "(nat \<Rightarrow> bool) \<Rightarrow> Type \<Rightarrow> (nat \<Rightarrow> bool) option \<Rightarrow> AampTsbMetaDataManager \<Rightarrow> nat list" where
  "GetMetaDataByTypeFilter is_T ty filt m =
     (case IsRegisteredType ty m of
        None \<Rightarrow> []
      | Some (isTransient, l) \<Rightarrow> filter (\<lambda>x. is_T x \<and> (case filt of None \<Rightarrow> True | Some f \<Rightarrow> f x)) l)"

inductive md_step :: "AampTsbMetaDataManager \<Rightarrow> AampTsbMetaDataManager \<Rightarrow> bool" where
  "md_step m (Initialize m)"
| "md_step m (Cleanup m)"
| "md_step m (snd (RegisterMetaDataType ty isTransient m))"
| "md_step m (snd (AddMetaData p m))"
| "md_step m (snd (RemoveMetaDataObject p m))"
| "md_step m (snd (RemoveMetaData position m))"
| "md_step m (snd (RemoveMetaDataIf filt m))"
| "md_step m (snd (ChangeMetaDataPosition ps newPosition m))"

section \<open>The order of the lists\<close>

lemma aamp_time_eq_iff: "(a :: aamp_time) = b \<longleftrightarrow> baseTime a = baseTime b"
  by (cases a; cases b) simp

definition pos :: "objects \<Rightarrow> nat \<Rightarrow> int" where
  "pos h a = baseTime (mPosition (h a))"

lemma compare_key:
  "compareMetaData h a b \<longleftrightarrow> pos h a < pos h b \<or> (pos h a = pos h b \<and> mOrderAdded (h a) < mOrderAdded (h b))"
  by (auto simp: compareMetaData_def pos_def time_lt_def aamp_time_eq_iff)

interpretation meta: weak_order "compareMetaData h" for h
  by unfold_locales (auto simp: compare_key)

lemma ordered_cong:
  "(\<And>x. x \<in> set l \<Longrightarrow> mPosition (h' x) = mPosition (h x) \<and> mOrderAdded (h' x) = mOrderAdded (h x)) \<Longrightarrow>
     meta.ordered h' l \<longleftrightarrow> meta.ordered h l"
  by (simp add: meta.ordered_def sorted_wrt_iff_nth_less compareMetaData_def)

lemma ordered_pos: "meta.ordered h l \<Longrightarrow> sorted (map (pos h) l)"
  unfolding meta.ordered_def sorted_map by (erule sorted_wrt_mono_rel [rotated]) (auto simp: compare_key)

section \<open>The invariant\<close>

definition list_ok :: "objects \<Rightarrow> Type \<Rightarrow> nat list \<Rightarrow> bool" where
  "list_ok h ty l \<longleftrightarrow> meta.ordered h l \<and> distinct l \<and> (\<forall>x \<in> set l. mdType (h x) = ty)"

definition md_ok :: "AampTsbMetaDataManager \<Rightarrow> bool" where
  "md_ok m \<longleftrightarrow> om_ok (mMetaDataMap m) \<and> om_keys (mMetaDataMap m) = om_keys (mTypeTransienceMap m)
     \<and> (\<forall>(ty, l) \<in> set (mMetaDataMap m). list_ok (objs m) ty l)"

lemma om_assign_keys:
  "om_keys m = om_keys m' \<Longrightarrow> om_keys (om_assign k v m) = om_keys (om_assign k v' m')"
proof (induction m arbitrary: m')
  case (Cons b m)
  then obtain a w w' m'' where "b = (a, w)" "m' = (a, w') # m''" by (cases b; cases m') (auto simp: om_keys_def)
  with Cons show ?case by (auto simp: om_keys_def)
qed (auto simp: om_keys_def)

lemma om_assign_old_keys: "om_ok m \<Longrightarrow> om_find k m \<noteq> None \<Longrightarrow> om_keys (om_assign k v m) = om_keys m"
proof (induction m)
  case (Cons b m)
  obtain a w where b: "b = (a, w)" by force
  show ?case
  proof (cases "a = k")
    case False
    then obtain x where "(k, x) \<in> set m" using Cons.prems b om_find_Some_in by fastforce
    then have "a < k" using Cons.prems(1) b by auto
    with False Cons b show ?thesis by (auto simp: om_keys_def)
  qed (use Cons b in \<open>auto simp: om_keys_def\<close>)
qed simp

lemma registered_both:
  "md_ok m \<Longrightarrow> IsRegisteredType ty m = Some (tr, l) \<longleftrightarrow>
     om_find ty (mMetaDataMap m) = Some l \<and> om_find ty (mTypeTransienceMap m) = Some tr"
  by (auto simp: IsRegisteredType_def split: option.splits)

lemma registered_found:
  "md_ok m \<Longrightarrow> om_find ty (mMetaDataMap m) = Some l \<Longrightarrow> \<exists>tr. IsRegisteredType ty m = Some (tr, l)"
  by (metis md_ok_def om_find_None_iff option.exhaust registered_both option.distinct(1))

lemma registered_list_ok:
  "md_ok m \<Longrightarrow> IsRegisteredType ty m = Some (tr, l) \<Longrightarrow> list_ok (objs m) ty l"
  by (auto simp: registered_both md_ok_def dest!: om_find_Some_in)

text \<open>Replacing the list of one type, while objects outside the other lists change.\<close>

lemma set_list_ok:
  assumes "md_ok m" "om_find ty (mMetaDataMap m) \<noteq> None" "list_ok h ty l"
    and "\<And>x. mdType (h x) = mdType (objs m x)"
    and "\<And>x. mdType (objs m x) \<noteq> ty \<Longrightarrow> h x = objs m x"
  shows "md_ok (set_list ty l (m\<lparr>objs := h\<rparr>))"
proof -
  have ok: "om_ok (mMetaDataMap m)" using assms(1) by (simp add: md_ok_def)
  have other: "list_ok h ty' l'" if "(ty', l') \<in> set (mMetaDataMap m)" "ty' \<noteq> ty" for ty' l'
  proof -
    have old: "list_ok (objs m) ty' l'" using that assms(1) by (auto simp: md_ok_def)
    then have "h x = objs m x" if "x \<in> set l'" for x using that assms(5) \<open>ty' \<noteq> ty\<close> by (auto simp: list_ok_def)
    moreover from this have "meta.ordered h l' \<longleftrightarrow> meta.ordered (objs m) l'" by (intro ordered_cong) auto
    ultimately show ?thesis using old by (auto simp: list_ok_def)
  qed
  show ?thesis
    using assms(1,3) om_assign_old_keys [OF ok assms(2)] other
    by (auto simp: md_ok_def set_list_def set_om_assign [OF ok])
qed

lemma set_list_ok_same:
  "md_ok m \<Longrightarrow> om_find ty (mMetaDataMap m) \<noteq> None \<Longrightarrow> list_ok (objs m) ty l \<Longrightarrow> md_ok (set_list ty l m)"
  using set_list_ok [of m ty "objs m" l] by simp

lemma set_list_next: "md_ok (set_list ty l (m\<lparr>objs := h, mNextOrderAdded := n\<rparr>)) = md_ok (set_list ty l (m\<lparr>objs := h\<rparr>))"
  by (simp add: md_ok_def set_list_def)

lemma map_lists_ok:
  assumes "md_ok m" "\<And>ty l. (ty, l) \<in> set (mMetaDataMap m) \<Longrightarrow> list_ok (objs m) ty l \<Longrightarrow> list_ok (objs m) ty (f (ty, l))"
  shows "md_ok (m\<lparr>mMetaDataMap := map (\<lambda>b. (fst b, f b)) (mMetaDataMap m)\<rparr>)"
proof -
  have "om_keys (map (\<lambda>b. (fst b, f b)) (mMetaDataMap m)) = om_keys (mMetaDataMap m)"
    by (simp add: om_keys_def comp_def)
  with assms show ?thesis by (fastforce simp: md_ok_def om_ok_def)
qed

lemma cut_list_ok: "list_ok h ty l \<Longrightarrow> list_ok h ty (cut_list h position tr l)"
  by (auto simp: list_ok_def cut_list_def Let_def meta.ordered_drop dest: in_set_dropD)

lemma filter_list_ok: "list_ok h ty l \<Longrightarrow> list_ok h ty (filter P l)"
  by (auto simp: list_ok_def meta.ordered_filter)

lemma remove1_list_ok: "list_ok h ty l \<Longrightarrow> list_ok h ty (remove1 a l)"
  by (auto simp: list_ok_def meta.ordered_remove1 dest: notin_set_remove1 [rotated])

lemma set_insert_at: "set (insert_at n a l) = insert a (set l)"
  by (simp add: insert_at_def) (metis append_take_drop_id set_append)

lemma insert_list_ok:
  assumes "list_ok h ty l" "a \<notin> set l" "mdType (h a) = ty"
  shows "list_ok h ty (insert_at (lower_bound (\<lambda>b. compareMetaData h b a) l) a l)"
proof -
  let ?n = "lower_bound (\<lambda>b. compareMetaData h b a) l"
  have "distinct (take ?n l @ drop ?n l)" using assms(1) by (simp add: list_ok_def)
  then have "distinct (insert_at ?n a l)"
    using assms(2) by (auto simp: insert_at_def dest: in_set_takeD in_set_dropD simp del: append_take_drop_id)
  then show ?thesis using assms by (auto simp: list_ok_def meta.ordered_insert_lower set_insert_at)
qed

lemma list_ok_change:
  "list_ok h ty l \<Longrightarrow> a \<notin> set l \<Longrightarrow> list_ok (h(a := x)) ty l"
proof -
  assume "list_ok h ty l" "a \<notin> set l"
  moreover from this have "meta.ordered (h(a := x)) l \<longleftrightarrow> meta.ordered h l" by (intro ordered_cong) auto
  ultimately show ?thesis by (auto simp: list_ok_def)
qed

lemma reinsert_alt:
  "reinsert h a l = rev (dropWhile (compareMetaData h a) (rev l)) @ a # rev (takeWhile (compareMetaData h a) (rev l))"
proof -
  have "(\<lambda>x. \<not> (time_lt (mPosition (h x)) (mPosition (h a))
        \<or> (mPosition (h x) = mPosition (h a) \<and> mOrderAdded (h x) \<le> mOrderAdded (h a)))) = compareMetaData h a"
    by (rule ext) (auto simp: compareMetaData_def time_lt_def aamp_time_eq_iff)
  then show ?thesis by (simp add: reinsert_def Let_def)
qed

lemma mset_reinsert: "mset (reinsert h a l) = add_mset a (mset l)"
proof -
  have "mset (dropWhile P xs) + mset (takeWhile P xs) = mset xs" for P and xs :: "nat list"
    by (metis add.commute mset_append takeWhile_dropWhile_id)
  then show ?thesis by (simp add: reinsert_alt)
qed

lemma reinsert_list_ok:
  assumes "list_ok h ty l" "a \<notin> set l" "mdType (h a) = ty"
  shows "list_ok h ty (reinsert h a l)"
proof -
  have "distinct (reinsert h a l)" "set (reinsert h a l) = insert a (set l)"
    using assms(1,2) mset_eq_imp_distinct_iff [of "reinsert h a l" "a # l"] mset_eq_setD [of "reinsert h a l" "a # l"]
    by (simp_all add: mset_reinsert list_ok_def)
  then show ?thesis using assms meta.ordered_insert_rear [of h l a] by (auto simp: list_ok_def reinsert_alt)
qed

lemma add_ok: "md_ok m \<Longrightarrow> md_ok (snd (AddMetaData p m))"
proof -
  assume ok: "md_ok m"
  show ?thesis
  proof (cases "\<exists>a tr l. p = Some a \<and> IsRegisteredType (mdType (objs m a)) m = Some (tr, l) \<and> a \<notin> set l")
    case True
    then obtain a tr l where p: "p = Some a" and reg: "IsRegisteredType (mdType (objs m a)) m = Some (tr, l)"
      and a: "a \<notin> set l" by blast
    let ?h = "(objs m)(a := (objs m a)\<lparr>mOrderAdded := mNextOrderAdded m\<rparr>)"
    have "list_ok ?h (mdType (objs m a)) l"
      using registered_list_ok [OF ok reg] a by (rule list_ok_change)
    then have "list_ok ?h (mdType (objs m a)) (insert_at (lower_bound (\<lambda>b. compareMetaData ?h b a) l) a l)"
      using a by (intro insert_list_ok) simp_all
    moreover have "om_find (mdType (objs m a)) (mMetaDataMap m) \<noteq> None" using ok reg by (simp add: registered_both)
    ultimately show ?thesis
      using ok a by (auto simp: AddMetaData_def p reg Let_def set_list_next intro!: set_list_ok)
  next
    case False
    then have "snd (AddMetaData p m) = m" by (auto simp: AddMetaData_def split: option.split)
    with ok show ?thesis by simp
  qed
qed

lemma change_one_ok: "md_ok (snd st) \<Longrightarrow> md_ok (snd (change_one newPosition p st))"
proof -
  let ?m = "snd st"
  assume ok: "md_ok ?m"
  show ?thesis
  proof (cases "\<exists>a tr l. p = Some a \<and> IsRegisteredType (mdType (objs ?m a)) ?m = Some (tr, l) \<and> a \<in> set l")
    case True
    then obtain a tr l where p: "p = Some a" and reg: "IsRegisteredType (mdType (objs ?m a)) ?m = Some (tr, l)"
      and a: "a \<in> set l" by blast
    let ?h = "(objs ?m)(a := (objs ?m a)\<lparr>mPosition := newPosition\<rparr>)"
    have l: "list_ok (objs ?m) (mdType (objs ?m a)) l" using registered_list_ok [OF ok reg] .
    then have notin: "a \<notin> set (remove1 a l)" by (simp add: list_ok_def)
    then have "list_ok ?h (mdType (objs ?m a)) (reinsert ?h a (remove1 a l))"
      using l by (intro reinsert_list_ok list_ok_change remove1_list_ok) simp_all
    moreover have "om_find (mdType (objs ?m a)) (mMetaDataMap ?m) \<noteq> None" using ok reg by (simp add: registered_both)
    ultimately show ?thesis
      using ok a by (auto simp: change_one_def p reg Let_def intro!: set_list_ok)
  next
    case False
    then have "snd (change_one newPosition p st) = ?m" by (auto simp: change_one_def split: option.split)
    with ok show ?thesis by simp
  qed
qed

lemma change_ok: "md_ok m \<Longrightarrow> md_ok (snd (ChangeMetaDataPosition ps newPosition m))"
proof -
  have "md_ok (snd st) \<Longrightarrow> md_ok (snd (fold (change_one newPosition) ps st))" for st
    by (induction ps arbitrary: st) (simp_all add: change_one_ok)
  then show "md_ok m \<Longrightarrow> ?thesis" by (simp add: ChangeMetaDataPosition_def)
qed

lemma remove_object_ok: "md_ok m \<Longrightarrow> md_ok (snd (RemoveMetaDataObject p m))"
proof -
  assume ok: "md_ok m"
  have "md_ok (set_list (mdType (objs m a)) (remove1 a l) m)"
    if reg: "IsRegisteredType (mdType (objs m a)) m = Some (tr, l)" for a tr l
    using registered_list_ok [OF ok reg] ok reg
    by (intro set_list_ok_same remove1_list_ok) (simp_all add: registered_both)
  with ok show ?thesis by (auto simp: RemoveMetaDataObject_def split: option.split)
qed

lemma register_ok: "md_ok m \<Longrightarrow> md_ok (snd (RegisterMetaDataType ty tr m))"
  using om_assign_keys [of "mMetaDataMap m" "mTypeTransienceMap m" ty "[]" tr]
  by (auto simp: RegisterMetaDataType_def md_ok_def set_om_assign list_ok_def meta.ordered_def)

lemma md_ok_step: "md_step m m' \<Longrightarrow> md_ok m \<Longrightarrow> md_ok m'"
proof (induction rule: md_step.induct)
  case (6 m position)
  then show ?case
    by (auto simp: RemoveMetaData_def Let_def intro!: map_lists_ok cut_list_ok split: option.split)
next
  case (7 m filt)
  then show ?case
    by (auto simp: RemoveMetaDataIf_def intro!: map_lists_ok [where f = "\<lambda>b. filter (\<lambda>x. \<not> f x) (snd b)" for f] filter_list_ok split: option.split)
qed (auto simp: Initialize_def Cleanup_def register_ok add_ok remove_object_ok change_ok,
    auto simp: md_ok_def om_keys_def)

interpretation metadata: stateful "\<lambda>m. \<exists>h. m = new_manager h" md_step md_ok
proof
  show "md_ok m" if "\<exists>h. m = new_manager h" for m
    using that by (auto simp: new_manager_def md_ok_def om_keys_def)
qed (rule md_ok_step)
section \<open>Removal up to a position and queries of a range\<close>

text \<open>What the removal up to \<open>t\<close> leaves of a list, stated on positions.\<close>

definition kept_after :: "objects \<Rightarrow> int \<Rightarrow> bool \<Rightarrow> nat list \<Rightarrow> nat list" where
  "kept_after h t isTransient l =
     (let before = filter (\<lambda>x. pos h x \<le> t) l; rest = filter (\<lambda>x. t < pos h x) l
      in if isTransient \<or> before = [] then rest else last before # rest)"

lemma upto_position_filter:
  "sorted (map (pos h) l) \<Longrightarrow> upto_position h position l = length (filter (\<lambda>x. pos h x \<le> baseTime position) l)"
proof (induction l)
  case (Cons x l)
  show ?case
  proof (cases "baseTime position < pos h x")
    case True
    then have "filter (\<lambda>y. pos h y \<le> baseTime position) l = []" using Cons.prems by (auto simp: filter_empty_conv)
    with True show ?thesis by (simp add: time_lt_def pos_def)
  next
    case False
    with Cons show ?thesis by (simp add: time_lt_def pos_def)
  qed
qed simp

lemma sorted_split: "sorted (map f l) \<Longrightarrow> filter (\<lambda>x. f x \<le> t) l @ filter (\<lambda>x. t < f x) l = (l :: 'b list)"
  for f :: "'b \<Rightarrow> int"
proof (induction l)
  case (Cons x l)
  show ?case
  proof (cases "t < f x")
    case True
    then have "filter (\<lambda>y. f y \<le> t) l = []" "filter (\<lambda>y. t < f y) l = l"
      using Cons.prems by (auto simp: filter_empty_conv filter_id_conv)
    with True show ?thesis by simp
  qed (use Cons in auto)
qed simp

lemma drop_last: "xs \<noteq> [] \<Longrightarrow> drop (length xs - 1) (xs @ ys) = last xs # ys"
  by (induction xs) (auto simp: drop_Cons' split: if_splits)

lemma cut_list_kept: "meta.ordered h l \<Longrightarrow> cut_list h position tr l = kept_after h (baseTime position) tr l"
proof -
  let ?t = "baseTime position"
  assume "meta.ordered h l"
  then have s: "sorted (map (pos h) l)" by (rule ordered_pos)
  have l: "filter (\<lambda>x. pos h x \<le> ?t) l @ filter (\<lambda>x. ?t < pos h x) l = l" by (rule sorted_split [OF s])
  have "drop (length (filter (\<lambda>x. pos h x \<le> ?t) l)) l = filter (\<lambda>x. ?t < pos h x) l"
    by (metis append_eq_conv_conj l)
  moreover have "filter (\<lambda>x. pos h x \<le> ?t) l \<noteq> [] \<Longrightarrow> drop (length (filter (\<lambda>x. pos h x \<le> ?t) l) - 1) l
      = last (filter (\<lambda>x. pos h x \<le> ?t) l) # filter (\<lambda>x. ?t < pos h x) l"
    using drop_last l by metis
  moreover have "filter (\<lambda>x. pos h x \<le> ?t) l = [] \<Longrightarrow> filter (\<lambda>x. ?t < pos h x) l = l" using l by simp
  ultimately show ?thesis
    by (simp add: cut_list_def kept_after_def Let_def upto_position_filter [OF s])
qed

lemma cut_shorter: "length (cut_list h position tr l) \<le> length l"
  unfolding cut_list_def Let_def by auto

text \<open>What a query of the range from \<open>s\<close> to \<open>e\<close> returns.\<close>

definition in_range :: "objects \<Rightarrow> (nat \<Rightarrow> bool) \<Rightarrow> int \<Rightarrow> int \<Rightarrow> nat \<Rightarrow> bool" where
  "in_range h is_T s e x \<longleftrightarrow> is_T x \<and> s \<le> pos h x \<and> (pos h x = s \<or> pos h x < e)"

definition range_result :: "objects \<Rightarrow> (nat \<Rightarrow> bool) \<Rightarrow> bool \<Rightarrow> int \<Rightarrow> int \<Rightarrow> nat list \<Rightarrow> nat list \<Rightarrow> nat list" where
  "range_result h is_T isTransient s e l result =
     (let inside = filter (in_range h is_T s e) l @ result;
          before = filter (\<lambda>x. is_T x \<and> pos h x < s) l
      in if \<not> isTransient \<and> before \<noteq> [] \<and> (inside = [] \<or> s < pos h (hd inside))
         then last before # inside else inside)"

lemma range_scan_result:
  "sorted (map (pos h) l) \<Longrightarrow> range_scan h is_T tr rs re (rev l) result
     = range_result h is_T tr (baseTime rs) (baseTime re) l result"
proof (induction l arbitrary: result rule: rev_induct)
  case Nil
  then show ?case by (simp add: range_result_def)
next
  case (snoc x l)
  then have s: "sorted (map (pos h) l)" and x: "\<forall>y \<in> set l. pos h y \<le> pos h x" by (auto simp: sorted_append)
  consider "\<not> is_T x" | "is_T x" "pos h x < baseTime rs" | "is_T x" "baseTime rs \<le> pos h x" by fastforce
  then show ?case
  proof cases
    case 1
    then show ?thesis using snoc.IH [OF s] by (simp add: range_result_def in_range_def Let_def)
  next
    case 2
    then have "filter (in_range h is_T (baseTime rs) (baseTime re)) l = []"
      using x by (auto simp: filter_empty_conv in_range_def)
    with 2 show ?thesis
      by (simp add: range_result_def in_range_def Let_def time_lt_def flip: pos_def)
  next
    case 3
    then show ?thesis
      using snoc.IH [OF s] by (auto simp: range_result_def in_range_def Let_def time_lt_def aamp_time_eq_iff simp flip: pos_def)
  qed
qed

section \<open>Adding, removing and moving one object\<close>

lemma sum_list_diff:
  fixes f g :: "'b \<Rightarrow> nat"
  assumes "\<And>b. f b \<le> g b"
  shows "sum_list (map (\<lambda>b. g b - f b) mp) + sum_list (map f mp) = sum_list (map g mp)"
proof (induction mp)
  case (Cons b mp)
  then show ?case using assms [of b] by simp
qed simp

lemma mset_insert_at: "mset (insert_at n a l) = add_mset a (mset l)"
  by (simp add: insert_at_def) (metis append_take_drop_id mset_append)

lemma remove1_insert_at: "a \<notin> set l \<Longrightarrow> remove1 a (insert_at n a l) = l"
  by (simp add: insert_at_def remove1_append) (metis in_set_takeD)

lemma total_assign:
  "om_ok mp \<Longrightarrow> om_find k mp = Some l \<Longrightarrow>
     sum_list (map (length \<circ> snd) (om_assign k l' mp)) + length l = sum_list (map (length \<circ> snd) mp) + length l'"
proof (induction mp)
  case (Cons b mp)
  obtain a w where b: "b = (a, w)" by force
  show ?case
  proof (cases "a = k")
    case False
    then have "(k, l) \<in> set mp" using Cons.prems b by (auto dest: om_find_Some_in)
    then have "a < k" using Cons.prems(1) b by auto
    with False Cons b show ?thesis by auto
  qed (use Cons b in auto)
qed simp

section \<open>Properties\<close>

text \<open>
  C26: whatever sequence of calls is made, the list of every registered type is ordered by position
  and, at the same position, by the order of addition; it holds no object twice and only objects of
  its type.  This covers the insertion by \<open>std::lower_bound\<close> and the reinsertion from the rear when a
  position changes.
\<close>

theorem metadata_lists_ordered:
  assumes "reach (\<lambda>m. \<exists>h. m = new_manager h) md_step m" "om_find ty (mMetaDataMap m) = Some l"
  shows "sorted_wrt (\<lambda>x y. pos (objs m) x < pos (objs m) y
        \<or> (pos (objs m) x = pos (objs m) y \<and> mOrderAdded (objs m x) \<le> mOrderAdded (objs m y))) l
    \<and> distinct l \<and> (\<forall>x \<in> set l. mdType (objs m x) = ty)"
proof -
  have ok: "list_ok (objs m) ty l"
    using metadata.inv_reach [OF assms(1)] assms(2) by (auto simp: md_ok_def dest!: om_find_Some_in)
  have "sorted_wrt (\<lambda>x y. pos (objs m) x < pos (objs m) y
        \<or> (pos (objs m) x = pos (objs m) y \<and> mOrderAdded (objs m x) \<le> mOrderAdded (objs m y))) l"
    using ok unfolding list_ok_def meta.ordered_def
    by (elim conjE sorted_wrt_mono_rel [rotated]) (auto simp: compare_key)
  with ok show ?thesis by (simp add: list_ok_def)
qed

definition sample_objects :: objects where
  "sample_objects a = \<lparr>mdType = AD_PLACEMENT_METADATA_TYPE, mPosition = \<lparr>baseTime = 10 * int a\<rparr>, mOrderAdded = 0\<rparr>"

definition sample_manager :: AampTsbMetaDataManager where
  "sample_manager = snd (AddMetaData (Some 2) (snd (AddMetaData (Some 5)
     (snd (RegisterMetaDataType AD_PLACEMENT_METADATA_TYPE False (new_manager sample_objects))))))"

lemma sample_manager_reach: "reach (\<lambda>m. \<exists>h. m = new_manager h) md_step sample_manager"
proof -
  let ?m1 = "snd (RegisterMetaDataType AD_PLACEMENT_METADATA_TYPE False (new_manager sample_objects))"
  have "reach (\<lambda>m. \<exists>h. m = new_manager h) md_step (new_manager sample_objects)" by (rule reach_start) blast
  then have "reach (\<lambda>m. \<exists>h. m = new_manager h) md_step ?m1" by (rule reach_step) (rule md_step.intros)
  then have "reach (\<lambda>m. \<exists>h. m = new_manager h) md_step (snd (AddMetaData (Some 5) ?m1))"
    by (rule reach_step) (rule md_step.intros)
  then show ?thesis unfolding sample_manager_def by (rule reach_step) (rule md_step.intros)
qed

lemma sample_manager_list: "om_find AD_PLACEMENT_METADATA_TYPE (mMetaDataMap sample_manager) = Some [2, 5]"
  by (simp add: sample_manager_def AddMetaData_def RegisterMetaDataType_def new_manager_def IsRegisteredType_def
      set_list_def Let_def lower_bound_def lower_bound_loop.simps insert_at_def compareMetaData_def
      sample_objects_def time_lt_def)

theorem metadata_lists_ordered_witness:
  "om_find AD_PLACEMENT_METADATA_TYPE (mMetaDataMap sample_manager) = Some [2, 5]
    \<and> sorted_wrt (\<lambda>x y. pos (objs sample_manager) x < pos (objs sample_manager) y
        \<or> (pos (objs sample_manager) x = pos (objs sample_manager) y
           \<and> mOrderAdded (objs sample_manager x) \<le> mOrderAdded (objs sample_manager y))) [2, 5]"
  using metadata_lists_ordered [OF sample_manager_reach sample_manager_list] sample_manager_list by blast

text \<open>
  The documented contract of removal.  For a transient type everything at or before the
  position goes; for a non-transient type the latest object at or before the position stays, with
  everything after it.  The number returned is the number of objects that went.
\<close>

theorem remove_up_to_position:
  assumes "reach (\<lambda>m. \<exists>h. m = new_manager h) md_step m" "IsRegisteredType ty m = Some (isTransient, l)"
  shows "IsRegisteredType ty (snd (RemoveMetaData position m))
      = Some (isTransient, kept_after (objs m) (baseTime position) isTransient l)
    \<and> fst (RemoveMetaData position m) + GetSize (snd (RemoveMetaData position m)) = GetSize m"
proof -
  have ok: "md_ok m" using metadata.inv_reach [OF assms(1)] .
  let ?cut = "\<lambda>(ty, l). case om_find ty (mTypeTransienceMap m) of
                   None \<Rightarrow> l | Some isTransient \<Rightarrow> cut_list (objs m) position isTransient l"
  have find_map: "om_find ty (map (\<lambda>b. (fst b, ?cut b)) mp) = map_option (\<lambda>l. ?cut (ty, l)) (om_find ty mp)" for mp
    by (induction mp) auto
  have "meta.ordered (objs m) l" using registered_list_ok [OF ok assms(2)] by (simp add: list_ok_def)
  then have "IsRegisteredType ty (snd (RemoveMetaData position m))
      = Some (isTransient, kept_after (objs m) (baseTime position) isTransient l)"
    using assms(2) ok cut_list_kept [of "objs m" l position isTransient]
    by (simp add: RemoveMetaData_def Let_def IsRegisteredType_def find_map registered_both split: option.splits)
  moreover have "length (?cut b) \<le> length (snd b)" for b by (cases b) (auto simp: cut_shorter split: option.split)
  then have "sum_list (map (\<lambda>b. length (snd b) - length (?cut b)) mp) + sum_list (map (\<lambda>b. length (?cut b)) mp)
      = sum_list (map (\<lambda>b. length (snd b)) mp)" for mp by (rule sum_list_diff)
  then have "fst (RemoveMetaData position m) + GetSize (snd (RemoveMetaData position m)) = GetSize m"
    by (simp add: RemoveMetaData_def Let_def GetSize_def CalculateTotalCount_def comp_def)
  ultimately show ?thesis by blast
qed

lemma sample_manager_registered: "IsRegisteredType AD_PLACEMENT_METADATA_TYPE sample_manager = Some (False, [2, 5])"
  by (simp add: sample_manager_def AddMetaData_def RegisterMetaDataType_def new_manager_def IsRegisteredType_def
      set_list_def Let_def lower_bound_def lower_bound_loop.simps insert_at_def compareMetaData_def
      sample_objects_def time_lt_def)

theorem remove_up_to_position_witness:
  "IsRegisteredType AD_PLACEMENT_METADATA_TYPE (snd (RemoveMetaData \<lparr>baseTime = 30\<rparr> sample_manager))
      = Some (False, kept_after (objs sample_manager) 30 False [2, 5])
    \<and> fst (RemoveMetaData \<lparr>baseTime = 30\<rparr> sample_manager) + GetSize (snd (RemoveMetaData \<lparr>baseTime = 30\<rparr> sample_manager))
        = GetSize sample_manager"
  using remove_up_to_position [OF sample_manager_reach sample_manager_registered, of "\<lparr>baseTime = 30\<rparr>"] by simp

text \<open>
  A query of a range returns, in order, the objects of the class asked for whose position is in
  the half-open range (a range of one point holds that point) and, for a non-transient type with no
  object exactly at the start, the latest one before it, which is the one still in force there.
\<close>

theorem metadata_range_query:
  assumes "reach (\<lambda>m. \<exists>h. m = new_manager h) md_step m" "IsRegisteredType ty m = Some (isTransient, l)"
    and "baseTime rangeStart \<le> baseTime rangeEnd"
  shows "GetMetaDataByType is_T ty rangeStart rangeEnd m
    = (let inside = filter (\<lambda>x. is_T x \<and> baseTime rangeStart \<le> pos (objs m) x
                              \<and> (pos (objs m) x = baseTime rangeStart \<or> pos (objs m) x < baseTime rangeEnd)) l;
           before = filter (\<lambda>x. is_T x \<and> pos (objs m) x < baseTime rangeStart) l
       in if \<not> isTransient \<and> before \<noteq> [] \<and> (inside = [] \<or> baseTime rangeStart < pos (objs m) (hd inside))
          then last before # inside else inside)"
proof -
  have "meta.ordered (objs m) l"
    using registered_list_ok [OF metadata.inv_reach [OF assms(1)] assms(2)] by (simp add: list_ok_def)
  then have "sorted (map (pos (objs m)) l)" by (rule ordered_pos)
  then show ?thesis
    using assms(2,3)
    by (simp add: GetMetaDataByType_def range_scan_result range_result_def in_range_def [abs_def] time_lt_def)
qed

theorem metadata_range_query_witness:
  "GetMetaDataByType (\<lambda>_. True) AD_PLACEMENT_METADATA_TYPE \<lparr>baseTime = 30\<rparr> \<lparr>baseTime = 60\<rparr> sample_manager
    = (let inside = filter (\<lambda>x. 30 \<le> pos (objs sample_manager) x
                              \<and> (pos (objs sample_manager) x = 30 \<or> pos (objs sample_manager) x < 60)) [2, 5];
           before = filter (\<lambda>x. pos (objs sample_manager) x < 30) [2, 5]
       in if before \<noteq> [] \<and> (inside = [] \<or> 30 < pos (objs sample_manager) (hd inside))
          then last before # inside else inside)"
  using metadata_range_query [OF sample_manager_reach sample_manager_registered, of "\<lparr>baseTime = 30\<rparr>" "\<lparr>baseTime = 60\<rparr>" "\<lambda>_. True"]
  by simp

text \<open>
  An object is added exactly when its type is registered and the object is not yet in the list;
  it then appears once more and nothing else changes, the count grows by one, and removing the
  object gives the lists back.
\<close>

theorem add_then_remove:
  assumes "reach (\<lambda>m. \<exists>h. m = new_manager h) md_step m" "IsRegisteredType (mdType (objs m a)) m = Some (isTransient, l)"
  shows "fst (AddMetaData (Some a) m) = (a \<notin> set l)
    \<and> (a \<notin> set l \<longrightarrow>
        (\<exists>l'. IsRegisteredType (mdType (objs m a)) (snd (AddMetaData (Some a) m)) = Some (isTransient, l')
            \<and> mset l' = add_mset a (mset l))
        \<and> GetSize (snd (AddMetaData (Some a) m)) = GetSize m + 1
        \<and> mMetaDataMap (snd (RemoveMetaDataObject (Some a) (snd (AddMetaData (Some a) m)))) = mMetaDataMap m)"
proof (cases "a \<in> set l")
  case True
  with assms(2) show ?thesis by (simp add: AddMetaData_def)
next
  case False
  let ?ty = "mdType (objs m a)"
  let ?h = "(objs m)(a := (objs m a)\<lparr>mOrderAdded := mNextOrderAdded m\<rparr>)"
  let ?l' = "insert_at (lower_bound (\<lambda>b. compareMetaData ?h b a) l) a l"
  let ?m' = "snd (AddMetaData (Some a) m)"
  have ok: "md_ok m" using metadata.inv_reach [OF assms(1)] .
  then have mp: "om_ok (mMetaDataMap m)" "om_find ?ty (mMetaDataMap m) = Some l" "om_find ?ty (mTypeTransienceMap m) = Some isTransient"
    using assms(2) by (simp_all add: registered_both) (simp add: md_ok_def)
  have add: "AddMetaData (Some a) m
      = (True, set_list ?ty ?l' (m\<lparr>objs := ?h, mNextOrderAdded := next_order (mNextOrderAdded m)\<rparr>))"
    using assms(2) False by (simp add: AddMetaData_def Let_def)
  have reg: "IsRegisteredType ?ty ?m' = Some (isTransient, ?l')"
    using mp by (simp add: add IsRegisteredType_def set_list_def)
  have "GetSize ?m' = GetSize m + 1"
    using total_assign [OF mp(1,2), of ?l'] mset_insert_at [of _ a l] size_mset [of ?l']
    by (simp add: add GetSize_def CalculateTotalCount_def set_list_def)
  moreover have "mMetaDataMap (snd (RemoveMetaDataObject (Some a) ?m')) = mMetaDataMap m"
    using reg mp False
    by (simp add: RemoveMetaDataObject_def add set_list_def set_insert_at remove1_insert_at om_assign_found)
  ultimately show ?thesis using reg False by (auto simp: add mset_insert_at)
qed

theorem add_then_remove_witness:
  "fst (AddMetaData (Some 3) sample_manager)
    \<and> GetSize (snd (AddMetaData (Some 3) sample_manager)) = GetSize sample_manager + 1
    \<and> mMetaDataMap (snd (RemoveMetaDataObject (Some 3) (snd (AddMetaData (Some 3) sample_manager)))) = mMetaDataMap sample_manager"
proof -
  have "mdType (objs sample_manager 3) = AD_PLACEMENT_METADATA_TYPE"
    by (simp add: sample_manager_def AddMetaData_def RegisterMetaDataType_def new_manager_def
      set_list_def Let_def sample_objects_def IsRegisteredType_def)
  then show ?thesis
    using add_then_remove [OF sample_manager_reach, of 3 False "[2, 5]"] sample_manager_registered by simp
qed

end
