(* ===== verification/Tsb_Data.thy ===== *)
theory Tsb_Data
  imports Aamp_Time Media_Type
begin

text \<open>
  \<open>AampTsbDataManager\<close>: the fragments of one track of the time-shift buffer, keyed by their absolute
  position, with the initialization data each of them uses.  The map is a sorted list of bindings; a
  fragment or an initialization object is the number of its cell, the pointers \<open>next\<close> and \<open>prev\<close> too.
  Positions are rational numbers and every double operation goes through the rounding argument
  \<open>rnd\<close>.  The use of \<open>end()\<close> is a fault; the loop of \<open>DumpData\<close> is run with fuel.
  The lemmas show that an initialization object is counted by the fragments that use it and given
  up only when none is left, what the searches by position return and where they go wrong.
\<close>

section \<open>Data\<close>

record TsbInitData =
  initUrl :: string
  initMedia :: AampMediaType
  initPosition :: aamp_time
  initBandwidth :: int
  initPeriodId :: string
  profileIndex :: int
  users :: int

record TsbFragmentData =
  url :: string
  fragMedia :: AampMediaType
  absolutePositionS :: aamp_time
  periodId :: string
  duration :: aamp_time
  mPTS :: aamp_time
  isDiscontinuous :: bool
  initFragData :: nat
  timeScale :: u32
  PTSOffset :: aamp_time
  next_frag :: "nat option"
  prev_frag :: "nat option"

record TSBWriteData =
  wdUrl :: string
  wdAbsPosition :: rat
  wdDuration :: rat
  wdPts :: rat
  wdPeriodId :: string
  wdTimeScale :: u32
  wdPTSOffsetSec :: rat

record AampTsbDataManager =
  mTsbFragmentData :: "(rat, nat) omap"
  mTsbInitData :: "nat list"
  mCurrentInitData :: "nat option"
  mCurrHead :: "nat option"
  inits :: "TsbInitData list"
  frags :: "TsbFragmentData list"

datatype tsb_fault = DerefEndIterator

definition new_tsb :: AampTsbDataManager where
  "new_tsb = \<lparr>mTsbFragmentData = [], mTsbInitData = [], mCurrentInitData = None, mCurrHead = None,
     inits = [], frags = []\<rparr>"

definition set_users :: "nat \<Rightarrow> int \<Rightarrow> AampTsbDataManager \<Rightarrow> AampTsbDataManager" where
  "set_users i n m = m\<lparr>inits := (inits m)[i := (inits m ! i)\<lparr>users := n\<rparr>]\<rparr>"

definition incrementUser :: "nat \<Rightarrow> AampTsbDataManager \<Rightarrow> AampTsbDataManager" where
  "incrementUser i m = set_users i (users (inits m ! i) + 1) m"

definition decrementUser :: "nat \<Rightarrow> AampTsbDataManager \<Rightarrow> AampTsbDataManager" where
  "decrementUser i m = set_users i (users (inits m ! i) - 1) m"

section \<open>Searches\<close>

definition GetNearestFragment :: "(rat \<Rightarrow> rat) \<Rightarrow> rat \<Rightarrow> AampTsbDataManager \<Rightarrow> nat option" where
  "GetNearestFragment rnd position m =
     (let lower = om_lower position (mTsbFragmentData m);
          before = takeWhile (\<lambda>(k, _). k < position) (mTsbFragmentData m)
      in if mTsbFragmentData m = [] then None
         else if before = [] then Some (snd (hd lower))
         else if lower = [] then Some (snd (last before))
         else if rnd (fst (hd lower) - position) < rnd (position - fst (last before))
         then Some (snd (hd lower)) else Some (snd (last before)))"

definition IsFragmentPresent :: "rat \<Rightarrow> AampTsbDataManager \<Rightarrow> bool" where
  "IsFragmentPresent position m \<longleftrightarrow> mTsbFragmentData m \<noteq> []
     \<and> fst (hd (mTsbFragmentData m)) \<le> position \<and> position \<le> fst (last (mTsbFragmentData m))"

text \<open>The fragment and the end-of-stream flag.\<close>

definition GetFragment :: "rat \<Rightarrow> AampTsbDataManager \<Rightarrow> nat option \<times> bool" where
  "GetFragment position m =
     (case om_find position (mTsbFragmentData m) of
        None \<Rightarrow> (None, False)
      | Some f \<Rightarrow> (Some f, position = fst (last (mTsbFragmentData m))))"

definition GetFirstFragment :: "AampTsbDataManager \<Rightarrow> nat option" where
  "GetFirstFragment m = (if mTsbFragmentData m = [] then None else Some (snd (hd (mTsbFragmentData m))))"

definition GetLastFragment :: "AampTsbDataManager \<Rightarrow> nat option" where
  "GetLastFragment m = (if mTsbFragmentData m = [] then None else Some (snd (last (mTsbFragmentData m))))"

definition GetFirstFragmentPosition :: "(rat \<Rightarrow> rat) \<Rightarrow> AampTsbDataManager \<Rightarrow> rat" where
  "GetFirstFragmentPosition rnd m =
     (if mTsbFragmentData m = [] then 0
      else inSeconds rnd (absolutePositionS (frags m ! snd (hd (mTsbFragmentData m)))))"

definition GetLastFragmentPosition :: "(rat \<Rightarrow> rat) \<Rightarrow> AampTsbDataManager \<Rightarrow> rat" where
  "GetLastFragmentPosition rnd m =
     (if mTsbFragmentData m = [] then 0
      else inSeconds rnd (absolutePositionS (frags m ! snd (last (mTsbFragmentData m)))))"

text \<open>\<open>IsDiscontinuous\<close> of the fragment of a binding.\<close>

definition disc :: "AampTsbDataManager \<Rightarrow> (rat \<times> nat) \<Rightarrow> bool" where
  "disc m b = isDiscontinuous (frags m ! snd b)"

fun disc_forward :: "AampTsbDataManager \<Rightarrow> (rat, nat) omap \<Rightarrow> nat option" where
  "disc_forward m [] = None"
| "disc_forward m (b # rest) = (if disc m b then Some (snd b) else disc_forward m rest)"

text \<open>
  The backward loop, on the index of the iterator: it tests the element before it moves, and stops
  without a test at \<open>begin()\<close>; at the index of \<open>end()\<close> there is no element.
\<close>

fun disc_backward :: "AampTsbDataManager \<Rightarrow> nat \<Rightarrow> tsb_fault + nat option" where
  "disc_backward m 0 = Inr None"
| "disc_backward m (Suc i) =
     (if length (mTsbFragmentData m) \<le> Suc i then Inl DerefEndIterator
      else if disc m (mTsbFragmentData m ! Suc i) then Inr (Some (snd (mTsbFragmentData m ! Suc i)))
      else disc_backward m i)"

definition GetNextDiscFragment :: "rat \<Rightarrow> bool \<Rightarrow> AampTsbDataManager \<Rightarrow> tsb_fault + nat option" where
  "GetNextDiscFragment position backwardSearch m =
     (if \<not> backwardSearch then Inr (disc_forward m (om_lower position (mTsbFragmentData m)))
      else disc_backward m (length (mTsbFragmentData m) - length (om_lower position (mTsbFragmentData m))))"

text \<open>The loop of \<open>DumpData\<close>: the iterator does not move.\<close>

fun dump_loop :: "nat \<Rightarrow> (rat, nat) omap \<Rightarrow> bool option" where
  "dump_loop 0 it = None"
| "dump_loop (Suc fuel) it = (if it = [] then Some True else dump_loop fuel it)"

definition DumpData :: "nat \<Rightarrow> AampTsbDataManager \<Rightarrow> bool option" where
  "DumpData fuel m = (if mTsbFragmentData m \<noteq> [] then dump_loop fuel (mTsbFragmentData m) else Some True)"

section \<open>Changes\<close>

definition AddInitFragment ::
    "(rat \<Rightarrow> rat) \<Rightarrow> string \<Rightarrow> AampMediaType \<Rightarrow> int \<Rightarrow> string \<Rightarrow> rat \<Rightarrow> int \<Rightarrow> AampTsbDataManager \<Rightarrow> bool \<times> AampTsbDataManager" where
  "AddInitFragment rnd u media bandwidth period absPosition profileIdx m =
     (True, m\<lparr>inits := inits m @ [\<lparr>initUrl = u, initMedia = media, initPosition = time_of_double rnd absPosition,
                initBandwidth = bandwidth, initPeriodId = period, profileIndex = profileIdx, users = 0\<rparr>],
              mTsbInitData := mTsbInitData m @ [length (inits m)],
              mCurrentInitData := Some (length (inits m))\<rparr>)"

definition AddFragment ::
    "(rat \<Rightarrow> rat) \<Rightarrow> TSBWriteData \<Rightarrow> AampMediaType \<Rightarrow> bool \<Rightarrow> AampTsbDataManager \<Rightarrow> bool \<times> AampTsbDataManager" where
  "AddFragment rnd wd media discont m =
     (case mCurrentInitData m of
        None \<Rightarrow> (False, m)
      | Some i \<Rightarrow>
          let m1 = incrementUser i m;
              f = length (frags m1);
              fragmentData = \<lparr>url = wdUrl wd, fragMedia = media, absolutePositionS = time_of_double rnd (wdAbsPosition wd),
                periodId = wdPeriodId wd, duration = time_of_double rnd (wdDuration wd), mPTS = time_of_double rnd (wdPts wd),
                isDiscontinuous = discont, initFragData = i, timeScale = wdTimeScale wd,
                PTSOffset = time_of_double rnd (wdPTSOffsetSec wd), next_frag = None, prev_frag = mCurrHead m1\<rparr>;
              linked = (case mCurrHead m1 of
                          None \<Rightarrow> frags m1
                        | Some h \<Rightarrow> (frags m1)[h := (frags m1 ! h)\<lparr>next_frag := Some f\<rparr>])
          in (True, m1\<lparr>frags := linked @ [fragmentData], mCurrHead := Some f,
                       mTsbFragmentData := om_assign (wdAbsPosition wd) f (mTsbFragmentData m1)\<rparr>))"

text \<open>\<open>decrementUser\<close>, and the removal from the list when no user is left.\<close>

definition release_init :: "nat \<Rightarrow> AampTsbDataManager \<Rightarrow> bool \<times> AampTsbDataManager" where
  "release_init i m =
     (let m1 = decrementUser i m
      in if users (inits m1 ! i) \<le> 0
         then (True, m1\<lparr>mTsbInitData := filter (\<lambda>j. j \<noteq> i) (mTsbInitData m1)\<rparr>)
         else (False, m1))"

text \<open>The deleted fragment and \<open>deleteInit\<close>.\<close>

definition RemoveFragment :: "AampTsbDataManager \<Rightarrow> (nat option \<times> bool) \<times> AampTsbDataManager" where
  "RemoveFragment m =
     (case mTsbFragmentData m of
        [] \<Rightarrow> ((None, False), m)
      | (k, f) # rest \<Rightarrow>
          let (deleteInit, m1) = release_init (initFragData (frags m ! f)) m;
              unlinked = (case next_frag (frags m1 ! f) of
                            None \<Rightarrow> frags m1
                          | Some n \<Rightarrow> (frags m1)[n := (frags m1 ! n)\<lparr>prev_frag := None\<rparr>])
          in ((Some f, deleteInit), m1\<lparr>frags := unlinked, mTsbFragmentData := rest\<rparr>))"

fun remove_loop :: "rat \<Rightarrow> (rat, nat) omap \<Rightarrow> nat list \<Rightarrow> AampTsbDataManager \<Rightarrow> nat list \<times> AampTsbDataManager" where
  "remove_loop position [] deleted m = (deleted, m\<lparr>mTsbFragmentData := []\<rparr>)"
| "remove_loop position ((k, f) # rest) deleted m =
     (if k < position
      then remove_loop position rest (deleted @ [f]) (snd (release_init (initFragData (frags m ! f)) m))
      else (deleted, m\<lparr>mTsbFragmentData := (k, f) # rest\<rparr>))"

definition RemoveFragments :: "rat \<Rightarrow> AampTsbDataManager \<Rightarrow> nat list \<times> AampTsbDataManager" where
  "RemoveFragments position m =
     (if mTsbFragmentData m = [] then ([], m) else remove_loop position (mTsbFragmentData m) [] m)"

definition Flush :: "AampTsbDataManager \<Rightarrow> AampTsbDataManager" where
  "Flush m = m\<lparr>mTsbFragmentData := [], mTsbInitData := [], mCurrentInitData := None\<rparr>"

text \<open>The calls, with fragments added at positions that are not yet taken.\<close>

inductive tsb_step :: "AampTsbDataManager \<Rightarrow> AampTsbDataManager \<Rightarrow> bool" where
  "tsb_step m (snd (AddInitFragment rnd u media bandwidth period absPosition profileIdx m))"
| "om_find (wdAbsPosition wd) (mTsbFragmentData m) = None \<Longrightarrow> tsb_step m (snd (AddFragment rnd wd media discont m))"
| "tsb_step m (snd (RemoveFragment m))"
| "tsb_step m (snd (RemoveFragments position m))"
| "tsb_step m (Flush m)"

section \<open>The users of an initialization object\<close>

definition init_of :: "AampTsbDataManager \<Rightarrow> (rat \<times> nat) \<Rightarrow> nat" where
  "init_of m b = initFragData (frags m ! snd b)"

definition uses :: "nat \<Rightarrow> AampTsbDataManager \<Rightarrow> nat" where
  "uses i m = length (filter (\<lambda>b. init_of m b = i) (mTsbFragmentData m))"

definition tracked :: "nat \<Rightarrow> AampTsbDataManager \<Rightarrow> bool" where
  "tracked i m \<longleftrightarrow> 0 < uses i m \<or> i \<in> set (mTsbInitData m) \<or> mCurrentInitData m = Some i"

definition tsb_ok :: "AampTsbDataManager \<Rightarrow> bool" where
  "tsb_ok m \<longleftrightarrow> om_ok (mTsbFragmentData m)
     \<and> (\<forall>b \<in> set (mTsbFragmentData m). snd b < length (frags m) \<and> init_of m b < length (inits m))
     \<and> (\<forall>i. mCurrentInitData m = Some i \<longrightarrow> i < length (inits m))
     \<and> (\<forall>i \<in> set (mTsbInitData m). i < length (inits m))
     \<and> (\<forall>i. tracked i m \<longrightarrow> users (inits m ! i) = int (uses i m))"

lemma link_keeps_init [simp]:
  "initFragData (fs[n := (fs ! n)\<lparr>next_frag := x\<rparr>] ! f) = initFragData (fs ! f)"
  "initFragData (fs[n := (fs ! n)\<lparr>prev_frag := x\<rparr>] ! f) = initFragData (fs ! f)"
  by (cases "n < length fs"; cases "n = f"; simp add: list_update_beyond)+

lemma users_update:
  "users ((is)[i := (is ! i)\<lparr>users := n\<rparr>] ! j) = (if j = i \<and> i < length is then n else users (is ! j))"
  by (cases "i < length is") (auto simp: nth_list_update list_update_beyond)

lemma release_fields [simp]:
  "mTsbFragmentData (snd (release_init i m)) = mTsbFragmentData m" "frags (snd (release_init i m)) = frags m"
  "length (inits (snd (release_init i m))) = length (inits m)"
  "mCurrentInitData (snd (release_init i m)) = mCurrentInitData m"
  "mCurrHead (snd (release_init i m)) = mCurrHead m"
  by (auto simp: release_init_def Let_def decrementUser_def set_users_def)

lemma release_subset: "j \<in> set (mTsbInitData (snd (release_init i m))) \<Longrightarrow> j \<in> set (mTsbInitData m)"
  by (auto simp: release_init_def Let_def decrementUser_def set_users_def split: if_splits)

lemma release_users:
  "i < length (inits m) \<Longrightarrow>
     users (inits (snd (release_init i m)) ! j) = (if j = i then users (inits m ! i) - 1 else users (inits m ! j))"
  by (simp add: release_init_def Let_def decrementUser_def set_users_def users_update)

lemma release_flag:
  "i < length (inits m) \<Longrightarrow> fst (release_init i m) \<longleftrightarrow> users (inits m ! i) \<le> 1"
  by (auto simp: release_init_def Let_def decrementUser_def set_users_def)

text \<open>The binding at the front goes.\<close>

lemma drop_front_ok:
  assumes "tsb_ok m" "mTsbFragmentData m = b # rest"
    and m': "mTsbFragmentData m' = rest" "\<And>b. init_of m' b = init_of m b" "length (frags m') = length (frags m)"
      "inits m' = inits (snd (release_init (init_of m b) m))" "mCurrentInitData m' = mCurrentInitData m"
      "mTsbInitData m' = mTsbInitData (snd (release_init (init_of m b) m))"
  shows "tsb_ok m'"
proof -
  let ?i = "init_of m b"
  have i: "?i < length (inits m)" using assms(1,2) by (auto simp: tsb_ok_def)
  have u: "int (uses j m') = int (uses j m) - (if j = ?i then 1 else 0)" for j
    using m'(1,2) assms(2) by (auto simp: uses_def)
  have "tracked j m" if "tracked j m'" for j
    using that m' assms(2) release_subset [of j ?i m] by (auto simp: tracked_def uses_def split: if_splits)
  then have "users (inits m' ! j) = int (uses j m')" if "tracked j m'" for j
    using that assms(1) u [of j] release_users [OF i] m'(4) by (auto simp: tsb_ok_def)
  moreover have "om_ok rest" using assms(1,2) by (cases b) (auto simp: tsb_ok_def)
  ultimately show ?thesis
    using assms(1,2) m' release_subset [of _ ?i m] by (auto simp: tsb_ok_def)
qed

lemma RemoveFragment_ok:
  assumes "tsb_ok m"
  shows "tsb_ok (snd (RemoveFragment m))"
proof (cases "mTsbFragmentData m")
  case Nil
  with assms show ?thesis by (simp add: RemoveFragment_def)
next
  case (Cons b rest)
  show ?thesis
    by (rule drop_front_ok [OF assms Cons])
      (auto simp: RemoveFragment_def Cons init_of_def case_prod_beta Let_def split: option.split)
qed

lemma remove_loop_ok:
  "tsb_ok (m\<lparr>mTsbFragmentData := bs\<rparr>) \<Longrightarrow> tsb_ok (snd (remove_loop position bs deleted m))"
proof (induction position bs deleted m rule: remove_loop.induct)
  case (2 position k f rest deleted m)
  show ?case
  proof (cases "k < position")
    case True
    let ?m = "m\<lparr>mTsbFragmentData := (k, f) # rest\<rparr>"
    have "tsb_ok ((snd (release_init (initFragData (frags m ! f)) m))\<lparr>mTsbFragmentData := rest\<rparr>)"
      by (rule drop_front_ok [OF "2.prems", of "(k, f)" rest])
        (auto simp: init_of_def release_init_def Let_def decrementUser_def set_users_def)
    with True 2 show ?thesis by simp
  qed (use 2 in simp)
qed simp

lemma RemoveFragments_ok: "tsb_ok m \<Longrightarrow> tsb_ok (snd (RemoveFragments position m))"
  by (simp add: RemoveFragments_def remove_loop_ok)

lemma Flush_ok: "tsb_ok (Flush m)"
  by (simp add: tsb_ok_def Flush_def tracked_def uses_def)

lemma AddInit_ok:
  assumes "tsb_ok m"
  shows "tsb_ok (snd (AddInitFragment rnd u media bandwidth period absPosition profileIdx m))"
proof -
  let ?m = "snd (AddInitFragment rnd u media bandwidth period absPosition profileIdx m)"
  have b: "init_of ?m b = init_of m b" for b by (simp add: init_of_def AddInitFragment_def)
  then have us: "uses i ?m = uses i m" for i by (simp add: uses_def) (simp add: AddInitFragment_def)
  have none: "uses (length (inits m)) m = 0"
    using assms by (auto simp: tsb_ok_def uses_def filter_empty_conv)
  have "i < length (inits m)" if "tracked i m" for i
    using that assms by (auto simp: tracked_def tsb_ok_def uses_def filter_empty_conv)
  then have "users (inits ?m ! i) = int (uses i ?m)" if "tracked i ?m" for i
    using that assms us none
    by (cases "i = length (inits m)") (auto simp: tracked_def tsb_ok_def AddInitFragment_def nth_append)
  then show ?thesis
    using assms b by (auto simp: tsb_ok_def) (auto simp: AddInitFragment_def)
qed

lemma AddFragment_ok:
  assumes ok: "tsb_ok m" and free: "om_find (wdAbsPosition wd) (mTsbFragmentData m) = None"
  shows "tsb_ok (snd (AddFragment rnd wd media discont m))"
proof (cases "mCurrentInitData m")
  case None
  with ok show ?thesis by (simp add: AddFragment_def)
next
  case (Some i)
  let ?m = "snd (AddFragment rnd wd media discont m)" and ?k = "wdAbsPosition wd" and ?n = "length (frags m)"
  have i: "i < length (inits m)" using ok Some by (simp add: tsb_ok_def)
  have om: "om_ok (mTsbFragmentData m)" using ok by (simp add: tsb_ok_def)
  have mp: "mTsbFragmentData ?m = om_assign ?k ?n (mTsbFragmentData m)"
    and rest: "mTsbInitData ?m = mTsbInitData m" "mCurrentInitData ?m = Some i" "length (frags ?m) = ?n + 1"
      "length (inits ?m) = length (inits m)"
    by (simp_all add: AddFragment_def Some Let_def incrementUser_def set_users_def split: option.split)
  have us: "users (inits ?m ! j) = users (inits m ! j) + (if j = i then 1 else 0)" for j
    using i by (simp add: AddFragment_def Some Let_def incrementUser_def set_users_def users_update)
  have new: "init_of ?m (k', ?n) = i" for k'
    by (simp add: init_of_def AddFragment_def Some Let_def incrementUser_def set_users_def nth_append split: option.split)
  have old: "init_of ?m b = init_of m b" if "snd b < ?n" for b
    using that by (simp add: init_of_def AddFragment_def Some Let_def incrementUser_def set_users_def nth_append split: option.split)
  have bound: "snd b < ?n" if "b \<in> set (mTsbFragmentData m)" for b using that ok by (auto simp: tsb_ok_def)
  have "uses j ?m = uses j m + (if j = i then 1 else 0)" for j
  proof -
    have "length (filter (\<lambda>b. init_of ?m b = j) (om_assign ?k ?n mp))
        = length (filter (\<lambda>b. init_of m b = j) mp) + (if j = i then 1 else 0)"
      if "om_find ?k mp = None" "\<forall>b \<in> set mp. snd b < ?n" for mp
      using that
    proof (induction mp)
      case (Cons b mp)
      have "filter (\<lambda>b. init_of ?m b = j) mp = filter (\<lambda>b. init_of m b = j) mp"
        using Cons.prems(2) old by (intro filter_cong) auto
      with Cons show ?case using new old by (cases b) (auto split: if_splits)
    qed (use new in auto)
    then show ?thesis using free bound by (simp add: uses_def mp)
  qed
  note u = this
  have "tracked j m" if "tracked j ?m" for j
    using that rest u [of j] Some by (auto simp: tracked_def split: if_splits)
  then have "users (inits ?m ! j) = int (uses j ?m)" if "tracked j ?m" for j
    using that ok us [of j] u [of j] by (auto simp: tsb_ok_def)
  moreover have "init_of ?m b < length (inits m) \<and> snd b < ?n + 1" if "b \<in> set (mTsbFragmentData ?m)" for b
  proof -
    have "b = (?k, ?n) \<or> b \<in> set (mTsbFragmentData m)"
      using that unfolding mp set_om_assign [OF om] by auto
    then show ?thesis
    proof
      assume "b \<in> set (mTsbFragmentData m)"
      then show ?thesis using old [of b] bound [of b] ok by (auto simp: tsb_ok_def)
    qed (use new i in simp)
  qed
  ultimately show ?thesis
    using ok om i rest by (auto simp: tsb_ok_def mp)
qed

lemma tsb_ok_step: "tsb_step m m' \<Longrightarrow> tsb_ok m \<Longrightarrow> tsb_ok m'"
  by (induction rule: tsb_step.induct) (simp_all add: AddInit_ok AddFragment_ok RemoveFragment_ok RemoveFragments_ok Flush_ok)

interpretation tsb: stateful "\<lambda>m. m = new_tsb" tsb_step tsb_ok
proof
  show "tsb_ok m" if "m = new_tsb" for m
    using that by (simp add: tsb_ok_def new_tsb_def tracked_def uses_def)
qed (rule tsb_ok_step)
section \<open>Searches by position\<close>

definition entries :: "AampTsbDataManager \<Rightarrow> (rat \<times> nat) set" where
  "entries m = set (mTsbFragmentData m)"

lemma take_drop_lower: "takeWhile (\<lambda>(k, _). k < p) m @ om_lower p m = m"
  by (simp add: om_lower_def)

lemma before_less: "b \<in> set (takeWhile (\<lambda>(k, _). k < (p :: 'k::linorder)) m) \<Longrightarrow> fst b < p"
  using set_takeWhileD by fastforce

lemma last_max: "om_ok m \<Longrightarrow> b \<in> set m \<Longrightarrow> fst b \<le> fst (last m)"
proof (induction m)
  case (Cons c m)
  show ?case
  proof (cases "m = []")
    case False
    obtain k v a w where kv: "c = (k, v)" "last m = (a, w)" by (metis surj_pair)
    have "(a, w) \<in> set m" using False kv(2) last_in_set by metis
    then have "fst c < fst (last m)" using Cons.prems(1) kv by auto
    with False Cons show ?thesis by (cases c) auto
  qed (use Cons in auto)
qed simp

lemma hd_min: "om_ok m \<Longrightarrow> b \<in> set m \<Longrightarrow> fst (hd m) \<le> fst b"
  by (cases m) (force simp: om_ok_def om_keys_def)+

lemma om_ok_appendD: "om_ok (xs @ ys) \<Longrightarrow> om_ok xs \<and> om_ok ys"
  by (simp add: om_ok_def om_keys_def sorted_wrt_append)

lemma lower_entries: "om_ok m \<Longrightarrow> b \<in> set (om_lower p m) \<longleftrightarrow> b \<in> set m \<and> p \<le> fst b"
  by (cases b) (simp add: om_lower_suffix)

lemma disc_forward_first:
  assumes "om_ok bs"
  shows "case disc_forward m bs of
      None \<Rightarrow> \<forall>b \<in> set bs. \<not> disc m b
    | Some f \<Rightarrow> \<exists>k. (k, f) \<in> set bs \<and> disc m (k, f) \<and> (\<forall>b \<in> set bs. disc m b \<longrightarrow> k \<le> fst b)"
  using assms
proof (induction bs)
  case (Cons b bs)
  show ?case
  proof (cases "disc m b")
    case True
    then have "\<forall>b' \<in> set (b # bs). fst b \<le> fst b'" using hd_min [OF Cons.prems] by simp
    with True show ?thesis by (auto intro!: exI [of _ "fst b"])
  next
    case False
    have "om_ok bs" using Cons.prems by (cases b) simp
    with Cons.IH False show ?thesis by (auto split: option.splits)
  qed
qed simp

text \<open>The backward loop from an index with an element: the last discontinuous one, never the first.\<close>

lemma disc_backward_last:
  "i < length (mTsbFragmentData m) \<Longrightarrow>
   (case disc_backward m i of
      Inl e \<Rightarrow> False
    | Inr None \<Rightarrow> \<forall>j. 0 < j \<and> j \<le> i \<longrightarrow> \<not> disc m (mTsbFragmentData m ! j)
    | Inr (Some f) \<Rightarrow> \<exists>j. 0 < j \<and> j \<le> i \<and> f = snd (mTsbFragmentData m ! j) \<and> disc m (mTsbFragmentData m ! j)
        \<and> (\<forall>j'. j < j' \<and> j' \<le> i \<longrightarrow> \<not> disc m (mTsbFragmentData m ! j')))"
proof (induction i)
  case (Suc i)
  show ?case
  proof (cases "disc m (mTsbFragmentData m ! Suc i)")
    case True
    with Suc.prems show ?thesis by auto
  next
    case False
    from Suc have IH: "case disc_backward m i of
        Inl e \<Rightarrow> False
      | Inr None \<Rightarrow> \<forall>j. 0 < j \<and> j \<le> i \<longrightarrow> \<not> disc m (mTsbFragmentData m ! j)
      | Inr (Some f) \<Rightarrow> \<exists>j. 0 < j \<and> j \<le> i \<and> f = snd (mTsbFragmentData m ! j) \<and> disc m (mTsbFragmentData m ! j)
          \<and> (\<forall>j'. j < j' \<and> j' \<le> i \<longrightarrow> \<not> disc m (mTsbFragmentData m ! j'))" by simp
    with False Suc.prems show ?thesis
      by (auto simp: le_Suc_eq split: sum.splits option.splits)
  qed
qed simp

lemma dump_loop_stuck: "it \<noteq> [] \<Longrightarrow> dump_loop fuel it = None"
  by (induction fuel) auto

lemma remove_loop_result:
  "om_ok bs \<Longrightarrow> fst (remove_loop position bs deleted m) = deleted @ map snd (filter (\<lambda>(k, f). k < position) bs)
     \<and> mTsbFragmentData (snd (remove_loop position bs deleted m)) = filter (\<lambda>(k, f). position \<le> k) bs"
proof (induction position bs deleted m rule: remove_loop.induct)
  case (2 position k f rest deleted m)
  show ?case
  proof (cases "k < position")
    case True
    then show ?thesis using 2 by (auto simp: not_le)
  next
    case False
    then have "\<forall>b \<in> set rest. position < fst b" using "2.prems" by auto
    then have "filter (\<lambda>(k, f). k < position) rest = []" "filter (\<lambda>(k, f). position \<le> k) rest = rest"
      by (auto simp: filter_empty_conv filter_id_conv)
    with False show ?thesis by simp
  qed
qed simp

section \<open>Properties\<close>


definition sample_write :: "rat \<Rightarrow> TSBWriteData" where
  "sample_write p = \<lparr>wdUrl = ''seg'', wdAbsPosition = p, wdDuration = 2, wdPts = p, wdPeriodId = ''p0'',
     wdTimeScale = 90000, wdPTSOffsetSec = 0\<rparr>"

definition sample_tsb :: AampTsbDataManager where
  "sample_tsb = snd (AddFragment id (sample_write 10) eMEDIATYPE_VIDEO False
     (snd (AddInitFragment id ''init'' eMEDIATYPE_VIDEO 800000 ''p0'' 10 0 new_tsb)))"

lemma sample_tsb_reach: "reach (\<lambda>m. m = new_tsb) tsb_step sample_tsb"
proof -
  have "reach (\<lambda>m. m = new_tsb) tsb_step new_tsb" by (rule reach_start) simp
  then have "reach (\<lambda>m. m = new_tsb) tsb_step
      (snd (AddInitFragment id ''init'' eMEDIATYPE_VIDEO 800000 ''p0'' 10 0 new_tsb))"
    by (rule reach_step) (rule tsb_step.intros)
  then show ?thesis unfolding sample_tsb_def
    by (rule reach_step) (rule tsb_step.intros, simp add: AddInitFragment_def new_tsb_def)
qed


lemma nearest_lower:
  fixes m :: "(rat, nat) omap"
  assumes "om_ok m" "mono rnd" "b \<in> set (om_lower position m)"
  shows "rnd \<bar>fst (hd (om_lower position m)) - position\<bar> \<le> rnd \<bar>fst b - position\<bar>"
    "\<bar>fst (hd (om_lower position m)) - position\<bar> = fst (hd (om_lower position m)) - position"
proof -
  let ?lower = "om_lower position m"
  have "om_ok ?lower" using om_ok_appendD take_drop_lower [of position m] assms(1) by metis
  moreover have "hd ?lower \<in> set ?lower" using assms(3) by (metis empty_iff hd_in_set list.set(1))
  ultimately show "rnd \<bar>fst (hd ?lower) - position\<bar> \<le> rnd \<bar>fst b - position\<bar>"
    "\<bar>fst (hd ?lower) - position\<bar> = fst (hd ?lower) - position"
    using lower_entries [OF assms(1), of "hd ?lower" position] hd_min [of ?lower b] assms(3)
    by (auto simp: abs_if intro!: monoD [OF assms(2)])
qed

lemma nearest_before:
  fixes m :: "(rat, nat) omap"
  assumes "om_ok m" "mono rnd" "b \<in> set (takeWhile (\<lambda>(k, _). k < position) m)"
  shows "rnd \<bar>fst (last (takeWhile (\<lambda>(k, _). k < position) m)) - position\<bar> \<le> rnd \<bar>fst b - position\<bar>"
    "\<bar>fst (last (takeWhile (\<lambda>(k, _). k < position) m)) - position\<bar> =
       position - fst (last (takeWhile (\<lambda>(k, _). k < position) m))"
proof -
  let ?before = "takeWhile (\<lambda>(k, _). k < position) m"
  have "om_ok ?before" using om_ok_appendD take_drop_lower [of position m] assms(1) by metis
  then have le: "fst b \<le> fst (last ?before)" using last_max [OF _ assms(3)] by blast
  have "last ?before \<in> set ?before" using assms(3) by (metis empty_iff last_in_set list.set(1))
  then have "fst (last ?before) < position" by (rule before_less)
  with le show "rnd \<bar>fst (last ?before) - position\<bar> \<le> rnd \<bar>fst b - position\<bar>"
    "\<bar>fst (last ?before) - position\<bar> = position - fst (last ?before)"
    by (auto simp: abs_if intro!: monoD [OF assms(2)])
qed

text \<open>
  \<open>GetNearestFragment\<close> returns a stored fragment whose distance from the position, as the rounded
  difference of doubles, is the least of all stored fragments.
\<close>

theorem nearest_fragment_nearest:
  assumes "reach (\<lambda>m. m = new_tsb) tsb_step m" "mono rnd" "mTsbFragmentData m \<noteq> []"
  shows "\<exists>k f. GetNearestFragment rnd position m = Some f \<and> (k, f) \<in> entries m
    \<and> (\<forall>b \<in> entries m. rnd \<bar>k - position\<bar> \<le> rnd \<bar>fst b - position\<bar>)"
proof -
  let ?m = "mTsbFragmentData m"
  let ?lower = "om_lower position ?m" and ?before = "takeWhile (\<lambda>(k, _). k < position) ?m"
  have ok: "om_ok ?m" using tsb.inv_reach [OF assms(1)] by (simp add: tsb_ok_def)
  note lo = nearest_lower [OF ok assms(2)] and be = nearest_before [OF ok assms(2)]
  have split: "?before @ ?lower = ?m" by (rule take_drop_lower)
  then have in_m: "entries m = set ?before \<union> set ?lower" by (metis entries_def set_append)
  have near: ?thesis
    if "GetNearestFragment rnd position m = Some (snd c)" "c \<in> entries m"
      "\<forall>b \<in> entries m. rnd \<bar>fst c - position\<bar> \<le> rnd \<bar>fst b - position\<bar>" for c
    using that by (intro exI [of _ "fst c"] exI [of _ "snd c"]) auto
  let ?closer = "rnd (fst (hd ?lower) - position) < rnd (position - fst (last ?before))"
  consider "?before = []" "?lower \<noteq> []" | "?before \<noteq> []" "?lower = []"
    | "?before \<noteq> []" "?lower \<noteq> []" "?closer" | "?before \<noteq> []" "?lower \<noteq> []" "\<not> ?closer"
    using assms(3) split by fastforce
  then show ?thesis
  proof cases
    case 1
    then show ?thesis using lo(1) assms(3) in_m
      by (intro near [of "hd ?lower"]) (auto simp: GetNearestFragment_def Let_def)
  next
    case 2
    then show ?thesis using be(1) assms(3) in_m
      by (intro near [of "last ?before"]) (auto simp: GetNearestFragment_def Let_def)
  next
    case 3
    then have "rnd \<bar>fst (hd ?lower) - position\<bar> \<le> rnd \<bar>fst (last ?before) - position\<bar>"
      using lo(2) [OF hd_in_set] be(2) [OF last_in_set] by simp
    with lo(1) be(1) have "\<forall>b \<in> entries m. rnd \<bar>fst (hd ?lower) - position\<bar> \<le> rnd \<bar>fst b - position\<bar>"
      unfolding in_m by (meson UnE order_trans)
    then show ?thesis using 3 assms(3) in_m by (intro near [of "hd ?lower"]) (auto simp: GetNearestFragment_def Let_def)
  next
    case 4
    then have "rnd \<bar>fst (last ?before) - position\<bar> \<le> rnd \<bar>fst (hd ?lower) - position\<bar>"
      using lo(2) [OF hd_in_set] be(2) [OF last_in_set] by simp
    with lo(1) be(1) have "\<forall>b \<in> entries m. rnd \<bar>fst (last ?before) - position\<bar> \<le> rnd \<bar>fst b - position\<bar>"
      unfolding in_m by (meson UnE order_trans)
    then show ?thesis using 4 assms(3) in_m by (intro near [of "last ?before"]) (auto simp: GetNearestFragment_def Let_def)
  qed
qed

theorem nearest_fragment_nearest_witness:
  "\<exists>k f. GetNearestFragment id 12 sample_tsb = Some f \<and> (k, f) \<in> entries sample_tsb
    \<and> (\<forall>b \<in> entries sample_tsb. id \<bar>k - 12\<bar> \<le> id \<bar>fst b - (12 :: rat)\<bar>)"
  by (rule nearest_fragment_nearest [OF sample_tsb_reach])
    (simp_all add: mono_def sample_tsb_def AddFragment_def AddInitFragment_def new_tsb_def sample_write_def
      incrementUser_def set_users_def Let_def)

text \<open>
  The search for a discontinuous fragment.  Forward, it returns the first one at or after the
  position, and nothing only if there is none.  Backward, from a position that is not after the last
  fragment, it returns the last one at or before the fragment the position falls on, but never the
  first fragment of the buffer, whose flag is not tested; and from a position after the last
  fragment it dereferences \<open>end()\<close>.
\<close>

theorem discontinuity_search:
  assumes "reach (\<lambda>m. m = new_tsb) tsb_step m" "mTsbFragmentData m \<noteq> []"
  shows "(case GetNextDiscFragment position False m of
        Inl e \<Rightarrow> False
      | Inr None \<Rightarrow> \<forall>b \<in> entries m. position \<le> fst b \<longrightarrow> \<not> disc m b
      | Inr (Some f) \<Rightarrow> \<exists>k. (k, f) \<in> entries m \<and> position \<le> k \<and> disc m (k, f)
          \<and> (\<forall>b \<in> entries m. position \<le> fst b \<and> disc m b \<longrightarrow> k \<le> fst b))
    \<and> (GetNextDiscFragment position True m = Inl DerefEndIterator \<longleftrightarrow> fst (last (mTsbFragmentData m)) < position)
    \<and> (\<forall>f. GetNextDiscFragment position True m = Inr (Some f) \<longrightarrow>
        (\<exists>j. 0 < j \<and> j < length (mTsbFragmentData m) \<and> f = snd (mTsbFragmentData m ! j) \<and> disc m (mTsbFragmentData m ! j)))"
proof (intro conjI)
  let ?m = "mTsbFragmentData m"
  let ?i = "length ?m - length (om_lower position ?m)"
  have ok: "om_ok ?m" using tsb.inv_reach [OF assms(1)] by (simp add: tsb_ok_def)
  have "om_ok (om_lower position ?m)" using om_ok_appendD take_drop_lower [of position ?m] ok by metis
  from disc_forward_first [OF this, of m]
  show "case GetNextDiscFragment position False m of
        Inl e \<Rightarrow> False
      | Inr None \<Rightarrow> \<forall>b \<in> entries m. position \<le> fst b \<longrightarrow> \<not> disc m b
      | Inr (Some f) \<Rightarrow> \<exists>k. (k, f) \<in> entries m \<and> position \<le> k \<and> disc m (k, f)
          \<and> (\<forall>b \<in> entries m. position \<le> fst b \<and> disc m b \<longrightarrow> k \<le> fst b)"
    using lower_entries [OF ok, of _ position]
    by (auto simp: GetNextDiscFragment_def entries_def split: option.splits) fastforce
  have end_iff: "om_lower position ?m = [] \<longleftrightarrow> fst (last ?m) < position"
    using lower_entries [OF ok, of "last ?m" position] lower_entries [OF ok, of _ position] last_max [OF ok] assms(2)
    by (metis empty_iff last_in_set leD list.set(1) list.set_intros(1) neq_Nil_conv not_less order_less_le_trans)
  show "GetNextDiscFragment position True m = Inl DerefEndIterator \<longleftrightarrow> fst (last ?m) < position"
  proof (cases "om_lower position ?m = []")
    case True
    obtain n where "length ?m = Suc n" using assms(2) by (cases ?m) auto
    then have "disc_backward m (length ?m) = Inl DerefEndIterator" by simp
    with True end_iff show ?thesis by (simp add: GetNextDiscFragment_def)
  next
    case False
    then have "?i < length ?m" using assms(2) by simp
    from disc_backward_last [OF this] False end_iff show ?thesis
      by (auto simp: GetNextDiscFragment_def split: sum.splits)
  qed
  show "\<forall>f. GetNextDiscFragment position True m = Inr (Some f) \<longrightarrow>
        (\<exists>j. 0 < j \<and> j < length ?m \<and> f = snd (?m ! j) \<and> disc m (?m ! j))"
  proof (intro allI impI)
    fix f assume f: "GetNextDiscFragment position True m = Inr (Some f)"
    then have r: "disc_backward m ?i = Inr (Some f)" by (simp add: GetNextDiscFragment_def)
    have "?i < length ?m"
    proof (rule ccontr)
      assume "\<not> ?i < length ?m"
      then have "?i = length ?m" by simp
      moreover obtain n where "length ?m = Suc n" using assms(2) by (cases ?m) auto
      ultimately show False using r by simp
    qed
    from disc_backward_last [OF this] r show "\<exists>j. 0 < j \<and> j < length ?m \<and> f = snd (?m ! j) \<and> disc m (?m ! j)"
      using \<open>?i < length ?m\<close> by auto
  qed
qed

theorem discontinuity_search_witness:
  "GetNextDiscFragment 11 True sample_tsb = Inl DerefEndIterator \<longleftrightarrow> fst (last (mTsbFragmentData sample_tsb)) < 11"
proof -
  have "mTsbFragmentData sample_tsb \<noteq> []"
    by (simp add: sample_tsb_def AddFragment_def AddInitFragment_def new_tsb_def sample_write_def
        incrementUser_def set_users_def Let_def)
  then show ?thesis using discontinuity_search [OF sample_tsb_reach] by blast
qed

text \<open>
  The initialization data of the current profile stays current after its last fragment is
  removed.  When \<open>RemoveFragment\<close> asks for the deletion of the current initialization fragment, a
  fragment added next succeeds and uses it although it is no longer in \<open>mTsbInitData\<close>; and
  \<open>DumpData\<close> does not return on a buffer with fragments, since its iterator never moves.
\<close>

theorem deleted_init_used_again:
  assumes "reach (\<lambda>m. m = new_tsb) tsb_step m" "mTsbFragmentData m = b # rest"
    and "mCurrentInitData m = Some (init_of m b)" "snd (fst (RemoveFragment m))"
  shows "\<exists>f m2. AddFragment rnd wd media discont (snd (RemoveFragment m)) = (True, m2)
    \<and> om_find (wdAbsPosition wd) (mTsbFragmentData m2) = Some f
    \<and> init_of m2 (wdAbsPosition wd, f) = init_of m b \<and> init_of m b \<notin> set (mTsbInitData m2)
    \<and> DumpData fuel m2 = None"
proof -
  let ?i = "init_of m b" and ?m1 = "snd (RemoveFragment m)"
  let ?m2 = "snd (AddFragment rnd wd media discont ?m1)" and ?f = "length (frags ?m1)"
  have "fst (release_init ?i m)" using assms(2,4)
    by (cases b) (simp add: RemoveFragment_def init_of_def case_prod_beta Let_def split: prod.splits)
  then have "?i \<notin> set (mTsbInitData (snd (release_init ?i m)))"
    by (auto simp: release_init_def Let_def split: if_splits)
  then have m1: "?i \<notin> set (mTsbInitData ?m1)" "mCurrentInitData ?m1 = Some ?i"
    using assms(2,3) by (cases b; simp add: RemoveFragment_def init_of_def case_prod_beta Let_def split: prod.splits)+
  have m2: "AddFragment rnd wd media discont ?m1 = (True, ?m2)" "mTsbInitData ?m2 = mTsbInitData ?m1"
    "mTsbFragmentData ?m2 = om_assign (wdAbsPosition wd) ?f (mTsbFragmentData ?m1)" "init_of ?m2 (wdAbsPosition wd, ?f) = ?i"
    using m1(2) by (auto simp: AddFragment_def Let_def incrementUser_def set_users_def init_of_def nth_append split: option.split)
  have "om_find (wdAbsPosition wd) (mTsbFragmentData ?m2) = Some ?f" using m2(3) by simp
  moreover from this have "DumpData fuel ?m2 = None"
    by (cases "mTsbFragmentData ?m2") (auto simp: DumpData_def dump_loop_stuck)
  ultimately show ?thesis using m1(1) m2 by metis
qed

theorem deleted_init_used_again_witness:
  "\<exists>f m2. AddFragment id (sample_write 12) eMEDIATYPE_VIDEO False (snd (RemoveFragment sample_tsb)) = (True, m2)
    \<and> om_find 12 (mTsbFragmentData m2) = Some f \<and> init_of m2 (12, f) = 0 \<and> 0 \<notin> set (mTsbInitData m2)
    \<and> DumpData 7 m2 = None"
proof -
  have "mTsbFragmentData sample_tsb = [(10, 0)]" "init_of sample_tsb (10, 0) = 0" "mCurrentInitData sample_tsb = Some 0"
    "snd (fst (RemoveFragment sample_tsb))"
    by (simp_all add: sample_tsb_def AddFragment_def AddInitFragment_def new_tsb_def sample_write_def
        incrementUser_def set_users_def Let_def init_of_def RemoveFragment_def release_init_def decrementUser_def)
  then show ?thesis
    using deleted_init_used_again [OF sample_tsb_reach, of "(10, 0)" "[]" id "sample_write 12" eMEDIATYPE_VIDEO False 7]
    by (simp add: sample_write_def)
qed

end
