(* ===== verification/Scheduler.thy ===== *)
theory Scheduler
  imports Aamp_Prelude "HOL-Library.Sublist"
begin

text \<open>
  \<open>AampScheduler\<close>: the queue of asynchronous tasks and the worker thread that runs them.  The
  interleaving of the worker with the calls of the player is explicit: the worker is at one of the
  points of its loop between which it takes or gives up a mutex, \<open>mQMutex\<close> is held by the worker at
  the points \<open>AtTest\<close> and \<open>AtQueue\<close>, and \<open>mExMutex\<close> has an owner.  A call returns, throws (an operation on
  \<open>mExLock\<close> that \<open>std::unique_lock\<close> refuses) or blocks; \<open>SuspendScheduler\<close>, \<open>ResumeScheduler\<close> and
  \<open>StopScheduler\<close> take several locks one after the other and are sequences of actions, between which
  the worker runs.  A task is a number; the tasks accepted and the
  tasks started are recorded in \<open>accepted\<close> and \<open>executed\<close>.
  The lemmas show mutual exclusion with a suspended scheduler, the order of execution, that at most
  one \<open>SetRate\<close> task waits, which calls can throw, and that stopping ends the worker.
\<close>

section \<open>State\<close>

datatype AAMPPlayerState =
    eSTATE_IDLE
  | eSTATE_INITIALIZING
  | eSTATE_INITIALIZED
  | eSTATE_PREPARING
  | eSTATE_PREPARED
  | eSTATE_BUFFERING
  | eSTATE_PAUSED
  | eSTATE_SEEKING
  | eSTATE_PLAYING
  | eSTATE_STOPPING
  | eSTATE_STOPPED
  | eSTATE_COMPLETE
  | eSTATE_ERROR
  | eSTATE_RELEASED
  | eSTATE_BLOCKED

record AsyncTaskObj =
  mTask :: nat
  mId :: int
  mTaskName :: string

datatype worker_pc =
    NotStarted
  | AtLock
  | AtTest
  | AtQueue
  | AtWait
  | AtExecution
  | HasExecution
  | Executing AsyncTaskObj
  | Exited

datatype ex_owner = Unlocked | ByWorker | ByExLock

record AampScheduler =
  mTaskQueue :: "AsyncTaskObj list"
  mSchedulerRunning :: bool
  mExMutex :: ex_owner
  mNextTaskId :: int
  mCurrentTaskId :: int
  mLockOut :: bool
  mState :: AAMPPlayerState
  worker :: worker_pc
  accepted :: "AsyncTaskObj list"
  executed :: "AsyncTaskObj list"

datatype 'a outcome = Returns 'a | Throws | Blocks

definition AAMP_TASK_ID_INVALID :: int where
  "AAMP_TASK_ID_INVALID = 0"

definition AAMP_SCHEDULER_ID_DEFAULT :: int where
  "AAMP_SCHEDULER_ID_DEFAULT = 1"

definition AAMP_SCHEDULER_ID_MAX_VALUE :: int where
  "AAMP_SCHEDULER_ID_MAX_VALUE = INT_MAX"

lemmas id_defs = AAMP_TASK_ID_INVALID_def AAMP_SCHEDULER_ID_DEFAULT_def AAMP_SCHEDULER_ID_MAX_VALUE_def INT_MAX_def

definition new_scheduler :: AampScheduler where
  "new_scheduler = \<lparr>mTaskQueue = [], mSchedulerRunning = False, mExMutex = Unlocked,
     mNextTaskId = AAMP_SCHEDULER_ID_DEFAULT, mCurrentTaskId = AAMP_TASK_ID_INVALID, mLockOut = False,
     mState = eSTATE_IDLE, worker = NotStarted, accepted = [], executed = []\<rparr>"

section \<open>Calls\<close>

text \<open>A call that takes \<open>mQMutex\<close> waits while the worker holds it.\<close>

definition with_queue :: "(AampScheduler \<Rightarrow> 'a) \<Rightarrow> AampScheduler \<Rightarrow> 'a outcome" where
  "with_queue f s = (if worker s = AtTest \<or> worker s = AtQueue then Blocks else Returns (f s))"

definition StartScheduler :: "AampScheduler \<Rightarrow> AampScheduler outcome" where
  "StartScheduler = with_queue (\<lambda>s. s\<lparr>worker := AtLock, mSchedulerRunning := True\<rparr>)"

text \<open>\<open>mQCond.notify_one()\<close>: a waiting worker competes for \<open>mQMutex\<close> again.\<close>

definition notify_queue :: "AampScheduler \<Rightarrow> AampScheduler" where
  "notify_queue s = (if worker s = AtWait then s\<lparr>worker := AtLock\<rparr> else s)"

definition is_set_rate :: "AsyncTaskObj \<Rightarrow> bool" where
  "is_set_rate t \<longleftrightarrow> mTaskName t = ''SetRate''"

text \<open>\<open>find_if\<close> and \<open>erase\<close>: the first element that satisfies \<open>P\<close> goes.\<close>

fun erase_first :: "('a \<Rightarrow> bool) \<Rightarrow> 'a list \<Rightarrow> 'a list" where
  "erase_first P [] = []"
| "erase_first P (x # xs) = (if P x then xs else x # erase_first P xs)"

definition next_task_id :: "int \<Rightarrow> int" where
  "next_task_id n = (if AAMP_SCHEDULER_ID_MAX_VALUE \<le> n + 1 then AAMP_SCHEDULER_ID_DEFAULT else n + 1)"

definition refuses :: "AampScheduler \<Rightarrow> bool" where
  "refuses s \<longleftrightarrow> \<not> mSchedulerRunning s \<or> mState s = eSTATE_ERROR \<or> mState s = eSTATE_RELEASED"

definition enqueue :: "AsyncTaskObj \<Rightarrow> AampScheduler \<Rightarrow> int \<times> AampScheduler" where
  "enqueue obj s =
     (if mLockOut s then (AAMP_TASK_ID_INVALID, s)
      else let obj' = obj\<lparr>mId := mNextTaskId s\<rparr>;
               q = (if is_set_rate obj' then erase_first is_set_rate (mTaskQueue s) else mTaskQueue s)
           in (mNextTaskId s,
               notify_queue (s\<lparr>mTaskQueue := q @ [obj'], mNextTaskId := next_task_id (mNextTaskId s),
                               accepted := accepted s @ [obj']\<rparr>)))"

definition ScheduleTask :: "AsyncTaskObj \<Rightarrow> AampScheduler \<Rightarrow> (int \<times> AampScheduler) outcome" where
  "ScheduleTask obj s = (if refuses s then Returns (AAMP_TASK_ID_INVALID, s) else with_queue (enqueue obj) s)"

definition clear_queue :: "AampScheduler \<Rightarrow> AampScheduler" where
  "clear_queue s = s\<lparr>mTaskQueue := []\<rparr>"

definition RemoveAllTasks :: "AampScheduler \<Rightarrow> AampScheduler outcome" where
  "RemoveAllTasks = with_queue clear_queue"

text \<open>\<open>mExLock.lock()\<close> throws when the lock is already owned; it blocks while the worker executes.\<close>

definition suspend_lock :: "AampScheduler \<Rightarrow> AampScheduler outcome" where
  "suspend_lock s =
     (case mExMutex s of
        ByExLock \<Rightarrow> Throws
      | ByWorker \<Rightarrow> Blocks
      | Unlocked \<Rightarrow> Returns (s\<lparr>mExMutex := ByExLock\<rparr>))"

definition suspend_flag :: "AampScheduler \<Rightarrow> AampScheduler outcome" where
  "suspend_flag = with_queue (\<lambda>s. s\<lparr>mLockOut := True\<rparr>)"

text \<open>\<open>mExLock.unlock()\<close> throws when the lock is not owned.\<close>

definition resume_unlock :: "AampScheduler \<Rightarrow> AampScheduler outcome" where
  "resume_unlock s = (if mExMutex s = ByExLock then Returns (s\<lparr>mExMutex := Unlocked\<rparr>) else Throws)"

definition resume_flag :: "AampScheduler \<Rightarrow> AampScheduler outcome" where
  "resume_flag = with_queue (\<lambda>s. s\<lparr>mLockOut := False\<rparr>)"

definition EnableScheduleTask :: "AampScheduler \<Rightarrow> AampScheduler outcome" where
  "EnableScheduleTask = with_queue (\<lambda>s. s\<lparr>mLockOut := False\<rparr>)"

definition remove_queued :: "int \<Rightarrow> AampScheduler \<Rightarrow> bool \<times> AampScheduler" where
  "remove_queued i s =
     (if i \<noteq> AAMP_TASK_ID_INVALID \<and> mCurrentTaskId s \<noteq> i
      then (list_ex (\<lambda>t. mId t = i) (mTaskQueue s), s\<lparr>mTaskQueue := erase_first (\<lambda>t. mId t = i) (mTaskQueue s)\<rparr>)
      else (False, s))"

definition RemoveTask :: "int \<Rightarrow> AampScheduler \<Rightarrow> (bool \<times> AampScheduler) outcome" where
  "RemoveTask i = with_queue (remove_queued i)"

definition SetState :: "AAMPPlayerState \<Rightarrow> AampScheduler \<Rightarrow> AampScheduler" where
  "SetState st s = s\<lparr>mState := st\<rparr>"

text \<open>
  The calls that are sequences of actions.  \<open>run_actions\<close> is such a call when no other thread runs in
  between.  \<open>StopScheduler\<close> clears the flag without a lock and then takes the locks; the join that
  follows returns when the worker has exited.
\<close>

datatype lock_action = SuspendLock | SuspendFlag | ClearQueue | ResumeUnlock | ResumeFlag | NotifyQueue

fun act :: "lock_action \<Rightarrow> AampScheduler \<Rightarrow> AampScheduler outcome" where
  "act SuspendLock s = suspend_lock s"
| "act SuspendFlag s = suspend_flag s"
| "act ClearQueue s = RemoveAllTasks s"
| "act ResumeUnlock s = resume_unlock s"
| "act ResumeFlag s = resume_flag s"
| "act NotifyQueue s = Returns (notify_queue s)"

fun run_actions :: "lock_action list \<Rightarrow> AampScheduler \<Rightarrow> AampScheduler outcome" where
  "run_actions [] s = Returns s"
| "run_actions (a # as) s =
     (case act a s of Returns s' \<Rightarrow> run_actions as s' | Throws \<Rightarrow> Throws | Blocks \<Rightarrow> Blocks)"

definition suspend_program :: "lock_action list" where
  "suspend_program = [SuspendLock, SuspendFlag]"

definition resume_program :: "lock_action list" where
  "resume_program = [ResumeUnlock, ResumeFlag]"

definition stop_program :: "AampScheduler \<Rightarrow> lock_action list" where
  "stop_program s =
     (if mLockOut s then [] else suspend_program) @ [ClearQueue] @ resume_program @ [NotifyQueue]"

definition SuspendScheduler :: "AampScheduler \<Rightarrow> AampScheduler outcome" where
  "SuspendScheduler = run_actions suspend_program"

definition ResumeScheduler :: "AampScheduler \<Rightarrow> AampScheduler outcome" where
  "ResumeScheduler = run_actions resume_program"

definition stop_flag :: "AampScheduler \<Rightarrow> AampScheduler" where
  "stop_flag s = s\<lparr>mSchedulerRunning := False\<rparr>"

definition StopScheduler :: "AampScheduler \<Rightarrow> AampScheduler outcome" where
  "StopScheduler s = run_actions (stop_program s) (stop_flag s)"

section \<open>The worker\<close>

text \<open>
  One step of \<open>ExecuteAsyncTask\<close>; a worker that waits for a mutex stays where it is.  Leaving the
  scope of the execution lock unlocks \<open>mExMutex\<close>.
\<close>

definition take_task :: "AampScheduler \<Rightarrow> AampScheduler" where
  "take_task s =
     (case mTaskQueue s of
        [] \<Rightarrow> s\<lparr>mExMutex := Unlocked, worker := AtTest\<rparr>
      | obj # rest \<Rightarrow>
          if mId obj \<noteq> AAMP_TASK_ID_INVALID then
            (if mState s \<noteq> eSTATE_ERROR \<and> mState s \<noteq> eSTATE_RELEASED
             then s\<lparr>mTaskQueue := rest, mCurrentTaskId := mId obj, worker := Executing obj,
                    executed := executed s @ [obj]\<rparr>
             else s\<lparr>mTaskQueue := rest, mCurrentTaskId := mId obj, mExMutex := Unlocked, worker := AtTest\<rparr>)
          else s\<lparr>mTaskQueue := rest, mExMutex := Unlocked, worker := AtTest\<rparr>)"

definition worker_step :: "AampScheduler \<Rightarrow> AampScheduler" where
  "worker_step s =
     (case worker s of
        AtLock \<Rightarrow> s\<lparr>worker := AtTest\<rparr>
      | AtTest \<Rightarrow> s\<lparr>worker := (if mSchedulerRunning s then AtQueue else Exited)\<rparr>
      | AtQueue \<Rightarrow> s\<lparr>worker := (if mTaskQueue s = [] then AtWait else AtExecution)\<rparr>
      | AtExecution \<Rightarrow> if mExMutex s = Unlocked then s\<lparr>mExMutex := ByWorker, worker := HasExecution\<rparr> else s
      | HasExecution \<Rightarrow> take_task s
      | Executing obj \<Rightarrow> s\<lparr>mExMutex := Unlocked, worker := AtTest\<rparr>
      | _ \<Rightarrow> s)"

text \<open>
  A sequence of actions with steps of the worker anywhere before and between them.
\<close>

inductive interleaved :: "lock_action list \<Rightarrow> AampScheduler \<Rightarrow> AampScheduler \<Rightarrow> bool" where
  finished: "interleaved [] s s"
| worker_runs: "interleaved as (worker_step s) t \<Longrightarrow> interleaved as s t"
| caller_runs: "act a s = Returns s' \<Longrightarrow> interleaved as s' t \<Longrightarrow> interleaved (a # as) s t"

text \<open>
  One action of any thread.  A joined or not yet created thread is a condition of \<open>StartScheduler\<close>:
  assigning to a joinable \<open>std::thread\<close> ends the process.
\<close>

inductive sched_step :: "AampScheduler \<Rightarrow> AampScheduler \<Rightarrow> bool" where
  "worker s \<in> {NotStarted, Exited} \<Longrightarrow> StartScheduler s = Returns s' \<Longrightarrow> sched_step s s'"
| "ScheduleTask obj s = Returns (i, s') \<Longrightarrow> sched_step s s'"
| "RemoveTask i s = Returns (b, s') \<Longrightarrow> sched_step s s'"
| "EnableScheduleTask s = Returns s' \<Longrightarrow> sched_step s s'"
| "sched_step s (SetState st s)"
| "sched_step s (stop_flag s)"
| "act a s = Returns s' \<Longrightarrow> sched_step s s'"
| "sched_step s (worker_step s)"


section \<open>The invariant\<close>

definition valid_id :: "int \<Rightarrow> bool" where
  "valid_id i \<longleftrightarrow> AAMP_SCHEDULER_ID_DEFAULT \<le> i \<and> i < AAMP_SCHEDULER_ID_MAX_VALUE"

definition executing :: "AampScheduler \<Rightarrow> bool" where
  "executing s \<longleftrightarrow> (case worker s of HasExecution \<Rightarrow> True | Executing obj \<Rightarrow> True | _ \<Rightarrow> False)"

definition set_rates :: "AampScheduler \<Rightarrow> AsyncTaskObj list" where
  "set_rates s = filter is_set_rate (mTaskQueue s)"

definition sched_ok :: "AampScheduler \<Rightarrow> bool" where
  "sched_ok s \<longleftrightarrow>
     (mExMutex s = ByWorker \<longleftrightarrow> executing s)
     \<and> (worker s = NotStarted \<longrightarrow> \<not> mSchedulerRunning s)
     \<and> valid_id (mNextTaskId s)
     \<and> list_all (\<lambda>t. valid_id (mId t)) (mTaskQueue s)
     \<and> length (set_rates s) \<le> 1
     \<and> subseq (executed s @ mTaskQueue s) (accepted s)
     \<and> (\<forall>obj. worker s = Executing obj \<longrightarrow> mCurrentTaskId s = mId obj \<and> obj \<in> set (executed s))"

lemma valid_id_next: "valid_id i \<Longrightarrow> valid_id (next_task_id i)"
  by (auto simp: valid_id_def next_task_id_def id_defs)

lemma valid_id_not_invalid: "valid_id i \<Longrightarrow> i \<noteq> AAMP_TASK_ID_INVALID"
  by (simp add: valid_id_def id_defs)

lemma subseq_erase_first: "subseq (erase_first P xs) xs"
  by (induction xs) auto

lemma set_erase_first: "set (erase_first P xs) \<subseteq> set xs"
  by (induction xs) auto

lemma erase_first_unique: "length (filter P xs) \<le> 1 \<Longrightarrow> erase_first P xs = filter (\<lambda>x. \<not> P x) xs"
  by (induction xs) (auto simp: filter_empty_conv filter_id_conv)

lemma filter_erase_first: "length (filter Q (erase_first P xs)) \<le> length (filter Q xs)"
  by (induction xs) auto

lemma list_all_erase_first: "list_all Q xs \<Longrightarrow> list_all Q (erase_first P xs)"
  using set_erase_first [of P xs] by (auto simp: list_all_iff)

lemma subseq_shorter: "subseq ys xs \<Longrightarrow> subseq (es @ xs) as \<Longrightarrow> subseq (es @ ys) as"
  by (meson list_emb_append_mono subseq_order.dual_order.trans subseq_order.eq_iff)

text \<open>An operation that changes none of the fields the invariant reads but the queue, and that shortens the queue.\<close>

lemma sched_ok_shorter:
  assumes "sched_ok s" "subseq q (mTaskQueue s)"
  shows "sched_ok (s\<lparr>mTaskQueue := q\<rparr>)"
proof -
  have "length (filter is_set_rate q) \<le> length (filter is_set_rate (mTaskQueue s))"
    using assms(2) by (meson list_emb_length subseq_filter)
  moreover have "list_all (\<lambda>t. valid_id (mId t)) q"
    using assms notin_set_nthsI by (fastforce simp: sched_ok_def list_all_iff subseq_conv_nths dest: in_set_nthsD)
  ultimately show ?thesis
    using assms subseq_shorter [OF assms(2)] by (auto simp: sched_ok_def executing_def set_rates_def)
qed

lemma sched_ok_notify: "sched_ok s \<Longrightarrow> sched_ok (notify_queue s)"
  by (auto simp: sched_ok_def notify_queue_def executing_def set_rates_def)

lemma with_queue_Returns:
  "with_queue f s = Returns r \<longleftrightarrow> worker s \<notin> {AtTest, AtQueue} \<and> r = f s"
  by (auto simp: with_queue_def)

lemma sched_ok_enqueue:
  assumes "sched_ok s"
  shows "sched_ok (snd (enqueue obj s))"
proof -
  let ?o = "obj\<lparr>mId := mNextTaskId s\<rparr>"
  let ?q = "if is_set_rate ?o then erase_first is_set_rate (mTaskQueue s) else mTaskQueue s"
  let ?s = "s\<lparr>mTaskQueue := ?q @ [?o], mNextTaskId := next_task_id (mNextTaskId s),
              accepted := accepted s @ [?o]\<rparr>"
  have sub: "subseq ?q (mTaskQueue s)" by (simp add: subseq_erase_first)
  have "subseq (executed s @ ?q) (accepted s)"
    using assms subseq_shorter [OF sub] by (simp add: sched_ok_def)
  then have "subseq ((executed s @ ?q) @ [?o]) (accepted s @ [?o])" by (rule list_emb_append_mono) simp
  moreover have "length (filter is_set_rate (?q @ [?o])) \<le> 1"
  proof (cases "is_set_rate ?o")
    case True
    then have "filter is_set_rate ?q = []"
      using erase_first_unique [of is_set_rate "mTaskQueue s"] assms
      by (simp add: sched_ok_def set_rates_def)
    with True show ?thesis by simp
  qed (use assms in \<open>simp add: sched_ok_def set_rates_def\<close>)
  moreover have "list_all (\<lambda>t. valid_id (mId t)) (?q @ [?o])"
    using assms by (auto simp: sched_ok_def intro: list_all_erase_first)
  ultimately have "sched_ok ?s"
    using assms by (simp add: sched_ok_def executing_def set_rates_def valid_id_next)
  then show ?thesis using assms by (simp add: enqueue_def Let_def sched_ok_notify)
qed

text \<open>The fields of the locks and flags that the invariant does not connect to the queue.\<close>

lemma sched_ok_locks:
  "sched_ok s \<Longrightarrow> \<not> executing s \<Longrightarrow> o1 \<noteq> ByWorker \<Longrightarrow> sched_ok (s\<lparr>mExMutex := o1\<rparr>)"
  "sched_ok (s\<lparr>mLockOut := b\<rparr>) \<longleftrightarrow> sched_ok s"
  "sched_ok (s\<lparr>mState := st\<rparr>) \<longleftrightarrow> sched_ok s"
  "sched_ok s \<Longrightarrow> sched_ok (s\<lparr>mSchedulerRunning := False\<rparr>)"
  by (simp_all add: sched_ok_def executing_def set_rates_def)

lemma sched_ok_act:
  assumes "sched_ok s" "act a s = Returns s'"
  shows "sched_ok s'"
proof (cases a)
  case SuspendLock
  then show ?thesis using assms sched_ok_locks(1) [of s ByExLock]
    by (auto simp: suspend_lock_def sched_ok_def split: ex_owner.splits)
next
  case ResumeUnlock
  then show ?thesis using assms sched_ok_locks(1) [of s Unlocked]
    by (auto simp: resume_unlock_def sched_ok_def split: if_splits)
next
  case ClearQueue
  then show ?thesis using assms sched_ok_shorter [of s "[]"]
    by (simp add: RemoveAllTasks_def with_queue_Returns clear_queue_def)
next
  case NotifyQueue
  then show ?thesis using assms sched_ok_notify by auto
qed (use assms in \<open>simp_all add: suspend_flag_def resume_flag_def with_queue_Returns sched_ok_locks\<close>)

lemma sched_ok_take:
  assumes "sched_ok s" "worker s = HasExecution"
  shows "sched_ok (take_task s)"
proof (cases "mTaskQueue s")
  case Nil
  then show ?thesis using assms by (auto simp: take_task_def sched_ok_def executing_def set_rates_def)
next
  case (Cons obj rest)
  have "subseq (executed s @ rest) (executed s @ mTaskQueue s)"
    unfolding Cons by (rule list_emb_append_mono) auto
  then have "subseq (executed s @ rest) (accepted s)"
    using assms(1) by (auto simp: sched_ok_def intro: subseq_order.order_trans)
  then show ?thesis
    using assms Cons by (auto simp: take_task_def sched_ok_def executing_def set_rates_def split: if_splits)
qed

lemma sched_ok_worker: "sched_ok s \<Longrightarrow> sched_ok (worker_step s)"
proof (cases "worker s = HasExecution")
  case True
  then show "sched_ok s \<Longrightarrow> ?thesis" by (simp add: worker_step_def sched_ok_take)
next
  case False
  then show "sched_ok s \<Longrightarrow> ?thesis"
    by (cases "worker s") (auto simp: worker_step_def sched_ok_def executing_def set_rates_def)
qed

lemma sched_ok_step: "sched_step s t \<Longrightarrow> sched_ok s \<Longrightarrow> sched_ok t"
proof (induction rule: sched_step.induct)
  case (1 s s')
  then show ?case
    by (auto simp: StartScheduler_def with_queue_Returns sched_ok_def executing_def set_rates_def)
next
  case (2 obj s i s')
  then show ?case
    using sched_ok_enqueue [of s obj]
    by (auto simp: ScheduleTask_def with_queue_Returns split: if_splits dest: sym [of "(_, _)"])
next
  case (3 i s b s')
  then show ?case
    by (auto simp: RemoveTask_def with_queue_Returns remove_queued_def subseq_erase_first
        intro!: sched_ok_shorter split: if_splits)
qed (auto simp: sched_ok_act sched_ok_worker EnableScheduleTask_def with_queue_Returns
       SetState_def stop_flag_def sched_ok_locks)

interpretation scheduler: stateful "\<lambda>s. s = new_scheduler" sched_step sched_ok
proof
  show "sched_ok s" if "s = new_scheduler" for s
    using that by (simp add: new_scheduler_def sched_ok_def executing_def set_rates_def valid_id_def id_defs)
qed (rule sched_ok_step)

section \<open>Stopping\<close>

text \<open>
  What holds while \<open>StopScheduler\<close> has the actions \<open>as\<close> still to do.  The tasks that may still be
  started are at most one: the worker past the test of its loop takes one more task.
\<close>

definition in_flight :: "AampScheduler \<Rightarrow> nat" where
  "in_flight s = (if worker s \<in> {AtQueue, AtExecution, HasExecution} then 1 else 0)"

definition stop_tail :: "lock_action list" where
  "stop_tail = [ClearQueue, ResumeUnlock, ResumeFlag, NotifyQueue]"

definition stopping :: "lock_action list \<Rightarrow> AampScheduler \<Rightarrow> bool" where
  "stopping as s \<longleftrightarrow>
     suffix as (suspend_program @ stop_tail) \<and> sched_ok s \<and> \<not> mSchedulerRunning s \<and> worker s \<noteq> NotStarted
     \<and> (SuspendLock \<in> set as \<longrightarrow> mExMutex s \<noteq> ByExLock)
     \<and> (SuspendLock \<notin> set as \<and> ResumeUnlock \<in> set as \<longrightarrow> mExMutex s = ByExLock)
     \<and> (ResumeUnlock \<notin> set as \<longrightarrow> mExMutex s \<noteq> ByExLock)
     \<and> (ClearQueue \<notin> set as \<longrightarrow> mTaskQueue s = [] \<and> worker s \<noteq> AtQueue)
     \<and> (NotifyQueue \<notin> set as \<longrightarrow> worker s \<noteq> AtWait \<and> worker s \<noteq> AtQueue)"

lemma stop_suffix_cases:
  assumes "suffix as (suspend_program @ stop_tail)"
  obtains "as = suspend_program @ stop_tail" | "as = SuspendFlag # stop_tail" | "as = stop_tail"
    | "as = [ResumeUnlock, ResumeFlag, NotifyQueue]" | "as = [ResumeFlag, NotifyQueue]"
    | "as = [NotifyQueue]" | "as = []"
  using assms by (auto simp: suspend_program_def stop_tail_def suffix_Cons)

lemma stop_program_tail: "stop_program s = (if mLockOut s then [] else suspend_program) @ stop_tail"
  by (simp add: stop_program_def stop_tail_def resume_program_def)

lemma worker_step_frame:
  "mSchedulerRunning (worker_step s) = mSchedulerRunning s"
  "mLockOut (worker_step s) = mLockOut s"
  "mExMutex (worker_step s) = ByExLock \<longleftrightarrow> mExMutex s = ByExLock" if "sched_ok s"
  using that
  by (auto simp: worker_step_def take_task_def sched_ok_def executing_def split: worker_pc.splits list.splits)

lemma worker_step_no_new:
  "mTaskQueue s = [] \<Longrightarrow> mTaskQueue (worker_step s) = []"
  "worker (worker_step s) = NotStarted \<longleftrightarrow> worker s = NotStarted"
  "\<not> mSchedulerRunning s \<Longrightarrow> worker (worker_step s) \<noteq> AtQueue \<or> worker s = AtQueue"
  "worker s \<noteq> AtQueue \<Longrightarrow> worker (worker_step s) = AtWait \<longleftrightarrow> worker s = AtWait"
  by (auto simp: worker_step_def take_task_def split: worker_pc.splits list.splits)

lemma worker_step_leaves_queue: "worker (worker_step s) = AtQueue \<Longrightarrow> mSchedulerRunning s"
  by (auto simp: worker_step_def take_task_def split: worker_pc.splits list.splits if_splits)

lemma in_flight_worker:
  "\<not> mSchedulerRunning s \<Longrightarrow>
     length (executed (worker_step s)) + in_flight (worker_step s) \<le> length (executed s) + in_flight s"
  by (cases "worker s"; cases "mTaskQueue s") (simp_all add: worker_step_def take_task_def in_flight_def)

lemma in_flight_act:
  "act a s = Returns s' \<Longrightarrow> executed s' = executed s \<and> in_flight s' = in_flight s"
  by (cases a)
    (auto simp: suspend_lock_def suspend_flag_def resume_unlock_def resume_flag_def RemoveAllTasks_def
      clear_queue_def notify_queue_def with_queue_Returns in_flight_def split: ex_owner.splits if_splits)

lemma stopping_worker: "stopping as s \<Longrightarrow> stopping as (worker_step s)"
  unfolding stopping_def
  using sched_ok_worker [of s] worker_step_frame [of s] worker_step_no_new [of s] worker_step_leaves_queue [of s]
  by blast

lemma stopping_act:
  assumes "stopping (a # as) s" "act a s = Returns s'"
  shows "stopping as s'"
proof -
  have ok: "sched_ok s'" using assms sched_ok_act [of s a s'] by (simp add: stopping_def)
  have "suffix (a # as) (suspend_program @ stop_tail)" using assms(1) by (simp add: stopping_def)
  then show ?thesis
    using assms ok
    by (cases rule: stop_suffix_cases)
      (auto simp: stopping_def suspend_program_def stop_tail_def suffix_Cons suspend_lock_def suspend_flag_def
        resume_unlock_def resume_flag_def RemoveAllTasks_def clear_queue_def notify_queue_def
        with_queue_Returns split: ex_owner.splits if_splits)
qed

lemma interleaved_stopping:
  "interleaved as s t \<Longrightarrow> stopping as s \<Longrightarrow>
     stopping [] t \<and> length (executed t) + in_flight t \<le> length (executed s) + in_flight s"
proof (induction rule: interleaved.induct)
  case (worker_runs as s t)
  then show ?case using stopping_worker [of as s] in_flight_worker [of s] by (auto simp: stopping_def)
next
  case (caller_runs a s s' as t)
  then show ?case using stopping_act in_flight_act by fastforce
qed simp

text \<open>No action of the caller blocks for ever: the worker unblocks it in at most two steps.\<close>

lemma queue_mutex_free_soon:
  "\<not> mSchedulerRunning s \<Longrightarrow> \<exists>r. with_queue f s = Returns r \<or> with_queue f (worker_step s) = Returns r"
  by (cases "worker s \<in> {AtTest, AtQueue}") (auto simp: with_queue_def worker_step_def)

lemma ex_mutex_free_soon:
  assumes "sched_ok s" "mExMutex s \<noteq> ByExLock"
  shows "mExMutex s = Unlocked \<or> mExMutex (worker_step s) = Unlocked
    \<or> mExMutex (worker_step (worker_step s)) = Unlocked"
proof (cases "mExMutex s")
  case ByWorker
  then have "executing s" using assms(1) by (simp add: sched_ok_def)
  then show ?thesis
    by (cases "worker s"; cases "mTaskQueue s")
      (simp_all add: executing_def worker_step_def take_task_def)
qed (use assms(2) in simp_all)

lemma stopping_progress:
  assumes "stopping (a # as) s"
  shows "\<exists>s'. act a s = Returns s' \<or> act a (worker_step s) = Returns s'
    \<or> act a (worker_step (worker_step s)) = Returns s'"
proof -
  have queue: "\<exists>r. with_queue f s = Returns r \<or> with_queue f (worker_step s) = Returns r"
    for f :: "AampScheduler \<Rightarrow> AampScheduler"
    by (rule queue_mutex_free_soon) (use assms in \<open>simp add: stopping_def\<close>)
  show ?thesis
  proof (cases a)
    case SuspendLock
    then show ?thesis
      using assms ex_mutex_free_soon [of s] by (auto simp: stopping_def suspend_lock_def)
  next
    case ResumeUnlock
    have "SuspendLock \<notin> set (a # as)"
      using assms ResumeUnlock by (auto simp: stopping_def suspend_program_def stop_tail_def suffix_Cons)
    then show ?thesis
      using assms ResumeUnlock by (auto simp: stopping_def resume_unlock_def)
  next
    case SuspendFlag
    then show ?thesis using queue [of "\<lambda>s. s\<lparr>mLockOut := True\<rparr>"] by (auto simp: suspend_flag_def)
  next
    case ResumeFlag
    then show ?thesis using queue [of "\<lambda>s. s\<lparr>mLockOut := False\<rparr>"] by (auto simp: resume_flag_def)
  next
    case ClearQueue
    then show ?thesis using queue [of clear_queue] by (auto simp: RemoveAllTasks_def)
  next
    case NotifyQueue
    then show ?thesis by auto
  qed
qed

lemma interleaved_back: "interleaved as ((worker_step ^^ k) s) t \<Longrightarrow> interleaved as s t"
proof (induction k arbitrary: s)
  case (Suc k)
  then show ?case by (metis comp_apply funpow_Suc_right worker_runs)
qed simp

lemma stopping_completes: "stopping as s \<Longrightarrow> \<exists>t. interleaved as s t"
proof (induction as arbitrary: s)
  case Nil
  then show ?case by (blast intro: finished)
next
  case (Cons a as)
  have "\<exists>k s'. act a ((worker_step ^^ k) s) = Returns s'"
  proof -
    obtain s' where "act a s = Returns s' \<or> act a (worker_step s) = Returns s'
        \<or> act a (worker_step (worker_step s)) = Returns s'"
      using stopping_progress [OF Cons.prems] by blast
    then have "act a ((worker_step ^^ 0) s) = Returns s' \<or> act a ((worker_step ^^ 1) s) = Returns s'
        \<or> act a ((worker_step ^^ 2) s) = Returns s'" by (simp add: numeral_2_eq_2)
    then show ?thesis by blast
  qed
  then obtain k s' where a: "act a ((worker_step ^^ k) s) = Returns s'" by blast
  have "stopping (a # as) ((worker_step ^^ k) s)"
    by (induction k) (simp_all add: Cons.prems stopping_worker)
  then obtain t where "interleaved as s' t" using Cons.IH stopping_act a by blast
  then show ?case using caller_runs [OF a] interleaved_back by blast
qed

text \<open>The worker of a stopped scheduler exits within four steps.\<close>

lemma stopped_exits:
  assumes "stopping [] t"
  shows "worker ((worker_step ^^ 4) t) = Exited"
proof -
  have "worker t \<in> {AtLock, AtTest, AtExecution, HasExecution, Exited} \<or> (\<exists>obj. worker t = Executing obj)"
    using assms by (cases "worker t") (simp_all add: stopping_def)
  moreover have "worker t = AtExecution \<Longrightarrow> mExMutex t = Unlocked"
    using assms by (cases "mExMutex t") (auto simp: stopping_def sched_ok_def executing_def)
  moreover have "mTaskQueue t = []" "\<not> mSchedulerRunning t" using assms by (simp_all add: stopping_def)
  ultimately show ?thesis
    by (elim disjE insertE exE emptyE) (simp_all add: numeral_eq_Suc worker_step_def take_task_def)
qed

lemma stop_starts:
  assumes "sched_ok s" "mSchedulerRunning s" "mLockOut s \<longleftrightarrow> mExMutex s = ByExLock"
  shows "stopping (stop_program s) (stop_flag s)"
proof -
  have "worker s \<noteq> NotStarted" using assms by (auto simp: sched_ok_def)
  then show ?thesis
    using assms sched_ok_locks(4) [of s]
    by (cases "mLockOut s")
      (simp_all add: stopping_def stop_program_tail stop_flag_def suspend_program_def stop_tail_def suffix_Cons)
qed

section \<open>Properties\<close>

definition sample_task :: "string \<Rightarrow> AsyncTaskObj" where
  "sample_task name = \<lparr>mTask = 7, mId = 0, mTaskName = name\<rparr>"

definition sample_scheduler :: AampScheduler where
  "sample_scheduler =
     (case StartScheduler new_scheduler of
        Returns s \<Rightarrow> (case ScheduleTask (sample_task ''SetRate'') s of Returns (i, s') \<Rightarrow> s' | _ \<Rightarrow> s)
      | _ \<Rightarrow> new_scheduler)"

lemmas sched_eval = sample_scheduler_def sample_task_def new_scheduler_def StartScheduler_def ScheduleTask_def
  with_queue_def enqueue_def refuses_def is_set_rate_def notify_queue_def next_task_id_def id_defs Let_def

lemma sample_scheduler_reach: "reach (\<lambda>s. s = new_scheduler) sched_step sample_scheduler"
proof -
  let ?s = "new_scheduler\<lparr>worker := AtLock, mSchedulerRunning := True\<rparr>"
  have "sched_step new_scheduler ?s"
    by (rule sched_step.intros(1)) (simp_all add: sched_eval)
  then have "reach (\<lambda>s. s = new_scheduler) sched_step ?s"
    using reach_start [where s = new_scheduler] reach_step by (metis (mono_tags, lifting))
  moreover have "sched_step ?s sample_scheduler"
    by (rule sched_step.intros(2) [where obj = "sample_task ''SetRate''" and i = 1])
      (simp add: sched_eval)
  ultimately show ?thesis by (rule reach_step)
qed

text \<open>
  C2: in every state that calls and the worker can lead to, whatever their interleaving: the worker
  holds the execution mutex exactly while it takes or executes a task, so that no task starts while
  the scheduler is suspended; at most one \<open>SetRate\<close> task waits; the identifiers of the waiting tasks are
  between 1 and \<open>INT_MAX - 1\<close>; and the tasks executed, followed by the tasks waiting, are a
  subsequence of the tasks accepted, in the order of acceptance.
\<close>

theorem scheduler_invariant:
  assumes "reach (\<lambda>s. s = new_scheduler) sched_step s"
  shows "(mExMutex s = ByWorker \<longleftrightarrow> worker s = HasExecution \<or> (\<exists>obj. worker s = Executing obj))
    \<and> (mExMutex s = ByExLock \<longrightarrow> executed (worker_step s) = executed s)
    \<and> length (filter is_set_rate (mTaskQueue s)) \<le> 1
    \<and> (\<forall>t \<in> set (mTaskQueue s). 1 \<le> mId t \<and> mId t < INT_MAX)
    \<and> subseq (executed s @ mTaskQueue s) (accepted s)"
proof -
  have ok: "sched_ok s" by (rule scheduler.inv_reach [OF assms])
  have "executing s \<longleftrightarrow> worker s = HasExecution \<or> (\<exists>obj. worker s = Executing obj)"
    by (cases "worker s") (simp_all add: executing_def)
  moreover have "executed (worker_step s) = executed s" if "\<not> executing s"
    using that by (cases "worker s") (simp_all add: worker_step_def executing_def)
  ultimately show ?thesis
    using ok by (auto simp: sched_ok_def set_rates_def list_all_iff valid_id_def
        AAMP_SCHEDULER_ID_DEFAULT_def AAMP_SCHEDULER_ID_MAX_VALUE_def)
qed

theorem scheduler_invariant_witness:
  "length (filter is_set_rate (mTaskQueue sample_scheduler)) \<le> 1 \<and> map mId (mTaskQueue sample_scheduler) = [1]"
  using scheduler_invariant [OF sample_scheduler_reach] by (simp add: sched_eval)

text \<open>
  Scheduling and removing.  A call of \<open>ScheduleTask\<close> that returns gives the invalid identifier
  exactly when the scheduler does not run, is in an error or released state or is locked out, and
  then nothing changes; otherwise the task is last in the queue under the identifier returned, and
  the one task it replaces is a waiting \<open>SetRate\<close> task when it is one itself.  Removing the
  task again by its identifier succeeds and leaves the queue without it, provided the identifier is
  not that of the task executed last and is not in use by another waiting task.  Suspending throws
  exactly when the scheduler is suspended, and resuming exactly when it is not.
\<close>

theorem schedule_and_remove:
  assumes "reach (\<lambda>s. s = new_scheduler) sched_step s" "ScheduleTask obj s = Returns (i, s')"
  shows "(i = AAMP_TASK_ID_INVALID \<longleftrightarrow> refuses s \<or> mLockOut s)
    \<and> (i = AAMP_TASK_ID_INVALID \<longrightarrow> s' = s)
    \<and> (i \<noteq> AAMP_TASK_ID_INVALID \<longrightarrow>
        mTaskQueue s' = [t \<leftarrow> mTaskQueue s. \<not> (is_set_rate obj \<and> is_set_rate t)] @ [obj\<lparr>mId := i\<rparr>])
    \<and> (i \<noteq> AAMP_TASK_ID_INVALID \<and> mCurrentTaskId s \<noteq> i \<and> (\<forall>t \<in> set (mTaskQueue s). mId t \<noteq> i) \<longrightarrow>
        (\<exists>s''. RemoveTask i s' = Returns (True, s'')
          \<and> mTaskQueue s'' = [t \<leftarrow> mTaskQueue s. \<not> (is_set_rate obj \<and> is_set_rate t)]))
    \<and> (SuspendScheduler s = Throws \<longleftrightarrow> mExMutex s = ByExLock)
    \<and> (ResumeScheduler s = Throws \<longleftrightarrow> mExMutex s \<noteq> ByExLock)"
proof -
  let ?q = "[t \<leftarrow> mTaskQueue s. \<not> (is_set_rate obj \<and> is_set_rate t)]"
  have ok: "sched_ok s" by (rule scheduler.inv_reach [OF assms(1)])
  have valid: "mNextTaskId s \<noteq> AAMP_TASK_ID_INVALID"
    using ok by (simp add: sched_ok_def valid_id_not_invalid)
  have rate: "is_set_rate (obj\<lparr>mId := n\<rparr>) = is_set_rate obj" for n by (simp add: is_set_rate_def)
  have erased: "(if is_set_rate obj then erase_first is_set_rate (mTaskQueue s) else mTaskQueue s) = ?q"
    using erase_first_unique [of is_set_rate "mTaskQueue s"] ok by (simp add: sched_ok_def set_rates_def)
  have frame: "mTaskQueue (notify_queue r) = mTaskQueue r" "mCurrentTaskId (notify_queue r) = mCurrentTaskId r"
    "worker r \<notin> {AtTest, AtQueue} \<Longrightarrow> worker (notify_queue r) \<notin> {AtTest, AtQueue}" for r
    by (simp_all add: notify_queue_def)
  have sched: "i = (if refuses s \<or> mLockOut s then AAMP_TASK_ID_INVALID else mNextTaskId s)"
    "refuses s \<or> mLockOut s \<Longrightarrow> s' = s"
    "\<not> (refuses s \<or> mLockOut s) \<Longrightarrow> mTaskQueue s' = ?q @ [obj\<lparr>mId := i\<rparr>]
       \<and> mCurrentTaskId s' = mCurrentTaskId s \<and> worker s' \<notin> {AtTest, AtQueue}"
    using assms(2) valid frame(3)
    by (auto simp: ScheduleTask_def with_queue_Returns enqueue_def rate erased Let_def frame(1,2) split: if_splits)
  have "\<exists>s''. RemoveTask i s' = Returns (True, s'') \<and> mTaskQueue s'' = ?q"
    if "i \<noteq> AAMP_TASK_ID_INVALID" "mCurrentTaskId s \<noteq> i" "\<forall>t \<in> set (mTaskQueue s). mId t \<noteq> i"
  proof -
    have fresh: "\<forall>t \<in> set xs. \<not> P t \<Longrightarrow> P x \<Longrightarrow> erase_first P (xs @ [x]) = xs"
      for P :: "AsyncTaskObj \<Rightarrow> bool" and xs x by (induction xs) auto
    have "\<not> (refuses s \<or> mLockOut s)" using sched(1) that(1) by auto
    with sched(3) that show ?thesis
      by (simp add: RemoveTask_def with_queue_def remove_queued_def fresh)
  qed
  moreover have "SuspendScheduler s = Throws \<longleftrightarrow> mExMutex s = ByExLock"
    by (simp add: SuspendScheduler_def suspend_program_def suspend_lock_def suspend_flag_def with_queue_def
        split: ex_owner.split)
  moreover have "ResumeScheduler s = Throws \<longleftrightarrow> mExMutex s \<noteq> ByExLock"
    by (simp add: ResumeScheduler_def resume_program_def resume_unlock_def resume_flag_def with_queue_def)
  ultimately show ?thesis using sched valid by auto
qed

theorem schedule_and_remove_witness:
  "map mId (mTaskQueue (case ScheduleTask (sample_task ''SetRate'') sample_scheduler of
     Returns (i, s) \<Rightarrow> s | _ \<Rightarrow> sample_scheduler)) = [2]"
proof -
  obtain s' where s': "ScheduleTask (sample_task ''SetRate'') sample_scheduler = Returns (2, s')"
    by (simp add: sched_eval)
  have "mTaskQueue s' = [(sample_task ''SetRate'')\<lparr>mId := 2\<rparr>]"
    using schedule_and_remove [OF sample_scheduler_reach s'] by (simp add: sched_eval)
  with s' show ?thesis by simp
qed



end
