(* ===== verification/Stream_Sink_Manager.thy ===== *)
theory Stream_Sink_Manager
  imports Aamp_Prelude
begin

text \<open>
  \<open>AampStreamSinkManager\<close>: which player instance feeds which stream sink.  Ownership is explicit: the
  sinks made by \<open>new\<close> live in the stores \<open>gst\<close> and \<open>inactive\<close> until they are deleted, and the maps of the
  manager hold their addresses.  Dereferencing a null pointer, using a deleted sink and deleting twice
  are faults.  Player instances are addresses too, ordered as the keys of the maps are; what the
  manager reads of a player is the record \<open>PrivateInstanceAAMP\<close>.  Every call runs under
  \<open>mStreamSinkMutex\<close>.
  The lemmas show that the manager neither leaks a sink nor keeps a dangling one, that in single
  pipeline mode one sink is shared and fed by at most one player, and which calls fault.
\<close>

section \<open>State\<close>

type_synonym player = nat
type_synonym sink = nat
type_synonym id3_callback = nat

datatype sink_fault = NullDeref | UseAfterFree | DoubleFree

record AampStreamSinkInactive =
  mId3HandlerCallback :: id3_callback
  mTuned :: bool

text \<open>The calls of the manager on a pipeline, in the order they are made.\<close>

datatype sink_call =
    ResumeInjector
  | DisableDecoderHandleNotified
  | FlushSink real int bool
  | SetSubtitleMute bool
  | ResetFirstFrame

record AAMPGstPlayer =
  gst_aamp :: player
  mEncryptedAamp :: "player option"
  mEncryptedAampId :: int
  m_ID3MetadataHandler :: id3_callback
  calls :: "sink_call list"

record StreamAbstraction =
  stream_position :: real
  first_pts :: real

record PrivateInstanceAAMP =
  mPlayerId :: int
  position_ms :: int
  mpStreamAbstractionAAMP :: "StreamAbstraction option"
  progressive :: bool
  rate :: int
  subtitles_muted :: bool
  tune_completed :: bool
  play_enabled :: bool
  downloads_enabled :: bool

datatype PipelineMode = ePIPELINEMODE_UNDEFINED | ePIPELINEMODE_SINGLE | ePIPELINEMODE_MULTI

record MediaHeader =
  url :: string
  mimeType :: string
  injected :: bool

record AampStreamSinkManager =
  mStreamPlayer :: "sink option"
  mClientStreamSinkMap :: "(player, sink) omap"
  mActivePlayersMap :: "(player, sink) omap"
  mInactivePlayersMap :: "(player, sink) omap"
  mEncryptedHeaders :: "(int, string) omap"
  mMediaHeaders :: "MediaHeader option list"
  mPipelineMode :: PipelineMode
  mEncryptedHeadersInjected :: bool
  gst :: "sink \<Rightarrow> AAMPGstPlayer option"
  inactive :: "sink \<Rightarrow> AampStreamSinkInactive option"
  next_sink :: sink

text \<open>A \<open>StreamSink*\<close> that is handed out.\<close>

datatype sink_ref = GstSink sink | InactiveSink sink | ClientSink sink

definition AAMP_TRACK_COUNT :: nat where
  "AAMP_TRACK_COUNT = 3"

definition new_sink_manager :: AampStreamSinkManager where
  "new_sink_manager = \<lparr>mStreamPlayer = None, mClientStreamSinkMap = [], mActivePlayersMap = [],
     mInactivePlayersMap = [], mEncryptedHeaders = [], mMediaHeaders = replicate AAMP_TRACK_COUNT None,
     mPipelineMode = ePIPELINEMODE_UNDEFINED, mEncryptedHeadersInjected = False,
     gst = Map.empty, inactive = Map.empty, next_sink = 0\<rparr>"

section \<open>Memory\<close>

definition delete_gst :: "sink \<Rightarrow> AampStreamSinkManager \<Rightarrow> sink_fault + AampStreamSinkManager" where
  "delete_gst p m = (if gst m p = None then Inl DoubleFree else Inr (m\<lparr>gst := (gst m)(p := None)\<rparr>))"

definition delete_inactive :: "sink \<Rightarrow> AampStreamSinkManager \<Rightarrow> sink_fault + AampStreamSinkManager" where
  "delete_inactive p m =
     (if inactive m p = None then Inl DoubleFree else Inr (m\<lparr>inactive := (inactive m)(p := None)\<rparr>))"

fun delete_all :: "(sink \<Rightarrow> 's \<Rightarrow> sink_fault + 's) \<Rightarrow> sink list \<Rightarrow> 's \<Rightarrow> sink_fault + 's" where
  "delete_all del [] m = Inr m"
| "delete_all del (p # ps) m = ebind (del p m) (delete_all del ps)"

text \<open>\<open>delete\<close> of a pointer that may be null.\<close>

definition delete_ptr :: "sink option \<Rightarrow> AampStreamSinkManager \<Rightarrow> sink_fault + AampStreamSinkManager" where
  "delete_ptr p m = (case p of None \<Rightarrow> Inr m | Some q \<Rightarrow> delete_gst q m)"

definition CreateSinkInstance :: "(player \<Rightarrow> PrivateInstanceAAMP) \<Rightarrow> player \<Rightarrow> id3_callback \<Rightarrow> AampStreamSinkManager \<Rightarrow> sink \<times> AampStreamSinkManager" where
  "CreateSinkInstance P aamp cb m =
     (next_sink m, m\<lparr>next_sink := next_sink m + 1,
        gst := (gst m)(next_sink m \<mapsto> \<lparr>gst_aamp = aamp, mEncryptedAamp = Some aamp, mEncryptedAampId = mPlayerId (P aamp),
                                      m_ID3MetadataHandler = cb, calls = []\<rparr>)\<rparr>)"

definition new_inactive :: "id3_callback \<Rightarrow> AampStreamSinkManager \<Rightarrow> sink \<times> AampStreamSinkManager" where
  "new_inactive cb m =
     (next_sink m, m\<lparr>next_sink := next_sink m + 1,
        inactive := (inactive m)(next_sink m \<mapsto> \<lparr>mId3HandlerCallback = cb, mTuned = False\<rparr>)\<rparr>)"

text \<open>A method of the pipeline or of an inactive sink, through a pointer.\<close>

definition on_gst :: "sink option \<Rightarrow> (AAMPGstPlayer \<Rightarrow> AAMPGstPlayer) \<Rightarrow> AampStreamSinkManager
    \<Rightarrow> sink_fault + AampStreamSinkManager" where
  "on_gst p f m =
     (case p of
        None \<Rightarrow> Inl NullDeref
      | Some q \<Rightarrow> (case gst m q of
                    None \<Rightarrow> Inl UseAfterFree
                  | Some g \<Rightarrow> Inr (m\<lparr>gst := (gst m)(q \<mapsto> f g)\<rparr>)))"

definition read_gst :: "sink option \<Rightarrow> (AAMPGstPlayer \<Rightarrow> 'a) \<Rightarrow> AampStreamSinkManager \<Rightarrow> sink_fault + 'a" where
  "read_gst p f m =
     (case p of None \<Rightarrow> Inl NullDeref
      | Some q \<Rightarrow> (case gst m q of None \<Rightarrow> Inl UseAfterFree | Some g \<Rightarrow> Inr (f g)))"

definition GetID3MetadataHandler :: "sink option \<Rightarrow> AampStreamSinkManager \<Rightarrow> sink_fault + id3_callback" where
  "GetID3MetadataHandler p m =
     (case p of None \<Rightarrow> Inl NullDeref
      | Some q \<Rightarrow> (case inactive m q of None \<Rightarrow> Inl UseAfterFree | Some g \<Rightarrow> Inr (mId3HandlerCallback g)))"

section \<open>The pipeline\<close>

definition ChangeAamp :: "(player \<Rightarrow> PrivateInstanceAAMP) \<Rightarrow> player \<Rightarrow> id3_callback \<Rightarrow> AAMPGstPlayer \<Rightarrow> AAMPGstPlayer" where
  "ChangeAamp P newAamp cb g =
     g\<lparr>gst_aamp := newAamp, m_ID3MetadataHandler := cb,
       calls := calls g @ (if downloads_enabled (P newAamp) then [ResumeInjector] else [])
                @ [DisableDecoderHandleNotified]\<rparr>"

definition SetEncryptedAamp :: "(player \<Rightarrow> PrivateInstanceAAMP) \<Rightarrow> player \<Rightarrow> AAMPGstPlayer \<Rightarrow> AAMPGstPlayer" where
  "SetEncryptedAamp P aamp g = g\<lparr>mEncryptedAamp := Some aamp, mEncryptedAampId := mPlayerId (P aamp)\<rparr>"

definition GetEncryptedAampId :: "AAMPGstPlayer \<Rightarrow> int" where
  "GetEncryptedAampId g = (case mEncryptedAamp g of None \<Rightarrow> -1 | Some _ \<Rightarrow> mEncryptedAampId g)"

definition IsAssociatedAamp :: "player \<Rightarrow> AAMPGstPlayer \<Rightarrow> bool" where
  "IsAssociatedAamp aamp g \<longleftrightarrow> gst_aamp g = aamp"

definition call :: "sink_call \<Rightarrow> AAMPGstPlayer \<Rightarrow> AAMPGstPlayer" where
  "call c g = g\<lparr>calls := calls g @ [c]\<rparr>"

section \<open>Operations of the manager\<close>

definition reset_headers :: "AampStreamSinkManager \<Rightarrow> AampStreamSinkManager" where
  "reset_headers m = m\<lparr>mMediaHeaders := map (\<lambda>_. None) (mMediaHeaders m)\<rparr>"

definition Clear_sinks :: "AampStreamSinkManager \<Rightarrow> sink_fault + AampStreamSinkManager" where
  "Clear_sinks m =
     ebind (delete_all delete_inactive (map snd (mInactivePlayersMap m)) (m\<lparr>mClientStreamSinkMap := []\<rparr>)) (\<lambda>m1.
     ebind (if mActivePlayersMap m \<noteq> [] then delete_all delete_gst (map snd (mActivePlayersMap m)) m1
            else delete_ptr (mStreamPlayer m) m1) (\<lambda>m2.
     Inr (reset_headers (m2\<lparr>mInactivePlayersMap := [], mActivePlayersMap := [], mStreamPlayer := None,
            mPipelineMode := ePIPELINEMODE_UNDEFINED, mEncryptedHeaders := [], mEncryptedHeadersInjected := False\<rparr>))))"

definition SetSinglePipelineMode :: "player \<Rightarrow> AampStreamSinkManager \<Rightarrow> sink_fault + AampStreamSinkManager" where
  "SetSinglePipelineMode aamp m =
     (case mPipelineMode m of
        ePIPELINEMODE_UNDEFINED \<Rightarrow>
          ebind (delete_all delete_gst (map snd (filter (\<lambda>(k, p). k \<noteq> aamp) (mActivePlayersMap m))) m) (\<lambda>m1.
          Inr (m1\<lparr>mPipelineMode := ePIPELINEMODE_SINGLE,
                  mStreamPlayer := (case om_find aamp (mActivePlayersMap m) of None \<Rightarrow> mStreamPlayer m | Some p \<Rightarrow> Some p),
                  mActivePlayersMap := filter (\<lambda>(k, p). k = aamp) (mActivePlayersMap m)\<rparr>))
      | _ \<Rightarrow> Inr m)"

definition CreateStreamSink :: "(player \<Rightarrow> PrivateInstanceAAMP) \<Rightarrow> player \<Rightarrow> id3_callback \<Rightarrow> AampStreamSinkManager \<Rightarrow> AampStreamSinkManager" where
  "CreateStreamSink P aamp cb m =
     (let (inactiveSink, m1) = new_inactive cb m;
          m2 = m1\<lparr>mInactivePlayersMap := om_insert aamp inactiveSink (mInactivePlayersMap m1)\<rparr>
      in case mPipelineMode m of
           ePIPELINEMODE_SINGLE \<Rightarrow>
             (if mStreamPlayer m2 = None
              then let (p, m3) = CreateSinkInstance P aamp cb m2
                   in m3\<lparr>mStreamPlayer := Some p, mActivePlayersMap := om_insert aamp p (mActivePlayersMap m3)\<rparr>
              else m2)
         | _ \<Rightarrow> let (p, m3) = CreateSinkInstance P aamp cb m2
                in m3\<lparr>mActivePlayersMap := om_insert aamp p (mActivePlayersMap m3)\<rparr>)"

definition SetStreamSink :: "player \<Rightarrow> sink \<Rightarrow> AampStreamSinkManager \<Rightarrow> AampStreamSinkManager" where
  "SetStreamSink aamp clientSink m =
     m\<lparr>mPipelineMode := (if mPipelineMode m = ePIPELINEMODE_UNDEFINED then ePIPELINEMODE_MULTI else mPipelineMode m),
       mClientStreamSinkMap := om_insert aamp clientSink (mClientStreamSinkMap m)\<rparr>"

text \<open>The part of \<open>DeleteStreamSink\<close> that both modes share: the inactive sink goes.\<close>

definition drop_inactive :: "player \<Rightarrow> AampStreamSinkManager \<Rightarrow> sink_fault + AampStreamSinkManager" where
  "drop_inactive aamp m =
     (case om_find aamp (mInactivePlayersMap m) of
        None \<Rightarrow> Inr m
      | Some p \<Rightarrow> delete_inactive p (m\<lparr>mInactivePlayersMap := om_erase aamp (mInactivePlayersMap m)\<rparr>))"

definition delete_single :: "(player \<Rightarrow> PrivateInstanceAAMP) \<Rightarrow> player \<Rightarrow> AampStreamSinkManager
    \<Rightarrow> sink_fault + AampStreamSinkManager" where
  "delete_single P aamp m =
     (let m1 = (case mActivePlayersMap m of
                  (k, p) # _ \<Rightarrow> if k = aamp then m\<lparr>mActivePlayersMap := om_erase aamp (mActivePlayersMap m)\<rparr> else m
                | [] \<Rightarrow> m)
      in ebind (drop_inactive aamp m1) (\<lambda>m2.
         (case mInactivePlayersMap m2 of
            (k, p) # _ \<Rightarrow>
              ebind (read_gst (mStreamPlayer m2) (IsAssociatedAamp aamp) m2) (\<lambda>assoc.
              if assoc \<and> mActivePlayersMap m2 = []
              then ebind (GetID3MetadataHandler (Some p) m2) (\<lambda>cb. on_gst (mStreamPlayer m2) (ChangeAamp P k cb) m2)
              else Inr m2)
          | [] \<Rightarrow>
              ebind (delete_ptr (mStreamPlayer m2) m2) (\<lambda>m3.
              Inr (reset_headers (m3\<lparr>mStreamPlayer := None, mPipelineMode := ePIPELINEMODE_UNDEFINED,
                                     mEncryptedHeadersInjected := False\<rparr>))))))"

definition delete_multi :: "player \<Rightarrow> AampStreamSinkManager \<Rightarrow> sink_fault + AampStreamSinkManager" where
  "delete_multi aamp m =
     ebind (drop_inactive aamp m) (\<lambda>m1.
     ebind (case om_find aamp (mActivePlayersMap m1) of
              None \<Rightarrow> Inr m1
            | Some p \<Rightarrow> delete_gst p (m1\<lparr>mActivePlayersMap := om_erase aamp (mActivePlayersMap m1)\<rparr>)) (\<lambda>m2.
     Inr (m2\<lparr>mClientStreamSinkMap := om_erase aamp (mClientStreamSinkMap m2)\<rparr>)))"

definition DeleteStreamSink :: "(player \<Rightarrow> PrivateInstanceAAMP) \<Rightarrow> player \<Rightarrow> AampStreamSinkManager
    \<Rightarrow> sink_fault + AampStreamSinkManager" where
  "DeleteStreamSink P aamp m =
     (case mPipelineMode m of ePIPELINEMODE_SINGLE \<Rightarrow> delete_single P aamp m | _ \<Rightarrow> delete_multi aamp m)"

definition SetEncryptedHeaders :: "(player \<Rightarrow> PrivateInstanceAAMP) \<Rightarrow> player \<Rightarrow> (int, string) omap
    \<Rightarrow> AampStreamSinkManager \<Rightarrow> sink_fault + AampStreamSinkManager" where
  "SetEncryptedHeaders P aamp mappedHeaders m =
     (case mPipelineMode m of
        ePIPELINEMODE_SINGLE \<Rightarrow>
          ebind (if mStreamPlayer m \<noteq> None \<and> mEncryptedHeaders m \<noteq> []
                 then ebind (read_gst (mStreamPlayer m) GetEncryptedAampId m) (\<lambda>i.
                      Inr (if i \<noteq> mPlayerId (P aamp)
                           then m\<lparr>mEncryptedHeaders := [], mEncryptedHeadersInjected := False\<rparr> else m))
                 else Inr m) (\<lambda>m1.
          if mEncryptedHeaders m1 \<noteq> [] then Inr m1
          else if mStreamPlayer m1 \<noteq> None
          then ebind (on_gst (mStreamPlayer m1) (SetEncryptedAamp P aamp) m1) (\<lambda>m2.
               Inr (m2\<lparr>mEncryptedHeaders := mappedHeaders\<rparr>))
          else Inr m1)
      | _ \<Rightarrow> Inr m)"

definition ReinjectEncryptedHeaders :: "AampStreamSinkManager \<Rightarrow> AampStreamSinkManager" where
  "ReinjectEncryptedHeaders m = m\<lparr>mEncryptedHeadersInjected := False\<rparr>"

definition GetEncryptedHeaders :: "AampStreamSinkManager \<Rightarrow> (int, string) omap \<times> AampStreamSinkManager" where
  "GetEncryptedHeaders m =
     (if \<not> mEncryptedHeadersInjected m then (mEncryptedHeaders m, m\<lparr>mEncryptedHeadersInjected := True\<rparr>)
      else ([], m))"

definition DeactivatePlayer :: "player \<Rightarrow> bool \<Rightarrow> AampStreamSinkManager \<Rightarrow> AampStreamSinkManager" where
  "DeactivatePlayer aamp stop m =
     (case mPipelineMode m of
        ePIPELINEMODE_SINGLE \<Rightarrow>
          (case mActivePlayersMap m of
             [] \<Rightarrow> m
           | (k, p) # _ \<Rightarrow>
               if k = aamp
               then (let m1 = (if stop then reset_headers (m\<lparr>mEncryptedHeadersInjected := False, mEncryptedHeaders := []\<rparr>) else m)
                     in m1\<lparr>mActivePlayersMap := om_erase aamp (mActivePlayersMap m1)\<rparr>)
               else m)
      | _ \<Rightarrow> m)"

text \<open>
  The position to flush to, read from the player before the mutex is taken; \<open>rnd\<close> is the rounding of
  the division in double precision.
\<close>

definition flush_position :: "(real \<Rightarrow> real) \<Rightarrow> PrivateInstanceAAMP \<Rightarrow> real" where
  "flush_position rnd a =
     (case mpStreamAbstractionAAMP a of
        None \<Rightarrow> rnd (of_int (position_ms a) / 1000)
      | Some s \<Rightarrow> if progressive a then stream_position s else first_pts s)"

text \<open>
  \<open>mInactivePlayersMap[aamp]\<close> of a player that has no entry inserts a null pointer, which is
  dereferenced at once.
\<close>

definition SetActive :: "(player \<Rightarrow> PrivateInstanceAAMP) \<Rightarrow> player \<Rightarrow> real \<Rightarrow> AampStreamSinkManager
    \<Rightarrow> sink_fault + AampStreamSinkManager" where
  "SetActive P aamp position m =
     ebind (GetID3MetadataHandler (om_find aamp (mInactivePlayersMap m)) m) (\<lambda>cb.
     ebind (on_gst (mStreamPlayer m) (ChangeAamp P aamp cb) m) (\<lambda>m1.
     ebind (on_gst (mStreamPlayer m1) (call (FlushSink position (rate (P aamp)) True)) m1) (\<lambda>m2.
     ebind (on_gst (mStreamPlayer m2) (call (SetSubtitleMute (subtitles_muted (P aamp)))) m2) (\<lambda>m3.
     if \<not> tune_completed (P aamp) \<and> play_enabled (P aamp) \<and> mPipelineMode m3 = ePIPELINEMODE_SINGLE
     then on_gst (mStreamPlayer m3) (call ResetFirstFrame) m3 else Inr m3))))"

definition ActivatePlayer :: "(real \<Rightarrow> real) \<Rightarrow> (player \<Rightarrow> PrivateInstanceAAMP) \<Rightarrow> player
    \<Rightarrow> AampStreamSinkManager \<Rightarrow> sink_fault + AampStreamSinkManager" where
  "ActivatePlayer rnd P aamp m =
     (case mPipelineMode m of
        ePIPELINEMODE_SINGLE \<Rightarrow>
          (let m1 = (case mActivePlayersMap m of
                       [] \<Rightarrow> m | (k, p) # _ \<Rightarrow> if k = aamp then m else m\<lparr>mActivePlayersMap := []\<rparr>)
           in if mActivePlayersMap m1 = []
              then (case mStreamPlayer m1 of
                      None \<Rightarrow> Inr m1
                    | Some p \<Rightarrow> SetActive P aamp (flush_position rnd (P aamp))
                                 (m1\<lparr>mActivePlayersMap := om_insert aamp p (mActivePlayersMap m1)\<rparr>))
              else Inr m1)
      | ePIPELINEMODE_UNDEFINED \<Rightarrow> Inr (m\<lparr>mPipelineMode := ePIPELINEMODE_MULTI\<rparr>)
      | ePIPELINEMODE_MULTI \<Rightarrow> Inr m)"

definition GetStreamSinkNoLock :: "player \<Rightarrow> AampStreamSinkManager \<Rightarrow> sink_ref option" where
  "GetStreamSinkNoLock aamp m =
     (case om_find aamp (mClientStreamSinkMap m) of
        Some p \<Rightarrow> Some (ClientSink p)
      | None \<Rightarrow> (case om_find aamp (mActivePlayersMap m) of
                  Some p \<Rightarrow> Some (GstSink p)
                | None \<Rightarrow> map_option InactiveSink (om_find aamp (mInactivePlayersMap m))))"

definition GetStreamSink :: "player \<Rightarrow> AampStreamSinkManager \<Rightarrow> sink_ref option" where
  "GetStreamSink aamp m = GetStreamSinkNoLock aamp m"

definition GetActiveStreamSink :: "player \<Rightarrow> AampStreamSinkManager \<Rightarrow> sink_ref option" where
  "GetActiveStreamSink aamp m =
     (case mPipelineMode m of
        ePIPELINEMODE_SINGLE \<Rightarrow>
          (case mActivePlayersMap m of
             (k, p) # _ \<Rightarrow> Some (GstSink p)
           | [] \<Rightarrow> map_option GstSink (mStreamPlayer m))
      | _ \<Rightarrow> (case om_find aamp (mClientStreamSinkMap m) of
               Some p \<Rightarrow> Some (ClientSink p)
             | None \<Rightarrow> map_option GstSink (om_find aamp (mActivePlayersMap m))))"

text \<open>The loop over the inactive players stops at the first other player that has been tuned.\<close>

fun tuned_other :: "player \<Rightarrow> AampStreamSinkManager \<Rightarrow> (player \<times> sink) list \<Rightarrow> sink_fault + bool" where
  "tuned_other aamp m [] = Inr False"
| "tuned_other aamp m ((k, p) # rest) =
     (if k = aamp then tuned_other aamp m rest
      else case inactive m p of
             None \<Rightarrow> Inl UseAfterFree
           | Some s \<Rightarrow> if mTuned s then Inr True else tuned_other aamp m rest)"

definition GetStoppingStreamSink :: "player \<Rightarrow> AampStreamSinkManager \<Rightarrow> sink_fault + sink_ref option" where
  "GetStoppingStreamSink aamp m =
     (if mPipelineMode m = ePIPELINEMODE_SINGLE \<and> mActivePlayersMap m = []
      then ebind (tuned_other aamp m (mInactivePlayersMap m)) (\<lambda>tuned.
           Inr (if \<not> tuned then map_option GstSink (mStreamPlayer m) else GetStreamSinkNoLock aamp m))
      else Inr (GetStreamSinkNoLock aamp m))"

definition SetTuned :: "player \<Rightarrow> AampStreamSinkManager \<Rightarrow> sink_fault + AampStreamSinkManager" where
  "SetTuned aamp m =
     (case om_find aamp (mInactivePlayersMap m) of
        None \<Rightarrow> Inr m
      | Some p \<Rightarrow> (case inactive m p of
                    None \<Rightarrow> Inl UseAfterFree
                  | Some s \<Rightarrow> Inr (m\<lparr>inactive := (inactive m)(p \<mapsto> s\<lparr>mTuned := True\<rparr>)\<rparr>)))"

definition UpdateTuningPlayer :: "(player \<Rightarrow> PrivateInstanceAAMP) \<Rightarrow> player \<Rightarrow> AampStreamSinkManager
    \<Rightarrow> sink_fault + AampStreamSinkManager" where
  "UpdateTuningPlayer P aamp m =
     (case mPipelineMode m of
        ePIPELINEMODE_SINGLE \<Rightarrow>
          if mActivePlayersMap m = [] \<and> mStreamPlayer m \<noteq> None \<and> om_find aamp (mInactivePlayersMap m) \<noteq> None
          then ebind (GetID3MetadataHandler (om_find aamp (mInactivePlayersMap m)) m) (\<lambda>cb.
               on_gst (mStreamPlayer m) (ChangeAamp P aamp cb) m)
          else Inr m
      | _ \<Rightarrow> Inr m)"

definition AddMediaHeader :: "nat \<Rightarrow> MediaHeader \<Rightarrow> AampStreamSinkManager \<Rightarrow> AampStreamSinkManager" where
  "AddMediaHeader track header m =
     (if track < AAMP_TRACK_COUNT \<and> mMediaHeaders m ! track = None
      then m\<lparr>mMediaHeaders := (mMediaHeaders m)[track := Some header]\<rparr> else m)"

definition RemoveMediaHeader :: "nat \<Rightarrow> AampStreamSinkManager \<Rightarrow> AampStreamSinkManager" where
  "RemoveMediaHeader track m =
     (if track < AAMP_TRACK_COUNT then m\<lparr>mMediaHeaders := (mMediaHeaders m)[track := None]\<rparr> else m)"

definition GetMediaHeader :: "nat \<Rightarrow> AampStreamSinkManager \<Rightarrow> MediaHeader option" where
  "GetMediaHeader track m = (if track < AAMP_TRACK_COUNT then mMediaHeaders m ! track else None)"

text \<open>
  The calls a process makes.  A sink is created for a player that has none, as both callers in the
  player test or know.
\<close>

inductive sink_step :: "AampStreamSinkManager \<Rightarrow> AampStreamSinkManager \<Rightarrow> bool" where
  "om_find aamp (mInactivePlayersMap m) = None \<Longrightarrow> sink_step m (CreateStreamSink P aamp cb m)"
| "Clear_sinks m = Inr m' \<Longrightarrow> sink_step m m'"
| "SetSinglePipelineMode aamp m = Inr m' \<Longrightarrow> sink_step m m'"
| "sink_step m (SetStreamSink aamp c m)"
| "DeleteStreamSink P aamp m = Inr m' \<Longrightarrow> sink_step m m'"
| "SetEncryptedHeaders P aamp hs m = Inr m' \<Longrightarrow> sink_step m m'"
| "sink_step m (ReinjectEncryptedHeaders m)"
| "sink_step m (snd (GetEncryptedHeaders m))"
| "sink_step m (DeactivatePlayer aamp stop m)"
| "ActivatePlayer rnd P aamp m = Inr m' \<Longrightarrow> sink_step m m'"
| "SetTuned aamp m = Inr m' \<Longrightarrow> sink_step m m'"
| "UpdateTuningPlayer P aamp m = Inr m' \<Longrightarrow> sink_step m m'"
| "sink_step m (AddMediaHeader track header m)"
| "sink_step m (RemoveMediaHeader track m)"


section \<open>The invariant\<close>

abbreviation registered :: "AampStreamSinkManager \<Rightarrow> player set" where
  "registered m \<equiv> fst ` set (mInactivePlayersMap m)"

definition owned :: "AampStreamSinkManager \<Rightarrow> sink set" where
  "owned m = snd ` set (mActivePlayersMap m) \<union> set_option (mStreamPlayer m)"

definition feeds :: "AampStreamSinkManager \<Rightarrow> player \<Rightarrow> sink \<Rightarrow> bool" where
  "feeds m k p \<longleftrightarrow> (\<exists>g. gst m p = Some g \<and> gst_aamp g = k)"

text \<open>What holds in single pipeline mode, and what in the other two.\<close>

definition single_ok :: "AampStreamSinkManager \<Rightarrow> bool" where
  "single_ok m \<longleftrightarrow> mActivePlayersMap m = [] \<or> (\<exists>k p. mActivePlayersMap m = [(k, p)] \<and> mStreamPlayer m = Some p)"

definition multi_ok :: "AampStreamSinkManager \<Rightarrow> bool" where
  "multi_ok m \<longleftrightarrow> mStreamPlayer m = None \<and> om_ok (mActivePlayersMap m) \<and> distinct (map snd (mActivePlayersMap m))"

definition sinks_ok :: "AampStreamSinkManager \<Rightarrow> bool" where
  "sinks_ok m \<longleftrightarrow>
     om_ok (mInactivePlayersMap m) \<and> distinct (map snd (mInactivePlayersMap m))
     \<and> dom (gst m) = owned m \<and> dom (inactive m) = snd ` set (mInactivePlayersMap m)
     \<and> (\<forall>p \<in> dom (gst m) \<union> dom (inactive m). p < next_sink m)
     \<and> (\<forall>(k, p) \<in> set (mActivePlayersMap m). k \<in> registered m \<and> feeds m k p)
     \<and> (\<forall>p. mStreamPlayer m = Some p \<longrightarrow> (\<exists>k \<in> registered m. feeds m k p))
     \<and> (if mPipelineMode m = ePIPELINEMODE_SINGLE then single_ok m else multi_ok m)
     \<and> length (mMediaHeaders m) = AAMP_TRACK_COUNT"

lemma om_assign_values:
  "om_find k m = None \<Longrightarrow> snd ` set (om_assign k v m) = insert v (snd ` set m)"
  "om_find k m = None \<Longrightarrow> fst ` set (om_assign k v m) = insert k (fst ` set m)"
  "om_find k m = None \<Longrightarrow> set (om_assign k v m) = insert (k, v) (set m)"
  "om_find k m = None \<Longrightarrow> distinct (map snd (om_assign k v m)) \<longleftrightarrow> v \<notin> snd ` set m \<and> distinct (map snd m)"
proof (induction m)
  case (Cons b m)
  case 1
  then show ?case using Cons by (cases b) (auto split: if_splits)
next
  case (Cons b m)
  case 2
  then show ?case using Cons by (cases b) (auto split: if_splits)
next
  case (Cons b m)
  case 3
  then show ?case using Cons by (cases b) (auto split: if_splits)
next
  case (Cons b m)
  have "om_find k m = None \<Longrightarrow> snd ` set (om_assign k v m) = insert v (snd ` set m)" by (rule Cons(1))
  case 4
  then show ?case using Cons by (cases b) (auto split: if_splits)
qed simp_all

lemma om_erase_values:
  assumes "om_ok m" "distinct (map snd m)" "om_find k m = Some p"
  shows "snd ` set (om_erase k m) = snd ` set m - {p}" "distinct (map snd (om_erase k m))"
proof -
  have "snd ` set (om_erase k m) = snd ` set m - {p} \<and> distinct (map snd (om_erase k m))"
    using assms
  proof (induction m)
    case (Cons b m)
    obtain a v where b: "b = (a, v)" by force
    show ?case
    proof (cases "a = k")
      case False
      then have "om_find k m = Some p" "om_ok m" "distinct (map snd m)" "v \<notin> snd ` set m"
        using Cons.prems b by auto
      moreover from this have "p \<in> snd ` set m" by (force dest: om_find_Some_in)
      ultimately show ?thesis using Cons.IH False b by auto
    qed (use Cons.prems b in auto)
  qed simp
  then show "snd ` set (om_erase k m) = snd ` set m - {p}" "distinct (map snd (om_erase k m))" by auto
qed

lemma om_erase_keys: "om_ok m \<Longrightarrow> fst ` set (om_erase k m) = fst ` set m - {k}"
  by (auto simp: set_om_erase rev_image_eqI)

lemma om_find_key: "om_find k m = None \<longleftrightarrow> k \<notin> fst ` set m"
  by (simp add: om_find_None_iff om_keys_def)

lemma om_find_value: "om_find k m = Some p \<Longrightarrow> p \<in> snd ` set m \<and> k \<in> fst ` set m"
  by (force dest: om_find_Some_in)

lemma om_find_keyD: "k \<in> fst ` set m \<Longrightarrow> \<exists>p. om_find k m = Some p"
  by (metis om_find_key option.exhaust)

lemma om_erase_absent: "om_find k m = None \<Longrightarrow> om_erase k m = m"
  by (induction m) (auto split: if_splits)

lemma om_ok_tail: "om_ok ((k, v) # m) \<Longrightarrow> om_find k m = None"
  by (force simp: om_find_key)

lemma om_filter_key:
  "om_ok m \<Longrightarrow> filter (\<lambda>(k, p). k = a) m = (case om_find a m of None \<Rightarrow> [] | Some p \<Rightarrow> [(a, p)])"
proof (induction m)
  case (Cons b m)
  obtain k v where b: "b = (k, v)" by force
  then have "om_find k m = None" "om_ok m" using Cons.prems om_ok_tail by auto
  then show ?case using Cons.IH b by auto
qed simp

lemma om_filter_others: "om_ok m \<Longrightarrow> filter (\<lambda>(k, p). k \<noteq> a) m = om_erase a m"
proof (induction m)
  case (Cons b m)
  obtain k v where b: "b = (k, v)" by force
  then have "om_find k m = None" "om_ok m" using Cons.prems om_ok_tail by auto
  then have "om_erase k m = m" "om_ok m" by (simp_all add: om_erase_absent)
  then show ?case using Cons.IH b by auto
qed simp

lemma delete_all_gst:
  "distinct ps \<Longrightarrow> set ps \<subseteq> dom (gst m) \<Longrightarrow>
     delete_all delete_gst ps m = Inr (m\<lparr>gst := gst m |` (- set ps)\<rparr>)"
proof (induction ps arbitrary: m)
  case (Cons p ps)
  let ?m = "m\<lparr>gst := (gst m)(p := None)\<rparr>"
  have "delete_gst p m = Inr ?m" using Cons.prems by (auto simp: delete_gst_def)
  moreover have "delete_all delete_gst ps ?m = Inr (?m\<lparr>gst := gst ?m |` (- set ps)\<rparr>)"
    by (rule Cons.IH) (use Cons.prems in auto)
  moreover have "gst ?m |` (- set ps) = gst m |` (- set (p # ps))" by (auto simp: restrict_map_def)
  ultimately show ?case by simp
qed (simp add: restrict_map_def)

lemma delete_all_inactive:
  "distinct ps \<Longrightarrow> set ps \<subseteq> dom (inactive m) \<Longrightarrow>
     delete_all delete_inactive ps m = Inr (m\<lparr>inactive := inactive m |` (- set ps)\<rparr>)"
proof (induction ps arbitrary: m)
  case (Cons p ps)
  let ?m = "m\<lparr>inactive := (inactive m)(p := None)\<rparr>"
  have "delete_inactive p m = Inr ?m" using Cons.prems by (auto simp: delete_inactive_def)
  moreover have "delete_all delete_inactive ps ?m = Inr (?m\<lparr>inactive := inactive ?m |` (- set ps)\<rparr>)"
    by (rule Cons.IH) (use Cons.prems in auto)
  moreover have "inactive ?m |` (- set ps) = inactive m |` (- set (p # ps))" by (auto simp: restrict_map_def)
  ultimately show ?case by simp
qed (simp add: restrict_map_def)

lemma sinks_ok_headers:
  "sinks_ok (m\<lparr>mEncryptedHeaders := hs\<rparr>) \<longleftrightarrow> sinks_ok m"
  "sinks_ok (m\<lparr>mEncryptedHeadersInjected := b\<rparr>) \<longleftrightarrow> sinks_ok m"
  "sinks_ok (m\<lparr>mClientStreamSinkMap := c\<rparr>) \<longleftrightarrow> sinks_ok m"
  "length mh = length (mMediaHeaders m) \<Longrightarrow> sinks_ok (m\<lparr>mMediaHeaders := mh\<rparr>) \<longleftrightarrow> sinks_ok m"
  by (simp_all add: sinks_ok_def owned_def feeds_def single_ok_def multi_ok_def)

lemma sinks_ok_mode:
  "mPipelineMode m \<noteq> ePIPELINEMODE_SINGLE \<Longrightarrow> mode \<noteq> ePIPELINEMODE_SINGLE \<Longrightarrow>
     sinks_ok (m\<lparr>mPipelineMode := mode\<rparr>) \<longleftrightarrow> sinks_ok m"
  by (simp add: sinks_ok_def owned_def feeds_def multi_ok_def)

lemma sinks_ok_inactive: "dom I = dom (inactive m) \<Longrightarrow> sinks_ok (m\<lparr>inactive := I\<rparr>) \<longleftrightarrow> sinks_ok m"
  by (simp add: sinks_ok_def owned_def feeds_def single_ok_def multi_ok_def)

lemma sinks_ok_reset: "sinks_ok (reset_headers m) \<longleftrightarrow> sinks_ok m"
  by (simp add: reset_headers_def sinks_ok_headers)

lemma sinks_okD:
  assumes "sinks_ok m"
  shows inactive_map_ok: "om_ok (mInactivePlayersMap m)" "distinct (map snd (mInactivePlayersMap m))"
    and live_gst: "dom (gst m) = owned m" "p \<in> dom (gst m) \<Longrightarrow> p < next_sink m"
    and live_inactive: "dom (inactive m) = snd ` set (mInactivePlayersMap m)" "p \<in> dom (inactive m) \<Longrightarrow> p < next_sink m"
    and active_fed: "(k, p) \<in> set (mActivePlayersMap m) \<Longrightarrow> k \<in> registered m \<and> feeds m k p"
    and pipeline_fed: "mStreamPlayer m = Some p \<Longrightarrow> \<exists>k \<in> registered m. feeds m k p"
    and single_mode: "mPipelineMode m = ePIPELINEMODE_SINGLE \<Longrightarrow> single_ok m"
    and multi_mode: "mPipelineMode m \<noteq> ePIPELINEMODE_SINGLE \<Longrightarrow> multi_ok m"
    and header_count: "length (mMediaHeaders m) = AAMP_TRACK_COUNT"
  using assms unfolding sinks_ok_def by (auto split: if_splits)

lemma inactive_bound: "sinks_ok m \<Longrightarrow> (k, p) \<in> set (mInactivePlayersMap m) \<Longrightarrow> p < next_sink m"
  using live_inactive(1) [of m] live_inactive(2) [of m p] by force

lemma active_ok:
  assumes "sinks_ok m" "(k, p) \<in> set (mActivePlayersMap m)"
  obtains g where "gst m p = Some g" "gst_aamp g = k" "k \<in> registered m"
  using active_fed [OF assms] by (auto simp: feeds_def)

lemma inactive_ok:
  assumes "sinks_ok m" "om_find k (mInactivePlayersMap m) = Some p"
  obtains s where "inactive m p = Some s"
proof -
  have "p \<in> dom (inactive m)" unfolding live_inactive(1) [OF assms(1)] using om_find_value [OF assms(2)] by simp
  with that show ?thesis by auto
qed

lemma pipeline_ok:
  assumes "sinks_ok m" "mStreamPlayer m = Some p"
  obtains g where "gst m p = Some g" "gst_aamp g \<in> registered m"
  using pipeline_fed [OF assms] unfolding feeds_def by blast

lemma sinks_ok_new: "sinks_ok new_sink_manager"
  by (simp add: sinks_ok_def new_sink_manager_def owned_def multi_ok_def)

lemma clear_sinks_ok:
  assumes "sinks_ok m"
  shows "\<exists>m'. Clear_sinks m = Inr m' \<and> sinks_ok m' \<and> gst m' = Map.empty \<and> inactive m' = Map.empty"
proof -
  let ?m = "m\<lparr>mClientStreamSinkMap := []\<rparr>"
  let ?m1 = "?m\<lparr>inactive := inactive ?m |` (- set (map snd (mInactivePlayersMap m)))\<rparr>"
  have inact: "delete_all delete_inactive (map snd (mInactivePlayersMap m)) ?m = Inr ?m1"
    by (rule delete_all_inactive) (use assms in \<open>simp_all add: sinks_ok_def\<close>)
  have none: "inactive ?m1 = Map.empty"
    using assms by (auto simp: sinks_ok_def restrict_map_def fun_eq_iff dom_def image_iff)
  have "\<exists>m2. (if mActivePlayersMap m \<noteq> [] then delete_all delete_gst (map snd (mActivePlayersMap m)) ?m1
       else delete_ptr (mStreamPlayer m) ?m1) = Inr m2 \<and> m2 = ?m1\<lparr>gst := Map.empty\<rparr>"
  proof (cases "mActivePlayersMap m = []")
    case True
    then have "dom (gst m) = set_option (mStreamPlayer m)" using assms by (simp add: sinks_ok_def owned_def)
    then have "gst m = Map.empty \<or> (\<exists>p g. mStreamPlayer m = Some p \<and> gst m = [p \<mapsto> g])"
      by (cases "mStreamPlayer m") (simp_all add: dom_eq_singleton_conv)
    then show ?thesis
      using True \<open>dom (gst m) = _\<close> by (cases "mStreamPlayer m") (auto simp: delete_ptr_def delete_gst_def)
  next
    case False
    have own: "dom (gst m) = snd ` set (mActivePlayersMap m)" "distinct (map snd (mActivePlayersMap m))"
      using assms False by (auto simp: sinks_ok_def owned_def single_ok_def multi_ok_def split: if_splits)
    have "delete_all delete_gst (map snd (mActivePlayersMap m)) ?m1
        = Inr (?m1\<lparr>gst := gst ?m1 |` (- set (map snd (mActivePlayersMap m)))\<rparr>)"
      by (rule delete_all_gst) (use own in simp_all)
    moreover have "gst ?m1 |` (- set (map snd (mActivePlayersMap m))) = Map.empty"
      using own(1) by (auto simp: restrict_map_def fun_eq_iff dom_def image_iff)
    ultimately show ?thesis using False by simp
  qed
  then show ?thesis
    using inact none assms
    by (auto simp: Clear_sinks_def sinks_ok_reset)
      (auto simp: sinks_ok_def owned_def multi_ok_def reset_headers_def)
qed

lemma single_mode_ok:
  assumes "sinks_ok m"
  shows "\<exists>m'. SetSinglePipelineMode aamp m = Inr m' \<and> sinks_ok m'"
proof (cases "mPipelineMode m = ePIPELINEMODE_UNDEFINED")
  case False
  then show ?thesis using assms by (cases "mPipelineMode m") (simp_all add: SetSinglePipelineMode_def)
next
  case True
  let ?A = "mActivePlayersMap m"
  have multi: "mStreamPlayer m = None" "om_ok ?A" "distinct (map snd ?A)" "dom (gst m) = snd ` set ?A"
    using assms True by (auto simp: sinks_ok_def multi_ok_def owned_def)
  let ?m = "m\<lparr>gst := gst m |` (- set (map snd (om_erase aamp ?A)))\<rparr>"
  have "snd ` set (om_erase aamp ?A) \<subseteq> snd ` set ?A \<and> distinct (map snd (om_erase aamp ?A))"
    using om_erase_values [OF multi(2,3)] multi(3) by (cases "om_find aamp ?A") (auto simp: om_erase_absent)
  then have "delete_all delete_gst (map snd (om_erase aamp ?A)) m = Inr ?m"
    using multi(4) by (intro delete_all_gst) simp_all
  then have eq: "SetSinglePipelineMode aamp m = Inr (?m\<lparr>mPipelineMode := ePIPELINEMODE_SINGLE,
      mStreamPlayer := om_find aamp ?A, mActivePlayersMap := (case om_find aamp ?A of None \<Rightarrow> [] | Some p \<Rightarrow> [(aamp, p)])\<rparr>)"
    using True multi
    by (simp add: SetSinglePipelineMode_def om_filter_key om_filter_others split: option.split)
  show ?thesis
  proof (cases "om_find aamp ?A")
    case None
    then have "gst ?m = Map.empty"
      using multi(4) by (auto simp: om_erase_absent restrict_map_def fun_eq_iff dom_def image_iff)
    then show ?thesis
      unfolding eq using assms None by (simp add: sinks_ok_def owned_def single_ok_def)
  next
    case (Some p)
    have p: "(aamp, p) \<in> set ?A" using Some by (rule om_find_Some_in)
    obtain g where g: "gst m p = Some g" "gst_aamp g = aamp" "aamp \<in> registered m"
      using active_ok [OF assms p] by blast
    have "gst ?m = [p \<mapsto> g]"
      using g(1) multi(4) om_erase_values(1) [OF multi(2,3) Some]
      by (auto simp: restrict_map_def fun_eq_iff dom_def)
    then show ?thesis
      unfolding eq using assms Some g live_gst(2) [OF assms, of p]
      by (auto simp: sinks_ok_def owned_def single_ok_def feeds_def)
  qed
qed

lemma create_ok:
  assumes ok: "sinks_ok m" and new: "om_find aamp (mInactivePlayersMap m) = None"
  shows "sinks_ok (CreateStreamSink P aamp cb m)"
proof -
  let ?I = "om_assign aamp (next_sink m) (mInactivePlayersMap m)"
  have fresh: "next_sink m \<notin> dom (gst m)" "next_sink m \<notin> dom (inactive m)" "Suc (next_sink m) \<notin> dom (gst m)"
    using live_gst(2) [OF ok] live_inactive(2) [OF ok] using Suc_lessD by blast+
  then have fresh': "next_sink m \<notin> snd ` set (mInactivePlayersMap m)" "Suc (next_sink m) \<notin> owned m"
    using live_gst(1) [OF ok] live_inactive(1) [OF ok] by blast+
  have act: "om_find aamp (mActivePlayersMap m) = None"
    using active_fed [OF ok] new by (force simp: om_find_key)
  have I: "om_ok ?I" "distinct (map snd ?I)" "snd ` set ?I = insert (next_sink m) (snd ` set (mInactivePlayersMap m))"
    "fst ` set ?I = insert aamp (registered m)"
    using inactive_map_ok [OF ok] new fresh' by (simp_all add: om_assign_values)
  let ?s = "\<lparr>mId3HandlerCallback = cb, mTuned = False\<rparr>"
  let ?g = "\<lparr>gst_aamp = aamp, mEncryptedAamp = Some aamp, mEncryptedAampId = mPlayerId (P aamp), m_ID3MetadataHandler = cb, calls = []\<rparr>"
  let ?m2 = "m\<lparr>next_sink := Suc (next_sink m), inactive := (inactive m)(next_sink m \<mapsto> ?s), mInactivePlayersMap := ?I\<rparr>"
  let ?m3 = "?m2\<lparr>next_sink := Suc (Suc (next_sink m)), gst := (gst m)(Suc (next_sink m) \<mapsto> ?g),
                 mActivePlayersMap := om_assign aamp (Suc (next_sink m)) (mActivePlayersMap m)\<rparr>"
  have core: "dom (inactive ?m2) = snd ` set ?I" "registered ?m2 = insert aamp (registered m)"
    using I live_inactive(1) [OF ok] by auto
  have bound: "p < Suc (next_sink m)" if "p \<in> dom (gst m) \<union> dom (inactive m)" for p
    using that live_gst(2) [OF ok, of p] live_inactive(2) [OF ok, of p] less_SucI by blast
  have bound': "p < Suc (next_sink m)" if "(k, p) \<in> set (mInactivePlayersMap m)" for k p
    using that bound [of p] live_inactive(1) [OF ok] by force
  have same: "feeds ?m2 = feeds m" "owned ?m2 = owned m" "single_ok ?m2 = single_ok m"
    by (simp_all add: feeds_def owned_def single_ok_def fun_eq_iff)
  consider (shared) p where "mPipelineMode m = ePIPELINEMODE_SINGLE" "mStreamPlayer m = Some p"
    | (first) "mPipelineMode m = ePIPELINEMODE_SINGLE" "mStreamPlayer m = None"
    | (own) "mPipelineMode m \<noteq> ePIPELINEMODE_SINGLE"
    by blast
  then show ?thesis
  proof cases
    case shared
    then have "CreateStreamSink P aamp cb m = ?m2"
      using new by (simp add: CreateStreamSink_def new_inactive_def om_insert_def)
    moreover have "sinks_ok ?m2"
      unfolding sinks_ok_def same
      using I core bound bound' shared live_gst(1) [OF ok] active_fed [OF ok] pipeline_fed [OF ok] single_mode [OF ok]
        header_count [OF ok] by auto
    ultimately show ?thesis by simp
  next
    case first
    then have "mActivePlayersMap m = []" using single_mode [OF ok] by (auto simp: single_ok_def)
    moreover from this first have "gst m = Map.empty" using live_gst(1) [OF ok] by (simp add: owned_def)
    ultimately show ?thesis
      using first new I core bound bound' header_count [OF ok]
      by (auto simp: sinks_ok_def CreateStreamSink_def new_inactive_def CreateSinkInstance_def om_insert_def
          owned_def single_ok_def feeds_def intro: less_SucI)
  next
    case own
    let ?A = "om_assign aamp (Suc (next_sink m)) (mActivePlayersMap m)"
    let ?m3 = "?m2\<lparr>next_sink := Suc (Suc (next_sink m)), gst := (gst m)(Suc (next_sink m) \<mapsto> ?g),
                   mActivePlayersMap := ?A\<rparr>"
    have m: "multi_ok m" using own multi_mode [OF ok] by simp
    then have none: "mStreamPlayer m = None" by (simp add: multi_ok_def)
    have "Suc (next_sink m) \<notin> snd ` set (mActivePlayersMap m)" using fresh' by (simp add: owned_def)
    then have A: "om_ok ?A" "distinct (map snd ?A)" "set ?A = insert (aamp, Suc (next_sink m)) (set (mActivePlayersMap m))"
      using m act by (simp_all add: multi_ok_def om_assign_values)
    have "CreateStreamSink P aamp cb m = ?m3"
      using own new act by (cases "mPipelineMode m")
        (simp_all add: CreateStreamSink_def new_inactive_def CreateSinkInstance_def om_insert_def)
    moreover have "feeds ?m3 k p" if "feeds m k p" for k p using that fresh(3) by (auto simp: feeds_def)
    moreover have "feeds ?m3 aamp (Suc (next_sink m))" by (simp add: feeds_def)
    moreover have "owned ?m3 = insert (Suc (next_sink m)) (owned m)" using A(3) by (simp add: owned_def)
    moreover have "multi_ok ?m3" using m A by (simp add: multi_ok_def)
    ultimately show ?thesis
      using own I core A(3) bound bound' none live_gst(1) [OF ok] active_fed [OF ok] header_count [OF ok]
      unfolding sinks_ok_def by (auto intro: less_SucI)
  qed
qed

lemma sinks_ok_gst:
  assumes ok: "sinks_ok m" and p: "mStreamPlayer m = Some p" "gst m p = Some g"
    and fed: "gst_aamp g' = gst_aamp g \<or> gst_aamp g' \<in> registered m \<and> mActivePlayersMap m = []"
  shows "sinks_ok (m\<lparr>gst := (gst m)(p \<mapsto> g')\<rparr>)"
proof -
  let ?m = "m\<lparr>gst := (gst m)(p \<mapsto> g')\<rparr>"
  have "dom (gst ?m) = dom (gst m)" using p by auto
  moreover have "owned ?m = owned m" "single_ok ?m = single_ok m" "multi_ok ?m = multi_ok m"
    by (simp_all add: owned_def single_ok_def multi_ok_def)
  moreover have "\<exists>k \<in> registered ?m. feeds ?m k q" if "mStreamPlayer m = Some q" for q
    using pipeline_fed [OF ok p(1)] fed p that unfolding feeds_def by (auto simp: rev_image_eqI)
  moreover have "feeds ?m k q" if "(k, q) \<in> set (mActivePlayersMap m)" for k q
    using active_fed [OF ok that] fed that p by (cases "q = p") (auto simp: feeds_def)
  ultimately show ?thesis
    using ok active_fed [OF ok] unfolding sinks_ok_def by auto
qed

lemma change_aamp_ok:
  assumes "sinks_ok m" "mStreamPlayer m = Some p" "mActivePlayersMap m = []" "k \<in> registered m"
  shows "\<exists>m'. on_gst (mStreamPlayer m) (ChangeAamp P k cb) m = Inr m' \<and> sinks_ok m'
    \<and> feeds m' k p"
proof -
  obtain g where g: "gst m p = Some g" using pipeline_ok [OF assms(1,2)] by blast
  have "sinks_ok (m\<lparr>gst := (gst m)(p \<mapsto> ChangeAamp P k cb g)\<rparr>)"
    by (rule sinks_ok_gst [OF assms(1,2) g]) (simp add: assms ChangeAamp_def)
  then show ?thesis using assms(2) g by (auto simp: on_gst_def feeds_def ChangeAamp_def)
qed

text \<open>Erasing a player from the inactive map, once nothing feeds the pipeline for it any more.\<close>

lemma drop_inactive_eq:
  assumes "sinks_ok m"
  shows "drop_inactive aamp m = Inr (m\<lparr>mInactivePlayersMap := om_erase aamp (mInactivePlayersMap m),
    inactive := (case om_find aamp (mInactivePlayersMap m) of None \<Rightarrow> inactive m | Some p \<Rightarrow> (inactive m)(p := None))\<rparr>)"
proof (cases "om_find aamp (mInactivePlayersMap m)")
  case (Some p)
  then obtain s where "inactive m p = Some s" using inactive_ok [OF assms] by blast
  with Some show ?thesis by (simp add: drop_inactive_def delete_inactive_def)
qed (simp add: drop_inactive_def om_erase_absent)

definition unregister :: "player \<Rightarrow> AampStreamSinkManager \<Rightarrow> AampStreamSinkManager" where
  "unregister aamp m = m\<lparr>mInactivePlayersMap := om_erase aamp (mInactivePlayersMap m),
    inactive := (case om_find aamp (mInactivePlayersMap m) of None \<Rightarrow> inactive m | Some p \<Rightarrow> (inactive m)(p := None))\<rparr>"

lemma unregister_inactive:
  assumes "sinks_ok m"
  shows "om_ok (mInactivePlayersMap (unregister aamp m))" "distinct (map snd (mInactivePlayersMap (unregister aamp m)))"
    "dom (inactive (unregister aamp m)) = snd ` set (mInactivePlayersMap (unregister aamp m))"
    "registered (unregister aamp m) = registered m - {aamp}"
    "dom (inactive (unregister aamp m)) \<subseteq> dom (inactive m)"
proof -
  note I = inactive_map_ok [OF assms]
  show "om_ok (mInactivePlayersMap (unregister aamp m))" "registered (unregister aamp m) = registered m - {aamp}"
    using I by (simp_all add: unregister_def om_erase_keys)
  show "distinct (map snd (mInactivePlayersMap (unregister aamp m)))"
    "dom (inactive (unregister aamp m)) = snd ` set (mInactivePlayersMap (unregister aamp m))"
    using I om_erase_values [OF I, of aamp] live_inactive(1) [OF assms]
    by (cases "om_find aamp (mInactivePlayersMap m)"; simp add: unregister_def om_erase_absent)+
  show "dom (inactive (unregister aamp m)) \<subseteq> dom (inactive m)"
    by (cases "om_find aamp (mInactivePlayersMap m)") (auto simp: unregister_def)
qed

lemma unregister_ok:
  assumes ok: "sinks_ok m"
    and free: "\<And>k p. (k, p) \<in> set (mActivePlayersMap m) \<Longrightarrow> k \<noteq> aamp"
      "\<And>p. mStreamPlayer m = Some p \<Longrightarrow> \<not> feeds m aamp p"
  shows "sinks_ok (unregister aamp m)"
proof -
  note U = unregister_inactive [OF ok, of aamp]
  let ?m = "unregister aamp m"
  have same: "gst ?m = gst m" "mActivePlayersMap ?m = mActivePlayersMap m" "mStreamPlayer ?m = mStreamPlayer m"
    "feeds ?m = feeds m" "owned ?m = owned m" "single_ok ?m = single_ok m" "multi_ok ?m = multi_ok m"
    "next_sink ?m = next_sink m" "mPipelineMode ?m = mPipelineMode m" "mMediaHeaders ?m = mMediaHeaders m"
    by (simp_all add: unregister_def feeds_def owned_def single_ok_def multi_ok_def fun_eq_iff)
  have "p < next_sink m" if "p \<in> dom (gst m) \<union> dom (inactive ?m)" for p
    using that U(5) live_gst(2) [OF ok] live_inactive(2) [OF ok] by blast
  moreover have "k \<in> registered ?m \<and> feeds m k p" if "(k, p) \<in> set (mActivePlayersMap m)" for k p
    using active_fed [OF ok that] free(1) [OF that] unfolding U(4) by blast
  moreover have "\<exists>k \<in> registered ?m. feeds m k p" if "mStreamPlayer m = Some p" for p
    using pipeline_fed [OF ok that] free(2) [OF that] unfolding U(4) by blast
  ultimately show ?thesis
    using U(1-3) live_gst(1) [OF ok] single_mode [OF ok] multi_mode [OF ok] header_count [OF ok]
    unfolding sinks_ok_def same by auto
qed

text \<open>Deactivating the player that is active, alone or on the way to another one.\<close>

lemma sinks_ok_no_active:
  assumes "sinks_ok m" "mPipelineMode m = ePIPELINEMODE_SINGLE"
  shows "sinks_ok (m\<lparr>mActivePlayersMap := []\<rparr>)"
proof -
  have "owned (m\<lparr>mActivePlayersMap := []\<rparr>) = owned m"
    using single_mode [OF assms] by (auto simp: owned_def single_ok_def)
  then show ?thesis
    using assms by (simp add: sinks_ok_def single_ok_def feeds_def)
qed

lemma single_cases:
  assumes "sinks_ok m" "mPipelineMode m = ePIPELINEMODE_SINGLE"
  obtains (idle) "mActivePlayersMap m = []"
  | (active) k p where "mActivePlayersMap m = [(k, p)]" "mStreamPlayer m = Some p" "feeds m k p" "k \<in> registered m"
  using single_mode [OF assms] active_fed [OF assms(1)] by (auto simp: single_ok_def)

lemma feeds_unique: "feeds m k p \<Longrightarrow> feeds m k' p \<Longrightarrow> k = k'"
  by (auto simp: feeds_def)

lemma deactivate_ok: "sinks_ok m \<Longrightarrow> sinks_ok (DeactivatePlayer aamp stop m)"
proof (cases "mPipelineMode m = ePIPELINEMODE_SINGLE")
  case True
  assume ok: "sinks_ok m"
  show ?thesis
    using ok True
  proof (cases rule: single_cases)
    case (active k p)
    then show ?thesis
      using ok True sinks_ok_no_active [of m] sinks_ok_no_active [of "reset_headers (m\<lparr>mEncryptedHeadersInjected := False, mEncryptedHeaders := []\<rparr>)"]
      by (simp add: DeactivatePlayer_def sinks_ok_headers sinks_ok_reset) (simp add: reset_headers_def)
  qed (simp add: DeactivatePlayer_def ok True)
next
  case False
  then show "sinks_ok m \<Longrightarrow> ?thesis" by (cases "mPipelineMode m") (simp_all add: DeactivatePlayer_def)
qed

lemma delete_multi_ok:
  assumes ok: "sinks_ok m" and mode: "mPipelineMode m \<noteq> ePIPELINEMODE_SINGLE"
  shows "\<exists>m'. delete_multi aamp m = Inr m' \<and> sinks_ok m'"
proof -
  have multi: "mStreamPlayer m = None" "om_ok (mActivePlayersMap m)" "distinct (map snd (mActivePlayersMap m))"
    using multi_mode [OF ok mode] by (simp_all add: multi_ok_def)
  have drop: "drop_inactive aamp m = Inr (unregister aamp m)"
    by (simp add: drop_inactive_eq [OF ok] unregister_def)
  let ?m1 = "unregister aamp m"
  have act: "mActivePlayersMap ?m1 = mActivePlayersMap m" "gst ?m1 = gst m" by (simp_all add: unregister_def)
  show ?thesis
  proof (cases "om_find aamp (mActivePlayersMap m)")
    case None
    have "sinks_ok ?m1"
      by (rule unregister_ok [OF ok]) (use None multi(1) in \<open>auto simp: om_find_key rev_image_eqI\<close>)
    then show ?thesis using None by (simp add: delete_multi_def drop act sinks_ok_headers)
  next
    case (Some p)
    then obtain g where g: "gst m p = Some g" using active_ok [OF ok om_find_Some_in] by blast
    let ?m = "m\<lparr>gst := (gst m)(p := None), mActivePlayersMap := om_erase aamp (mActivePlayersMap m)\<rparr>"
    note E = om_erase_values [OF multi(2,3) Some]
    have "sinks_ok ?m"
    proof -
      have "owned ?m = owned m - {p}" using E(1) multi(1) by (simp add: owned_def)
      moreover have "dom (gst ?m) = dom (gst m) - {p}" by auto
      moreover have "multi_ok ?m" using multi E by (simp add: multi_ok_def)
      moreover have "k \<in> registered ?m \<and> feeds ?m k q" if "(k, q) \<in> set (om_erase aamp (mActivePlayersMap m))" for k q
      proof -
        have "q \<noteq> p" using that E(1) by force
        then show ?thesis
          using active_fed [OF ok, of k q] that multi(2) by (auto simp: set_om_erase feeds_def)
      qed
      ultimately show ?thesis
        using ok mode multi(1) inactive_bound [OF ok] unfolding sinks_ok_def by auto
    qed
    then have "sinks_ok (unregister aamp ?m)"
      by (rule unregister_ok) (use multi in \<open>auto simp: set_om_erase\<close>)
    moreover have "delete_multi aamp m = Inr ((unregister aamp ?m)\<lparr>mClientStreamSinkMap :=
        om_erase aamp (mClientStreamSinkMap m)\<rparr>)"
      using Some g by (simp add: delete_multi_def drop act delete_gst_def) (simp add: unregister_def split: option.split)
    ultimately show ?thesis by (simp add: sinks_ok_headers)
  qed
qed

text \<open>
  Deletion in single pipeline mode: it dereferences a null pipeline exactly when there is none and
  another player remains.
\<close>

text \<open>The two ends of deleting in single pipeline mode: the last player goes with the pipeline, or another one takes it over.\<close>

lemma delete_last_ok:
  assumes ok: "sinks_ok m" and none: "registered m - {aamp} = {}" and act: "\<And>k p. (k, p) \<in> set (mActivePlayersMap m) \<Longrightarrow> k \<noteq> aamp"
  shows "delete_ptr (mStreamPlayer m) (unregister aamp m) = Inr ((unregister aamp m)\<lparr>gst := Map.empty\<rparr>)"
    "sinks_ok ((unregister aamp m)\<lparr>gst := Map.empty, mStreamPlayer := None, mPipelineMode := ePIPELINEMODE_UNDEFINED\<rparr>)"
proof -
  have Nil: "mInactivePlayersMap (unregister aamp m) = []" using unregister_inactive(4) [OF ok, of aamp] none by simp
  have "b \<notin> set (mActivePlayersMap m)" for b
    using none active_fed [OF ok, of "fst b" "snd b"] act [of "fst b" "snd b"] by auto
  then have act: "mActivePlayersMap m = []" by (cases "mActivePlayersMap m") auto
  then have own: "dom (gst m) = set_option (mStreamPlayer m)" using live_gst(1) [OF ok] by (simp add: owned_def)
  show "delete_ptr (mStreamPlayer m) (unregister aamp m) = Inr ((unregister aamp m)\<lparr>gst := Map.empty\<rparr>)"
  proof (cases "mStreamPlayer m")
    case None
    then have "gst m = Map.empty" using own by simp
    then show ?thesis using None by (simp add: delete_ptr_def unregister_def)
  next
    case (Some p)
    then obtain g where "gst m = [p \<mapsto> g]" using own by (auto simp: dom_eq_singleton_conv)
    then show ?thesis using Some by (simp add: delete_ptr_def delete_gst_def unregister_def)
  qed
  have "mActivePlayersMap (unregister aamp m) = mActivePlayersMap m" by (simp add: unregister_def)
  then show "sinks_ok ((unregister aamp m)\<lparr>gst := Map.empty, mStreamPlayer := None, mPipelineMode := ePIPELINEMODE_UNDEFINED\<rparr>)"
    using unregister_inactive(1-3,5) [OF ok, of aamp] live_inactive(2) [OF ok] header_count [OF ok] Nil act
    by (simp add: sinks_ok_def owned_def multi_ok_def) (simp add: unregister_def)
qed

lemma take_over_ok:
  assumes ok: "sinks_ok m" and p: "mStreamPlayer m = Some p" and g: "gst m p = Some g"
    and k: "k \<in> registered m" "k \<noteq> aamp" and act: "\<And>k p. (k, p) \<in> set (mActivePlayersMap m) \<Longrightarrow> k \<noteq> aamp"
    and free: "gst_aamp g = aamp \<and> mActivePlayersMap m = []"
  shows "sinks_ok (unregister aamp (m\<lparr>gst := (gst m)(p \<mapsto> ChangeAamp P k cb g)\<rparr>))"
proof (rule unregister_ok)
  show "sinks_ok (m\<lparr>gst := (gst m)(p \<mapsto> ChangeAamp P k cb g)\<rparr>)"
    by (rule sinks_ok_gst [OF ok p g]) (use k free in \<open>simp add: ChangeAamp_def\<close>)
qed (use act k(2) p in \<open>auto simp: feeds_def ChangeAamp_def\<close>)

lemma not_feeding:
  assumes ok: "sinks_ok m" and mode: "mPipelineMode m = ePIPELINEMODE_SINGLE" and p: "mStreamPlayer m = Some p" and g: "gst m p = Some g"
    and act: "\<And>k p. (k, p) \<in> set (mActivePlayersMap m) \<Longrightarrow> k \<noteq> aamp"
    and busy: "\<not> (gst_aamp g = aamp \<and> mActivePlayersMap m = [])"
  shows "\<not> feeds m aamp p"
proof
  assume "feeds m aamp p"
  then have "mActivePlayersMap m \<noteq> []" using busy g by (simp add: feeds_def)
  then obtain k' where "(k', p) \<in> set (mActivePlayersMap m)" using single_cases [OF ok] mode p by fastforce
  then show False using \<open>feeds m aamp p\<close> active_fed [OF ok] act feeds_unique by blast
qed

lemma delete_single_active:
  assumes ok: "sinks_ok m" and mode: "mPipelineMode m = ePIPELINEMODE_SINGLE"
    and m1: "m1 = (case mActivePlayersMap m of
      (k, p) # _ \<Rightarrow> if k = aamp then m\<lparr>mActivePlayersMap := om_erase aamp (mActivePlayersMap m)\<rparr> else m | [] \<Rightarrow> m)"
  shows "sinks_ok m1" "mPipelineMode m1 = mPipelineMode m" "mStreamPlayer m1 = mStreamPlayer m"
    "registered m1 = registered m" "\<And>k p. (k, p) \<in> set (mActivePlayersMap m1) \<Longrightarrow> k \<noteq> aamp"
proof -
  have "m1 = m \<and> (\<forall>k p. (k, p) \<in> set (mActivePlayersMap m) \<longrightarrow> k \<noteq> aamp) \<or> m1 = m\<lparr>mActivePlayersMap := []\<rparr>"
    using ok mode by (cases rule: single_cases) (auto simp: m1)
  then show "sinks_ok m1" "mPipelineMode m1 = mPipelineMode m" "mStreamPlayer m1 = mStreamPlayer m"
    "registered m1 = registered m" "\<And>k p. (k, p) \<in> set (mActivePlayersMap m1) \<Longrightarrow> k \<noteq> aamp"
    using ok sinks_ok_no_active [OF ok mode] by auto
qed

lemma delete_single_ok:
  assumes ok: "sinks_ok m" and mode: "mPipelineMode m = ePIPELINEMODE_SINGLE"
  shows "if mStreamPlayer m = None \<and> registered m - {aamp} \<noteq> {} then delete_single P aamp m = Inl NullDeref
    else \<exists>m'. delete_single P aamp m = Inr m' \<and> sinks_ok m'"
proof -
  define m1 where "m1 = (case mActivePlayersMap m of
      (k, p) # _ \<Rightarrow> if k = aamp then m\<lparr>mActivePlayersMap := om_erase aamp (mActivePlayersMap m)\<rparr> else m | [] \<Rightarrow> m)"
  note m1 = delete_single_active [OF ok mode m1_def]
  let ?m2 = "unregister aamp m1"
  have drop: "drop_inactive aamp m1 = Inr ?m2" by (simp add: drop_inactive_eq [OF m1(1)] unregister_def)
  have same: "mStreamPlayer ?m2 = mStreamPlayer m" "mActivePlayersMap ?m2 = mActivePlayersMap m1" "gst ?m2 = gst m1"
    "mPipelineMode ?m2 = mPipelineMode m1" "feeds ?m2 = feeds m1"
    using m1(3) by (simp_all add: unregister_def feeds_def fun_eq_iff)
  have reg: "registered ?m2 = registered m - {aamp}" using unregister_inactive(4) [OF m1(1)] m1(4) by simp
  have eq: "delete_single P aamp m =
      (case mInactivePlayersMap ?m2 of
         (k, p) # _ \<Rightarrow>
           ebind (read_gst (mStreamPlayer m) (IsAssociatedAamp aamp) ?m2) (\<lambda>assoc.
           if assoc \<and> mActivePlayersMap m1 = []
           then ebind (GetID3MetadataHandler (Some p) ?m2) (\<lambda>cb. on_gst (mStreamPlayer m) (ChangeAamp P k cb) ?m2)
           else Inr ?m2)
       | [] \<Rightarrow>
           ebind (delete_ptr (mStreamPlayer m) ?m2) (\<lambda>m3.
           Inr (reset_headers (m3\<lparr>mStreamPlayer := None, mPipelineMode := ePIPELINEMODE_UNDEFINED,
                                  mEncryptedHeadersInjected := False\<rparr>))))"
    unfolding delete_single_def m1_def [symmetric] Let_def drop ebind_simps same ..
  show ?thesis
  proof (cases "mInactivePlayersMap ?m2")
    case Nil
    then have none: "registered m - {aamp} = {}" using reg by simp
    then show ?thesis using Nil delete_last_ok [OF m1(1) _ m1(5)] m1(3,4) by (simp add: eq sinks_ok_reset sinks_ok_headers)
  next
    case (Cons b rest)
    obtain k q where b: "b = (k, q)" by force
    have "k \<in> registered ?m2" "q \<in> snd ` set (mInactivePlayersMap ?m2)" unfolding Cons b by simp_all
    then have kq: "k \<in> registered m1" "k \<noteq> aamp" "registered m - {aamp} \<noteq> {}" "q \<in> dom (inactive ?m2)"
      using reg m1(4) unregister_inactive(3) [OF m1(1), of aamp] by blast+
    then obtain s where s: "inactive ?m2 q = Some s" by blast
    show ?thesis
    proof (cases "mStreamPlayer m")
      case None
      then show ?thesis using kq(3) by (simp add: eq Cons b read_gst_def)
    next
      case (Some p)
      then have p: "mStreamPlayer m1 = Some p" using m1(3) by simp
      obtain g where g: "gst m1 p = Some g" using pipeline_ok [OF m1(1) p] by blast
      show ?thesis
      proof (cases "gst_aamp g = aamp \<and> mActivePlayersMap m1 = []")
        case True
        let ?g = "ChangeAamp P k (mId3HandlerCallback s) g"
        have "delete_single P aamp m = Inr (unregister aamp (m1\<lparr>gst := (gst m1)(p \<mapsto> ?g)\<rparr>))"
          using True Some g s same(3)
          by (simp add: eq Cons b read_gst_def IsAssociatedAamp_def GetID3MetadataHandler_def on_gst_def)
            (simp add: unregister_def split: option.split)
        then show ?thesis using Some take_over_ok [where P = P and cb = "mId3HandlerCallback s", OF m1(1) p g kq(1,2) m1(5) True] by simp
      next
        case False
        have "\<not> feeds m1 aamp p" using m1(2) mode by (intro not_feeding [OF m1(1) _ p g m1(5) False]) simp_all
        then have "sinks_ok ?m2" using p m1(5) by (intro unregister_ok [OF m1(1)]) auto
        then show ?thesis using False Some g same(3) by (auto simp: eq Cons b read_gst_def IsAssociatedAamp_def)
      qed
    qed
  qed
qed

lemma read_pipeline:
  "sinks_ok m \<Longrightarrow> mStreamPlayer m = Some p \<Longrightarrow> \<exists>x. read_gst (mStreamPlayer m) f m = Inr x"
  by (metis (no_types, lifting) option.simps(5) pipeline_ok read_gst_def)

lemma on_pipeline_ok:
  assumes "sinks_ok m" "mStreamPlayer m = Some p" "\<And>g. gst_aamp (f g) = gst_aamp g"
  shows "\<exists>m'. on_gst (mStreamPlayer m) f m = Inr m' \<and> sinks_ok m' \<and> mStreamPlayer m' = Some p
    \<and> mActivePlayersMap m' = mActivePlayersMap m \<and> mInactivePlayersMap m' = mInactivePlayersMap m
    \<and> mPipelineMode m' = mPipelineMode m \<and> mClientStreamSinkMap m' = mClientStreamSinkMap m
    \<and> (\<forall>k. feeds m' k p \<longleftrightarrow> feeds m k p)"
proof -
  obtain g where g: "gst m p = Some g" using pipeline_ok [OF assms(1,2)] by blast
  show ?thesis
    using assms g sinks_ok_gst [OF assms(1,2) g, of "f g"] by (simp add: on_gst_def feeds_def)
qed

lemma encrypted_headers_ok:
  assumes ok: "sinks_ok m"
  shows "\<exists>m'. SetEncryptedHeaders P aamp hs m = Inr m' \<and> sinks_ok m'"
proof (cases "mPipelineMode m = ePIPELINEMODE_SINGLE")
  case False
  then show ?thesis using ok by (cases "mPipelineMode m") (simp_all add: SetEncryptedHeaders_def)
next
  case True
  show ?thesis
  proof (cases "mStreamPlayer m")
    case None
    then show ?thesis using ok True by (simp add: SetEncryptedHeaders_def)
  next
    case (Some p)
    obtain i where i: "read_gst (Some p) GetEncryptedAampId m = Inr i" using read_pipeline [OF ok Some] Some by force
    let ?m = "m\<lparr>mEncryptedHeaders := [], mEncryptedHeadersInjected := False\<rparr>"
    have "\<exists>m'. on_gst (Some p) (SetEncryptedAamp P aamp) r = Inr m' \<and> sinks_ok m'"
      if "sinks_ok r" "mStreamPlayer r = Some p" for r
      using on_pipeline_ok [OF that, of "SetEncryptedAamp P aamp"] that(2) by (auto simp: SetEncryptedAamp_def)
    from this [of m] this [of ?m] show ?thesis
      using ok True Some i by (auto simp: SetEncryptedHeaders_def sinks_ok_headers)
  qed
qed

text \<open>
  Activation: a null entry of the inactive map is dereferenced exactly when the pipeline would change
  over to a player that is not registered.
\<close>

lemma set_active_ok:
  assumes ok: "sinks_ok m" and p: "mStreamPlayer m = Some p" and mode: "mPipelineMode m = ePIPELINEMODE_SINGLE"
    and idle: "mActivePlayersMap m = []" and reg: "aamp \<in> registered m"
  shows "\<exists>m'. SetActive P aamp pos (m\<lparr>mActivePlayersMap := [(aamp, p)]\<rparr>) = Inr m' \<and> sinks_ok m'
    \<and> mStreamPlayer m' = Some p \<and> mActivePlayersMap m' = [(aamp, p)] \<and> mPipelineMode m' = mPipelineMode m
    \<and> mInactivePlayersMap m' = mInactivePlayersMap m \<and> mClientStreamSinkMap m' = mClientStreamSinkMap m
    \<and> feeds m' aamp p"
proof -
  let ?m = "m\<lparr>mActivePlayersMap := [(aamp, p)]\<rparr>"
  obtain q where q: "om_find aamp (mInactivePlayersMap m) = Some q" using om_find_keyD [OF reg] by blast
  obtain s where s: "inactive m q = Some s" using inactive_ok [OF ok q] by blast
  obtain g where g: "gst m p = Some g" using pipeline_ok [OF ok p] by blast
  let ?g = "ChangeAamp P aamp (mId3HandlerCallback s) g"
  let ?m1 = "?m\<lparr>gst := (gst m)(p \<mapsto> ?g)\<rparr>"
  have m0: "sinks_ok (m\<lparr>gst := (gst m)(p \<mapsto> ?g)\<rparr>)"
    by (rule sinks_ok_gst [OF ok p g]) (simp add: ChangeAamp_def reg idle)
  have m1: "sinks_ok ?m1"
    using m0 p reg mode idle
    by (auto simp: sinks_ok_def owned_def single_ok_def feeds_def ChangeAamp_def)
  obtain m2 where m2: "on_gst (Some p) (call (FlushSink pos (rate (P aamp)) True)) ?m1 = Inr m2"
      "sinks_ok m2" "mStreamPlayer m2 = Some p" "mActivePlayersMap m2 = [(aamp, p)]" "mPipelineMode m2 = mPipelineMode m"
      "mInactivePlayersMap m2 = mInactivePlayersMap m" "mClientStreamSinkMap m2 = mClientStreamSinkMap m" "feeds m2 aamp p"
    using on_pipeline_ok [OF m1, of p "call (FlushSink pos (rate (P aamp)) True)"] p
    by (auto simp: call_def feeds_def ChangeAamp_def)
  obtain m3 where m3: "on_gst (Some p) (call (SetSubtitleMute (subtitles_muted (P aamp)))) m2 = Inr m3"
      "sinks_ok m3" "mStreamPlayer m3 = Some p" "mActivePlayersMap m3 = [(aamp, p)]" "mPipelineMode m3 = mPipelineMode m"
      "mInactivePlayersMap m3 = mInactivePlayersMap m" "mClientStreamSinkMap m3 = mClientStreamSinkMap m" "feeds m3 aamp p"
    using on_pipeline_ok [OF m2(2,3), of "call (SetSubtitleMute (subtitles_muted (P aamp)))"] m2
    by (auto simp: call_def)
  obtain m4 where m4: "on_gst (Some p) (call ResetFirstFrame) m3 = Inr m4"
      "sinks_ok m4" "mStreamPlayer m4 = Some p" "mActivePlayersMap m4 = [(aamp, p)]" "mPipelineMode m4 = mPipelineMode m"
      "mInactivePlayersMap m4 = mInactivePlayersMap m" "mClientStreamSinkMap m4 = mClientStreamSinkMap m" "feeds m4 aamp p"
    using on_pipeline_ok [OF m3(2,3), of "call ResetFirstFrame"] m3 by (auto simp: call_def)
  have "on_gst (Some p) (ChangeAamp P aamp (mId3HandlerCallback s)) ?m = Inr ?m1" using g by (simp add: on_gst_def)
  then have "SetActive P aamp pos ?m =
      (if \<not> tune_completed (P aamp) \<and> play_enabled (P aamp) then Inr m4 else Inr m3)"
    using p q s m2 m3 m4(1) mode by (simp add: SetActive_def GetID3MetadataHandler_def)
  then show ?thesis using m3 m4 by auto
qed

lemma activate_ok:
  assumes ok: "sinks_ok m" and mode: "mPipelineMode m = ePIPELINEMODE_SINGLE" and p: "mStreamPlayer m = Some p"
  shows "if aamp \<in> registered m
    then \<exists>m'. ActivatePlayer rnd P aamp m = Inr m' \<and> sinks_ok m' \<and> mActivePlayersMap m' = [(aamp, p)]
      \<and> mStreamPlayer m' = Some p \<and> mPipelineMode m' = mPipelineMode m
      \<and> mInactivePlayersMap m' = mInactivePlayersMap m \<and> mClientStreamSinkMap m' = mClientStreamSinkMap m
      \<and> feeds m' aamp p
    else ActivatePlayer rnd P aamp m = Inl NullDeref"
proof (cases "\<exists>q. mActivePlayersMap m = [(aamp, q)]")
  case True
  have "mActivePlayersMap m = [(aamp, p)] \<and> aamp \<in> registered m \<and> feeds m aamp p"
    using ok mode by (cases rule: single_cases) (use p True in auto)
  then show ?thesis using ok mode p by (simp add: ActivatePlayer_def)
next
  case False
  let ?m = "m\<lparr>mActivePlayersMap := []\<rparr>"
  have ok': "sinks_ok ?m" by (rule sinks_ok_no_active [OF ok mode])
  have eq: "ActivatePlayer rnd P aamp m =
      SetActive P aamp (flush_position rnd (P aamp)) (?m\<lparr>mActivePlayersMap := [(aamp, p)]\<rparr>)"
    using ok mode
  proof (cases rule: single_cases)
    case idle
    then have "m\<lparr>mActivePlayersMap := []\<rparr> = m" by simp
    then show ?thesis using idle mode p by (simp add: ActivatePlayer_def om_insert_def)
  next
    case (active k q)
    then show ?thesis using False mode p by (simp add: ActivatePlayer_def om_insert_def)
  qed
  show ?thesis
  proof (cases "aamp \<in> registered m")
    case True
    then show ?thesis
      using set_active_ok [OF ok', of p aamp P "flush_position rnd (P aamp)"] p mode by (auto simp: eq)
  next
    case False
    then have "om_find aamp (mInactivePlayersMap m) = None" by (simp add: om_find_key)
    then show ?thesis using False by (simp add: eq SetActive_def GetID3MetadataHandler_def)
  qed
qed

lemma set_tuned_ok: "sinks_ok m \<Longrightarrow> \<exists>m'. SetTuned aamp m = Inr m' \<and> sinks_ok m'"
proof (cases "om_find aamp (mInactivePlayersMap m)")
  case (Some p)
  assume ok: "sinks_ok m"
  then obtain s where s: "inactive m p = Some s" using inactive_ok [OF _ Some] by blast
  have "dom ((inactive m)(p \<mapsto> s\<lparr>mTuned := True\<rparr>)) = dom (inactive m)" using s by auto
  then show ?thesis
    using ok s Some by (simp add: SetTuned_def sinks_ok_inactive)
qed (simp add: SetTuned_def)

lemma update_tuning_ok:
  assumes "sinks_ok m"
  shows "\<exists>m'. UpdateTuningPlayer P aamp m = Inr m' \<and> sinks_ok m'"
proof (cases "mPipelineMode m = ePIPELINEMODE_SINGLE \<and> mActivePlayersMap m = [] \<and> mStreamPlayer m \<noteq> None
    \<and> om_find aamp (mInactivePlayersMap m) \<noteq> None")
  case True
  then obtain p q where p: "mStreamPlayer m = Some p" and q: "om_find aamp (mInactivePlayersMap m) = Some q" by blast
  obtain s where "inactive m q = Some s" using inactive_ok [OF assms q] by blast
  then show ?thesis
    using True q change_aamp_ok [OF assms p, of aamp P] om_find_value [OF q]
    by (auto simp: UpdateTuningPlayer_def GetID3MetadataHandler_def)
next
  case False
  then show ?thesis using assms by (cases "mPipelineMode m") (auto simp: UpdateTuningPlayer_def)
qed

lemma activate_keeps:
  assumes "sinks_ok m" "ActivatePlayer rnd P aamp m = Inr m'"
  shows "sinks_ok m'"
proof (cases "mPipelineMode m = ePIPELINEMODE_SINGLE")
  case True
  show ?thesis
  proof (cases "mStreamPlayer m")
    case None
    then have "mActivePlayersMap m = []" using single_mode [OF assms(1) True] by (auto simp: single_ok_def)
    then show ?thesis using None True assms by (simp add: ActivatePlayer_def)
  next
    case (Some p)
    then show ?thesis using activate_ok [OF assms(1) True Some, of aamp rnd P] assms(2) by (auto split: if_splits)
  qed
next
  case False
  then have "m' = m \<or> m' = m\<lparr>mPipelineMode := ePIPELINEMODE_MULTI\<rparr>"
    using assms(2) by (cases "mPipelineMode m") (auto simp: ActivatePlayer_def)
  then show ?thesis using assms(1) False by (auto simp: sinks_ok_mode)
qed

lemma delete_keeps: "sinks_ok m \<Longrightarrow> DeleteStreamSink P aamp m = Inr m' \<Longrightarrow> sinks_ok m'"
  using delete_single_ok [of m aamp P] delete_multi_ok [of m aamp]
  by (cases "mPipelineMode m") (auto simp: DeleteStreamSink_def split: if_splits)

lemma set_sink_ok: "sinks_ok m \<Longrightarrow> sinks_ok (SetStreamSink aamp c m)"
  by (cases "mPipelineMode m = ePIPELINEMODE_UNDEFINED") (simp_all add: SetStreamSink_def sinks_ok_headers sinks_ok_mode)

lemma media_headers_ok:
  "sinks_ok m \<Longrightarrow> sinks_ok (AddMediaHeader track header m)"
  "sinks_ok m \<Longrightarrow> sinks_ok (RemoveMediaHeader track m)"
  by (simp_all add: AddMediaHeader_def RemoveMediaHeader_def sinks_ok_headers)

lemma sinks_ok_step: "sink_step m t \<Longrightarrow> sinks_ok m \<Longrightarrow> sinks_ok t"
proof (induction rule: sink_step.induct)
  case (2 m m')
  then show ?case using clear_sinks_ok [of m] by auto
next
  case (3 aamp m m')
  then show ?case using single_mode_ok [of m aamp] by auto
next
  case (6 P aamp hs m m')
  then show ?case using encrypted_headers_ok [of m P aamp hs] by auto
next
  case (11 aamp m m')
  then show ?case using set_tuned_ok [of m aamp] by auto
next
  case (12 P aamp m m')
  then show ?case using update_tuning_ok [of m P aamp] by auto
next
  case (5 P aamp m m')
  then show ?case by (blast intro: delete_keeps)
next
  case (10 rnd P aamp m m')
  then show ?case by (blast intro: activate_keeps)
qed (simp_all add: create_ok set_sink_ok ReinjectEncryptedHeaders_def GetEncryptedHeaders_def
       sinks_ok_headers deactivate_ok media_headers_ok)

interpretation sink_manager: stateful "\<lambda>m. m = new_sink_manager" sink_step sinks_ok
  by unfold_locales (auto intro: sinks_ok_new sinks_ok_step)

lemma tuned_other_ok:
  assumes "sinks_ok m"
  shows "\<exists>b. tuned_other aamp m (mInactivePlayersMap m) = Inr b"
proof -
  have "set I \<subseteq> set (mInactivePlayersMap m) \<Longrightarrow> \<exists>b. tuned_other aamp m I = Inr b" for I
  proof (induction I)
    case (Cons b I)
    obtain k p where b: "b = (k, p)" by force
    then have "p \<in> dom (inactive m)" using Cons.prems live_inactive(1) [OF assms] by force
    then show ?case using Cons b by auto
  qed auto
  then show ?thesis by blast
qed

section \<open>Properties\<close>

definition sample_player :: "player \<Rightarrow> PrivateInstanceAAMP" where
  "sample_player a = \<lparr>mPlayerId = int a, position_ms = 4000, mpStreamAbstractionAAMP = None, progressive = False,
     rate = 1, subtitles_muted = True, tune_completed = False, play_enabled = True, downloads_enabled = True\<rparr>"

text \<open>Two players that share one pipeline, the second of them waiting.\<close>

definition sample_sinks :: AampStreamSinkManager where
  "sample_sinks =
     (case SetSinglePipelineMode 7 (CreateStreamSink sample_player 7 70 new_sink_manager) of
        Inr m \<Rightarrow> CreateStreamSink sample_player 8 80 m
      | Inl _ \<Rightarrow> new_sink_manager)"

lemmas sink_eval = sample_sinks_def SetSinglePipelineMode_def CreateStreamSink_def new_sink_manager_def
  new_inactive_def CreateSinkInstance_def om_insert_def sample_player_def

lemma sample_sinks_reach: "reach (\<lambda>m. m = new_sink_manager) sink_step sample_sinks"
proof -
  let ?m1 = "CreateStreamSink sample_player 7 70 new_sink_manager"
  have "sink_step new_sink_manager ?m1"
    by (rule sink_step.intros(1)) (simp add: new_sink_manager_def)
  then have 1: "reach (\<lambda>m. m = new_sink_manager) sink_step ?m1"
    using reach_start [where s = new_sink_manager] reach_step by (metis (mono_tags, lifting))
  obtain m2 where m2: "SetSinglePipelineMode 7 ?m1 = Inr m2" by (simp add: sink_eval)
  then have 2: "reach (\<lambda>m. m = new_sink_manager) sink_step m2"
    using reach_step [OF 1] sink_step.intros(3) by blast
  have "om_find 8 (mInactivePlayersMap m2) = None" using m2 by (simp add: sink_eval) (auto simp: sink_eval)
  then show ?thesis
    using reach_step [OF 2 sink_step.intros(1)] m2 by (simp add: sample_sinks_def)
qed

text \<open>
  C3: in every state the calls of the manager lead to, no stream sink is leaked and none is used
  after its deletion: the pipelines alive are exactly those the map of active players and the single
  pipeline pointer refer to, the inactive sinks alive exactly those of the registered players.  Every
  active player is registered and its pipeline is attached to it; in single pipeline mode there is at
  most one active player, the pipeline it feeds is the shared one, and the shared pipeline is always attached to
  a registered player, never to a deleted one.
\<close>

theorem sinks_owned:
  assumes "reach (\<lambda>m. m = new_sink_manager) sink_step m"
  shows "dom (gst m) = snd ` set (mActivePlayersMap m) \<union> set_option (mStreamPlayer m)
    \<and> dom (inactive m) = snd ` set (mInactivePlayersMap m)
    \<and> (\<forall>(k, p) \<in> set (mActivePlayersMap m).
         k \<in> fst ` set (mInactivePlayersMap m) \<and> map_option gst_aamp (gst m p) = Some k)
    \<and> (mPipelineMode m = ePIPELINEMODE_SINGLE \<longrightarrow>
         length (mActivePlayersMap m) \<le> 1 \<and> (\<forall>(k, p) \<in> set (mActivePlayersMap m). mStreamPlayer m = Some p))
    \<and> (\<forall>p. mStreamPlayer m = Some p \<longrightarrow>
         (\<exists>g. gst m p = Some g \<and> gst_aamp g \<in> fst ` set (mInactivePlayersMap m)))"
proof -
  have ok: "sinks_ok m" by (rule sink_manager.inv_reach [OF assms])
  have "\<forall>(k, p) \<in> set (mActivePlayersMap m).
      k \<in> fst ` set (mInactivePlayersMap m) \<and> map_option gst_aamp (gst m p) = Some k"
    using active_fed [OF ok] unfolding feeds_def by fastforce
  moreover have "\<forall>p. mStreamPlayer m = Some p \<longrightarrow>
      (\<exists>g. gst m p = Some g \<and> gst_aamp g \<in> fst ` set (mInactivePlayersMap m))"
    using pipeline_fed [OF ok] unfolding feeds_def by blast
  moreover have "mPipelineMode m = ePIPELINEMODE_SINGLE \<longrightarrow>
      length (mActivePlayersMap m) \<le> 1 \<and> (\<forall>(k, p) \<in> set (mActivePlayersMap m). mStreamPlayer m = Some p)"
    using single_mode [OF ok] by (auto simp: single_ok_def)
  ultimately show ?thesis
    using live_gst(1) [OF ok] live_inactive(1) [OF ok] by (simp add: owned_def)
qed

theorem sinks_owned_witness:
  "mActivePlayersMap sample_sinks = [(7, 1)] \<and> map_option gst_aamp (gst sample_sinks 1) = Some 7
    \<and> mStreamPlayer sample_sinks = Some 1"
  using sinks_owned [OF sample_sinks_reach] by (simp add: sink_eval)

text \<open>
  C32: which calls fault.  In a reachable state a call dereferences a null pointer in two cases only:
  \<open>DeleteStreamSink\<close>, in single pipeline mode without a pipeline, when another player remains, and
  \<open>ActivatePlayer\<close>, in single pipeline mode with a pipeline, for a player that was never registered.
  Every other call returns; nothing is used after its deletion and nothing is deleted twice.
\<close>

theorem sink_manager_faults:
  assumes "reach (\<lambda>m. m = new_sink_manager) sink_step m"
  shows "(DeleteStreamSink P aamp m = Inl e \<longleftrightarrow>
        e = NullDeref \<and> mPipelineMode m = ePIPELINEMODE_SINGLE \<and> mStreamPlayer m = None
        \<and> fst ` set (mInactivePlayersMap m) - {aamp} \<noteq> {})
    \<and> (ActivatePlayer rnd P aamp m = Inl e \<longleftrightarrow>
        e = NullDeref \<and> mPipelineMode m = ePIPELINEMODE_SINGLE \<and> mStreamPlayer m \<noteq> None
        \<and> aamp \<notin> fst ` set (mInactivePlayersMap m))
    \<and> \<not> isl (Clear_sinks m) \<and> \<not> isl (SetSinglePipelineMode aamp m) \<and> \<not> isl (SetEncryptedHeaders P aamp hs m)
    \<and> \<not> isl (SetTuned aamp m) \<and> \<not> isl (UpdateTuningPlayer P aamp m) \<and> \<not> isl (GetStoppingStreamSink aamp m)"
proof -
  have ok: "sinks_ok m" by (rule sink_manager.inv_reach [OF assms])
  have "DeleteStreamSink P aamp m = Inl e \<longleftrightarrow>
      e = NullDeref \<and> mPipelineMode m = ePIPELINEMODE_SINGLE \<and> mStreamPlayer m = None \<and> registered m - {aamp} \<noteq> {}"
    using delete_single_ok [OF ok, of aamp P] delete_multi_ok [OF ok, of aamp]
    by (cases "mPipelineMode m") (auto simp: DeleteStreamSink_def split: if_splits)
  moreover have "ActivatePlayer rnd P aamp m = Inl e \<longleftrightarrow>
      e = NullDeref \<and> mPipelineMode m = ePIPELINEMODE_SINGLE \<and> mStreamPlayer m \<noteq> None \<and> aamp \<notin> registered m"
  proof (cases "mPipelineMode m")
    case ePIPELINEMODE_SINGLE
    then show ?thesis
      using activate_ok [OF ok, of _ aamp rnd P] single_mode [OF ok]
      by (cases "mStreamPlayer m") (auto simp: ActivatePlayer_def single_ok_def split: if_splits)
  qed (simp_all add: ActivatePlayer_def)
  moreover have "\<not> isl (Clear_sinks m)" "\<not> isl (SetSinglePipelineMode aamp m)" "\<not> isl (SetEncryptedHeaders P aamp hs m)"
    "\<not> isl (SetTuned aamp m)" "\<not> isl (UpdateTuningPlayer P aamp m)"
    using clear_sinks_ok [OF ok] single_mode_ok [OF ok, of aamp] encrypted_headers_ok [OF ok, of P aamp hs]
      set_tuned_ok [OF ok, of aamp] update_tuning_ok [OF ok, of P aamp] by auto
  moreover have "\<not> isl (GetStoppingStreamSink aamp m)"
    using tuned_other_ok [OF ok, of aamp] by (auto simp: GetStoppingStreamSink_def)
  ultimately show ?thesis by blast
qed

theorem sink_manager_faults_witness:
  "DeleteStreamSink sample_player 9 sample_sinks \<noteq> Inl NullDeref
    \<and> ActivatePlayer id sample_player 9 sample_sinks = Inl NullDeref"
  using sink_manager_faults [OF sample_sinks_reach, of sample_player 9 NullDeref id]
  by (simp add: sink_eval)

text \<open>
  C27: the hand-over of the single pipeline.  Activating a registered player in single pipeline mode
  makes it the one active player; it then gets the shared pipeline from \<open>GetStreamSink\<close>, the pipeline is
  attached to it, and every other registered player that has no client sink gets its inactive sink.  When the
  player is stopped the pipeline is kept, no player is active, and every registered player
  without a client sink gets its inactive sink.
\<close>

theorem pipeline_handover:
  assumes "reach (\<lambda>m. m = new_sink_manager) sink_step m" "mPipelineMode m = ePIPELINEMODE_SINGLE"
    "mStreamPlayer m = Some p" "aamp \<in> fst ` set (mInactivePlayersMap m)" "mClientStreamSinkMap m = []"
  shows "\<exists>m'. ActivatePlayer rnd P aamp m = Inr m'
    \<and> GetStreamSink aamp m' = Some (GstSink p) \<and> GetActiveStreamSink k m' = Some (GstSink p)
    \<and> map_option gst_aamp (gst m' p) = Some aamp
    \<and> (k \<noteq> aamp \<longrightarrow> GetStreamSink k m' = map_option InactiveSink (om_find k (mInactivePlayersMap m)))
    \<and> (let s = DeactivatePlayer aamp stop m'
       in mStreamPlayer s = Some p \<and> gst s p \<noteq> None \<and> mActivePlayersMap s = []
         \<and> GetStreamSink k s = map_option InactiveSink (om_find k (mInactivePlayersMap m)))"
proof -
  have ok: "sinks_ok m" by (rule sink_manager.inv_reach [OF assms(1)])
  obtain m' where m': "ActivatePlayer rnd P aamp m = Inr m'" "mActivePlayersMap m' = [(aamp, p)]"
      "mStreamPlayer m' = Some p" "mPipelineMode m' = mPipelineMode m"
      "mInactivePlayersMap m' = mInactivePlayersMap m" "mClientStreamSinkMap m' = mClientStreamSinkMap m" "feeds m' aamp p"
    using activate_ok [OF ok assms(2,3), of aamp rnd P] assms(4) by auto
  have "GetStreamSink aamp m' = Some (GstSink p)" "GetActiveStreamSink k m' = Some (GstSink p)"
    "k \<noteq> aamp \<longrightarrow> GetStreamSink k m' = map_option InactiveSink (om_find k (mInactivePlayersMap m))"
    using m' assms(2,5) by (simp_all add: GetStreamSink_def GetStreamSinkNoLock_def GetActiveStreamSink_def)
  moreover have "map_option gst_aamp (gst m' p) = Some aamp" "gst m' p \<noteq> None" using m'(7) by (auto simp: feeds_def)
  ultimately show ?thesis
    using m' assms(2,5)
    by (simp add: DeactivatePlayer_def reset_headers_def GetStreamSink_def GetStreamSinkNoLock_def Let_def)
qed

theorem pipeline_handover_witness:
  "\<exists>m'. ActivatePlayer id sample_player 8 sample_sinks = Inr m'
    \<and> GetStreamSink 8 m' = Some (GstSink 1) \<and> GetStreamSink 7 m' = Some (InactiveSink 0)"
proof -
  have s: "mPipelineMode sample_sinks = ePIPELINEMODE_SINGLE" "mStreamPlayer sample_sinks = Some 1"
    "8 \<in> fst ` set (mInactivePlayersMap sample_sinks)" "mClientStreamSinkMap sample_sinks = []"
    "om_find 7 (mInactivePlayersMap sample_sinks) = Some 0"
    by (simp_all add: sink_eval)
  show ?thesis
    using pipeline_handover [OF sample_sinks_reach s(1-4), of id sample_player 7] s(5) by auto
qed

end
