(* ===== verification/Abr_Manager.thy ===== *)
theory Abr_Manager
  imports Aamp_Time "HOL-Library.List_Lexorder" "HOL-Library.Char_ord"
begin

text \<open>
  The profile part of \<open>ABRManager\<close> (\<open>abr.cpp\<close>): the list of profiles, the index from period and
  bandwidth to profile, and the selection of profiles from it.  A bandwidth is a \<open>long\<close> and a profile
  index an \<open>int\<close>; an access of the vector outside its range and the dereferencing of \<open>end()\<close> are
  faults.  \<open>mSortedBWProfileList[periodId]\<close> inserts an empty map for a period that has none, so that
  also the queries return a new state.  \<open>std::sort\<close> is a stable sort here, one of the orders it may
  leave for equal bandwidths.  The configuration read by \<open>ReadPlayerConfig\<close> is an argument (without its
  logging flags and the choice of the estimator), and
  \<open>rnd\<close> is the rounding of double precision.  The bandwidth estimate is in \<open>Bandwidth_Estimator\<close>.
  The lemmas show that the index is exact in every reachable state, that the selections are optimal for it
  and which calls fault.
\<close>

section \<open>State\<close>

datatype abr_fault = OutOfRange | DerefEndOfMap

record ProfileInfo =
  isIframeTrack :: bool
  bandwidthBitsPerSecond :: int
  width :: int
  height :: int
  periodId :: string
  userData :: int

type_synonym bw_map = "(int, int) omap"

record ABRManager =
  bLowLatencyServiceConfigured :: bool
  mProfiles :: "ProfileInfo list"
  mSortedBWProfileList :: "(string, bw_map) omap"
  mRampupFromSteadyStateLoop :: int
  mLowestIframeProfile :: int
  mDesiredIframeProfile :: int
  mDefaultInitBitrate :: int
  mAbrProfileChangeUpCount :: int
  mAbrProfileChangeDownCount :: int
  mDefaultIframeBitrate :: int

record AampAbrConfig =
  abrCacheLife :: int
  abrCacheLength :: int
  abrSkipDuration :: int
  abrNwConsistency :: int
  abrThresholdSize :: int
  abrMaxBuffer :: int
  abrMinBuffer :: int
  abrCacheOutlier :: int
  abrBufferCounter :: int

datatype BitrateChangeReason = eAAMP_BITRATE_CHANGE_BY_ABR | eAAMP_BITRATE_CHANGE_BY_RAMPDOWN
  | eAAMP_BITRATE_CHANGE_BY_TUNE | eAAMP_BITRATE_CHANGE_BY_SEEK | eAAMP_BITRATE_CHANGE_BY_TRICKPLAY
  | eAAMP_BITRATE_CHANGE_BY_BUFFER_FULL | eAAMP_BITRATE_CHANGE_BY_BUFFER_EMPTY | eAAMP_BITRATE_CHANGE_BY_FOG_ABR
  | eAAMP_BITRATE_CHANGE_BY_OTA | eAAMP_BITRATE_CHANGE_BY_HDMIIN | eAAMP_BITRATE_CHANGE_MAX

definition INVALID_PROFILE :: int where
  "INVALID_PROFILE = -1"

definition HEIGHT_FULL_HD :: int where
  "HEIGHT_FULL_HD = 1080"

definition WIDTH_FULL_HD :: int where
  "WIDTH_FULL_HD = 1920"

definition new_abr :: ABRManager where
  "new_abr = \<lparr>bLowLatencyServiceConfigured = False, mProfiles = [], mSortedBWProfileList = [],
     mRampupFromSteadyStateLoop = 1, mLowestIframeProfile = INVALID_PROFILE, mDesiredIframeProfile = 0,
     mDefaultInitBitrate = 1000000, mAbrProfileChangeUpCount = 0, mAbrProfileChangeDownCount = 0,
     mDefaultIframeBitrate = 0\<rparr>"

section \<open>Access\<close>

definition at_period :: "string \<Rightarrow> ABRManager \<Rightarrow> bw_map \<times> ABRManager" where
  "at_period p m =
     (case om_find p (mSortedBWProfileList m) of
        Some pm \<Rightarrow> (pm, m)
      | None \<Rightarrow> ([], m\<lparr>mSortedBWProfileList := om_assign p [] (mSortedBWProfileList m)\<rparr>))"

definition profile_at :: "int \<Rightarrow> ABRManager \<Rightarrow> abr_fault + ProfileInfo" where
  "profile_at i m = (if 0 \<le> i \<and> i < int (length (mProfiles m)) then Inr (mProfiles m ! nat i) else Inl OutOfRange)"

text \<open>\<open>static_cast<size_t>(i) >= profileCount\<close>, and the adjustment that follows it in several operations.\<close>

definition too_big :: "int \<Rightarrow> ABRManager \<Rightarrow> bool" where
  "too_big i m \<longleftrightarrow> i < 0 \<or> int (length (mProfiles m)) \<le> i"

definition clamp :: "int \<Rightarrow> ABRManager \<Rightarrow> int" where
  "clamp i m = (if too_big i m then i - 1 else i)"

definition map_begin :: "bw_map \<Rightarrow> abr_fault + int" where
  "map_begin pm = (case pm of [] \<Rightarrow> Inl DerefEndOfMap | (b, i) # _ \<Rightarrow> Inr i)"

text \<open>The position \<open>find\<close> returns, the length of the map standing for \<open>end()\<close>.\<close>

definition map_pos :: "int \<Rightarrow> bw_map \<Rightarrow> nat" where
  "map_pos b pm = length (takeWhile (\<lambda>(a, i). a \<noteq> b) pm)"

section \<open>Adding and removing profiles\<close>

definition addSortedBWProfileList :: "ProfileInfo \<Rightarrow> int \<Rightarrow> ABRManager \<Rightarrow> ABRManager" where
  "addSortedBWProfileList profileInfo idx m =
     (if \<not> isIframeTrack profileInfo
      then let (pm, m') = at_period (periodId profileInfo) m
           in m'\<lparr>mSortedBWProfileList := om_assign (periodId profileInfo)
                   (om_assign (bandwidthBitsPerSecond profileInfo) idx pm) (mSortedBWProfileList m')\<rparr>
      else m)"

definition addProfile :: "ProfileInfo \<Rightarrow> ABRManager \<Rightarrow> ABRManager" where
  "addProfile profile m =
     (addSortedBWProfileList profile (int (length (mProfiles m))) m)\<lparr>mProfiles := mProfiles m @ [profile]\<rparr>"

definition clearProfiles :: "ABRManager \<Rightarrow> ABRManager" where
  "clearProfiles m = m\<lparr>mProfiles := [], mSortedBWProfileList := []\<rparr>"

text \<open>The inner loop of \<open>removeProfiles\<close>: the first profile of that period and bandwidth goes.\<close>

fun erase_profile :: "string \<Rightarrow> int \<Rightarrow> ProfileInfo list \<Rightarrow> ProfileInfo list" where
  "erase_profile p bw [] = []"
| "erase_profile p bw (x # xs) =
     (if periodId x = p \<and> bandwidthBitsPerSecond x = bw then xs else x # erase_profile p bw xs)"

text \<open>The loop that builds the index again: the profiles from \<open>idx\<close> on.\<close>

fun rebuild :: "int \<Rightarrow> int \<Rightarrow> ProfileInfo list \<Rightarrow> ABRManager \<Rightarrow> int \<Rightarrow> int \<times> ABRManager" where
  "rebuild currentBandwidth idx [] m modified = (modified, m)"
| "rebuild currentBandwidth idx (x # xs) m modified =
     rebuild currentBandwidth (idx + 1) xs (addSortedBWProfileList x idx m)
       (if currentBandwidth = bandwidthBitsPerSecond x then idx else modified)"

definition removeProfiles :: "int list \<Rightarrow> int \<Rightarrow> string \<Rightarrow> ABRManager \<Rightarrow> abr_fault + (int \<times> ABRManager)" where
  "removeProfiles profileBPS currentProfileIndex p m =
     (if mProfiles m = [] then Inr (INVALID_PROFILE, m)
      else ebind (profile_at (clamp currentProfileIndex m) m) (\<lambda>cur.
        let ps = fold (erase_profile p) profileBPS (mProfiles m)
        in Inr (rebuild (bandwidthBitsPerSecond cur) 0 ps
                  (m\<lparr>mProfiles := ps, mSortedBWProfileList := []\<rparr>) INVALID_PROFILE)))"

section \<open>Selecting a profile\<close>

text \<open>The loop of \<open>getInitialProfileIndex\<close>: the last entry up to the limit.\<close>

fun last_upto :: "int \<Rightarrow> bw_map \<Rightarrow> int \<Rightarrow> int" where
  "last_upto limit [] desired = desired"
| "last_upto limit ((b, i) # pm) desired = (if limit < b then desired else last_upto limit pm i)"

definition getInitialProfileIndex :: "bool \<Rightarrow> string \<Rightarrow> ABRManager \<Rightarrow> abr_fault + (int \<times> ABRManager)" where
  "getInitialProfileIndex chooseMediumProfile p m =
     (if mProfiles m = [] then Inr (INVALID_PROFILE, m)
      else let (pm, m') = at_period p m
           in ebind (if chooseMediumProfile \<and> 1 < length (mProfiles m)
                     then map_begin (drop (length pm div 2) pm)
                     else ebind (map_begin pm) (\<lambda>i. Inr (last_upto (mDefaultInitBitrate m) pm i))) (\<lambda>desired.
              if desired = INVALID_PROFILE then ebind (map_begin pm) (\<lambda>i. Inr (i, m')) else Inr (desired, m')))"

definition getBestMatchedProfileIndexByBandWidth :: "int \<Rightarrow> ABRManager \<Rightarrow> int" where
  "getBestMatchedProfileIndexByBandWidth bandwidth m =
     (case mSortedBWProfileList m of
        [] \<Rightarrow> INVALID_PROFILE
      | (p, pm) # _ \<Rightarrow>
          if pm = [] then INVALID_PROFILE
          else let above = om_lower bandwidth pm; below = takeWhile (\<lambda>(b, i). b < bandwidth) pm;
                   (bestDiff, desired) = (case above of [] \<Rightarrow> (INT64_MAX, INVALID_PROFILE)
                     | (b, i) # _ \<Rightarrow> if b - bandwidth < INT64_MAX then (b - bandwidth, i) else (INT64_MAX, INVALID_PROFILE))
               in if below \<noteq> [] \<and> bandwidth - fst (last below) < bestDiff then snd (last below) else desired)"

definition getRampedDownProfileIndex :: "int \<Rightarrow> string \<Rightarrow> ABRManager \<Rightarrow> abr_fault + (int \<times> ABRManager)" where
  "getRampedDownProfileIndex currentProfileIndex p m =
     (let cur = clamp currentProfileIndex m
      in if mProfiles m = [] then Inr (cur, m)
         else ebind (profile_at cur m) (\<lambda>x.
           let (pm, m') = at_period p m; n = map_pos (bandwidthBitsPerSecond x) pm
           in Inr (if n = length pm then cur else if n = 0 then snd (pm ! n) else snd (pm ! (n - 1)), m')))"

definition getRampedUpProfileIndex :: "int \<Rightarrow> string \<Rightarrow> ABRManager \<Rightarrow> int \<times> ABRManager" where
  "getRampedUpProfileIndex currentProfileIndex p m =
     (if mProfiles m = [] \<or> too_big currentProfileIndex m then (currentProfileIndex, m)
      else let x = mProfiles m ! nat currentProfileIndex;
               (pm, m') = at_period p m; n = map_pos (bandwidthBitsPerSecond x) pm
           in (if n = length pm then currentProfileIndex
               else if n + 1 \<noteq> length pm then snd (pm ! (n + 1)) else currentProfileIndex, m'))"

definition getUserDataOfProfile :: "int \<Rightarrow> ABRManager \<Rightarrow> int" where
  "getUserDataOfProfile currentProfileIndex m =
     (if mProfiles m = [] \<or> too_big currentProfileIndex m then -1 else userData (mProfiles m ! nat currentProfileIndex))"

definition isProfileIndexBitrateLowest :: "int \<Rightarrow> string \<Rightarrow> ABRManager \<Rightarrow> abr_fault + (bool \<times> ABRManager)" where
  "isProfileIndexBitrateLowest currentProfileIndex p m =
     (if mProfiles m = [] then Inr (True, m)
      else ebind (profile_at (clamp currentProfileIndex m) m) (\<lambda>x.
        let (pm, m') = at_period p m in Inr (map_pos (bandwidthBitsPerSecond x) pm = 0, m')))"

text \<open>
  Ramping up: the entries from the current one on that the network can carry; \<open>storedIter\<close> is the last
  of them.  A change by one step waits until it was asked for \<open>nwConsistencyCnt\<close> times in a row.
\<close>

definition ramp_up :: "int \<Rightarrow> int \<Rightarrow> int \<Rightarrow> int \<Rightarrow> bw_map \<Rightarrow> ABRManager \<Rightarrow> int \<times> ABRManager" where
  "ramp_up cur currentBandwidth networkBandwidth nwConsistencyCnt pm m =
     (let run = takeWhile (\<lambda>(b, i). b \<le> networkBandwidth) (drop (map_pos currentBandwidth pm) pm);
          desired = (if run = [] then cur else snd (last run));
          up = mAbrProfileChangeUpCount m + 1
      in if run \<noteq> [] \<and> fst (hd run) < fst (last run) \<and> length run - 1 = 1
         then (if up < nwConsistencyCnt
               then (cur, m\<lparr>mAbrProfileChangeUpCount := up, mAbrProfileChangeDownCount := 0\<rparr>)
               else (desired, m\<lparr>mAbrProfileChangeUpCount := 0, mAbrProfileChangeDownCount := 0\<rparr>))
         else (desired, m\<lparr>mAbrProfileChangeUpCount := 0, mAbrProfileChangeDownCount := 0\<rparr>))"

text \<open>
  Ramping down: the last entry of the whole map that the network can carry, or else the first one.
  \<open>currIter->first\<close> is read although \<open>currIter\<close> may be \<open>end()\<close>.
\<close>

definition ramp_down :: "int \<Rightarrow> int \<Rightarrow> int \<Rightarrow> int \<Rightarrow> bw_map \<Rightarrow> ABRManager \<Rightarrow> abr_fault + (int \<times> ABRManager)" where
  "ramp_down cur currentBandwidth networkBandwidth nwConsistencyCnt pm m =
     (let curr = map_pos currentBandwidth pm;
          above = length (takeWhile (\<lambda>(b, i). \<not> b \<le> networkBandwidth) (rev pm));
          down = mAbrProfileChangeDownCount m + 1
      in if above = length pm
         then ebind (map_begin pm) (\<lambda>desired.
                Inr (desired, m\<lparr>mAbrProfileChangeDownCount := 0, mAbrProfileChangeUpCount := 0\<rparr>))
         else let stored = length pm - 1 - above; desired = snd (pm ! stored)
              in if curr = length pm then Inl DerefEndOfMap
                 else if fst (pm ! stored) < fst (pm ! curr) \<and> int curr - int stored = 1
                 then (if down < nwConsistencyCnt
                       then Inr (cur, m\<lparr>mAbrProfileChangeDownCount := down, mAbrProfileChangeUpCount := 0\<rparr>)
                       else Inr (desired, m\<lparr>mAbrProfileChangeDownCount := 0, mAbrProfileChangeUpCount := 0\<rparr>))
                 else Inr (desired, m\<lparr>mAbrProfileChangeDownCount := 0, mAbrProfileChangeUpCount := 0\<rparr>))"

definition getProfileIndexByBitrateRampUpOrDown ::
    "int \<Rightarrow> int \<Rightarrow> int \<Rightarrow> int \<Rightarrow> string \<Rightarrow> ABRManager \<Rightarrow> abr_fault + (int \<times> ABRManager)" where
  "getProfileIndexByBitrateRampUpOrDown currentProfileIndex currentBandwidth networkBandwidth nwConsistencyCnt p m =
     (let cur = clamp currentProfileIndex m
      in if networkBandwidth = -1
         then Inr (cur, m\<lparr>mAbrProfileChangeUpCount := 0, mAbrProfileChangeDownCount := 0\<rparr>)
         else let (pm, m') = at_period p m
              in if currentBandwidth < networkBandwidth
                 then Inr (ramp_up cur currentBandwidth networkBandwidth nwConsistencyCnt pm m')
                 else ramp_down cur currentBandwidth networkBandwidth nwConsistencyCnt pm m')"

definition getBandwidthOfProfile :: "int \<Rightarrow> ABRManager \<Rightarrow> abr_fault + int" where
  "getBandwidthOfProfile profileIndex m =
     (if mProfiles m = [] then Inr 0
      else ebind (profile_at (clamp profileIndex m) m) (\<lambda>x. Inr (bandwidthBitsPerSecond x)))"

definition getMaxBandwidthProfile :: "string \<Rightarrow> ABRManager \<Rightarrow> int \<times> ABRManager" where
  "getMaxBandwidthProfile p m =
     (if mProfiles m = [] then (0, m)
      else let (pm, m') = at_period p m in (if pm \<noteq> [] then snd (last pm) else 0, m'))"

definition getProfileIndexForLowestBandwidth :: "ABRManager \<Rightarrow> abr_fault + int" where
  "getProfileIndexForLowestBandwidth m =
     (if mProfiles m = [] then Inr 0
      else case mSortedBWProfileList m of
             [] \<Rightarrow> Inl DerefEndOfMap
           | (p, pm) # _ \<Rightarrow> Inr (case pm of [] \<Rightarrow> 0 | (b, i) # _ \<Rightarrow> i))"

definition getClosestProfileIndexByBandwidth :: "int \<Rightarrow> ABRManager \<Rightarrow> abr_fault + int" where
  "getClosestProfileIndexByBandwidth inputBandwidth m =
     (case mSortedBWProfileList m of
        [] \<Rightarrow> Inr 0
      | (p, pm) # _ \<Rightarrow>
          let best = last_upto inputBandwidth pm INVALID_PROFILE
          in if best = INVALID_PROFILE then map_begin pm else Inr best)"

section \<open>Iframe profiles\<close>

definition iframe_tracks :: "ProfileInfo list \<Rightarrow> (int \<times> int) list" where
  "iframe_tracks ps = sort_key fst (map (\<lambda>(i, x). (bandwidthBitsPerSecond x, int i))
     (filter (\<lambda>(i, x). isIframeTrack x) (enumerate 0 ps)))"

text \<open>With a default bitrate: the last track below it; the loop stops at the first that is not.\<close>

fun last_below :: "int \<Rightarrow> (int \<times> int) list \<Rightarrow> int \<Rightarrow> int" where
  "last_below limit [] desired = desired"
| "last_below limit ((b, i) # ts) desired = (if limit \<le> b then desired else last_below limit ts i)"

text \<open>The loop for streams that are not 4K, from the state (lowest, desired).\<close>

fun first_advertised :: "(int \<times> int) list \<Rightarrow> int \<Rightarrow> int \<Rightarrow> int \<times> int" where
  "first_advertised [] lowest desired = (lowest, desired)"
| "first_advertised ((b, i) # ts) lowest desired =
     (if lowest = INVALID_PROFILE then first_advertised ts i i else (lowest, i))"

text \<open>The middle bandwidth of the first period that has one.\<close>

fun middle_bandwidth :: "(string, bw_map) omap \<Rightarrow> int option" where
  "middle_bandwidth [] = None"
| "middle_bandwidth ((p, pm) # rest) = (if pm \<noteq> [] then Some (fst (pm ! (length pm div 2))) else middle_bandwidth rest)"

definition iframe_4k :: "(int \<times> int) list \<Rightarrow> int option \<Rightarrow> int" where
  "iframe_4k ts middle =
     (case (case middle of None \<Rightarrow> None | Some b \<Rightarrow> om_find b ts) of
        Some i \<Rightarrow> i
      | None \<Rightarrow> if 1 < length ts then snd (ts ! (length ts div 2 + length ts mod 2)) else snd (ts ! 0))"

definition updateProfile :: "ABRManager \<Rightarrow> ABRManager" where
  "updateProfile m =
     (let ts = iframe_tracks (mProfiles m)
      in if ts = [] then m
         else if mDefaultIframeBitrate m > 0
         then m\<lparr>mLowestIframeProfile := snd (ts ! 0), mDesiredIframeProfile := last_below (mDefaultIframeBitrate m) ts (snd (ts ! 0))\<rparr>
         else let x = mProfiles m ! nat (snd (last ts))
              in if height x > HEIGHT_FULL_HD \<or> width x > WIDTH_FULL_HD
                 then let i = iframe_4k ts (middle_bandwidth (mSortedBWProfileList m))
                      in m\<lparr>mLowestIframeProfile := i, mDesiredIframeProfile := i\<rparr>
                 else let (l, d) = first_advertised ts (mLowestIframeProfile m) (mDesiredIframeProfile m)
                      in m\<lparr>mLowestIframeProfile := l, mDesiredIframeProfile := d\<rparr>)"

section \<open>Decisions\<close>

definition CheckAbrThresholdSize :: "int \<Rightarrow> int \<Rightarrow> int \<Rightarrow> int \<Rightarrow> bool \<Rightarrow> int" where
  "CheckAbrThresholdSize bufferlen downloadTimeMs currentProfilebps fragmentDurationMs low_bandwidth_timedout =
     (if downloadTimeMs \<noteq> 0
      then let downloadbps = (bufferlen * 8000) sdiv downloadTimeMs
           in if downloadbps < currentProfilebps \<and> fragmentDurationMs \<noteq> 0
                 \<and> downloadTimeMs < fragmentDurationMs sdiv 2 \<and> \<not> low_bandwidth_timedout
              then currentProfilebps else downloadbps
      else currentProfilebps)"

definition CheckProfileChange :: "AampAbrConfig \<Rightarrow> real \<Rightarrow> int \<Rightarrow> int \<Rightarrow> ABRManager \<Rightarrow> abr_fault + bool" where
  "CheckProfileChange cfg totalFetchedDuration currProfileIndex availBW m =
     ebind (getBandwidthOfProfile currProfileIndex m) (\<lambda>currBW.
     Inr (\<not> (totalFetchedDuration > 0 \<and> totalFetchedDuration < of_int (abrSkipDuration cfg))
          \<or> (availBW > 0 \<and> availBW < currBW)))"

definition GetDesiredProfileOnBuffer ::
    "AampAbrConfig \<Rightarrow> int \<Rightarrow> int \<Rightarrow> real \<Rightarrow> real \<Rightarrow> string \<Rightarrow> ABRManager \<Rightarrow> abr_fault + (int \<times> ABRManager)" where
  "GetDesiredProfileOnBuffer cfg currProfileIndex newProfileIndex bufferValue minBufferNeeded p m =
     ebind (getBandwidthOfProfile currProfileIndex m) (\<lambda>currentBandwidth.
     ebind (getBandwidthOfProfile newProfileIndex m) (\<lambda>newBandwidth.
     if bufferValue > 0
     then (if newBandwidth > currentBandwidth
           then Inr (if bufferValue < of_int (abrMaxBuffer cfg) then currProfileIndex else newProfileIndex, m)
           else if \<not> bLowLatencyServiceConfigured m \<and> bufferValue > minBufferNeeded
           then ebind (getRampedDownProfileIndex currProfileIndex p m) (\<lambda>(i, m').
                  Inr (if i = newProfileIndex then currProfileIndex else newProfileIndex, m'))
           else Inr (newProfileIndex, m))
     else Inr (newProfileIndex, m)))"

text \<open>
  The result is the new profile, the reason and the buffer count to reach, where they change.  The threshold is
  narrowed to an \<open>int\<close>.
\<close>

definition as_int32 :: "int \<Rightarrow> int" where
  "as_int32 x = (x + 2 ^ 31) mod 2 ^ 32 - 2 ^ 31"

definition CheckRampupFromSteadyState ::
    "AampAbrConfig \<Rightarrow> int \<Rightarrow> int \<Rightarrow> int \<Rightarrow> int \<Rightarrow> string \<Rightarrow> ABRManager
      \<Rightarrow> int \<times> (BitrateChangeReason \<times> int) option \<times> ABRManager" where
  "CheckRampupFromSteadyState cfg currProfileIndex newProfileIndex nwBandwidth newBandwidth p m =
     (if nwBandwidth \<le> 0 then (newProfileIndex, None, m)
      else let abrThreshold = as_int32 (((newBandwidth - nwBandwidth) * 100) sdiv nwBandwidth);
               (nProfileIdx, m1) = getRampedUpProfileIndex currProfileIndex p m;
               new = (if abrThreshold \<le> 30 then nProfileIdx else newProfileIndex)
           in if new \<noteq> currProfileIndex
              then let loop = (if mRampupFromSteadyStateLoop m1 + 1 > 4 then 1 else mRampupFromSteadyStateLoop m1 + 1)
                   in (new, Some (eAAMP_BITRATE_CHANGE_BY_BUFFER_FULL, abrBufferCounter cfg ^ nat loop),
                       m1\<lparr>mRampupFromSteadyStateLoop := loop\<rparr>)
              else (new, None, m1))"

definition CheckRampdownFromSteadyState ::
    "AampAbrConfig \<Rightarrow> int \<Rightarrow> int \<Rightarrow> int \<Rightarrow> string \<Rightarrow> ABRManager
      \<Rightarrow> abr_fault + (int \<times> BitrateChangeReason option \<times> ABRManager)" where
  "CheckRampdownFromSteadyState cfg currProfileIndex newProfileIndex mABRLowBufferCounter p m =
     (if mABRLowBufferCounter \<ge> abrBufferCounter cfg
      then ebind (getRampedDownProfileIndex currProfileIndex p m) (\<lambda>(i, m').
             Inr (i, if i \<noteq> currProfileIndex then Some eAAMP_BITRATE_CHANGE_BY_BUFFER_EMPTY else None, m'))
      else Inr (newProfileIndex, None, m))"

text \<open>The descending loop of \<open>FragmentfailureRampdown\<close>, over the reversed list.\<close>

fun failure_scan :: "(real \<Rightarrow> real) \<Rightarrow> real \<Rightarrow> real \<Rightarrow> int \<Rightarrow> int list \<Rightarrow> int" where
  "failure_scan rnd k bufferPercentage currentbw [] = 0"
| "failure_scan rnd k bufferPercentage currentbw (b # bs) =
     (if rnd (rnd (of_int b) * k) < bufferPercentage \<and> b < currentbw then b
      else failure_scan rnd k bufferPercentage currentbw bs)"

definition FragmentfailureRampdown :: "(real \<Rightarrow> real) \<Rightarrow> AampAbrConfig \<Rightarrow> int \<Rightarrow> int \<Rightarrow> ABRManager \<Rightarrow> abr_fault + int" where
  "FragmentfailureRampdown rnd cfg currentBuffer currentProfileIndex m =
     (if abrMaxBuffer cfg \<le> 0 then Inr 0
      else ebind (getBandwidthOfProfile currentProfileIndex m) (\<lambda>currentbw.
        let bws = sort (map bandwidthBitsPerSecond (filter (\<lambda>x. \<not> isIframeTrack x) (mProfiles m)));
            bufferPercentage = rnd (rnd (of_int currentBuffer / of_int (abrMaxBuffer cfg)) * 100)
        in if bws = [] then Inr 0
           else let desired = failure_scan rnd (rnd (100 / rnd (of_int (last bws)))) bufferPercentage currentbw (rev bws)
                in Inr (if desired = 0 then hd bws else desired)))"

inductive abr_step :: "ABRManager \<Rightarrow> ABRManager \<Rightarrow> bool" where
  "abr_step m (addProfile x m)"
| "abr_step m (clearProfiles m)"
| "removeProfiles bws i p m = Inr (j, m') \<Longrightarrow> abr_step m m'"
| "abr_step m (updateProfile m)"
| "abr_step m (snd (at_period p m))"
| "getProfileIndexByBitrateRampUpOrDown i cbw nbw n p m = Inr (j, m') \<Longrightarrow> abr_step m m'"
| "CheckRampupFromSteadyState cfg i j nbw bw p m = (k, r, m') \<Longrightarrow> abr_step m m'"
| "abr_step m (m\<lparr>mDefaultInitBitrate := b\<rparr>)"
| "abr_step m (m\<lparr>mDefaultIframeBitrate := b\<rparr>)"
| "abr_step m (m\<lparr>bLowLatencyServiceConfigured := c\<rparr>)"


section \<open>The index\<close>

definition hits :: "string \<Rightarrow> int \<Rightarrow> ProfileInfo \<Rightarrow> bool" where
  "hits p b x \<longleftrightarrow> \<not> isIframeTrack x \<and> periodId x = p \<and> bandwidthBitsPerSecond x = b"

text \<open>What the index should hold for a period and a bandwidth: the last profile of that kind.\<close>

definition last_index :: "string \<Rightarrow> int \<Rightarrow> ProfileInfo list \<Rightarrow> int option" where
  "last_index p b ps = (case filter (\<lambda>i. hits p b (ps ! i)) (rev [0..<length ps]) of [] \<Rightarrow> None | i # _ \<Rightarrow> Some (int i))"

definition bw_lookup :: "string \<Rightarrow> int \<Rightarrow> ABRManager \<Rightarrow> int option" where
  "bw_lookup p b m = (case om_find p (mSortedBWProfileList m) of None \<Rightarrow> None | Some pm \<Rightarrow> om_find b pm)"

definition maps_ok :: "ABRManager \<Rightarrow> bool" where
  "maps_ok m \<longleftrightarrow> om_ok (mSortedBWProfileList m) \<and> (\<forall>(p, pm) \<in> set (mSortedBWProfileList m). om_ok pm)"

definition abr_ok :: "ABRManager \<Rightarrow> bool" where
  "abr_ok m \<longleftrightarrow> maps_ok m \<and> (\<forall>p b. bw_lookup p b m = last_index p b (mProfiles m))"

lemma last_index_Nil: "last_index p b [] = None"
  by (simp add: last_index_def)

lemma last_index_snoc:
  "last_index p b (ps @ [x]) = (if hits p b x then Some (int (length ps)) else last_index p b ps)"
proof -
  have "filter (\<lambda>i. hits p b ((ps @ [x]) ! i)) (rev [0..<length ps]) = filter (\<lambda>i. hits p b (ps ! i)) (rev [0..<length ps])"
    by (rule filter_cong) (auto simp: nth_append)
  then show ?thesis by (simp add: last_index_def)
qed

lemma last_index_Some:
  assumes "last_index p b ps = Some i"
  shows "0 \<le> i" "i < int (length ps)" "hits p b (ps ! nat i)"
proof -
  obtain k ks where k: "filter (\<lambda>i. hits p b (ps ! i)) (rev [0..<length ps]) = k # ks" "i = int k"
    using assms by (auto simp: last_index_def split: list.splits)
  then have "k \<in> set (filter (\<lambda>i. hits p b (ps ! i)) (rev [0..<length ps]))" by simp
  then show "0 \<le> i" "i < int (length ps)" "hits p b (ps ! nat i)" using k(2) by simp_all
qed

lemma last_index_exists: "x \<in> set ps \<Longrightarrow> hits p b x \<Longrightarrow> last_index p b ps \<noteq> None"
  by (auto simp: last_index_def in_set_conv_nth filter_empty_conv split: list.splits)

lemma at_period_map: "fst (at_period p m) = (case om_find p (mSortedBWProfileList m) of None \<Rightarrow> [] | Some pm \<Rightarrow> pm)"
  by (simp add: at_period_def split: option.split)

lemma at_period_fields: "mProfiles (snd (at_period p m)) = mProfiles m"
  "mAbrProfileChangeUpCount (snd (at_period p m)) = mAbrProfileChangeUpCount m"
  "mAbrProfileChangeDownCount (snd (at_period p m)) = mAbrProfileChangeDownCount m"
  by (simp_all add: at_period_def split: option.split)

lemma lookup_at_period: "om_find b (fst (at_period p m)) = bw_lookup p b m"
  by (simp add: at_period_map bw_lookup_def split: option.split)

lemma lookup_after_period: "bw_lookup q b (snd (at_period p m)) = bw_lookup q b m"
  by (auto simp: at_period_def bw_lookup_def split: option.split)

lemma maps_ok_period: "maps_ok m \<Longrightarrow> maps_ok (snd (at_period p m)) \<and> om_ok (fst (at_period p m))"
  by (auto simp: maps_ok_def at_period_def set_om_assign split: option.split dest: om_find_Some_in)

lemma lookup_add:
  "bw_lookup p b (addSortedBWProfileList x idx m) = (if hits p b x then Some idx else bw_lookup p b m)"
proof -
  obtain pm m' where a: "at_period (periodId x) m = (pm, m')" by force
  have "om_find b pm = bw_lookup (periodId x) b m" "bw_lookup p b m' = bw_lookup p b m"
    using lookup_at_period [of b "periodId x" m] lookup_after_period [of p b "periodId x" m] by (simp_all add: a)
  then show ?thesis
    by (auto simp: addSortedBWProfileList_def a hits_def bw_lookup_def split: option.splits)
qed

lemma maps_ok_add: "maps_ok m \<Longrightarrow> maps_ok (addSortedBWProfileList x idx m)"
proof -
  assume ok: "maps_ok m"
  obtain pm m' where a: "at_period (periodId x) m = (pm, m')" by force
  then have "maps_ok m'" "om_ok pm" using maps_ok_period [OF ok, of "periodId x"] by simp_all
  then show ?thesis using ok by (auto simp: addSortedBWProfileList_def a maps_ok_def set_om_assign)
qed

lemma add_fields: "mProfiles (addSortedBWProfileList x idx m) = mProfiles m"
  using at_period_fields(1) [of "periodId x" m] by (auto simp: addSortedBWProfileList_def split: prod.split)

lemma lookup_profiles: "bw_lookup p b (m\<lparr>mProfiles := ps\<rparr>) = bw_lookup p b m" "maps_ok (m\<lparr>mProfiles := ps\<rparr>) = maps_ok m"
  by (simp_all add: bw_lookup_def maps_ok_def)

lemma abr_ok_add: "abr_ok m \<Longrightarrow> abr_ok (addProfile x m)"
  by (simp add: abr_ok_def addProfile_def lookup_profiles lookup_add maps_ok_add last_index_snoc)

text \<open>The loop over the profiles that are left, after those before them.\<close>

lemma rebuild_index:
  assumes "maps_ok m" "\<And>p b. bw_lookup p b m = last_index p b ps" "idx = int (length ps)"
  shows "maps_ok (snd (rebuild bw idx xs m md))
    \<and> (\<forall>p b. bw_lookup p b (snd (rebuild bw idx xs m md)) = last_index p b (ps @ xs))
    \<and> mProfiles (snd (rebuild bw idx xs m md)) = mProfiles m"
  using assms
proof (induction bw idx xs m md arbitrary: ps rule: rebuild.induct)
  case (2 bw idx x xs m md)
  let ?r = "rebuild bw (idx + 1) xs (addSortedBWProfileList x idx m) (if bw = bandwidthBitsPerSecond x then idx else md)"
  have "maps_ok (snd ?r) \<and> (\<forall>p b. bw_lookup p b (snd ?r) = last_index p b ((ps @ [x]) @ xs))
      \<and> mProfiles (snd ?r) = mProfiles (addSortedBWProfileList x idx m)"
    by (rule "2.IH") (simp_all add: "2.prems" maps_ok_add lookup_add last_index_snoc)
  from this [unfolded add_fields append_assoc append_Cons append_Nil] show ?case unfolding rebuild.simps .
qed simp

lemma abr_ok_remove: "removeProfiles bws i p m = Inr (j, m') \<Longrightarrow> abr_ok m \<Longrightarrow> abr_ok m'"
proof -
  assume r: "removeProfiles bws i p m = Inr (j, m')" and ok: "abr_ok m"
  show ?thesis
  proof (cases "mProfiles m = []")
    case True
    then show ?thesis using r ok by (simp add: removeProfiles_def)
  next
    case False
    then obtain cur where c: "profile_at (clamp i m) m = Inr cur" using r
      by (auto simp: removeProfiles_def ebind_Inr_iff)
    let ?ps = "fold (erase_profile p) bws (mProfiles m)"
    let ?m = "m\<lparr>mProfiles := ?ps, mSortedBWProfileList := []\<rparr>"
    have "rebuild (bandwidthBitsPerSecond cur) 0 ?ps ?m INVALID_PROFILE = (j, m')"
      using r False c by (simp add: removeProfiles_def Let_def)
    then have "m' = snd (rebuild (bandwidthBitsPerSecond cur) 0 ?ps ?m INVALID_PROFILE)" by simp
    then show ?thesis
      using rebuild_index [of ?m "[]" 0 "bandwidthBitsPerSecond cur" ?ps INVALID_PROFILE]
      by (simp add: abr_ok_def maps_ok_def bw_lookup_def last_index_Nil)
  qed
qed

lemma abr_ok_same:
  "abr_ok m \<Longrightarrow> mProfiles m' = mProfiles m \<Longrightarrow> mSortedBWProfileList m' = mSortedBWProfileList m \<Longrightarrow> abr_ok m'"
  by (simp add: abr_ok_def maps_ok_def bw_lookup_def)

lemma abr_ok_period: "abr_ok m \<Longrightarrow> abr_ok (snd (at_period p m))"
  by (simp add: abr_ok_def maps_ok_period lookup_after_period at_period_fields)

lemma ramp_fields:
  "mProfiles (snd (ramp_up cur cbw nbw n pm m)) = mProfiles m"
  "mSortedBWProfileList (snd (ramp_up cur cbw nbw n pm m)) = mSortedBWProfileList m"
  "ramp_down cur cbw nbw n pm m = Inr (j, m') \<Longrightarrow> mProfiles m' = mProfiles m"
  "ramp_down cur cbw nbw n pm m = Inr (j, m') \<Longrightarrow> mSortedBWProfileList m' = mSortedBWProfileList m"
  by (auto simp: ramp_up_def ramp_down_def Let_def ebind_Inr_iff split: if_splits)

lemma abr_ok_ramp:
  assumes "getProfileIndexByBitrateRampUpOrDown i cbw nbw n p m = Inr (j, m')" "abr_ok m"
  shows "abr_ok m'"
proof -
  obtain pm m1 where a: "at_period p m = (pm, m1)" by force
  have m1: "abr_ok m1" using abr_ok_period [OF assms(2), of p] by (simp add: a)
  consider "nbw = -1" | "nbw \<noteq> -1" "cbw < nbw" | "nbw \<noteq> -1" "\<not> cbw < nbw" by blast
  then show ?thesis
  proof cases
    case 1
    then show ?thesis
      using assms by (auto simp: getProfileIndexByBitrateRampUpOrDown_def Let_def intro: abr_ok_same [OF assms(2)])
  next
    case 2
    then have "ramp_up (clamp i m) cbw nbw n pm m1 = (j, m')"
      using assms(1) by (simp add: getProfileIndexByBitrateRampUpOrDown_def a)
    then show ?thesis using ramp_fields(1,2) [of "clamp i m" cbw nbw n pm m1] by (intro abr_ok_same [OF m1]) simp_all
  next
    case 3
    then have "ramp_down (clamp i m) cbw nbw n pm m1 = Inr (j, m')"
      using assms(1) by (simp add: getProfileIndexByBitrateRampUpOrDown_def a)
    then show ?thesis using ramp_fields(3,4) by (intro abr_ok_same [OF m1]) blast+
  qed
qed

lemma ramped_up_state: "snd (getRampedUpProfileIndex i p m) = m \<or> snd (getRampedUpProfileIndex i p m) = snd (at_period p m)"
  by (simp add: getRampedUpProfileIndex_def Let_def split: prod.split)

lemma abr_ok_rampup_steady:
  assumes "CheckRampupFromSteadyState cfg i j nbw bw p m = (k, r, m')" "abr_ok m"
  shows "abr_ok m'"
proof -
  obtain n m1 where a: "getRampedUpProfileIndex i p m = (n, m1)" by force
  then have m1: "abr_ok m1" using ramped_up_state [of i p m] assms(2) abr_ok_period [OF assms(2), of p] by auto
  have "m' = m \<or> mProfiles m' = mProfiles m1 \<and> mSortedBWProfileList m' = mSortedBWProfileList m1"
    using assms(1) by (auto simp: CheckRampupFromSteadyState_def a Let_def split: if_splits)
  then show ?thesis using assms(2) abr_ok_same [OF m1] by blast
qed

lemma update_fields: "mProfiles (updateProfile m) = mProfiles m" "mSortedBWProfileList (updateProfile m) = mSortedBWProfileList m"
  by (simp_all add: updateProfile_def Let_def split: prod.split)

lemma abr_ok_step: "abr_step m t \<Longrightarrow> abr_ok m \<Longrightarrow> abr_ok t"
proof (induction rule: abr_step.induct)
  case (2 m)
  then show ?case by (simp add: clearProfiles_def abr_ok_def maps_ok_def bw_lookup_def last_index_Nil)
next
  case (4 m)
  then show ?case by (rule abr_ok_same) (simp_all add: update_fields)
next
  case (3 bws i p m j m')
  then show ?case by (blast intro: abr_ok_remove)
next
  case (6 i cbw nbw n p m j m')
  then show ?case by (blast intro: abr_ok_ramp)
next
  case (7 cfg i j nbw bw p m k r m')
  then show ?case by (blast intro: abr_ok_rampup_steady)
qed (auto intro: abr_ok_add abr_ok_period elim: abr_ok_same)

interpretation abr: stateful "\<lambda>m. m = new_abr" abr_step abr_ok
proof
  show "abr_ok m" if "m = new_abr" for m
    by (simp add: that new_abr_def abr_ok_def maps_ok_def bw_lookup_def last_index_Nil)
qed (rule abr_ok_step)

section \<open>Positions in a sorted map\<close>

lemma map_nth_less: "om_ok pm \<Longrightarrow> i < j \<Longrightarrow> j < length pm \<Longrightarrow> fst (pm ! i) < fst (pm ! j)"
  using sorted_wrt_nth_less [of "(<)" "om_keys pm" i j] by (simp add: om_ok_def om_keys_def)

lemma map_pos_found:
  assumes "b \<in> fst ` set pm"
  shows "map_pos b pm < length pm" "fst (pm ! map_pos b pm) = b"
proof -
  have "\<exists>x \<in> set pm. \<not> (\<lambda>(a, i). a \<noteq> b) x" using assms by force
  then have "map_pos b pm < length pm" unfolding map_pos_def
    by (metis length_takeWhile_le order_le_imp_less_or_eq takeWhile_eq_all_conv takeWhile_eq_take take_all_iff order_refl)
  then show "map_pos b pm < length pm" .
  from nth_length_takeWhile [OF this [unfolded map_pos_def]] show "fst (pm ! map_pos b pm) = b"
    by (simp add: map_pos_def case_prod_unfold)
qed

lemma map_pos_absent: "b \<notin> fst ` set pm \<Longrightarrow> map_pos b pm = length pm"
  by (auto simp: map_pos_def takeWhile_eq_all_conv rev_image_eqI intro!: arg_cong [of _ _ length])

lemma fst_set_nth: "fst ` set pm = {fst (pm ! i) |i. i < length pm}"
  by (auto simp: set_conv_nth)

lemma greatest_below:
  assumes "om_ok pm" "n < length pm"
  shows "n = 0 \<Longrightarrow> {k \<in> fst ` set pm. k < fst (pm ! n)} = {}"
    "0 < n \<Longrightarrow> Max {k \<in> fst ` set pm. k < fst (pm ! n)} = fst (pm ! (n - 1))"
proof -
  have below: "k < fst (pm ! n) \<Longrightarrow> k \<in> fst ` set pm \<Longrightarrow> \<exists>i < n. k = fst (pm ! i)" for k
    using map_nth_less [OF assms(1), of n] by (auto simp: fst_set_nth) (metis linorder_neqE_nat order_less_asym order_less_irrefl)
  then show "n = 0 \<Longrightarrow> {k \<in> fst ` set pm. k < fst (pm ! n)} = {}" by blast
  assume n: "0 < n"
  show "Max {k \<in> fst ` set pm. k < fst (pm ! n)} = fst (pm ! (n - 1))"
  proof (rule Max_eqI)
    show "fst (pm ! (n - 1)) \<in> {k \<in> fst ` set pm. k < fst (pm ! n)}"
      using n assms map_nth_less [OF assms(1), of "n - 1" n] by (auto simp: fst_set_nth)
    fix k assume "k \<in> {k \<in> fst ` set pm. k < fst (pm ! n)}"
    then obtain i where "i < n" "k = fst (pm ! i)" using below by blast
    then show "k \<le> fst (pm ! (n - 1))"
      using map_nth_less [OF assms(1), of i "n - 1"] assms(2) n by (cases "i < n - 1") (auto simp: order_le_less not_less_eq less_Suc_eq)
  qed simp
qed

lemma least_above:
  assumes "om_ok pm" "n < length pm"
  shows "n + 1 = length pm \<Longrightarrow> {k \<in> fst ` set pm. fst (pm ! n) < k} = {}"
    "n + 1 < length pm \<Longrightarrow> Min {k \<in> fst ` set pm. fst (pm ! n) < k} = fst (pm ! (n + 1))"
proof -
  have above: "fst (pm ! n) < k \<Longrightarrow> k \<in> fst ` set pm \<Longrightarrow> \<exists>i. n < i \<and> i < length pm \<and> k = fst (pm ! i)" for k
    using map_nth_less [OF assms(1) _ assms(2)] by (auto simp: fst_set_nth) (metis linorder_neqE_nat order_less_asym order_less_irrefl)
  then show "n + 1 = length pm \<Longrightarrow> {k \<in> fst ` set pm. fst (pm ! n) < k} = {}" by fastforce
  assume n: "n + 1 < length pm"
  show "Min {k \<in> fst ` set pm. fst (pm ! n) < k} = fst (pm ! (n + 1))"
  proof (rule Min_eqI)
    show "fst (pm ! (n + 1)) \<in> {k \<in> fst ` set pm. fst (pm ! n) < k}"
      using n map_nth_less [OF assms(1), of n "n + 1"] by (auto simp: fst_set_nth)
    fix k assume "k \<in> {k \<in> fst ` set pm. fst (pm ! n) < k}"
    then obtain i where "n < i" "i < length pm" "k = fst (pm ! i)" using above by blast
    then show "fst (pm ! (n + 1)) \<le> k"
      using map_nth_less [OF assms(1), of "n + 1" i] by (cases "i = n + 1") auto
  qed simp
qed

lemma upto_split:
  assumes "om_ok pm"
  shows "i < length (takeWhile (\<lambda>(b, j). b \<le> l) pm) \<Longrightarrow> fst (pm ! i) \<le> l"
    "length (takeWhile (\<lambda>(b, j). b \<le> l) pm) \<le> i \<Longrightarrow> i < length pm \<Longrightarrow> l < fst (pm ! i)"
proof -
  let ?t = "length (takeWhile (\<lambda>(b, j). b \<le> l) pm)"
  show "i < ?t \<Longrightarrow> fst (pm ! i) \<le> l"
    by (metis (mono_tags, lifting) case_prod_unfold nth_mem set_takeWhileD takeWhile_nth)
  assume i: "?t \<le> i" "i < length pm"
  then have "\<not> fst (pm ! ?t) \<le> l" using nth_length_takeWhile [of "\<lambda>(b, j). b \<le> l" pm] by (simp add: case_prod_unfold)
  then show "l < fst (pm ! i)" using map_nth_less [OF assms, of ?t i] i by (cases "i = ?t") auto
qed

lemma greatest_upto:
  assumes "om_ok pm" "t = length (takeWhile (\<lambda>(b, j). b \<le> l) pm)"
  shows "t = 0 \<Longrightarrow> {k \<in> fst ` set pm. k \<le> l} = {}"
    "0 < t \<Longrightarrow> Max {k \<in> fst ` set pm. k \<le> l} = fst (pm ! (t - 1)) \<and> fst (pm ! (t - 1)) \<le> l"
proof -
  have len: "t \<le> length pm" using assms(2) by (simp add: length_takeWhile_le)
  have below: "k \<in> fst ` set pm \<Longrightarrow> k \<le> l \<Longrightarrow> \<exists>i < t. k = fst (pm ! i)" for k
    using upto_split(2) [OF assms(1), of l] assms(2) by (auto simp: fst_set_nth) (metis leD not_le_imp_less)
  then show "t = 0 \<Longrightarrow> {k \<in> fst ` set pm. k \<le> l} = {}" by blast
  assume t: "0 < t"
  have upto: "fst (pm ! (t - 1)) \<le> l" using upto_split(1) [OF assms(1), of "t - 1" l] assms(2) t by simp
  have "Max {k \<in> fst ` set pm. k \<le> l} = fst (pm ! (t - 1))"
  proof (rule Max_eqI)
    show "fst (pm ! (t - 1)) \<in> {k \<in> fst ` set pm. k \<le> l}" using upto t len by (auto simp: fst_set_nth)
    fix k assume "k \<in> {k \<in> fst ` set pm. k \<le> l}"
    then obtain i where "i < t" "k = fst (pm ! i)" using below by blast
    then show "k \<le> fst (pm ! (t - 1))"
      using map_nth_less [OF assms(1), of i "t - 1"] len t by (cases "i < t - 1") (auto simp: order_le_less not_less_eq less_Suc_eq)
  qed simp
  with upto show "Max {k \<in> fst ` set pm. k \<le> l} = fst (pm ! (t - 1)) \<and> fst (pm ! (t - 1)) \<le> l" by blast
qed

lemma last_upto_run:
  "last_upto l pm d = (if takeWhile (\<lambda>(b, j). b \<le> l) pm = [] then d else snd (last (takeWhile (\<lambda>(b, j). b \<le> l) pm)))"
  by (induction l pm d rule: last_upto.induct) auto

lemma last_run: "takeWhile P xs \<noteq> [] \<Longrightarrow> last (takeWhile P xs) = xs ! (length (takeWhile P xs) - 1)"
  by (simp add: last_conv_nth takeWhile_nth)

section \<open>The bandwidths of a period\<close>

definition bandwidths :: "string \<Rightarrow> ABRManager \<Rightarrow> int set" where
  "bandwidths p m = bandwidthBitsPerSecond ` {x \<in> set (mProfiles m). \<not> isIframeTrack x \<and> periodId x = p}"

lemma bandwidths_finite [simp]: "finite (bandwidths p m)"
  by (simp add: bandwidths_def)

lemma bandwidths_hits: "b \<in> bandwidths p m \<longleftrightarrow> (\<exists>x \<in> set (mProfiles m). hits p b x)"
  by (auto simp: bandwidths_def hits_def)

lemma period_keys:
  assumes "abr_ok m"
  shows "fst ` set (fst (at_period p m)) = bandwidths p m"
proof -
  have "b \<in> fst ` set (fst (at_period p m)) \<longleftrightarrow> last_index p b (mProfiles m) \<noteq> None" for b
    using assms lookup_at_period [of b p m] om_find_None_iff [of b "fst (at_period p m)"]
    by (simp add: abr_ok_def om_keys_def)
  moreover have "last_index p b (mProfiles m) \<noteq> None \<longleftrightarrow> b \<in> bandwidths p m" for b
  proof
    assume "last_index p b (mProfiles m) \<noteq> None"
    then obtain i where "last_index p b (mProfiles m) = Some i" by blast
    from last_index_Some [OF this] show "b \<in> bandwidths p m"
      unfolding bandwidths_hits by (metis nat_int nth_mem zless_nat_eq_int_zless nat_0_le)
  qed (auto simp: bandwidths_hits dest: last_index_exists)
  ultimately show ?thesis by blast
qed

definition valid_profile :: "string \<Rightarrow> int \<Rightarrow> int \<Rightarrow> ABRManager \<Rightarrow> bool" where
  "valid_profile p b i m \<longleftrightarrow> 0 \<le> i \<and> i < int (length (mProfiles m)) \<and> hits p b (mProfiles m ! nat i)"

lemma period_entry:
  assumes "abr_ok m" "(b, i) \<in> set (fst (at_period p m))"
  shows "valid_profile p b i m"
proof -
  have "om_find b (fst (at_period p m)) = Some i"
    using assms maps_ok_period [of m p] by (auto simp: abr_ok_def intro: om_in_find)
  then have "last_index p b (mProfiles m) = Some i" using assms(1) by (simp add: lookup_at_period abr_ok_def)
  then show ?thesis using last_index_Some by (simp add: valid_profile_def)
qed

lemma period_nth: "abr_ok m \<Longrightarrow> n < length (fst (at_period p m)) \<Longrightarrow>
    valid_profile p (fst (fst (at_period p m) ! n)) (snd (fst (at_period p m) ! n)) m"
  by (rule period_entry) simp_all

lemma first_period:
  assumes "abr_ok m" "mSortedBWProfileList m = (p, pm) # rest"
  shows "fst (at_period p m) = pm"
  using assms(2) by (simp add: at_period_map)

lemma valid_bandwidth: "valid_profile p b i m \<Longrightarrow> b \<in> bandwidths p m"
  unfolding valid_profile_def bandwidths_hits by (metis nat_less_iff nth_mem)

section \<open>Selections\<close>

definition sample_profiles :: "(bool \<times> int \<times> string) list \<Rightarrow> ABRManager" where
  "sample_profiles xs = fold (\<lambda>(f, b, p). addProfile \<lparr>isIframeTrack = f, bandwidthBitsPerSecond = b, width = 1280,
     height = 720, periodId = p, userData = 0\<rparr>) xs new_abr"

lemma sample_profiles_reach: "reach (\<lambda>m. m = new_abr) abr_step (sample_profiles xs)"
proof (induction xs rule: rev_induct)
  case Nil
  show ?case by (simp add: sample_profiles_def reach_start)
next
  case (snoc x xs)
  then show ?case
    by (auto simp: sample_profiles_def split: prod.split intro: reach_step abr_step.intros(1))
qed

definition sample_abr :: ABRManager where
  "sample_abr = sample_profiles [(False, 800, ''p0''), (True, 100, ''p0''), (False, 300, ''p0''), (False, 2000, ''p0''), (False, 500, ''p1'')]"

lemma sample_abr_reach: "reach (\<lambda>m. m = new_abr) abr_step sample_abr"
  unfolding sample_abr_def by (rule sample_profiles_reach)

text \<open>
  C25: In every reachable state of the manager the index is exact: for each period and each bandwidth it holds
  the last profile of the list that is no iframe profile and has them, and nothing when there is none.  Its maps
  are strictly ascending, every entry of a period names such a profile inside the list, and the bandwidths of the
  period are exactly the keys.
\<close>

theorem abr_index_exact:
  assumes "reach (\<lambda>m. m = new_abr) abr_step m"
  shows "(\<forall>p b. bw_lookup p b m = last_index p b (mProfiles m))
    \<and> sorted_wrt (<) (map fst (mSortedBWProfileList m))
    \<and> (\<forall>p. sorted_wrt (<) (map fst (fst (at_period p m))) \<and> fst ` set (fst (at_period p m)) = bandwidths p m
      \<and> (\<forall>(b, i) \<in> set (fst (at_period p m)). valid_profile p b i m))"
proof -
  have ok: "abr_ok m" by (rule abr.inv_reach [OF assms])
  have "(\<forall>p b. bw_lookup p b m = last_index p b (mProfiles m)) \<and> sorted_wrt (<) (map fst (mSortedBWProfileList m))"
    using ok by (simp add: abr_ok_def maps_ok_def om_ok_def om_keys_def)
  moreover have "sorted_wrt (<) (map fst (fst (at_period p m)))" for p
    using ok maps_ok_period [of m p] by (simp add: abr_ok_def om_ok_def om_keys_def)
  moreover have "\<forall>(b, i) \<in> set (fst (at_period p m)). valid_profile p b i m" for p using period_entry [OF ok] by blast
  ultimately show ?thesis using period_keys [OF ok] by blast
qed

theorem abr_index_exact_witness:
  "reach (\<lambda>m. m = new_abr) abr_step sample_abr \<and> fst (at_period ''p0'' sample_abr) = [(300, 2), (800, 0), (2000, 3)]
    \<and> valid_profile ''p0'' 300 2 sample_abr \<and> valid_profile ''p0'' 2000 3 sample_abr"
proof -
  have p: "fst (at_period ''p0'' sample_abr) = [(300, 2), (800, 0), (2000, 3)]" by code_simp
  have "\<forall>(b, i) \<in> set (fst (at_period ''p0'' sample_abr)). valid_profile ''p0'' b i sample_abr"
    using abr_index_exact [OF sample_abr_reach] by blast
  then show ?thesis using p sample_abr_reach by simp
qed

lemma valid_current:
  assumes "valid_profile p b i m"
  shows "mProfiles m \<noteq> []" "clamp i m = i" "\<not> too_big i m"
    "profile_at i m = Inr (mProfiles m ! nat i)" "bandwidthBitsPerSecond (mProfiles m ! nat i) = b"
  using assms by (auto simp: valid_profile_def clamp_def too_big_def profile_at_def hits_def)

lemma valid_position:
  assumes "abr_ok m" "valid_profile p b i m"
  shows "map_pos b (fst (at_period p m)) < length (fst (at_period p m))"
    "fst (fst (at_period p m) ! map_pos b (fst (at_period p m))) = b"
  using map_pos_found [of b "fst (at_period p m)"] valid_bandwidth [OF assms(2)] period_keys [OF assms(1), of p]
  by simp_all

lemma period_sorted: "abr_ok m \<Longrightarrow> om_ok (fst (at_period p m))"
  using maps_ok_period [of m p] by (simp add: abr_ok_def)

lemma ramped_down:
  assumes "abr_ok m" "valid_profile p b i m"
  shows "\<exists>j. getRampedDownProfileIndex i p m = Inr (j, snd (at_period p m))
    \<and> valid_profile p (if {k \<in> bandwidths p m. k < b} = {} then b else Max {k \<in> bandwidths p m. k < b}) j m"
proof -
  obtain pm m' where a: "at_period p m = (pm, m')" by force
  let ?n = "map_pos b pm"
  have n: "?n < length pm" "fst (pm ! ?n) = b" using valid_position [OF assms] by (simp_all add: a)
  have B: "bandwidths p m = fst ` set pm" using period_keys [OF assms(1), of p] by (simp add: a)
  have s: "om_ok pm" using period_sorted [OF assms(1), of p] by (simp add: a)
  have v: "k < length pm \<Longrightarrow> valid_profile p (fst (pm ! k)) (snd (pm ! k)) m" for k
    using period_nth [OF assms(1), of k p] by (simp add: a)
  show ?thesis
  proof (cases "?n = 0")
    case True
    have e: "{k \<in> fst ` set pm. k < b} = {}" using greatest_below(1) [OF s n(1) True] n(2) by simp
    show ?thesis unfolding B e using v [OF n(1)] n
      by (simp add: getRampedDownProfileIndex_def valid_current [OF assms(2)] a True)
  next
    case False
    then have e: "Max {k \<in> fst ` set pm. k < b} = fst (pm ! (?n - 1))"
      using greatest_below(2) [OF s n(1)] n by simp
    have "fst (pm ! (?n - 1)) \<in> {k \<in> fst ` set pm. k < b}"
      using n False map_nth_less [OF s, of "?n - 1" ?n] by simp
    then have ne: "{k \<in> fst ` set pm. k < b} \<noteq> {}" by blast
    show ?thesis unfolding B if_not_P [OF ne] e using v [of "?n - 1"] n False
      by (simp add: getRampedDownProfileIndex_def valid_current [OF assms(2)] a)
  qed
qed

lemma ramped_up:
  assumes "abr_ok m" "valid_profile p b i m"
  shows "\<exists>j. getRampedUpProfileIndex i p m = (j, snd (at_period p m))
    \<and> (if {k \<in> bandwidths p m. b < k} = {} then j = i else valid_profile p (Min {k \<in> bandwidths p m. b < k}) j m)"
proof -
  obtain pm m' where a: "at_period p m = (pm, m')" by force
  let ?n = "map_pos b pm"
  have n: "?n < length pm" "fst (pm ! ?n) = b" using valid_position [OF assms] by (simp_all add: a)
  have B: "bandwidths p m = fst ` set pm" using period_keys [OF assms(1), of p] by (simp add: a)
  have s: "om_ok pm" using period_sorted [OF assms(1), of p] by (simp add: a)
  have v: "k < length pm \<Longrightarrow> valid_profile p (fst (pm ! k)) (snd (pm ! k)) m" for k
    using period_nth [OF assms(1), of k p] by (simp add: a)
  show ?thesis
  proof (cases "?n + 1 = length pm")
    case True
    have e: "{k \<in> fst ` set pm. b < k} = {}" using least_above(1) [OF s n(1) True] n(2) by simp
    show ?thesis unfolding B e using n True
      by (simp add: getRampedUpProfileIndex_def valid_current [OF assms(2)] a)
  next
    case False
    then have l: "?n + 1 < length pm" using n(1) by simp
    then have e: "Min {k \<in> fst ` set pm. b < k} = fst (pm ! (?n + 1))"
      using least_above(2) [OF s n(1)] n by simp
    have "fst (pm ! (?n + 1)) \<in> {k \<in> fst ` set pm. b < k}"
      using n l map_nth_less [OF s, of ?n "?n + 1"] by simp
    then have ne: "{k \<in> fst ` set pm. b < k} \<noteq> {}" by blast
    show ?thesis unfolding B if_not_P [OF ne] e using v [of "?n + 1"] n(1) l
      by (simp add: getRampedUpProfileIndex_def valid_current [OF assms(2)] a)
  qed
qed

lemma least_entry: "om_ok pm \<Longrightarrow> pm \<noteq> [] \<Longrightarrow> Min (fst ` set pm) = fst (pm ! 0)"
proof (rule Min_eqI)
  assume o: "om_ok pm" "pm \<noteq> []"
  show "fst (pm ! 0) \<in> fst ` set pm" using o by simp
  fix k assume "k \<in> fst ` set pm"
  then obtain i where "i < length pm" "k = fst (pm ! i)" by (auto simp: fst_set_nth)
  then show "fst (pm ! 0) \<le> k" using map_nth_less [OF o(1), of 0 i] by (cases i) auto
qed simp

text \<open>The entry for a limit: the greatest bandwidth up to it, or the least one.\<close>

definition target :: "int set \<Rightarrow> int \<Rightarrow> int" where
  "target B l = (if {k \<in> B. k \<le> l} = {} then Min B else Max {k \<in> B. k \<le> l})"

lemma target_entry:
  assumes "om_ok pm" "pm \<noteq> []" "t = length (takeWhile (\<lambda>(b, j). b \<le> l) pm)"
  shows "fst (pm ! (t - 1)) = target (fst ` set pm) l" "t - 1 < length pm"
proof -
  show "t - 1 < length pm" using assms(2,3) length_takeWhile_le [of "\<lambda>(b, j). b \<le> l" pm]
    by (cases pm) (simp_all add: less_Suc_eq_le le_diff_conv)
  show "fst (pm ! (t - 1)) = target (fst ` set pm) l"
  proof (cases "t = 0")
    case True
    then show ?thesis using greatest_upto(1) [OF assms(1,3)] least_entry [OF assms(1,2)] by (simp add: target_def)
  next
    case False
    then have g: "Max {k \<in> fst ` set pm. k \<le> l} = fst (pm ! (t - 1))" "fst (pm ! (t - 1)) \<le> l"
      using greatest_upto(2) [OF assms(1,3)] by auto
    have "fst (pm ! (t - 1)) \<in> {k \<in> fst ` set pm. k \<le> l}" using g(2) \<open>t - 1 < length pm\<close> by simp
    then have ne: "{k \<in> fst ` set pm. k \<le> l} \<noteq> {}" by blast
    show ?thesis unfolding target_def if_not_P [OF ne] g(1) ..
  qed
qed

lemma closest:
  assumes "abr_ok m" "mSortedBWProfileList m = (q, pm) # rest" "pm \<noteq> []"
  shows "\<exists>j. getClosestProfileIndexByBandwidth x m = Inr j \<and> valid_profile q (target (bandwidths q m) x) j m"
proof -
  have a: "fst (at_period q m) = pm" by (rule first_period [OF assms(1,2)])
  have s: "om_ok pm" using period_sorted [OF assms(1), of q] by (simp add: a)
  define t where "t = length (takeWhile (\<lambda>(b, j). b \<le> x) pm)"
  have t: "fst (pm ! (t - 1)) = target (bandwidths q m) x" "t - 1 < length pm"
    using target_entry [OF s assms(3) t_def] period_keys [OF assms(1), of q] by (simp_all add: a)
  then have v: "valid_profile q (target (bandwidths q m) x) (snd (pm ! (t - 1))) m"
    using period_nth [OF assms(1), of "t - 1" q] by (simp add: a)
  then have ne: "snd (pm ! (t - 1)) \<noteq> INVALID_PROFILE" by (auto simp: valid_profile_def INVALID_PROFILE_def)
  have "getClosestProfileIndexByBandwidth x m = Inr (snd (pm ! (t - 1)))"
  proof (cases "takeWhile (\<lambda>(b, j). b \<le> x) pm = []")
    case True
    then have "t = 0" by (simp add: t_def)
    then show ?thesis using True assms(2,3)
      by (cases pm) (auto simp: getClosestProfileIndexByBandwidth_def last_upto_run map_begin_def)
  next
    case False
    then have "last_upto x pm INVALID_PROFILE = snd (pm ! (t - 1))"
      using last_run [OF False] by (simp add: last_upto_run t_def)
    then show ?thesis using ne assms(2) by (simp add: getClosestProfileIndexByBandwidth_def)
  qed
  with v show ?thesis by blast
qed

lemma best_matched:
  assumes "abr_ok m" "mSortedBWProfileList m = (q, pm) # rest" "pm \<noteq> []"
    and "\<forall>k \<in> bandwidths q m. \<bar>k - x\<bar> < INT64_MAX"
  shows "\<exists>c. valid_profile q c (getBestMatchedProfileIndexByBandWidth x m) m \<and> (\<forall>k \<in> bandwidths q m. \<bar>c - x\<bar> \<le> \<bar>k - x\<bar>)"
proof -
  let ?A = "om_lower x pm" and ?L = "takeWhile (\<lambda>(b, i). b < x) pm"
  have a: "fst (at_period q m) = pm" by (rule first_period [OF assms(1,2)])
  have s: "om_ok pm" using period_sorted [OF assms(1), of q] by (simp add: a)
  have B: "bandwidths q m = fst ` set pm" using period_keys [OF assms(1), of q] by (simp add: a)
  have v: "e \<in> set pm \<Longrightarrow> valid_profile q (fst e) (snd e) m" for e
    using period_entry [OF assms(1), of "fst e" "snd e" q] by (simp add: a)
  have pm: "pm = ?L @ ?A" by (simp add: om_lower_def)
  have sL: "sorted_wrt (<) (map fst ?L @ map fst ?A)"
    using s pm unfolding om_ok_def om_keys_def by (metis map_append)
  have L: "e \<in> set ?L \<Longrightarrow> fst e < x \<and> fst e \<le> fst (last ?L)" for e
    using sL by (intro conjI, force dest: set_takeWhileD)
      (cases ?L rule: rev_cases; auto simp: sorted_wrt_append)
  have A: "e \<in> set ?A \<Longrightarrow> x \<le> fst e \<and> fst (hd ?A) \<le> fst e" for e
    using sL om_lower_suffix [OF s, of x] by (intro conjI, force) (cases ?A; auto simp: sorted_wrt_append)
  have near: "e \<in> set pm \<Longrightarrow> \<bar>fst e - x\<bar> < INT64_MAX" for e using assms(4) B by simp
  have inA: "?A \<noteq> [] \<Longrightarrow> hd ?A \<in> set pm \<and> fst (hd ?A) - x < INT64_MAX"
    using near [of "hd ?A"] hd_in_set [of ?A] om_lower_suffix [OF s, of x] by auto
  have lastL: "?L \<noteq> [] \<Longrightarrow> last ?L \<in> set pm" using last_in_set [of ?L] set_takeWhileD [of "last ?L"] by blast
  then have inL: "?L \<noteq> [] \<Longrightarrow> last ?L \<in> set pm \<and> x - fst (last ?L) < INT64_MAX"
    using near [of "last ?L"] by fastforce
  define lo where "lo \<longleftrightarrow> ?L \<noteq> [] \<and> (?A = [] \<or> x - fst (last ?L) < fst (hd ?A) - x)"
  define e where "e = (if lo then last ?L else hd ?A)"
  have best: "getBestMatchedProfileIndexByBandWidth x m = snd e"
    using assms(2,3) inA inL pm unfolding e_def lo_def getBestMatchedProfileIndexByBandWidth_def
    by (cases ?A) (auto simp: Let_def split: prod.split)
  have ne: "?L \<noteq> [] \<or> ?A \<noteq> []" using pm assms(3) by force
  then have "e \<in> set pm" using inA inL by (auto simp: e_def lo_def)
  moreover have "\<bar>fst e - x\<bar> \<le> \<bar>fst k - x\<bar>" if "k \<in> set pm" for k
  proof -
    from that pm have "k \<in> set ?L \<or> k \<in> set ?A" by (metis Un_iff set_append)
    then show ?thesis using L [of k] A [of k] L [of "last ?L"] A [of "hd ?A"]
      by (cases "?L = []"; cases "?A = []") (auto simp: e_def lo_def)
  qed
  ultimately show ?thesis using v [of e] best by (auto simp: B)
qed

text \<open>
  C30: From a valid profile of a period, in every reachable state, a ramp down goes to the greatest bandwidth of
  the period below the current one and a ramp up to the least one above it, and the lowest and the highest profile
  keep their bandwidth.  By bandwidth, over the first period when it has profiles: the closest index has the
  greatest bandwidth up to the given one, or the least of all when there is none, and the best match has a
  bandwidth with the least distance, for distances that fit a \<open>long\<close>.
\<close>

theorem abr_selection:
  assumes "reach (\<lambda>m. m = new_abr) abr_step m" "valid_profile p b i m"
    and "mSortedBWProfileList m = (q, pm) # rest" "pm \<noteq> []" "\<forall>k \<in> bandwidths q m. \<bar>k - x\<bar> < INT64_MAX"
  shows "(\<exists>j. getRampedDownProfileIndex i p m = Inr (j, snd (at_period p m))
      \<and> valid_profile p (if {k \<in> bandwidths p m. k < b} = {} then b else Max {k \<in> bandwidths p m. k < b}) j m)
    \<and> (\<exists>j. getRampedUpProfileIndex i p m = (j, snd (at_period p m))
      \<and> (if {k \<in> bandwidths p m. b < k} = {} then j = i else valid_profile p (Min {k \<in> bandwidths p m. b < k}) j m))
    \<and> (\<exists>j. getClosestProfileIndexByBandwidth x m = Inr j \<and> valid_profile q (target (bandwidths q m) x) j m)
    \<and> (\<exists>c. valid_profile q c (getBestMatchedProfileIndexByBandWidth x m) m
      \<and> (\<forall>k \<in> bandwidths q m. \<bar>c - x\<bar> \<le> \<bar>k - x\<bar>))"
  using abr.inv_reach [OF assms(1)] ramped_down [OF _ assms(2)] ramped_up [OF _ assms(2)]
    closest [OF _ assms(3,4)] best_matched [OF _ assms(3-5)] by blast

theorem abr_selection_witness:
  "valid_profile ''p0'' 800 0 sample_abr \<and> getRampedDownProfileIndex 0 ''p0'' sample_abr = Inr (2, sample_abr)
    \<and> fst (getRampedUpProfileIndex 0 ''p0'' sample_abr) = 3
    \<and> getClosestProfileIndexByBandwidth 1900 sample_abr = Inr 0
    \<and> getBestMatchedProfileIndexByBandWidth 1900 sample_abr = 3
    \<and> (\<exists>c. valid_profile ''p0'' c (getBestMatchedProfileIndexByBandWidth 1900 sample_abr) sample_abr
      \<and> \<bar>c - 1900\<bar> \<le> \<bar>2000 - 1900\<bar>)"
proof -
  have b: "2000 \<in> bandwidths ''p0'' sample_abr" by code_simp
  have v: "valid_profile ''p0'' 800 0 sample_abr" by code_simp
  have l: "mSortedBWProfileList sample_abr = (''p0'', [(300, 2), (800, 0), (2000, 3)]) # [(''p1'', [(500, 4)])]"
    by code_simp
  have d: "\<forall>k \<in> bandwidths ''p0'' sample_abr. \<bar>k - 1900\<bar> < INT64_MAX" by code_simp
  have c: "getRampedDownProfileIndex 0 ''p0'' sample_abr = Inr (2, sample_abr)"
    "fst (getRampedUpProfileIndex 0 ''p0'' sample_abr) = 3" "getClosestProfileIndexByBandwidth 1900 sample_abr = Inr 0"
    "getBestMatchedProfileIndexByBandWidth 1900 sample_abr = 3" by code_simp+
  show ?thesis using abr_selection [OF sample_abr_reach v l _ d] v c b by blast
qed

section \<open>Ramping by the network bandwidth\<close>

lemma entries_between:
  assumes "om_ok pm" "c < length pm" "a < length pm"
  shows "card {k \<in> fst ` set pm. fst (pm ! a) < k \<and> k \<le> fst (pm ! c)} = (if a < c then c - a else 0)"
proof -
  have mono: "i < length pm \<Longrightarrow> j < length pm \<Longrightarrow> fst (pm ! i) < fst (pm ! j) \<longleftrightarrow> i < j" for i j
    using map_nth_less [OF assms(1), of i j] map_nth_less [OF assms(1), of j i] by (cases i j rule: linorder_cases) auto
  show ?thesis
  proof (cases "a < c")
    case True
    have "{k \<in> fst ` set pm. fst (pm ! a) < k \<and> k \<le> fst (pm ! c)} = (\<lambda>i. fst (pm ! i)) ` {a <.. c}"
      using True assms(2) mono by (auto simp: fst_set_nth image_iff not_less [symmetric])
    moreover have "inj_on (\<lambda>i. fst (pm ! i)) {a <.. c}"
      using assms(2) mono by (intro linorder_inj_onI) (auto simp: order_less_imp_not_eq)
    ultimately show ?thesis using True by (simp add: card_image)
  next
    case False
    then have "fst (pm ! c) \<le> fst (pm ! a)" using assms mono [of a c] by (simp add: not_less)
    then have "{k \<in> fst ` set pm. fst (pm ! a) < k \<and> k \<le> fst (pm ! c)} = {}" by auto
    then show ?thesis using False by simp
  qed
qed

lemma run_from:
  assumes "om_ok pm" "n < length (takeWhile (\<lambda>(b, i). b \<le> l) pm)"
  shows "takeWhile (\<lambda>(b, i). b \<le> l) (drop n pm) = drop n (takeWhile (\<lambda>(b, i). b \<le> l) pm)"
proof -
  let ?P = "\<lambda>(b, i). b \<le> l"
  have "takeWhile ?P pm = takeWhile ?P (take n pm @ drop n pm)" by simp
  also have "\<dots> = take n pm @ takeWhile ?P (drop n pm)"
  proof (rule takeWhile_append2)
    fix e assume "e \<in> set (take n pm)"
    then obtain i where "i < n" "e = pm ! i" by (auto simp: in_set_conv_nth)
    then show "?P e" using upto_split(1) [OF assms(1), of i l] assms(2) by (simp add: case_prod_unfold)
  qed
  finally have "drop n (takeWhile ?P pm) = drop n (take n pm @ takeWhile ?P (drop n pm))" by (rule arg_cong)
  moreover have "n \<le> length pm" using assms(2) length_takeWhile_le [of ?P pm] by simp
  ultimately show ?thesis by simp
qed

lemma above_rev:
  assumes "om_ok pm"
  shows "length (takeWhile (\<lambda>(b, i). \<not> b \<le> l) (rev pm)) = length pm - length (takeWhile (\<lambda>(b, i). b \<le> l) pm)"
proof -
  let ?P = "\<lambda>(b, i). b \<le> l"
  have pm: "pm = takeWhile ?P pm @ dropWhile ?P pm" by simp
  have up: "\<forall>e \<in> set (dropWhile ?P pm). \<not> fst e \<le> l"
  proof
    fix e assume "e \<in> set (dropWhile ?P pm)"
    then obtain i where "i < length (dropWhile ?P pm)" "e = dropWhile ?P pm ! i" by (auto simp: in_set_conv_nth)
    then have "e = pm ! (length (takeWhile ?P pm) + i)" "length (takeWhile ?P pm) + i < length pm"
      by (metis nth_append_length_plus pm, metis add_less_cancel_left length_append pm)
    then show "\<not> fst e \<le> l" using upto_split(2) [OF assms, of l "length (takeWhile ?P pm) + i"] by simp
  qed
  have "takeWhile (\<lambda>(b, i). \<not> b \<le> l) (rev (takeWhile ?P pm)) = []"
  proof (cases "takeWhile ?P pm" rule: rev_cases)
    case (snoc xs x)
    then have "x \<in> set (takeWhile ?P pm)" by simp
    then show ?thesis using snoc set_takeWhileD [of x ?P pm] by auto
  qed simp
  moreover have "takeWhile (\<lambda>(b, i). \<not> b \<le> l) (rev (dropWhile ?P pm) @ rev (takeWhile ?P pm))
      = rev (dropWhile ?P pm) @ takeWhile (\<lambda>(b, i). \<not> b \<le> l) (rev (takeWhile ?P pm))"
    using up by (intro takeWhile_append2) auto
  moreover have "rev pm = rev (dropWhile ?P pm) @ rev (takeWhile ?P pm)" using pm by (metis rev_append)
  moreover have "length (dropWhile ?P pm) = length pm - length (takeWhile ?P pm)"
    by (metis dropWhile_eq_drop length_drop)
  ultimately show ?thesis by simp
qed

text \<open>The manager with its counters of wanted changes set.\<close>

abbreviation counted :: "int \<Rightarrow> int \<Rightarrow> ABRManager \<Rightarrow> ABRManager" where
  "counted up down m \<equiv> m\<lparr>mAbrProfileChangeUpCount := up, mAbrProfileChangeDownCount := down\<rparr>"

lemma ramp_up_position:
  assumes "om_ok pm" "n = map_pos cbw pm" "n < length pm" "fst (pm ! n) = cbw" "cbw < nw"
    and "t = length (takeWhile (\<lambda>(b, i). b \<le> nw) pm)"
  shows "n < t" "ramp_up i cbw nw c pm m =
    (if t - 1 - n = 1 \<and> mAbrProfileChangeUpCount m + 1 < c then (i, counted (mAbrProfileChangeUpCount m + 1) 0 m)
     else (snd (pm ! (t - 1)), counted 0 0 m))"
proof -
  show t: "n < t" using upto_split(2) [OF assms(1), of nw n] assms(3-6) by force
  let ?r = "takeWhile (\<lambda>(b, i). b \<le> nw) (drop n pm)"
  have r: "?r = drop n (takeWhile (\<lambda>(b, i). b \<le> nw) pm)" using run_from [OF assms(1)] t assms(6) by simp
  then have len: "length ?r = t - n" using assms(6) by simp
  have tl: "t \<le> length pm" using assms(6) by (simp add: length_takeWhile_le)
  have ne: "?r \<noteq> []" using len t by auto
  have hd: "hd ?r = pm ! n" using ne t assms(3) by (simp add: hd_drop_conv_nth takeWhile_eq_Nil_iff r assms(6) takeWhile_nth)
  have last: "last ?r = pm ! (t - 1)"
    unfolding r using t tl assms(6) by (simp add: last_drop last_conv_nth takeWhile_nth)
  have "t - n - 1 = 1 \<Longrightarrow> fst (pm ! n) < fst (pm ! (t - 1))"
    using map_nth_less [OF assms(1), of n "t - 1"] tl t by simp
  then show "ramp_up i cbw nw c pm m = (if t - 1 - n = 1 \<and> mAbrProfileChangeUpCount m + 1 < c
      then (i, counted (mAbrProfileChangeUpCount m + 1) 0 m) else (snd (pm ! (t - 1)), counted 0 0 m))"
    unfolding ramp_up_def Let_def assms(2) [symmetric] hd last len using ne by auto
qed

lemma ramp_down_position:
  assumes "om_ok pm" "n = map_pos cbw pm" "n < length pm" "fst (pm ! n) = cbw" "\<not> cbw < nw"
    and "t = length (takeWhile (\<lambda>(b, i). b \<le> nw) pm)"
  shows "t - 1 \<le> n" "ramp_down i cbw nw c pm m =
    Inr (if 0 < t \<and> n - (t - 1) = 1 \<and> mAbrProfileChangeDownCount m + 1 < c
         then (i, counted 0 (mAbrProfileChangeDownCount m + 1) m) else (snd (pm ! (t - 1)), counted 0 0 m))"
proof -
  have tl: "t \<le> length pm" using assms(6) by (simp add: length_takeWhile_le)
  show le: "t - 1 \<le> n"
  proof (rule ccontr)
    assume "\<not> t - 1 \<le> n"
    then have "fst (pm ! (t - 1)) \<le> nw" "cbw < fst (pm ! (t - 1))"
      using upto_split(1) [OF assms(1), of "t - 1" nw] map_nth_less [OF assms(1), of n "t - 1"] tl assms(4,6) by simp_all
    then show False using assms(5) by simp
  qed
  have ab: "length (takeWhile (\<lambda>(b, i). \<not> b \<le> nw) (rev pm)) = length pm - t" using above_rev [OF assms(1)] assms(6) by simp
  show "ramp_down i cbw nw c pm m = Inr (if 0 < t \<and> n - (t - 1) = 1 \<and> mAbrProfileChangeDownCount m + 1 < c
      then (i, counted 0 (mAbrProfileChangeDownCount m + 1) m) else (snd (pm ! (t - 1)), counted 0 0 m))"
  proof (cases "t = 0")
    case True
    have "map_begin pm = Inr (snd (pm ! 0))" using assms(3) by (cases pm) (auto simp: map_begin_def)
    then show ?thesis unfolding ramp_down_def Let_def ab True by simp
  next
    case False
    then have st: "length pm - 1 - (length pm - t) = t - 1" "length pm - t \<noteq> length pm" using tl by auto
    have "n - (t - 1) = 1 \<longleftrightarrow> fst (pm ! (t - 1)) < fst (pm ! n) \<and> int n - int (t - 1) = 1"
      using le map_nth_less [OF assms(1), of "t - 1" n] assms(3) by auto
    then show ?thesis unfolding ramp_down_def Let_def ab assms(2) [symmetric] st(1)
      using False st(2) assms(3) by (auto simp del: One_nat_def)
  qed
qed

definition steps_between :: "int set \<Rightarrow> int \<Rightarrow> int \<Rightarrow> nat" where
  "steps_between B b c = card {k \<in> B. min b c < k \<and> k \<le> max b c}"

lemma steps_positions:
  assumes "om_ok pm" "n < length pm" "c < length pm"
  shows "steps_between (fst ` set pm) (fst (pm ! n)) (fst (pm ! c)) = (if n < c then c - n else n - c)"
proof -
  consider "n < c" | "n = c" | "c < n" by linarith
  then show ?thesis
  proof cases
    case 1
    then show ?thesis using entries_between [OF assms(1,3,2)] map_nth_less [OF assms(1) _ assms(3), of n]
      by (simp add: steps_between_def min_def max_def)
  next
    case 3
    then show ?thesis using entries_between [OF assms(1,2,3)] map_nth_less [OF assms(1) _ assms(2), of c]
      by (simp add: steps_between_def min_def max_def)
  qed (simp add: steps_between_def)
qed

lemma ramp_result:
  fixes m :: ABRManager
  assumes "abr_ok m" "valid_profile p cbw i m" "nw \<noteq> -1"
    and "m' = snd (at_period p m)" "T = target (bandwidths p m) nw"
  shows "if steps_between (bandwidths p m) cbw T = 1 \<and> T \<le> nw
            \<and> (if cbw < nw then mAbrProfileChangeUpCount m else mAbrProfileChangeDownCount m) + 1 < c
         then getProfileIndexByBitrateRampUpOrDown i cbw nw c p m = Inr (i,
                if cbw < nw then counted (mAbrProfileChangeUpCount m + 1) 0 m'
                else counted 0 (mAbrProfileChangeDownCount m + 1) m')
         else \<exists>j. getProfileIndexByBitrateRampUpOrDown i cbw nw c p m = Inr (j, counted 0 0 m') \<and> valid_profile p T j m"
proof -
  note ok = assms(1)
  obtain pm where a: "at_period p m = (pm, m')" using assms(4) by (metis prod.collapse)
  have s: "om_ok pm" using period_sorted [OF ok, of p] by (simp add: a)
  have B: "bandwidths p m = fst ` set pm" using period_keys [OF ok, of p] by (simp add: a)
  define n where "n = map_pos cbw pm"
  have n: "n < length pm" "fst (pm ! n) = cbw" using valid_position [OF ok assms(2)] by (simp_all add: a n_def)
  define t where "t = length (takeWhile (\<lambda>(b, i). b \<le> nw) pm)"
  have t: "fst (pm ! (t - 1)) = T" "t - 1 < length pm"
    using target_entry [OF s _ t_def] n(1) assms(5) B by (cases pm; simp)+
  have T: "T \<le> nw \<longleftrightarrow> 0 < t"
    using upto_split(1) [OF s, of "t - 1" nw] upto_split(2) [OF s, of nw "t - 1"] t unfolding t_def [symmetric]
    by (cases t) auto
  have v: "valid_profile p T (snd (pm ! (t - 1))) m" using period_nth [OF ok, of "t - 1" p] t by (simp add: a)
  have S: "steps_between (bandwidths p m) cbw T = (if n < t - 1 then t - 1 - n else n - (t - 1))"
    using steps_positions [OF s n(1) t(2)] unfolding B n(2) t(1) .
  have cnt: "mAbrProfileChangeUpCount m' = mAbrProfileChangeUpCount m" "mAbrProfileChangeDownCount m' = mAbrProfileChangeDownCount m"
    using at_period_fields [of p m] by (simp_all add: a)
  show ?thesis
  proof (cases "cbw < nw")
    case True
    note r = ramp_up_position(1) [OF s n_def n True t_def] ramp_up_position(2) [OF s n_def n True t_def, of i c m']
    have "getProfileIndexByBitrateRampUpOrDown i cbw nw c p m = Inr (ramp_up i cbw nw c pm m')"
      using True assms(3) by (simp add: getProfileIndexByBitrateRampUpOrDown_def a valid_current [OF assms(2)])
    then show ?thesis unfolding r(2) cnt S T using r(1) v True by auto
  next
    case False
    note r = ramp_down_position(1) [OF s n_def n False t_def] ramp_down_position(2) [OF s n_def n False t_def, of i c m']
    have "getProfileIndexByBitrateRampUpOrDown i cbw nw c p m = ramp_down i cbw nw c pm m'"
      using False assms(3) by (simp add: getProfileIndexByBitrateRampUpOrDown_def a valid_current [OF assms(2)])
    then show ?thesis unfolding r(2) cnt S T using r(1) v False by auto
  qed
qed

text \<open>
  C19: From a valid profile of a period, asked with its own bandwidth and a network bandwidth that is known, ramping
  up or down never faults.  It goes to the target, the greatest bandwidth of the period the network can carry, or
  the least one when it can carry none, and clears both counters.  Only when the target is carried by the network
  and is one step away, and the change in this direction was not yet asked for \<open>nwConsistencyCnt\<close> times in a row,
  the profile stays, the counter of the direction grows by one and the other one is cleared.
\<close>

theorem abr_ramp:
  fixes m :: ABRManager
  assumes "reach (\<lambda>m. m = new_abr) abr_step m" "valid_profile p cbw i m" "nw \<noteq> -1"
    and "m' = snd (at_period p m)" "T = target (bandwidths p m) nw"
  shows "if steps_between (bandwidths p m) cbw T = 1 \<and> T \<le> nw
            \<and> (if cbw < nw then mAbrProfileChangeUpCount m else mAbrProfileChangeDownCount m) + 1 < c
         then getProfileIndexByBitrateRampUpOrDown i cbw nw c p m = Inr (i,
                if cbw < nw then counted (mAbrProfileChangeUpCount m + 1) 0 m'
                else counted 0 (mAbrProfileChangeDownCount m + 1) m')
         else \<exists>j. getProfileIndexByBitrateRampUpOrDown i cbw nw c p m = Inr (j, counted 0 0 m') \<and> valid_profile p T j m"
  by (rule ramp_result [OF abr.inv_reach [OF assms(1)] assms(2-5)])

theorem abr_ramp_witness:
  "valid_profile ''p0'' 300 2 sample_abr
    \<and> getProfileIndexByBitrateRampUpOrDown 2 300 900 2 ''p0'' sample_abr = Inr (2, counted 1 0 sample_abr)
    \<and> (\<exists>j. getProfileIndexByBitrateRampUpOrDown 2 300 5000 2 ''p0'' sample_abr = Inr (j, counted 0 0 sample_abr)
         \<and> valid_profile ''p0'' 2000 j sample_abr)"
proof -
  have v: "valid_profile ''p0'' 300 2 sample_abr" by code_simp
  have p: "snd (at_period ''p0'' sample_abr) = sample_abr" by code_simp
  have t: "target (bandwidths ''p0'' sample_abr) 900 = 800" "target (bandwidths ''p0'' sample_abr) 5000 = 2000"
    "steps_between (bandwidths ''p0'' sample_abr) 300 800 = 1" "steps_between (bandwidths ''p0'' sample_abr) 300 2000 = 2"
    "mAbrProfileChangeUpCount sample_abr = 0" by code_simp+
  show ?thesis
    using abr_ramp [OF sample_abr_reach v _ refl refl, of 900 2] abr_ramp [OF sample_abr_reach v _ refl refl, of 5000 2] v
    by (simp add: p t)
qed

section \<open>Faults\<close>

lemma profile_at_clamp: "(\<exists>x. profile_at (clamp i m) m = Inr x) \<longleftrightarrow> mProfiles m \<noteq> [] \<and> 0 \<le> i \<and> i \<le> int (length (mProfiles m))"
  by (cases "mProfiles m") (auto simp: profile_at_def clamp_def too_big_def)

lemma ramp_down_fault:
  assumes "om_ok pm"
  shows "isl (ramp_down i cbw nw c pm m) \<longleftrightarrow> pm = [] \<or> cbw \<notin> fst ` set pm \<and> (\<exists>b \<in> fst ` set pm. b \<le> nw)"
proof -
  let ?t = "length (takeWhile (\<lambda>(b, i). b \<le> nw) pm)"
  have tl: "?t \<le> length pm" by (simp add: length_takeWhile_le)
  have ab: "length (takeWhile (\<lambda>(b, i). \<not> b \<le> nw) (rev pm)) = length pm - ?t" by (rule above_rev [OF assms])
  have pos: "map_pos cbw pm = length pm \<longleftrightarrow> cbw \<notin> fst ` set pm"
    using map_pos_found(1) [of cbw pm] map_pos_absent [of cbw pm] by (metis order_less_irrefl)
  have low: "(\<exists>b \<in> fst ` set pm. b \<le> nw) \<longleftrightarrow> 0 < ?t"
    using greatest_upto [OF assms refl, of nw] upto_split(1) [OF assms, of 0 nw] tl by (fastforce simp: fst_set_nth)
  show ?thesis unfolding ramp_down_def Let_def ab pos low
    using tl by (cases pm) (auto simp: map_begin_def split: if_splits)
qed

text \<open>
  The calls that read outside the vector or through \<open>end()\<close>.  With profiles present, ramping down, the test
  for the lowest bitrate, the bandwidth of a profile and the removal of profiles read a profile that does not
  exist exactly for an index that is negative or greater than the number of profiles; the number itself is taken as
  the last profile.  Ramping by the network bandwidth reads through \<open>end()\<close> exactly when the network bandwidth is
  known and not above the current one, and the period has no profile, or it has one the network can carry but none
  with the current bandwidth.  The profile of lowest bandwidth cannot be read exactly when there are
  profiles but the index has no period.
\<close>

theorem abr_faults:
  assumes "reach (\<lambda>m. m = new_abr) abr_step m" "bad \<longleftrightarrow> mProfiles m \<noteq> [] \<and> (i < 0 \<or> int (length (mProfiles m)) < i)"
  shows "(isl (getRampedDownProfileIndex i p m) \<longleftrightarrow> bad) \<and> (isl (isProfileIndexBitrateLowest i p m) \<longleftrightarrow> bad)
    \<and> (isl (getBandwidthOfProfile i m) \<longleftrightarrow> bad) \<and> (isl (removeProfiles bws i p m) \<longleftrightarrow> bad)
    \<and> (isl (getProfileIndexByBitrateRampUpOrDown i cbw nw c p m) \<longleftrightarrow> nw \<noteq> -1 \<and> nw \<le> cbw
      \<and> (bandwidths p m = {} \<or> cbw \<notin> bandwidths p m \<and> (\<exists>b \<in> bandwidths p m. b \<le> nw)))
    \<and> (isl (getProfileIndexForLowestBandwidth m) \<longleftrightarrow> mProfiles m \<noteq> [] \<and> (\<forall>x \<in> set (mProfiles m). isIframeTrack x)
      \<and> mSortedBWProfileList m = [])"
proof (intro conjI)
  have ok: "abr_ok m" by (rule abr.inv_reach [OF assms(1)])
  obtain pm m' where a: "at_period p m = (pm, m')" by force
  have s: "om_ok pm" using period_sorted [OF ok, of p] by (simp add: a)
  have B: "bandwidths p m = fst ` set pm" using period_keys [OF ok, of p] by (simp add: a)
  show "isl (getRampedDownProfileIndex i p m) \<longleftrightarrow> bad" "isl (isProfileIndexBitrateLowest i p m) \<longleftrightarrow> bad"
    "isl (getBandwidthOfProfile i m) \<longleftrightarrow> bad" "isl (removeProfiles bws i p m) \<longleftrightarrow> bad"
    unfolding assms(2) getRampedDownProfileIndex_def isProfileIndexBitrateLowest_def getBandwidthOfProfile_def
      removeProfiles_def Let_def a
    using profile_at_clamp [of i m] by (cases "profile_at (clamp i m) m"; auto)+
  show "isl (getProfileIndexByBitrateRampUpOrDown i cbw nw c p m) \<longleftrightarrow> nw \<noteq> -1 \<and> nw \<le> cbw
      \<and> (bandwidths p m = {} \<or> cbw \<notin> bandwidths p m \<and> (\<exists>b \<in> bandwidths p m. b \<le> nw))"
    unfolding B using ramp_down_fault [OF s, of "clamp i m" cbw nw c m']
    by (auto simp: getProfileIndexByBitrateRampUpOrDown_def a Let_def)
  have "mSortedBWProfileList m = [] \<Longrightarrow> x \<in> set (mProfiles m) \<Longrightarrow> isIframeTrack x" for x
    using period_keys [OF ok, of "periodId x"] by (auto simp: at_period_def bandwidths_def)
  then show "isl (getProfileIndexForLowestBandwidth m) \<longleftrightarrow> mProfiles m \<noteq> [] \<and> (\<forall>x \<in> set (mProfiles m). isIframeTrack x)
      \<and> mSortedBWProfileList m = []"
    by (auto simp: getProfileIndexForLowestBandwidth_def split: list.splits)
qed

theorem abr_faults_witness:
  "isl (getRampedDownProfileIndex 6 ''p0'' sample_abr) \<and> \<not> isl (getRampedDownProfileIndex 5 ''p0'' sample_abr)
    \<and> isl (getProfileIndexByBitrateRampUpOrDown 0 700 400 1 ''p0'' sample_abr)
    \<and> isl (getProfileIndexForLowestBandwidth (sample_profiles [(True, 100, ''p0'')]))"
proof -
  have b: "bandwidths ''p0'' sample_abr = {300, 800, 2000}" "length (mProfiles sample_abr) = 5" "mProfiles sample_abr \<noteq> []"
    by code_simp+
  have l: "mProfiles (sample_profiles [(True, 100, ''p0'')]) \<noteq> []" "mSortedBWProfileList (sample_profiles [(True, 100, ''p0'')]) = []"
    "\<forall>x \<in> set (mProfiles (sample_profiles [(True, 100, ''p0'')])). isIframeTrack x" by code_simp+
  show ?thesis
    using abr_faults [OF sample_abr_reach refl, of 6 "''p0''"] abr_faults [OF sample_abr_reach refl, of 5 "''p0''"]
      abr_faults [OF sample_abr_reach refl, of 0 "''p0''" _ 700 400 1]
      abr_faults [OF sample_profiles_reach [of "[(True, 100, ''p0'')]"] refl] b l by simp
qed

end
