(* ===== verification/Bandwidth_Estimator.thy ===== *)
theory Bandwidth_Estimator
  imports Aamp_Time "HOL-Library.Multiset"
begin

text \<open>
  The estimation of the network bandwidth: \<open>RollingMedianOutlierEstimator\<close>, and the part of
  \<open>ABRManager\<close> that keeps the bandwidth state from whichever estimator is selected.  The clock is an
  argument (\<open>now\<close>, in milliseconds); a bandwidth is a \<open>long\<close>, an \<open>int\<close> here, and the conversions to
  \<open>size_t\<close> that the code makes implicitly are written out; \<open>rnd\<close> is the rounding of double precision.
  The estimator is an object behind the interface \<open>BandwidthEstimatorBase\<close>: the manager's operations
  take the record of its methods, the locale states what the manager relies on, and it is interpreted
  on the rolling median.
  The lemmas show what the estimate is, between which samples it lies and when there is none, and
  that the network bandwidth is the last estimate there was.
\<close>

section \<open>The rolling median\<close>

record BandwidthEstimatorConfig =
  mAbrCacheLife :: int
  mAbrCacheLength :: int
  mAbrCacheOutlier :: int
  mLowLatencyCacheLength :: nat

record RollingMedianOutlierEstimator =
  mConfig :: BandwidthEstimatorConfig
  mAbrBitrateData :: "(int \<times> int) list"

definition DEFAULT_ABR_CHUNK_CACHE_LENGTH :: nat where
  "DEFAULT_ABR_CHUNK_CACHE_LENGTH = 10"

definition new_rolling :: RollingMedianOutlierEstimator where
  "new_rolling = \<lparr>mConfig = \<lparr>mAbrCacheLife = 0, mAbrCacheLength = 0, mAbrCacheOutlier = 0,
     mLowLatencyCacheLength = DEFAULT_ABR_CHUNK_CACHE_LENGTH\<rparr>, mAbrBitrateData = []\<rparr>"

definition SetConfig :: "BandwidthEstimatorConfig \<Rightarrow> RollingMedianOutlierEstimator \<Rightarrow> RollingMedianOutlierEstimator" where
  "SetConfig config e = e\<lparr>mConfig := config\<rparr>"

text \<open>A value converted to \<open>unsigned long\<close>, and one converted back to \<open>long\<close>.\<close>

definition as_size_t :: "int \<Rightarrow> int" where
  "as_size_t x = x mod 2 ^ 64"

definition as_long :: "int \<Rightarrow> int" where
  "as_long x = (if x < 2 ^ 63 then x else x - 2 ^ 64)"

definition UpdateABRBitrateDataBasedOnCacheLength ::
    "int \<Rightarrow> int \<Rightarrow> bool \<Rightarrow> RollingMedianOutlierEstimator \<Rightarrow> RollingMedianOutlierEstimator" where
  "UpdateABRBitrateDataBasedOnCacheLength now downloadbps lowLatencyMode e =
     (let d = mAbrBitrateData e @ [(now, downloadbps)]
      in e\<lparr>mAbrBitrateData :=
           (if lowLatencyMode then (if mLowLatencyCacheLength (mConfig e) < length d then tl d else d)
            else if as_size_t (mAbrCacheLength (mConfig e)) < int (length d) then tl d else d)\<rparr>)"

definition stale :: "int \<Rightarrow> RollingMedianOutlierEstimator \<Rightarrow> int \<times> int \<Rightarrow> bool" where
  "stale presentTime e s \<longleftrightarrow> fst s \<le> 0 \<or> mAbrCacheLife (mConfig e) < presentTime - fst s"

definition UpdateABRBitrateDataBasedOnCacheLife ::
    "int \<Rightarrow> RollingMedianOutlierEstimator \<Rightarrow> int list \<times> RollingMedianOutlierEstimator" where
  "UpdateABRBitrateDataBasedOnCacheLife presentTime e =
     (let d = filter (\<lambda>s. \<not> stale presentTime e s) (mAbrBitrateData e)
      in (map snd d, e\<lparr>mAbrBitrateData := d\<rparr>))"

definition median :: "int list \<Rightarrow> int" where
  "median xs = (let n = length xs
     in if odd n then xs ! (n div 2) else (xs ! (n div 2 - 1) + xs ! (n div 2)) sdiv 2)"

definition outlier :: "int \<Rightarrow> nat \<Rightarrow> int \<Rightarrow> int \<Rightarrow> bool" where
  "outlier limit initialSize medianbps val \<longleftrightarrow>
     limit < (if initialSize = 2 then val - medianbps else \<bar>val - medianbps\<bar>)"

definition UpdateABRBitrateDataBasedOnCacheOutlier :: "RollingMedianOutlierEstimator \<Rightarrow> int list \<Rightarrow> int" where
  "UpdateABRBitrateDataBasedOnCacheOutlier e tmpData =
     (let sorted = sort tmpData;
          kept = filter (\<lambda>v. \<not> outlier (mAbrCacheOutlier (mConfig e)) (length tmpData) (median sorted) v) sorted
      in if kept = [] then -1 else as_long (as_size_t (sum_list kept) div int (length kept)))"

definition Reset_rolling :: "RollingMedianOutlierEstimator \<Rightarrow> RollingMedianOutlierEstimator" where
  "Reset_rolling e = e\<lparr>mAbrBitrateData := []\<rparr>"

definition GetBandwidthBitsPerSecond ::
    "int \<Rightarrow> RollingMedianOutlierEstimator \<Rightarrow> int \<times> RollingMedianOutlierEstimator" where
  "GetBandwidthBitsPerSecond now e =
     (let (tmpData, e') = UpdateABRBitrateDataBasedOnCacheLife now e
      in if tmpData = [] then (-1, e') else (UpdateABRBitrateDataBasedOnCacheOutlier e' tmpData, e'))"

definition GetThroughputBytesPerSecond :: "(real \<Rightarrow> real) \<Rightarrow> int \<Rightarrow> RollingMedianOutlierEstimator
    \<Rightarrow> real \<times> RollingMedianOutlierEstimator" where
  "GetThroughputBytesPerSecond rnd now e =
     (let (b, e') = GetBandwidthBitsPerSecond now e in (if b \<le> 0 then 0 else rnd (rnd (of_int b) / 8), e'))"

definition GetPredictedDownloadTime_rolling :: "(real \<Rightarrow> real) \<Rightarrow> int \<Rightarrow> nat \<Rightarrow> RollingMedianOutlierEstimator
    \<Rightarrow> real \<times> RollingMedianOutlierEstimator" where
  "GetPredictedDownloadTime_rolling rnd now bytes e =
     (let (b, e') = GetBandwidthBitsPerSecond now e
      in (if b \<le> 0 then 0 else rnd (rnd (rnd (of_nat bytes) * 8) / rnd (of_int b)), e'))"

section \<open>The bandwidth state of the manager\<close>

text \<open>
  The methods of \<open>BandwidthEstimatorBase\<close> the manager calls.  Download metrics and progress are
  values the rolling median ignores.
\<close>

record DownloadMetrics =
  m_size_download_bytes :: nat
  m_total_time_seconds :: real
  m_time_to_first_byte_seconds :: real

record DownloadProgressInfo =
  m_now_seconds :: real
  m_total_bytes :: nat
  m_now_bytes :: nat

record 'e BandwidthEstimatorBase =
  op_Reset :: "'e \<Rightarrow> 'e"
  op_AddBandwidthSample :: "int \<Rightarrow> int \<Rightarrow> bool \<Rightarrow> 'e \<Rightarrow> 'e"
  op_UpdateDownloadMetrics :: "DownloadMetrics \<Rightarrow> 'e \<Rightarrow> 'e"
  op_UpdateDownloadProgress :: "DownloadProgressInfo \<Rightarrow> 'e \<Rightarrow> 'e"
  op_GetBandwidthBitsPerSecond :: "int \<Rightarrow> 'e \<Rightarrow> int \<times> 'e"
  op_ResetCurrentlyAvailableBandwidth :: "'e \<Rightarrow> 'e"

record 'e BandwidthState =
  availableBandwidth :: int
  networkBandwidth :: int
  mBandwidthEstimator :: "'e option"

definition UpdateBandwidthStateFromEstimatorLocked ::
    "'e BandwidthEstimatorBase \<Rightarrow> int \<Rightarrow> 'e BandwidthState \<Rightarrow> int \<times> 'e BandwidthState" where
  "UpdateBandwidthStateFromEstimatorLocked ops now s =
     (case mBandwidthEstimator s of
        None \<Rightarrow> (-1, s\<lparr>availableBandwidth := -1\<rparr>)
      | Some e \<Rightarrow>
          (let (estimate, e') = op_GetBandwidthBitsPerSecond ops now e
           in (estimate, s\<lparr>availableBandwidth := estimate, mBandwidthEstimator := Some e',
                 networkBandwidth := (if estimate \<noteq> -1 then estimate else networkBandwidth s)\<rparr>)))"

definition SelectBandwidthEstimationAlgorithm ::
    "'e BandwidthEstimatorBase \<Rightarrow> int \<Rightarrow> 'e \<Rightarrow> 'e BandwidthState \<Rightarrow> 'e BandwidthState" where
  "SelectBandwidthEstimationAlgorithm ops now new_estimator s =
     snd (UpdateBandwidthStateFromEstimatorLocked ops now (s\<lparr>mBandwidthEstimator := Some new_estimator\<rparr>))"

definition new_bandwidth_state :: "'e BandwidthEstimatorBase \<Rightarrow> int \<Rightarrow> 'e \<Rightarrow> 'e BandwidthState" where
  "new_bandwidth_state ops now new_estimator =
     SelectBandwidthEstimationAlgorithm ops now new_estimator
       \<lparr>availableBandwidth = 0, networkBandwidth = 0, mBandwidthEstimator = None\<rparr>"

definition AddBandwidthSample ::
    "'e BandwidthEstimatorBase \<Rightarrow> int \<Rightarrow> int \<Rightarrow> bool \<Rightarrow> 'e BandwidthState \<Rightarrow> 'e BandwidthState" where
  "AddBandwidthSample ops now downloadbps lowLatencyMode s =
     (case mBandwidthEstimator s of
        None \<Rightarrow> s
      | Some e \<Rightarrow> snd (UpdateBandwidthStateFromEstimatorLocked ops now
          (s\<lparr>mBandwidthEstimator := Some (op_AddBandwidthSample ops now downloadbps lowLatencyMode e)\<rparr>)))"

definition ReportDownloadComplete ::
    "'e BandwidthEstimatorBase \<Rightarrow> int \<Rightarrow> int \<Rightarrow> bool \<Rightarrow> DownloadMetrics \<Rightarrow> 'e BandwidthState \<Rightarrow> 'e BandwidthState" where
  "ReportDownloadComplete ops now downloadbps lowLatencyMode metrics s =
     (case mBandwidthEstimator s of
        None \<Rightarrow> s
      | Some e \<Rightarrow>
          let e1 = (if downloadbps > 0 then op_AddBandwidthSample ops now downloadbps lowLatencyMode e else e)
          in snd (UpdateBandwidthStateFromEstimatorLocked ops now
               (s\<lparr>mBandwidthEstimator := Some (op_UpdateDownloadMetrics ops metrics e1)\<rparr>)))"

definition ReportDownloadProgress ::
    "'e BandwidthEstimatorBase \<Rightarrow> int \<Rightarrow> int \<Rightarrow> bool \<Rightarrow> DownloadProgressInfo \<Rightarrow> 'e BandwidthState \<Rightarrow> 'e BandwidthState" where
  "ReportDownloadProgress ops now downloadbps lowLatencyMode progressInfo s =
     (case mBandwidthEstimator s of
        None \<Rightarrow> s
      | Some e \<Rightarrow>
          let e1 = op_UpdateDownloadProgress ops progressInfo e;
              e2 = (if downloadbps > 0 then op_AddBandwidthSample ops now downloadbps lowLatencyMode e1 else e1)
          in snd (UpdateBandwidthStateFromEstimatorLocked ops now (s\<lparr>mBandwidthEstimator := Some e2\<rparr>)))"

definition SetInitialBandwidthForProfile ::
    "'e BandwidthEstimatorBase \<Rightarrow> int \<Rightarrow> int \<Rightarrow> 'e BandwidthState \<Rightarrow> 'e BandwidthState" where
  "SetInitialBandwidthForProfile ops now bitsPerSecond s =
     (let s1 = s\<lparr>availableBandwidth := bitsPerSecond, networkBandwidth := bitsPerSecond\<rparr>
      in case mBandwidthEstimator s1 of
           None \<Rightarrow> s1
         | Some e \<Rightarrow>
             let e1 = op_Reset ops e;
                 e2 = (if bitsPerSecond > 0 then op_AddBandwidthSample ops now bitsPerSecond False e1 else e1)
             in snd (UpdateBandwidthStateFromEstimatorLocked ops now (s1\<lparr>mBandwidthEstimator := Some e2\<rparr>)))"

definition ResetCurrentlyAvailableBandwidth ::
    "'e BandwidthEstimatorBase \<Rightarrow> 'e BandwidthState \<Rightarrow> 'e BandwidthState" where
  "ResetCurrentlyAvailableBandwidth ops s =
     s\<lparr>mBandwidthEstimator := map_option (op_ResetCurrentlyAvailableBandwidth ops) (mBandwidthEstimator s)\<rparr>"

definition GetCurrentlyAvailableBandwidth ::
    "'e BandwidthEstimatorBase \<Rightarrow> int \<Rightarrow> 'e BandwidthState \<Rightarrow> int \<times> 'e BandwidthState" where
  "GetCurrentlyAvailableBandwidth ops now s = UpdateBandwidthStateFromEstimatorLocked ops now s"

definition GetNetworkBandwidth ::
    "'e BandwidthEstimatorBase \<Rightarrow> int \<Rightarrow> 'e BandwidthState \<Rightarrow> int \<times> 'e BandwidthState" where
  "GetNetworkBandwidth ops now s =
     (let (_, s') = UpdateBandwidthStateFromEstimatorLocked ops now s in (networkBandwidth s', s'))"

text \<open>The rolling median behind the interface.\<close>

definition rolling_ops :: "RollingMedianOutlierEstimator BandwidthEstimatorBase" where
  "rolling_ops = \<lparr>op_Reset = Reset_rolling,
     op_AddBandwidthSample = UpdateABRBitrateDataBasedOnCacheLength,
     op_UpdateDownloadMetrics = (\<lambda>_ e. e), op_UpdateDownloadProgress = (\<lambda>_ e. e),
     op_GetBandwidthBitsPerSecond = GetBandwidthBitsPerSecond,
     op_ResetCurrentlyAvailableBandwidth = Reset_rolling\<rparr>"

text \<open>The calls of the manager, and the clock going on between them.\<close>

inductive bandwidth_step :: "'e BandwidthEstimatorBase \<Rightarrow> 'e BandwidthState \<Rightarrow> 'e BandwidthState \<Rightarrow> bool"
  for ops :: "'e BandwidthEstimatorBase" where
  "bandwidth_step ops s (AddBandwidthSample ops now bps ll s)"
| "bandwidth_step ops s (ReportDownloadComplete ops now bps ll metrics s)"
| "bandwidth_step ops s (ReportDownloadProgress ops now bps ll progress s)"
| "0 \<le> bps \<Longrightarrow> bandwidth_step ops s (SetInitialBandwidthForProfile ops now bps s)"
| "bandwidth_step ops s (ResetCurrentlyAvailableBandwidth ops s)"
| "bandwidth_step ops s (snd (GetCurrentlyAvailableBandwidth ops now s))"
| "bandwidth_step ops s (snd (GetNetworkBandwidth ops now s))"


section \<open>The estimate\<close>

definition fresh :: "int \<Rightarrow> RollingMedianOutlierEstimator \<Rightarrow> int list" where
  "fresh now e = map snd (filter (\<lambda>s. \<not> stale now e s) (mAbrBitrateData e))"

definition kept :: "int \<Rightarrow> RollingMedianOutlierEstimator \<Rightarrow> int list" where
  "kept now e = filter (\<lambda>v. \<not> outlier (mAbrCacheOutlier (mConfig e)) (length (fresh now e))
     (median (sort (fresh now e))) v) (fresh now e)"

lemma sum_list_sort: "sum_list (sort xs) = sum_list (xs :: int list)"
  by (metis mset_sort sum_mset_sum_list)

lemma average_of: "0 \<le> s \<Longrightarrow> s < 2 ^ 63 \<Longrightarrow> 0 < n \<Longrightarrow> as_long (as_size_t s div n) = s div n"
proof -
  assume s: "0 \<le> s" "s < 2 ^ 63" "0 < n"
  then have "s div n \<le> s" by (simp add: div_le_self)
  then show ?thesis using s by (simp add: as_long_def as_size_t_def)
qed

lemma rolling_value:
  "fst (GetBandwidthBitsPerSecond now e) =
     (if kept now e = [] then -1
      else as_long (as_size_t (sum_list (kept now e)) div int (length (kept now e))))"
proof -
  let ?P = "\<lambda>v. \<not> outlier (mAbrCacheOutlier (mConfig e)) (length (fresh now e)) (median (sort (fresh now e))) v"
  have "filter ?P (sort (fresh now e)) = sort (kept now e)" by (simp add: kept_def filter_sort)
  moreover have "fresh now e = [] \<Longrightarrow> kept now e = []" by (simp add: kept_def)
  moreover have "sort (kept now e) = [] \<longleftrightarrow> kept now e = []" by (metis length_0_conv length_sort)
  ultimately show ?thesis
    by (simp add: GetBandwidthBitsPerSecond_def UpdateABRBitrateDataBasedOnCacheLife_def
        UpdateABRBitrateDataBasedOnCacheOutlier_def fresh_def [symmetric] Let_def sum_list_sort)
qed

lemma fresh_again: "fresh now (snd (GetBandwidthBitsPerSecond now e)) = fresh now e"
  "mConfig (snd (GetBandwidthBitsPerSecond now e)) = mConfig e"
  by (simp_all add: GetBandwidthBitsPerSecond_def UpdateABRBitrateDataBasedOnCacheLife_def fresh_def stale_def Let_def)

lemma rolling_again: "GetBandwidthBitsPerSecond now (snd (GetBandwidthBitsPerSecond now e)) = GetBandwidthBitsPerSecond now e"
proof (rule prod_eqI)
  show "fst (GetBandwidthBitsPerSecond now (snd (GetBandwidthBitsPerSecond now e))) = fst (GetBandwidthBitsPerSecond now e)"
    by (simp add: rolling_value kept_def fresh_again)
  show "snd (GetBandwidthBitsPerSecond now (snd (GetBandwidthBitsPerSecond now e))) = snd (GetBandwidthBitsPerSecond now e)"
    by (simp add: GetBandwidthBitsPerSecond_def UpdateABRBitrateDataBasedOnCacheLife_def stale_def Let_def)
qed

lemma average_between:
  fixes xs :: "int list"
  assumes "xs \<noteq> []"
  shows "Min (set xs) \<le> sum_list xs div int (length xs)" "sum_list xs div int (length xs) \<le> Max (set xs)"
proof -
  let ?n = "int (length xs)"
  have n: "0 < ?n" using assms by simp
  have "sum_list (map (\<lambda>_. Min (set xs)) xs) \<le> sum_list (map id xs)"
    by (rule sum_list_mono) simp
  then have "?n * Min (set xs) \<le> sum_list xs" by (simp add: sum_list_triv)
  then show "Min (set xs) \<le> sum_list xs div ?n"
    using n zdiv_mono1 [of "?n * Min (set xs)" "sum_list xs" ?n] by simp
  have "sum_list (map id xs) \<le> sum_list (map (\<lambda>_. Max (set xs)) xs)"
    by (rule sum_list_mono) simp
  then have "sum_list xs \<le> ?n * Max (set xs)" by (simp add: sum_list_triv)
  then show "sum_list xs div ?n \<le> Max (set xs)"
    using n zdiv_mono1 [of "sum_list xs" "?n * Max (set xs)" ?n] by simp
qed

lemma median_in: "odd (length xs) \<Longrightarrow> median xs \<in> set xs"
  by (auto simp: median_def Let_def intro!: nth_mem elim: oddE)

lemma smaller_half: "a \<le> b \<Longrightarrow> a \<le> (a + b) sdiv (2 :: int)"
  using sdiv_pos_pos [of "a + b" 2] sdiv_neg_pos [of "a + b" 2] by (cases "0 \<le> a + b") auto

lemma kept_some:
  assumes "0 \<le> mAbrCacheOutlier (mConfig e)" "odd (length (fresh now e)) \<or> length (fresh now e) = 2"
  shows "kept now e \<noteq> []"
proof (cases "length (fresh now e) = 2")
  case True
  let ?s = "sort (fresh now e)"
  have len: "length ?s = 2" using True by simp
  then obtain a b where ab: "?s = [a, b]" by (metis (no_types) One_nat_def Suc_1 length_0_conv length_Suc_conv)
  then have "a \<le> b" by (metis sorted2 sorted_sort)
  then have "a \<le> median ?s" by (simp add: ab median_def smaller_half)
  moreover have "a \<in> set (fresh now e)" using ab by (metis list.set_intros(1) set_sort)
  ultimately have "a \<in> set (kept now e)" using assms(1) True by (simp add: kept_def outlier_def)
  then show ?thesis by force
next
  case False
  then have "median (sort (fresh now e)) \<in> set (fresh now e)" using assms(2) median_in [of "sort (fresh now e)"] by simp
  then have "median (sort (fresh now e)) \<in> set (kept now e)" using assms(1) False by (simp add: kept_def outlier_def)
  then show ?thesis by force
qed

section \<open>The interface\<close>

text \<open>
  What the manager relies on: an estimate asked for again at the same time is the same, and there is
  none after a reset.
\<close>

locale bandwidth_estimator =
  fixes ops :: "'e BandwidthEstimatorBase"
  assumes asked_again: "op_GetBandwidthBitsPerSecond ops now (snd (op_GetBandwidthBitsPerSecond ops now e))
      = op_GetBandwidthBitsPerSecond ops now e"
    and after_reset: "fst (op_GetBandwidthBitsPerSecond ops now (op_Reset ops e)) = -1"
    and after_reset_available: "fst (op_GetBandwidthBitsPerSecond ops now (op_ResetCurrentlyAvailableBandwidth ops e)) = -1"
begin

lemma update_some:
  assumes "mBandwidthEstimator s = Some e"
  shows "fst (UpdateBandwidthStateFromEstimatorLocked ops now s) = fst (op_GetBandwidthBitsPerSecond ops now e)"
    "availableBandwidth (snd (UpdateBandwidthStateFromEstimatorLocked ops now s)) = fst (op_GetBandwidthBitsPerSecond ops now e)"
    "networkBandwidth (snd (UpdateBandwidthStateFromEstimatorLocked ops now s)) =
       (if fst (op_GetBandwidthBitsPerSecond ops now e) \<noteq> -1 then fst (op_GetBandwidthBitsPerSecond ops now e) else networkBandwidth s)"
    "mBandwidthEstimator (snd (UpdateBandwidthStateFromEstimatorLocked ops now s)) = Some (snd (op_GetBandwidthBitsPerSecond ops now e))"
  using assms by (simp_all add: UpdateBandwidthStateFromEstimatorLocked_def case_prod_unfold Let_def)

lemma network_is_last_estimate:
  assumes "mBandwidthEstimator s = Some e"
  shows "fst (GetNetworkBandwidth ops now s) =
    (if fst (GetCurrentlyAvailableBandwidth ops now s) \<noteq> -1 then fst (GetCurrentlyAvailableBandwidth ops now s)
     else networkBandwidth s)"
  by (simp add: GetNetworkBandwidth_def GetCurrentlyAvailableBandwidth_def case_prod_unfold Let_def update_some [OF assms])

lemma reading_is_stable:
  assumes "mBandwidthEstimator s = Some e"
  shows "GetCurrentlyAvailableBandwidth ops now (snd (GetCurrentlyAvailableBandwidth ops now s))
      = GetCurrentlyAvailableBandwidth ops now s"
proof -
  let ?g = "op_GetBandwidthBitsPerSecond ops now e"
  have "op_GetBandwidthBitsPerSecond ops now (snd ?g) = ?g" by (rule asked_again)
  then show ?thesis
    using assms
    by (simp add: GetCurrentlyAvailableBandwidth_def UpdateBandwidthStateFromEstimatorLocked_def case_prod_unfold Let_def)
qed

lemma reset_keeps_network:
  assumes "mBandwidthEstimator s = Some e"
  shows "fst (GetCurrentlyAvailableBandwidth ops now (ResetCurrentlyAvailableBandwidth ops s)) = -1"
    "fst (GetNetworkBandwidth ops now (ResetCurrentlyAvailableBandwidth ops s)) = networkBandwidth s"
proof -
  have e: "mBandwidthEstimator (ResetCurrentlyAvailableBandwidth ops s) = Some (op_ResetCurrentlyAvailableBandwidth ops e)"
    using assms by (simp add: ResetCurrentlyAvailableBandwidth_def)
  show none: "fst (GetCurrentlyAvailableBandwidth ops now (ResetCurrentlyAvailableBandwidth ops s)) = -1"
    by (simp add: GetCurrentlyAvailableBandwidth_def update_some(1) [OF e] after_reset_available)
  show "fst (GetNetworkBandwidth ops now (ResetCurrentlyAvailableBandwidth ops s)) = networkBandwidth s"
    using none by (simp add: network_is_last_estimate [OF e]) (simp add: ResetCurrentlyAvailableBandwidth_def)
qed

lemma initial_without_bandwidth:
  assumes "mBandwidthEstimator s = Some e" "bps \<le> 0"
  shows "availableBandwidth (SetInitialBandwidthForProfile ops now bps s) = -1"
    "networkBandwidth (SetInitialBandwidthForProfile ops now bps s) = bps"
  using assms after_reset [of now e]
  by (simp_all add: SetInitialBandwidthForProfile_def UpdateBandwidthStateFromEstimatorLocked_def case_prod_unfold Let_def)

end

interpretation rolling: bandwidth_estimator rolling_ops
proof
  show "op_GetBandwidthBitsPerSecond rolling_ops now (snd (op_GetBandwidthBitsPerSecond rolling_ops now e))
      = op_GetBandwidthBitsPerSecond rolling_ops now e" for now e
    by (simp add: rolling_ops_def rolling_again)
qed (simp_all add: rolling_ops_def Reset_rolling_def rolling_value kept_def fresh_def)

text \<open>The network bandwidth is never the value that stands for no estimate.\<close>

definition bandwidth_known :: "'e BandwidthState \<Rightarrow> bool" where
  "bandwidth_known s \<longleftrightarrow> mBandwidthEstimator s \<noteq> None \<and> networkBandwidth s \<noteq> -1"

lemma known_update: "bandwidth_known s \<Longrightarrow> bandwidth_known (snd (UpdateBandwidthStateFromEstimatorLocked ops now s))"
  by (auto simp: bandwidth_known_def UpdateBandwidthStateFromEstimatorLocked_def case_prod_unfold Let_def split: option.splits)

lemma known_estimator: "bandwidth_known s \<Longrightarrow> bandwidth_known (s\<lparr>mBandwidthEstimator := Some e\<rparr>)"
  by (simp add: bandwidth_known_def)

lemma known_step: "bandwidth_step ops s t \<Longrightarrow> bandwidth_known s \<Longrightarrow> bandwidth_known t"
proof (induction rule: bandwidth_step.induct)
  case (4 bps s now)
  then have "bandwidth_known (s\<lparr>availableBandwidth := bps, networkBandwidth := bps\<rparr>)"
    by (simp add: bandwidth_known_def)
  then show ?case
    by (auto simp: SetInitialBandwidthForProfile_def Let_def intro!: known_update known_estimator split: option.split)
next
  case (5 s)
  then show ?case by (auto simp: ResetCurrentlyAvailableBandwidth_def bandwidth_known_def)
qed (auto simp: AddBandwidthSample_def ReportDownloadComplete_def ReportDownloadProgress_def Let_def
       GetCurrentlyAvailableBandwidth_def GetNetworkBandwidth_def case_prod_unfold Let_def
       intro: known_update known_estimator split: option.split)

interpretation bandwidth_state: stateful "\<lambda>s. s = new_bandwidth_state rolling_ops t0 new_rolling"
    "bandwidth_step rolling_ops" bandwidth_known
proof
  show "bandwidth_known s" if "s = new_bandwidth_state rolling_ops t0 new_rolling" for s
    unfolding that new_bandwidth_state_def SelectBandwidthEstimationAlgorithm_def
    by (rule known_update) (simp add: bandwidth_known_def)
qed (rule known_step)

section \<open>Properties\<close>

definition sample_rolling :: "(int \<times> int) list \<Rightarrow> RollingMedianOutlierEstimator" where
  "sample_rolling d = \<lparr>mConfig = \<lparr>mAbrCacheLife = 5000, mAbrCacheLength = 10, mAbrCacheOutlier = 100,
     mLowLatencyCacheLength = 10\<rparr>, mAbrBitrateData = d\<rparr>"

text \<open>
  C40: the estimate of the rolling median.  It is the truncated average of the samples that are not
  older than the cache life and not further from the median of these than the outlier limit, and so lies
  between the smallest and the largest of them; there is none, and the result is -1, exactly when no
  sample is left.  With an odd number of samples, or with two, one is always left; with four,
  all can be rejected although they are fresh.  Asking again at the same time gives the same.
\<close>

theorem rolling_estimate:
  assumes "\<forall>v \<in> set (fresh now e). 0 \<le> v" "sum_list (fresh now e) < 2 ^ 63" "0 \<le> mAbrCacheOutlier (mConfig e)"
  shows "(kept now e = [] \<longrightarrow> fst (GetBandwidthBitsPerSecond now e) = -1)
    \<and> (kept now e \<noteq> [] \<longrightarrow>
        fst (GetBandwidthBitsPerSecond now e) = sum_list (kept now e) div int (length (kept now e))
        \<and> Min (set (kept now e)) \<le> fst (GetBandwidthBitsPerSecond now e)
        \<and> fst (GetBandwidthBitsPerSecond now e) \<le> Max (set (kept now e)))
    \<and> (odd (length (fresh now e)) \<or> length (fresh now e) = 2 \<longrightarrow> kept now e \<noteq> [])
    \<and> GetBandwidthBitsPerSecond now (snd (GetBandwidthBitsPerSecond now e)) = GetBandwidthBitsPerSecond now e
    \<and> fst (GetBandwidthBitsPerSecond 1 (sample_rolling [(1, 0), (1, 0), (1, 900), (1, 900)])) = -1"
proof -
  have "0 \<le> sum_list (kept now e)" using assms(1) by (intro sum_list_nonneg) (simp add: kept_def)
  moreover have "sum_list (filter P xs) \<le> sum_list xs" if "\<forall>v \<in> set xs. 0 \<le> v" for P and xs :: "int list"
    using that by (induction xs) auto
  then have "sum_list (kept now e) < 2 ^ 63" using assms(1,2) unfolding kept_def by (meson order_le_less_trans)
  ultimately have avg: "kept now e \<noteq> [] \<Longrightarrow>
      fst (GetBandwidthBitsPerSecond now e) = sum_list (kept now e) div int (length (kept now e))"
    by (simp add: rolling_value average_of)
  moreover have "fst (GetBandwidthBitsPerSecond 1 (sample_rolling [(1, 0), (1, 0), (1, 900), (1, 900)])) = -1"
    by (simp add: GetBandwidthBitsPerSecond_def UpdateABRBitrateDataBasedOnCacheLife_def stale_def sample_rolling_def
        UpdateABRBitrateDataBasedOnCacheOutlier_def median_def outlier_def Let_def signed_divide_int_def)
  ultimately show ?thesis
    using average_between [of "kept now e"] kept_some [OF assms(3), of now] rolling_again [of now e]
    by (simp add: rolling_value)
qed

theorem rolling_estimate_witness:
  "fst (GetBandwidthBitsPerSecond 1000 (sample_rolling [(900, 400), (950, 500), (990, 9000)])) = 450"
proof -
  let ?e = "sample_rolling [(900, 400), (950, 500), (990, 9000)]"
  have "fresh 1000 ?e = [400, 500, 9000]" "kept 1000 ?e = [400, 500]" "mAbrCacheOutlier (mConfig ?e) = 100"
    by (simp_all add: fresh_def kept_def stale_def sample_rolling_def median_def outlier_def Let_def)
  then show ?thesis using rolling_estimate [of 1000 ?e] by simp
qed

text \<open>
  The bandwidth the manager reports.  In every state its calls lead to there is an estimator and the
  network bandwidth is never -1: it is the estimate available now, and when there is none
  the last one there was.  Resetting the available bandwidth makes the estimate unavailable and leaves
  the network bandwidth as it was.
\<close>

theorem network_bandwidth:
  assumes "reach (\<lambda>s. s = new_bandwidth_state rolling_ops t0 new_rolling) (bandwidth_step rolling_ops) s"
  shows "networkBandwidth s \<noteq> -1
    \<and> fst (GetNetworkBandwidth rolling_ops now s) =
        (if fst (GetCurrentlyAvailableBandwidth rolling_ops now s) \<noteq> -1
         then fst (GetCurrentlyAvailableBandwidth rolling_ops now s) else networkBandwidth s)
    \<and> GetCurrentlyAvailableBandwidth rolling_ops now (snd (GetCurrentlyAvailableBandwidth rolling_ops now s))
        = GetCurrentlyAvailableBandwidth rolling_ops now s
    \<and> fst (GetCurrentlyAvailableBandwidth rolling_ops now (ResetCurrentlyAvailableBandwidth rolling_ops s)) = -1
    \<and> fst (GetNetworkBandwidth rolling_ops now (ResetCurrentlyAvailableBandwidth rolling_ops s)) = networkBandwidth s"
proof -
  have known: "bandwidth_known s" by (rule bandwidth_state.inv_reach [OF assms])
  then obtain e where e: "mBandwidthEstimator s = Some e" by (auto simp: bandwidth_known_def)
  show ?thesis
    using known rolling.network_is_last_estimate [OF e] rolling.reading_is_stable [OF e] rolling.reset_keeps_network [OF e]
    by (simp add: bandwidth_known_def)
qed

theorem network_bandwidth_witness:
  "networkBandwidth (AddBandwidthSample rolling_ops 5 8000 False
     (new_bandwidth_state rolling_ops 0 new_rolling)) \<noteq> -1"
proof -
  have "reach (\<lambda>s. s = new_bandwidth_state rolling_ops 0 new_rolling) (bandwidth_step rolling_ops)
      (AddBandwidthSample rolling_ops 5 8000 False (new_bandwidth_state rolling_ops 0 new_rolling))"
    by (rule reach_step, rule reach_start, rule refl, rule bandwidth_step.intros(1))
  then show ?thesis by (rule network_bandwidth [THEN conjunct1])
qed

end
