(* ===== verification/Stream_Abr.thy ===== *)
theory Stream_Abr
  imports Abr_Manager Bandwidth_Estimator
begin

text \<open>
  The adaptive bitrate part of \<open>StreamAbstractionAAMP\<close> (\<open>streamabstraction.cpp\<close>): how a stream combines the
  profile selection of \<open>Abr_Manager\<close>, the bandwidth state of \<open>Bandwidth_Estimator\<close> and the buffer level into the
  profile it plays, after every fragment and after a failed download.  Stream information and the
  mode are those of the HLS collector, which overrides \<open>GetStreamInfo\<close> and \<open>GetABRMode\<close>.  What the calls read from the
  tracks, the player and the configuration is a record given with each call; doubles are reals with the rounding
  \<open>rnd\<close>, and the conversion of a double to \<open>int\<close> truncates.  The curl handles and the persisted
  bandwidth are fields of the state, since the calls write them; logging and metrics are left out.
  The lemmas show that from a stream whose profiles are registered the way the collectors do it no call
  faults, the current profile stays a valid one, and a ramp down never raises the bandwidth.
\<close>

section \<open>State\<close>

datatype stream_fault = AbrFault abr_fault | NullStreamInfo | NullTrack

datatype ABRMode = UNDEF | ABR_MANAGER | FOG_TSB

datatype AampCurlInstance = eCURLINSTANCE_VIDEO | eCURLINSTANCE_AUDIO

record StreamInfo =
  streamBandwidth :: int

record MediaTrack =
  track_enabled :: bool
  fragmentDurationSeconds :: real
  bufferedDuration :: real
  lastDownloadedPosition :: real
  totalFetchedDuration :: real
  localTSBInjection :: bool
  injectionAborted :: bool

record player =
  videoTrack :: "MediaTrack option"
  audioTrack :: "MediaTrack option"
  lowLatencyMode :: bool
  localAAMPTsb :: bool
  sinkPaused :: bool
  livePlayPosition :: real
  mLiveOffset :: real
  mNetworkTimeoutMs :: int
  bufferCheckEnabled :: bool
  fogTSBSupported :: bool
  abrEnabled :: bool
  persistEnabled :: bool
  playEnabled :: bool
  easContent :: bool
  curlReady :: "AampCurlInstance \<Rightarrow> bool"
  nowMs :: int

record 'e StreamAbstractionAAMP =
  trickplayMode :: bool
  currentProfileIndex :: int
  mCurrentBandwidth :: int
  mTsbBandwidth :: int
  mNwConsistencyBypass :: bool
  profileIdxForBandwidthNotification :: int
  mABRHighBufferCounter :: int
  mABRLowBufferCounter :: int
  mMaxBufferCountCheck :: int
  mABRMaxBuffer :: int
  mABRBufferCounter :: int
  mABRMinBuffer :: int
  mABRNwConsistency :: int
  mBitrateReason :: BitrateChangeReason
  mRampDownLimit :: int
  mRampDownCount :: int
  mUpdateReason :: bool
  mTsbMaxBitrateProfileIndex :: int
  mProfileCount :: int
  streamInfoStore :: "StreamInfo list"
  trackBandwidth :: int
  mhAbrManager :: ABRManager
  eAAMPAbrConfig :: AampAbrConfig
  mhBandwidth :: "'e BandwidthState"
  mDownloadDelay :: int
  curlDLTimeout :: "AampCurlInstance \<Rightarrow> int"
  mPersistBandwidthData :: "int \<times> int"

definition abr_call :: "abr_fault + 'a \<Rightarrow> stream_fault + 'a" where
  "abr_call x = (case x of Inl f \<Rightarrow> Inl (AbrFault f) | Inr a \<Rightarrow> Inr a)"

definition trunc_real :: "real \<Rightarrow> int" where
  "trunc_real x = (if x < 0 then \<lceil>x\<rceil> else \<lfloor>x\<rfloor>)"

section \<open>Access\<close>

definition GetStreamInfo :: "int \<Rightarrow> 'e StreamAbstractionAAMP \<Rightarrow> StreamInfo option" where
  "GetStreamInfo idx s =
     (let userData = (if mProfileCount s \<noteq> 0 then getUserDataOfProfile idx (mhAbrManager s) else 0)
      in if 0 \<le> userData \<and> userData < int (length (streamInfoStore s)) then Some (streamInfoStore s ! nat userData)
         else None)"

text \<open>\<open>GetStreamInfo(idx)->bandwidthBitsPerSecond\<close>.\<close>

definition stream_bandwidth :: "int \<Rightarrow> 'e StreamAbstractionAAMP \<Rightarrow> stream_fault + int" where
  "stream_bandwidth idx s = (case GetStreamInfo idx s of None \<Rightarrow> Inl NullStreamInfo | Some i \<Rightarrow> Inr (streamBandwidth i))"

definition GetABRMode :: "player \<Rightarrow> ABRMode" where
  "GetABRMode v = (if fogTSBSupported v then FOG_TSB else ABR_MANAGER)"

definition GetProfileIndexForBandwidth :: "int \<Rightarrow> 'e StreamAbstractionAAMP \<Rightarrow> int" where
  "GetProfileIndexForBandwidth bw s = getBestMatchedProfileIndexByBandWidth (as_int32 bw) (mhAbrManager s)"

definition GetBufferValue :: "(real \<Rightarrow> real) \<Rightarrow> player \<Rightarrow> MediaTrack option \<Rightarrow> real" where
  "GetBufferValue rnd v track =
     (case track of
        None \<Rightarrow> 0
      | Some t \<Rightarrow>
          if localAAMPTsb v \<and> (localTSBInjection t \<or> sinkPaused v)
          then let bufferValue = rnd (lastDownloadedPosition t - livePlayPosition v) in if bufferValue < 0 then 0 else bufferValue
          else bufferedDuration t)"

definition UpdatePersistBandwidth :: "player \<Rightarrow> int \<Rightarrow> 'e StreamAbstractionAAMP \<Rightarrow> 'e StreamAbstractionAAMP" where
  "UpdatePersistBandwidth v bandwidth s =
     (if \<not> persistEnabled v \<or> bandwidth \<le> 0 \<or> \<not> playEnabled v then s
      else s\<lparr>mPersistBandwidthData := (bandwidth, nowMs v)\<rparr>)"

definition read_bandwidth ::
    "'e BandwidthEstimatorBase \<Rightarrow> player \<Rightarrow> 'e StreamAbstractionAAMP \<Rightarrow> int \<times> 'e StreamAbstractionAAMP" where
  "read_bandwidth ops v s =
     (let (bw, b) = GetCurrentlyAvailableBandwidth ops (nowMs v) (mhBandwidth s)
      in (bw, UpdatePersistBandwidth v bw (s\<lparr>mhBandwidth := b\<rparr>)))"

section \<open>Time-outs\<close>

definition SetCurlTimeout :: "player \<Rightarrow> int \<Rightarrow> AampCurlInstance \<Rightarrow> 'e StreamAbstractionAAMP \<Rightarrow> 'e StreamAbstractionAAMP" where
  "SetCurlTimeout v timeoutMS inst s =
     (if easContent v \<or> \<not> curlReady v inst then s else s\<lparr>curlDLTimeout := (curlDLTimeout s)(inst := timeoutMS)\<rparr>)"

definition track_timeout :: "(real \<Rightarrow> real) \<Rightarrow> player \<Rightarrow> MediaTrack option \<Rightarrow> AampCurlInstance
    \<Rightarrow> 'e StreamAbstractionAAMP \<Rightarrow> 'e StreamAbstractionAAMP" where
  "track_timeout rnd v track inst s =
     (case track of
        None \<Rightarrow> s
      | Some t \<Rightarrow>
          if track_enabled t \<and> bufferedDuration t > 0
          then SetCurlTimeout v
                 (if bufferedDuration t < of_int (mABRMaxBuffer s) then mNetworkTimeoutMs v
                  else max (min (trunc_real (rnd (bufferedDuration t * 1000)) sdiv 2) (mABRMaxBuffer s * 1000))
                         (mNetworkTimeoutMs v)) inst s
          else s)"

definition ConfigureTimeoutOnBuffer :: "(real \<Rightarrow> real) \<Rightarrow> player \<Rightarrow> 'e StreamAbstractionAAMP \<Rightarrow> 'e StreamAbstractionAAMP" where
  "ConfigureTimeoutOnBuffer rnd v s =
     track_timeout rnd v (audioTrack v) eCURLINSTANCE_AUDIO (track_timeout rnd v (videoTrack v) eCURLINSTANCE_VIDEO s)"

section \<open>The desired profile\<close>

definition GetDesiredProfile :: "bool \<Rightarrow> player \<Rightarrow> 'e StreamAbstractionAAMP \<Rightarrow> stream_fault + (int \<times> 'e StreamAbstractionAAMP)" where
  "GetDesiredProfile getMidProfile v s =
     (if mProfiles (mhAbrManager s) = [] then Inr (0, s)
      else ebind (if trickplayMode s \<and> mLowestIframeProfile (mhAbrManager s) \<noteq> INVALID_PROFILE
                  then Inr (mDesiredIframeProfile (mhAbrManager s), mhAbrManager s)
                  else abr_call (getInitialProfileIndex getMidProfile '''' (mhAbrManager s))) (\<lambda>(i, m).
        let s1 = s\<lparr>mhAbrManager := m, profileIdxForBandwidthNotification := i\<rparr>
        in Inr (i, case videoTrack v of
                     None \<Rightarrow> s1
                   | Some t \<Rightarrow> (case GetStreamInfo i s1 of None \<Rightarrow> s1 | Some si \<Rightarrow> s1\<lparr>trackBandwidth := streamBandwidth si\<rparr>))))"

definition GetMaxBWProfile :: "player \<Rightarrow> 'e StreamAbstractionAAMP \<Rightarrow> int \<times> 'e StreamAbstractionAAMP" where
  "GetMaxBWProfile v s =
     (if fogTSBSupported v \<and> mTsbMaxBitrateProfileIndex s \<ge> 0 then (mTsbMaxBitrateProfileIndex s, s)
      else let (i, m) = getMaxBandwidthProfile '''' (mhAbrManager s) in (i, s\<lparr>mhAbrManager := m\<rparr>))"

definition UpdateProfileBasedOnFragmentDownloaded :: "player \<Rightarrow> 'e StreamAbstractionAAMP \<Rightarrow> stream_fault + 'e StreamAbstractionAAMP" where
  "UpdateProfileBasedOnFragmentDownloaded v s =
     (if mCurrentBandwidth s \<noteq> mTsbBandwidth s
      then (case videoTrack v of
              None \<Rightarrow> Inl NullTrack
            | Some t \<Rightarrow>
                let desired = GetProfileIndexForBandwidth (mTsbBandwidth s) s;
                    s1 = s\<lparr>mCurrentBandwidth := mTsbBandwidth s\<rparr>
                in Inr (if profileIdxForBandwidthNotification s1 \<noteq> desired
                        then (case GetStreamInfo (profileIdxForBandwidthNotification s1) s1 of
                                None \<Rightarrow> s1
                              | Some si \<Rightarrow> s1\<lparr>profileIdxForBandwidthNotification := desired, trackBandwidth := streamBandwidth si,
                                             mBitrateReason := eAAMP_BITRATE_CHANGE_BY_FOG_ABR\<rparr>)
                        else s1))
      else Inr s)"

definition UpdateRampUpOrDownProfileReason :: "player \<Rightarrow> 'e StreamAbstractionAAMP \<Rightarrow> 'e StreamAbstractionAAMP" where
  "UpdateRampUpOrDownProfileReason v s =
     (if mUpdateReason s \<and> fogTSBSupported v
      then s\<lparr>mBitrateReason := eAAMP_BITRATE_CHANGE_BY_FOG_ABR, mUpdateReason := False\<rparr>
      else s\<lparr>mBitrateReason := eAAMP_BITRATE_CHANGE_BY_RAMPDOWN\<rparr>)"

definition minBufferNeeded :: "(real \<Rightarrow> real) \<Rightarrow> player \<Rightarrow> 'e StreamAbstractionAAMP \<Rightarrow> real" where
  "minBufferNeeded rnd v s =
     (if lowLatencyMode v then of_int (mABRMinBuffer s)
      else case videoTrack v of
             None \<Rightarrow> 0
           | Some t \<Rightarrow> rnd (fragmentDurationSeconds t + of_int (mNetworkTimeoutMs v sdiv 1000)))"

definition stream_GetDesiredProfileOnBuffer :: "(real \<Rightarrow> real) \<Rightarrow> player \<Rightarrow> int \<Rightarrow> int \<Rightarrow> 'e StreamAbstractionAAMP
    \<Rightarrow> stream_fault + (int \<times> 'e StreamAbstractionAAMP)" where
  "stream_GetDesiredProfileOnBuffer rnd v currProfileIndex newProfileIndex s =
     (let bufferValue = GetBufferValue rnd v (videoTrack v)
      in if bufferValue > 0
         then ebind (abr_call (GetDesiredProfileOnBuffer (eAAMPAbrConfig s) currProfileIndex newProfileIndex bufferValue
                       (minBufferNeeded rnd v s) '''' (mhAbrManager s))) (\<lambda>(i, m). Inr (i, s\<lparr>mhAbrManager := m\<rparr>))
         else ebind (abr_call (getProfileIndexForLowestBandwidth (mhAbrManager s))) (\<lambda>i. Inr (i, s)))"

text \<open>\<open>GetDesiredProfileOnSteadyState\<close>: first the part for a full buffer, then the part for a low one.\<close>

definition steady_high :: "player \<Rightarrow> real \<Rightarrow> int \<Rightarrow> int \<Rightarrow> int \<Rightarrow> 'e StreamAbstractionAAMP
    \<Rightarrow> stream_fault + (int \<times> 'e StreamAbstractionAAMP)" where
  "steady_high v bufferValue cur new nwBandwidth s =
     (if bufferValue > of_int (mABRMaxBuffer s) \<and> \<not> lowLatencyMode v
      then let s1 = s\<lparr>mABRHighBufferCounter := mABRHighBufferCounter s + 1, mABRLowBufferCounter := 0\<rparr>
           in if mABRHighBufferCounter s1 > mMaxBufferCountCheck s1
              then let (nProfileIdx, m1) = getRampedUpProfileIndex cur '''' (mhAbrManager s1)
                   in ebind (stream_bandwidth nProfileIdx (s1\<lparr>mhAbrManager := m1\<rparr>)) (\<lambda>newBandwidth.
                        let (k, r, m2) = CheckRampupFromSteadyState (eAAMPAbrConfig s1) cur new nwBandwidth newBandwidth '''' m1;
                            s2 = s1\<lparr>mhAbrManager := m2, mABRHighBufferCounter := 0\<rparr>
                        in Inr (k, case r of None \<Rightarrow> s2
                             | Some (reason, checks) \<Rightarrow> s2\<lparr>mBitrateReason := reason, mMaxBufferCountCheck := checks\<rparr>))
              else Inr (new, s1)
      else Inr (new, s))"

definition steady_low :: "player \<Rightarrow> MediaTrack \<Rightarrow> real \<Rightarrow> int \<Rightarrow> int \<Rightarrow> int \<Rightarrow> 'e StreamAbstractionAAMP
    \<Rightarrow> stream_fault + (int \<times> 'e StreamAbstractionAAMP)" where
  "steady_low v video bufferValue cur new nwBandwidth s =
     (if bufferValue < of_int (mABRMinBuffer s) \<and> \<not> injectionAborted video \<and> (lowLatencyMode v \<or> nwBandwidth = -1)
      then let s1 = s\<lparr>mABRLowBufferCounter := mABRLowBufferCounter s + 1, mABRHighBufferCounter := 0\<rparr>
           in ebind (abr_call (CheckRampdownFromSteadyState (eAAMPAbrConfig s1) cur new (mABRLowBufferCounter s1) ''''
                       (mhAbrManager s1))) (\<lambda>(k, r, m).
                let s2 = s1\<lparr>mhAbrManager := m, mABRLowBufferCounter :=
                       (if mABRLowBufferCounter s1 \<ge> mABRBufferCounter s1 then 0 else mABRLowBufferCounter s1)\<rparr>
                in Inr (k, case r of None \<Rightarrow> s2 | Some reason \<Rightarrow> s2\<lparr>mBitrateReason := reason\<rparr>))
      else Inr (new, s))"

definition GetDesiredProfileOnSteadyState :: "(real \<Rightarrow> real) \<Rightarrow> player \<Rightarrow> int \<Rightarrow> int \<Rightarrow> int \<Rightarrow> 'e StreamAbstractionAAMP
    \<Rightarrow> stream_fault + (int \<times> 'e StreamAbstractionAAMP)" where
  "GetDesiredProfileOnSteadyState rnd v cur new nwBandwidth s =
     (let bufferValue = GetBufferValue rnd v (videoTrack v)
      in case videoTrack v of
           None \<Rightarrow> Inr (new, s\<lparr>mABRLowBufferCounter := 0, mABRHighBufferCounter := 0\<rparr>)
         | Some video \<Rightarrow>
             if bufferValue > 0 \<and> cur = new
             then ebind (steady_high v bufferValue cur new nwBandwidth s) (\<lambda>(new1, s1).
                    steady_low v video bufferValue cur new1 nwBandwidth s1)
             else Inr (new, s\<lparr>mABRLowBufferCounter := 0, mABRHighBufferCounter := 0\<rparr>))"

text \<open>The branch of \<open>GetDesiredProfileBasedOnCache\<close> that is taken without an iframe track.\<close>

definition desired_by_bandwidth :: "'e BandwidthEstimatorBase \<Rightarrow> (real \<Rightarrow> real) \<Rightarrow> player \<Rightarrow> 'e StreamAbstractionAAMP
    \<Rightarrow> stream_fault + (int \<times> 'e StreamAbstractionAAMP)" where
  "desired_by_bandwidth ops rnd v s =
     ebind (stream_bandwidth (currentProfileIndex s) s) (\<lambda>currentBandwidth.
     let (nw, s1) = read_bandwidth ops v s;
         nwConsistencyCnt = (if lowLatencyMode v then mABRNwConsistency s1 else if mNwConsistencyBypass s1 then 1 else mABRNwConsistency s1)
     in ebind (abr_call (getProfileIndexByBitrateRampUpOrDown (currentProfileIndex s1) currentBandwidth nw nwConsistencyCnt ''''
                 (mhAbrManager s1))) (\<lambda>(desired, m).
     let s2 = s1\<lparr>mhAbrManager := m, mBitrateReason :=
            (if currentProfileIndex s1 \<noteq> desired then eAAMP_BITRATE_CHANGE_BY_ABR else mBitrateReason s1)\<rparr>
     in if \<not> mNwConsistencyBypass s2 \<and> bufferCheckEnabled v
        then ebind (if currentProfileIndex s2 \<noteq> desired
                    then stream_GetDesiredProfileOnBuffer rnd v (currentProfileIndex s2) desired s2
                    else Inr (desired, s2)) (\<lambda>(d1, s3).
             ebind (GetDesiredProfileOnSteadyState rnd v (currentProfileIndex s3) d1 nw s3) (\<lambda>(d2, s4).
             Inr (d2, ConfigureTimeoutOnBuffer rnd v s4)))
        else Inr (desired, s2)))"

definition AAMP_LLDABR_MIN_BUFFER_VALUE :: real where
  "AAMP_LLDABR_MIN_BUFFER_VALUE = 1 / 2"

definition GetDesiredProfileBasedOnCache :: "'e BandwidthEstimatorBase \<Rightarrow> (real \<Rightarrow> real) \<Rightarrow> player \<Rightarrow> 'e StreamAbstractionAAMP
    \<Rightarrow> stream_fault + (int \<times> 'e StreamAbstractionAAMP)" where
  "GetDesiredProfileBasedOnCache ops rnd v s =
     (case videoTrack v of
        None \<Rightarrow> Inr (currentProfileIndex s, s)
      | Some video \<Rightarrow>
          if lowLatencyMode v \<and> GetBufferValue rnd v (videoTrack v) < AAMP_LLDABR_MIN_BUFFER_VALUE \<and> \<not> localTSBInjection video
          then ebind (abr_call (getProfileIndexForLowestBandwidth (mhAbrManager s))) (\<lambda>d.
                 Inr (d, s\<lparr>mBitrateReason := (if currentProfileIndex s \<noteq> d then eAAMP_BITRATE_CHANGE_BY_BUFFER_EMPTY
                                              else mBitrateReason s)\<rparr>))
          else ebind (if trickplayMode s
                      then let t = mDesiredIframeProfile (mhAbrManager s)
                           in Inr (if t \<noteq> INVALID_PROFILE
                                   then (t, s\<lparr>mBitrateReason := (if currentProfileIndex s \<noteq> t then eAAMP_BITRATE_CHANGE_BY_ABR
                                                                 else mBitrateReason s)\<rparr>)
                                   else (currentProfileIndex s, s))
                      else desired_by_bandwidth ops rnd v s) (\<lambda>(d, s').
                 Inr (d, s'\<lparr>mNwConsistencyBypass := False\<rparr>)))"

section \<open>Changing the profile\<close>

definition drop_available :: "'e BandwidthEstimatorBase \<Rightarrow> 'e StreamAbstractionAAMP \<Rightarrow> 'e StreamAbstractionAAMP" where
  "drop_available ops s = s\<lparr>mhBandwidth := ResetCurrentlyAvailableBandwidth ops (mhBandwidth s)\<rparr>"

definition UpdateProfileBasedOnFragmentCache :: "'e BandwidthEstimatorBase \<Rightarrow> (real \<Rightarrow> real) \<Rightarrow> player \<Rightarrow> 'e StreamAbstractionAAMP
    \<Rightarrow> stream_fault + (bool \<times> 'e StreamAbstractionAAMP)" where
  "UpdateProfileBasedOnFragmentCache ops rnd v s =
     (case videoTrack v of
        None \<Rightarrow> Inl NullTrack
      | Some video \<Rightarrow>
          let (availBW, s1) = read_bandwidth ops v s
          in ebind (abr_call (CheckProfileChange (eAAMPAbrConfig s1) (totalFetchedDuration video) (currentProfileIndex s1) availBW
                      (mhAbrManager s1))) (\<lambda>checkProfileChange.
             ebind (if checkProfileChange then GetDesiredProfileBasedOnCache ops rnd v s1
                    else if lowLatencyMode v \<and> mDownloadDelay s1 \<ge> \<lfloor>mLiveOffset v / 2\<rfloor>
                    then ebind (abr_call (getRampedDownProfileIndex (currentProfileIndex s1) '''' (mhAbrManager s1))) (\<lambda>(i, m).
                           Inr (i, s1\<lparr>mhAbrManager := m, mDownloadDelay := 0\<rparr>))
                    else Inr (currentProfileIndex s1, s1)) (\<lambda>(desired, s2).
             if desired = currentProfileIndex s2 then Inr (False, s2)
             else ebind (stream_bandwidth (currentProfileIndex s2) s2) (\<lambda>_.
                  ebind (stream_bandwidth desired s2) (\<lambda>newBW.
                  let (_, s3) = read_bandwidth ops v s2
                  in Inr (True, (drop_available ops s3)\<lparr>currentProfileIndex := desired, profileIdxForBandwidthNotification := desired,
                       trackBandwidth := newBW, mABRLowBufferCounter := 0, mABRHighBufferCounter := 0\<rparr>))))))"

definition CheckForProfileChange :: "'e BandwidthEstimatorBase \<Rightarrow> (real \<Rightarrow> real) \<Rightarrow> player \<Rightarrow> 'e StreamAbstractionAAMP
    \<Rightarrow> stream_fault + 'e StreamAbstractionAAMP" where
  "CheckForProfileChange ops rnd v s =
     (case GetABRMode v of
        FOG_TSB \<Rightarrow> UpdateProfileBasedOnFragmentDownloaded v s
      | ABR_MANAGER \<Rightarrow> (if videoTrack v \<noteq> None then ebind (UpdateProfileBasedOnFragmentCache ops rnd v s) (\<lambda>(_, s'). Inr s')
                       else Inr s)
      | UNDEF \<Rightarrow> Inr s)"

text \<open>The profile \<open>RampDownProfile\<close> chooses.\<close>

definition ramp_down_target :: "(real \<Rightarrow> real) \<Rightarrow> player \<Rightarrow> 'e StreamAbstractionAAMP
    \<Rightarrow> stream_fault + (int \<times> 'e StreamAbstractionAAMP)" where
  "ramp_down_target rnd v s =
     (if trickplayMode s
      then Inr (if mLowestIframeProfile (mhAbrManager s) \<noteq> INVALID_PROFILE then mLowestIframeProfile (mhAbrManager s)
                else currentProfileIndex s, s)
      else case videoTrack v of
        None \<Rightarrow> Inr (currentProfileIndex s, s)
      | Some video \<Rightarrow>
          let bufferValue = GetBufferValue rnd v (videoTrack v)
          in if bufferValue \<le> 2 then ebind (abr_call (getProfileIndexForLowestBandwidth (mhAbrManager s))) (\<lambda>i. Inr (i, s))
             else if bufferValue > of_int (mABRMaxBuffer s)
             then ebind (abr_call (getRampedDownProfileIndex (currentProfileIndex s) '''' (mhAbrManager s))) (\<lambda>(i, m).
                    Inr (i, s\<lparr>mhAbrManager := m\<rparr>))
             else ebind (abr_call (FragmentfailureRampdown rnd (eAAMPAbrConfig s) (trunc_real bufferValue) (currentProfileIndex s)
                           (mhAbrManager s))) (\<lambda>desiredBw.
                    Inr (if desiredBw > 0 then GetProfileIndexForBandwidth desiredBw s else currentProfileIndex s, s)))"

definition RampDownProfile :: "'e BandwidthEstimatorBase \<Rightarrow> (real \<Rightarrow> real) \<Rightarrow> player \<Rightarrow> 'e StreamAbstractionAAMP
    \<Rightarrow> stream_fault + (bool \<times> 'e StreamAbstractionAAMP)" where
  "RampDownProfile ops rnd v s =
     ebind (ramp_down_target rnd v s) (\<lambda>(desired, s1).
     if desired \<noteq> currentProfileIndex s1
     then (case (GetStreamInfo (currentProfileIndex s1) s1, GetStreamInfo desired s1) of
             (Some current, Some new) \<Rightarrow>
               let (_, s2) = read_bandwidth ops v s1;
                   s3 = (if bufferCheckEnabled v then ConfigureTimeoutOnBuffer rnd v s2 else s2);
                   s4 = s3\<lparr>currentProfileIndex := desired, profileIdxForBandwidthNotification := desired\<rparr>
               in Inr (True, if videoTrack v \<noteq> None
                    then (drop_available ops s4)\<lparr>trackBandwidth := streamBandwidth new,
                           mBitrateReason := eAAMP_BITRATE_CHANGE_BY_RAMPDOWN, mABRLowBufferCounter := 0, mABRHighBufferCounter := 0\<rparr>
                    else s4)
           | _ \<Rightarrow> Inr (False, s1))
     else Inr (False, s1))"

definition IsCurrentProfileLowest :: "'e StreamAbstractionAAMP \<Rightarrow> stream_fault + (bool \<times> 'e StreamAbstractionAAMP)" where
  "IsCurrentProfileLowest s =
     (if trickplayMode s then Inr (currentProfileIndex s = mLowestIframeProfile (mhAbrManager s), s)
      else ebind (abr_call (isProfileIndexBitrateLowest (currentProfileIndex s) '''' (mhAbrManager s))) (\<lambda>(b, m).
             Inr (b, s\<lparr>mhAbrManager := m\<rparr>)))"

text \<open>The codes of curl and the ones the player puts in their place.\<close>

definition getOriginalCurlError :: "int \<Rightarrow> int" where
  "getOriginalCurlError http_error =
     (if 130 \<le> http_error \<and> http_error \<le> 133 then (if http_error = 132 then 28 else 18) else http_error)"

definition IsCurlTimeoutFailure :: "int \<Rightarrow> bool" where
  "IsCurlTimeoutFailure code \<longleftrightarrow> code = 28 \<or> code = 1000 \<or> code = 1001"

definition CheckForRampDownProfile :: "'e BandwidthEstimatorBase \<Rightarrow> (real \<Rightarrow> real) \<Rightarrow> player \<Rightarrow> int \<Rightarrow> 'e StreamAbstractionAAMP
    \<Rightarrow> stream_fault + (bool \<times> 'e StreamAbstractionAAMP)" where
  "CheckForRampDownProfile ops rnd v http_error s =
     (if \<not> abrEnabled v then Inr (False, s)
      else ebind (if GetABRMode v = ABR_MANAGER
                  then ebind (IsCurrentProfileLowest s) (\<lambda>(lowest, s1).
                         let e = getOriginalCurlError http_error
                         in if \<not> lowest \<and> (e \<in> {404, 403, 500, 503, 18} \<or> IsCurlTimeoutFailure e)
                            then RampDownProfile ops rnd v s1 else Inr (False, s1))
                  else Inr (False, s)) (\<lambda>(ret, s2).
        Inr (ret, if ret \<and> mRampDownLimit s2 > 0 then s2\<lparr>mRampDownCount := mRampDownCount s2 + 1\<rparr> else s2)))"

definition CheckForRampDownLimitReached :: "'e StreamAbstractionAAMP \<Rightarrow> bool \<times> 'e StreamAbstractionAAMP" where
  "CheckForRampDownLimitReached s =
     (if mRampDownCount s \<ge> mRampDownLimit s \<and> mRampDownLimit s \<ge> 0 then (True, s\<lparr>mRampDownCount := 0\<rparr>) else (False, s))"


section \<open>Streams as the collectors set them up\<close>

text \<open>
  The collectors register every profile under the empty period, with the position of its stream information as
  user data and the bandwidth it has there.
\<close>

definition registered :: "'e StreamAbstractionAAMP \<Rightarrow> bool" where
  "registered s \<longleftrightarrow> mProfileCount s \<noteq> 0 \<and> (\<forall>x \<in> set (mProfiles (mhAbrManager s)). periodId x = ''''
     \<and> 0 < bandwidthBitsPerSecond x \<and> bandwidthBitsPerSecond x < 2 ^ 31
     \<and> 0 \<le> userData x \<and> userData x < int (length (streamInfoStore s))
     \<and> streamBandwidth (streamInfoStore s ! nat (userData x)) = bandwidthBitsPerSecond x)"

definition usable :: "int \<Rightarrow> 'e StreamAbstractionAAMP \<Rightarrow> bool" where
  "usable i s \<longleftrightarrow> (\<exists>b. valid_profile '''' b i (mhAbrManager s))"

definition stream_ok :: "'e StreamAbstractionAAMP \<Rightarrow> bool" where
  "stream_ok s \<longleftrightarrow> abr_ok (mhAbrManager s) \<and> registered s \<and> \<not> trickplayMode s \<and> usable (currentProfileIndex s) s"

text \<open>What the calls leave as it is, and a call that returns a profile of the stream.\<close>

definition keeps :: "'e StreamAbstractionAAMP \<Rightarrow> 'e StreamAbstractionAAMP \<Rightarrow> bool" where
  "keeps s s' \<longleftrightarrow> abr_ok (mhAbrManager s') \<and> mProfiles (mhAbrManager s') = mProfiles (mhAbrManager s)
     \<and> mProfileCount s' = mProfileCount s \<and> streamInfoStore s' = streamInfoStore s \<and> trickplayMode s' = trickplayMode s
     \<and> currentProfileIndex s' = currentProfileIndex s"

definition good :: "'e StreamAbstractionAAMP \<Rightarrow> stream_fault + (int \<times> 'e StreamAbstractionAAMP) \<Rightarrow> bool" where
  "good s r \<longleftrightarrow> (\<exists>d s'. r = Inr (d, s') \<and> keeps s s' \<and> usable d s)"

lemma keeps_refl: "stream_ok s \<Longrightarrow> keeps s s"
  by (simp add: keeps_def stream_ok_def)

lemma keeps_trans: "keeps s t \<Longrightarrow> keeps t u \<Longrightarrow> keeps s u"
  by (simp add: keeps_def)

lemma keeps_usable: "keeps s s' \<Longrightarrow> usable i s' = usable i s"
  by (simp add: keeps_def usable_def valid_profile_def)

lemma keeps_ok:
  assumes "keeps s s'" "stream_ok s"
  shows "stream_ok s'"
  using assms keeps_usable [OF assms(1), of "currentProfileIndex s"] by (simp add: stream_ok_def registered_def keeps_def)

lemma keeps_with:
  "keeps s s' \<Longrightarrow> mhAbrManager t = mhAbrManager s' \<Longrightarrow> mProfileCount t = mProfileCount s' \<Longrightarrow> streamInfoStore t = streamInfoStore s'
    \<Longrightarrow> trickplayMode t = trickplayMode s' \<Longrightarrow> currentProfileIndex t = currentProfileIndex s' \<Longrightarrow> keeps s t"
  by (simp add: keeps_def)

lemma goodI: "keeps s s' \<Longrightarrow> usable d s \<Longrightarrow> good s (Inr (d, s'))"
  by (simp add: good_def)

lemma good_bind: "good s r \<Longrightarrow> (\<And>d s'. keeps s s' \<Longrightarrow> usable d s \<Longrightarrow> good s (f (d, s'))) \<Longrightarrow> good s (ebind r f)"
  by (auto simp: good_def)

lemma good_keeps: "keeps s t \<Longrightarrow> good t r \<Longrightarrow> good s r"
  unfolding good_def using keeps_trans keeps_usable by blast

lemma abr_call_Inr [simp]: "abr_call (Inr a) = Inr a"
  by (simp add: abr_call_def)

lemma stream_ok_current:
  assumes "stream_ok s"
  obtains b where "valid_profile '''' b (currentProfileIndex s) (mhAbrManager s)"
  using assms by (auto simp: stream_ok_def usable_def)

lemma stream_bandwidth_valid:
  assumes "stream_ok s" "valid_profile '''' b i (mhAbrManager s)"
  shows "stream_bandwidth i s = Inr b" "\<exists>si. GetStreamInfo i s = Some si \<and> streamBandwidth si = b"
proof -
  let ?x = "mProfiles (mhAbrManager s) ! nat i"
  have "?x \<in> set (mProfiles (mhAbrManager s))" using assms(2) by (auto simp: valid_profile_def intro: nth_mem)
  then have "0 \<le> userData ?x \<and> userData ?x < int (length (streamInfoStore s))
      \<and> streamBandwidth (streamInfoStore s ! nat (userData ?x)) = b" "mProfileCount s \<noteq> 0"
    using assms valid_current(5) [OF assms(2)] by (auto simp: stream_ok_def registered_def)
  moreover have "getUserDataOfProfile i (mhAbrManager s) = userData ?x"
    using valid_current [OF assms(2)] by (simp add: getUserDataOfProfile_def)
  ultimately show "stream_bandwidth i s = Inr b" "\<exists>si. GetStreamInfo i s = Some si \<and> streamBandwidth si = b"
    by (simp_all add: stream_bandwidth_def GetStreamInfo_def)
qed

lemma default_period_first:
  assumes "abr_ok m" "bandwidths '''' m \<noteq> {}"
  obtains pm rest where "mSortedBWProfileList m = ('''', pm) # rest" "pm \<noteq> []" "fst (at_period '''' m) = pm"
proof -
  let ?l = "mSortedBWProfileList m"
  have ne: "fst (at_period '''' m) \<noteq> []" using period_keys [OF assms(1), of "''''"] assms(2) by auto
  then obtain pm where "om_find '''' ?l = Some pm" by (auto simp: at_period_map split: option.splits)
  then have "('''', pm) \<in> set ?l" by (rule om_find_Some_in)
  then obtain q pm' rest where l: "?l = (q, pm') # rest" by (cases ?l) auto
  have "q = ''''"
  proof (rule ccontr)
    assume "q \<noteq> ''''"
    then have "('''', pm) \<in> set rest" using \<open>('''', pm) \<in> set ?l\<close> l by auto
    then have "q < ''''" using assms(1) l by (auto simp: abr_ok_def maps_ok_def)
    then show False by simp
  qed
  then show thesis using that [of pm' rest] l ne by (simp add: at_period_map)
qed

lemma lowest_profile:
  assumes "abr_ok m" "bandwidths '''' m \<noteq> {}"
  shows "\<exists>i. getProfileIndexForLowestBandwidth m = Inr i \<and> valid_profile '''' (Min (bandwidths '''' m)) i m"
proof -
  obtain pm rest where l: "mSortedBWProfileList m = ('''', pm) # rest" "pm \<noteq> []" "fst (at_period '''' m) = pm"
    by (rule default_period_first [OF assms])
  have "Min (bandwidths '''' m) = fst (pm ! 0)"
    using least_entry [OF _ l(2)] period_sorted [OF assms(1), of "''''"] period_keys [OF assms(1), of "''''"] l(3) by simp
  moreover have "valid_profile '''' (fst (pm ! 0)) (snd (pm ! 0)) m"
    using period_nth [OF assms(1), of 0 "''''"] l(2,3) by simp
  moreover have "mProfiles m \<noteq> []" using assms(2) by (auto simp: bandwidths_def)
  ultimately show ?thesis using l by (cases pm) (auto simp: getProfileIndexForLowestBandwidth_def)
qed

section \<open>The calls of the manager\<close>

lemma with_manager:
  assumes "stream_ok s" "keeps s s'" "abr_ok m" "mProfiles m = mProfiles (mhAbrManager s')"
  shows "keeps s (s'\<lparr>mhAbrManager := m\<rparr>)"
  using assms by (simp add: keeps_def)

lemma usable_valid: "usable i s \<Longrightarrow> \<exists>b. valid_profile '''' b i (mhAbrManager s)"
  by (simp add: usable_def)

lemma usable_bandwidths: "usable i s \<Longrightarrow> bandwidths '''' (mhAbrManager s) \<noteq> {}"
  using valid_bandwidth by (fastforce simp: usable_def)

lemma ok_bandwidths: "stream_ok s \<Longrightarrow> bandwidths '''' (mhAbrManager s) \<noteq> {}"
  using usable_bandwidths by (auto simp: stream_ok_def)

lemma profile_bandwidth: "valid_profile p b i m \<Longrightarrow> getBandwidthOfProfile i m = Inr b"
  using valid_current [of p b i m] by (simp add: getBandwidthOfProfile_def)

lemma ramp_usable:
  assumes "abr_ok m" "valid_profile p cbw i m"
  shows "\<exists>j m' b. getProfileIndexByBitrateRampUpOrDown i cbw nw c p m = Inr (j, m') \<and> mProfiles m' = mProfiles m
    \<and> abr_ok m' \<and> valid_profile p b j m"
proof (cases "nw = -1")
  case True
  then show ?thesis using assms(2) valid_current(2) [OF assms(2)]
    by (auto simp: getProfileIndexByBitrateRampUpOrDown_def Let_def intro!: abr_ok_same [OF assms(1)])
next
  case False
  let ?m = "snd (at_period p m)"
  have ok: "abr_ok ?m" "mProfiles ?m = mProfiles m" by (simp_all add: abr_ok_period [OF assms(1)] at_period_fields)
  have c: "abr_ok (counted u d ?m)" "mProfiles (counted u d ?m) = mProfiles m" for u d
    using ok by (auto intro: abr_ok_same [OF ok(1)])
  show ?thesis
    using ramp_result [OF assms False refl refl, of c] c assms(2) by (auto split: if_splits)
qed

lemma ramped_down_usable:
  assumes "abr_ok m" "valid_profile p b i m"
  shows "\<exists>j m' c. getRampedDownProfileIndex i p m = Inr (j, m') \<and> mProfiles m' = mProfiles m \<and> abr_ok m'
    \<and> valid_profile p c j m \<and> c \<le> b"
proof -
  let ?c = "if {k \<in> bandwidths p m. k < b} = {} then b else Max {k \<in> bandwidths p m. k < b}"
  have "{k \<in> bandwidths p m. k < b} \<noteq> {} \<Longrightarrow> Max {k \<in> bandwidths p m. k < b} \<in> {k \<in> bandwidths p m. k < b}"
    by (rule Max_in) simp_all
  then have "?c \<le> b" by auto
  moreover obtain j where "getRampedDownProfileIndex i p m = Inr (j, snd (at_period p m))" "valid_profile p ?c j m"
    using ramped_down [OF assms] by blast
  ultimately show ?thesis using abr_ok_period [OF assms(1), of p] at_period_fields(1) [of p m] by blast
qed

lemma ramped_up_usable:
  assumes "abr_ok m" "valid_profile p b i m"
  shows "\<exists>j m' c. getRampedUpProfileIndex i p m = (j, m') \<and> mProfiles m' = mProfiles m \<and> abr_ok m' \<and> valid_profile p c j m"
  using ramped_up [OF assms] assms(2) abr_ok_period [OF assms(1), of p] at_period_fields(1) [of p m] by (metis (full_types))

lemma rampup_usable:
  assumes "abr_ok m" "valid_profile p b i m" "valid_profile p c j m"
  shows "\<exists>k r m' d. CheckRampupFromSteadyState cfg i j nw bw p m = (k, r, m') \<and> mProfiles m' = mProfiles m \<and> abr_ok m'
    \<and> valid_profile p d k m"
proof -
  obtain n m1 e where n: "getRampedUpProfileIndex i p m = (n, m1)" "mProfiles m1 = mProfiles m" "abr_ok m1" "valid_profile p e n m"
    using ramped_up_usable [OF assms(1,2)] by blast
  have "abr_ok (m1\<lparr>mRampupFromSteadyStateLoop := l\<rparr>)" for l by (rule abr_ok_same [OF n(3)]) simp_all
  then show ?thesis using assms n by (auto simp: CheckRampupFromSteadyState_def Let_def)
qed

lemma rampdown_usable:
  assumes "abr_ok m" "valid_profile p b i m" "valid_profile p c j m"
  shows "\<exists>k r m' d. CheckRampdownFromSteadyState cfg i j low p m = Inr (k, r, m') \<and> mProfiles m' = mProfiles m \<and> abr_ok m'
    \<and> valid_profile p d k m"
proof -
  obtain n m1 e where n: "getRampedDownProfileIndex i p m = Inr (n, m1)" "mProfiles m1 = mProfiles m" "abr_ok m1" "valid_profile p e n m"
    using ramped_down_usable [OF assms(1,2)] by blast
  show ?thesis using assms n by (auto simp: CheckRampdownFromSteadyState_def)
qed

lemma on_buffer_usable:
  assumes "abr_ok m" "valid_profile p b i m" "valid_profile p c j m"
  shows "\<exists>k m' d. GetDesiredProfileOnBuffer cfg i j buf mn p m = Inr (k, m') \<and> mProfiles m' = mProfiles m \<and> abr_ok m'
    \<and> valid_profile p d k m"
proof -
  obtain n m1 e where n: "getRampedDownProfileIndex i p m = Inr (n, m1)" "mProfiles m1 = mProfiles m" "abr_ok m1"
    using ramped_down_usable [OF assms(1,2)] by blast
  show ?thesis
    using assms n profile_bandwidth [OF assms(2)] profile_bandwidth [OF assms(3)]
    by (auto simp: GetDesiredProfileOnBuffer_def)
qed

lemma best_matched_exact:
  assumes "abr_ok m" "b \<in> bandwidths '''' m" "\<forall>k \<in> bandwidths '''' m. 0 < k \<and> k < 2 ^ 31"
  shows "valid_profile '''' b (getBestMatchedProfileIndexByBandWidth (as_int32 b) m) m"
proof -
  have b: "0 < b" "b < 2 ^ 31" using assms(2,3) by auto
  then have i: "as_int32 b = b" by (simp add: as_int32_def)
  obtain pm rest where l: "mSortedBWProfileList m = ('''', pm) # rest" "pm \<noteq> []"
    using default_period_first [OF assms(1)] assms(2) by blast
  have "\<bar>k - b\<bar> < INT64_MAX" if "k \<in> bandwidths '''' m" for k
  proof -
    have "0 < k" "k < 2 ^ 31" using assms(3) that by auto
    then show ?thesis using b by (simp add: INT64_MAX_def abs_less_iff)
  qed
  then obtain c where c: "valid_profile '''' c (getBestMatchedProfileIndexByBandWidth b m) m" "\<forall>k \<in> bandwidths '''' m. \<bar>c - b\<bar> \<le> \<bar>k - b\<bar>"
    using best_matched [OF assms(1) l, of b] by blast
  from c(2) assms(2) have "c = b" by fastforce
  with c(1) i show ?thesis by simp
qed

section \<open>The calls of the stream\<close>

lemma read_bandwidth_keeps: "stream_ok s \<Longrightarrow> read_bandwidth ops v s = (bw, s') \<Longrightarrow> keeps s s'"
  by (auto simp: read_bandwidth_def UpdatePersistBandwidth_def case_prod_unfold Let_def keeps_def stream_ok_def split: if_splits)

lemma track_timeout_fields:
  "mhAbrManager (track_timeout rnd v t c s) = mhAbrManager s" "mProfileCount (track_timeout rnd v t c s) = mProfileCount s"
  "streamInfoStore (track_timeout rnd v t c s) = streamInfoStore s" "trickplayMode (track_timeout rnd v t c s) = trickplayMode s"
  "currentProfileIndex (track_timeout rnd v t c s) = currentProfileIndex s" "mABRMaxBuffer (track_timeout rnd v t c s) = mABRMaxBuffer s"
  by (simp_all add: track_timeout_def SetCurlTimeout_def split: option.split)

lemma timeouts_keep: "keeps s s' \<Longrightarrow> keeps s (ConfigureTimeoutOnBuffer rnd v s')"
  by (simp add: keeps_def ConfigureTimeoutOnBuffer_def track_timeout_fields)

lemma lowest_good:
  assumes "stream_ok s"
  obtains i where "getProfileIndexForLowestBandwidth (mhAbrManager s) = Inr i" "usable i s"
  using lowest_profile [OF _ ok_bandwidths [OF assms]] assms by (auto simp: stream_ok_def usable_def)

lemma on_buffer_good:
  assumes "stream_ok s" "usable d s"
  shows "good s (stream_GetDesiredProfileOnBuffer rnd v (currentProfileIndex s) d s)"
proof (cases "GetBufferValue rnd v (videoTrack v) > 0")
  case True
  obtain b c where "valid_profile '''' b (currentProfileIndex s) (mhAbrManager s)" "valid_profile '''' c d (mhAbrManager s)"
    using assms by (auto simp: stream_ok_def usable_def)
  with assms(1) obtain k m' e where "GetDesiredProfileOnBuffer (eAAMPAbrConfig s) (currentProfileIndex s) d
      (GetBufferValue rnd v (videoTrack v)) (minBufferNeeded rnd v s) '''' (mhAbrManager s) = Inr (k, m')"
      "mProfiles m' = mProfiles (mhAbrManager s)" "abr_ok m'" "valid_profile '''' e k (mhAbrManager s)"
    using on_buffer_usable [of "mhAbrManager s"] by (auto simp: stream_ok_def) blast
  then show ?thesis using True with_manager [OF assms(1) keeps_refl [OF assms(1)]]
    by (auto simp: stream_GetDesiredProfileOnBuffer_def good_def usable_def)
next
  case False
  obtain i where "getProfileIndexForLowestBandwidth (mhAbrManager s) = Inr i" "usable i s" by (rule lowest_good [OF assms(1)])
  then show ?thesis using False keeps_refl [OF assms(1)] by (simp add: stream_GetDesiredProfileOnBuffer_def Let_def goodI)
qed

lemma steady_high_good:
  assumes "stream_ok s" "usable d s"
  shows "good s (steady_high v buf (currentProfileIndex s) d nw s)"
proof -
  let ?s = "s\<lparr>mABRHighBufferCounter := mABRHighBufferCounter s + 1, mABRLowBufferCounter := 0\<rparr>"
  have s: "keeps s ?s" by (rule keeps_with [OF keeps_refl [OF assms(1)]]) simp_all
  obtain b c where v: "valid_profile '''' b (currentProfileIndex s) (mhAbrManager s)" "valid_profile '''' c d (mhAbrManager s)"
    using assms by (auto simp: stream_ok_def usable_def)
  have ok: "abr_ok (mhAbrManager s)" using assms(1) by (simp add: stream_ok_def)
  obtain n m1 e where n: "getRampedUpProfileIndex (currentProfileIndex s) '''' (mhAbrManager s) = (n, m1)"
      "mProfiles m1 = mProfiles (mhAbrManager s)" "abr_ok m1" "valid_profile '''' e n (mhAbrManager s)"
    using ramped_up_usable [OF ok v(1)] by blast
  have m1: "valid_profile p x i m1 = valid_profile p x i (mhAbrManager s)" for p x i using n(2) by (simp add: valid_profile_def)
  have s1: "keeps s (?s\<lparr>mhAbrManager := m1\<rparr>)" by (rule with_manager [OF assms(1) s n(3)]) (simp add: n(2))
  have bw: "stream_bandwidth n (?s\<lparr>mhAbrManager := m1\<rparr>) = Inr e"
    by (rule stream_bandwidth_valid(1) [OF keeps_ok [OF s1 assms(1)]]) (simp add: m1 n(4))
  obtain k r m2 f where k: "CheckRampupFromSteadyState (eAAMPAbrConfig s) (currentProfileIndex s) d nw e '''' m1 = (k, r, m2)"
      "mProfiles m2 = mProfiles m1" "abr_ok m2" "valid_profile '''' f k m1"
    using rampup_usable [OF n(3), of "''''" b "currentProfileIndex s" c d] v m1 by metis
  have "keeps s (?s\<lparr>mhAbrManager := m2\<rparr>)" by (rule with_manager [OF assms(1) s k(3)]) (simp add: k(2) n(2))
  then have s2: "keeps s (case r of None \<Rightarrow> ?s\<lparr>mhAbrManager := m2, mABRHighBufferCounter := 0\<rparr>
      | Some (reason, checks) \<Rightarrow> ?s\<lparr>mhAbrManager := m2, mABRHighBufferCounter := 0, mBitrateReason := reason,
          mMaxBufferCountCheck := checks\<rparr>)"
    by (rule keeps_with) (simp_all split: option.split prod.split)
  have "usable k s" using k(4) m1 by (auto simp: usable_def)
  from goodI [OF s2 this] show ?thesis
    using goodI [OF s assms(2)] goodI [OF keeps_refl [OF assms(1)] assms(2)]
    by (simp add: steady_high_def n(1) bw k(1) Let_def cong: option.case_cong)
qed

lemma steady_low_good:
  assumes "stream_ok s" "usable d s"
  shows "good s (steady_low v video buf (currentProfileIndex s) d nw s)"
proof -
  let ?s = "s\<lparr>mABRLowBufferCounter := mABRLowBufferCounter s + 1, mABRHighBufferCounter := 0\<rparr>"
  have s: "keeps s ?s" by (rule keeps_with [OF keeps_refl [OF assms(1)]]) simp_all
  obtain b c where v: "valid_profile '''' b (currentProfileIndex s) (mhAbrManager s)" "valid_profile '''' c d (mhAbrManager s)"
    using assms by (auto simp: stream_ok_def usable_def)
  have ok: "abr_ok (mhAbrManager s)" using assms(1) by (simp add: stream_ok_def)
  obtain k r m1 e where k: "CheckRampdownFromSteadyState (eAAMPAbrConfig s) (currentProfileIndex s) d (mABRLowBufferCounter s + 1) ''''
        (mhAbrManager s) = Inr (k, r, m1)"
      "mProfiles m1 = mProfiles (mhAbrManager s)" "abr_ok m1" "valid_profile '''' e k (mhAbrManager s)"
    using rampdown_usable [OF ok v] by blast
  have s1: "keeps s (?s\<lparr>mhAbrManager := m1\<rparr>)" by (rule with_manager [OF assms(1) s k(3)]) (simp add: k(2))
  have s2: "keeps s (case r of None \<Rightarrow> ?s\<lparr>mhAbrManager := m1, mABRLowBufferCounter := low\<rparr>
      | Some reason \<Rightarrow> ?s\<lparr>mhAbrManager := m1, mABRLowBufferCounter := low, mBitrateReason := reason\<rparr>)" for low
    using s1 by (rule keeps_with) (simp_all split: option.split)
  have "usable k s" using k(4) by (auto simp: usable_def)
  from goodI [OF s2 this] show ?thesis
    using goodI [OF keeps_refl [OF assms(1)] assms(2)] by (simp add: steady_low_def k(1) Let_def cong: option.case_cong)
qed

lemma steady_state_good:
  assumes "stream_ok s" "usable d s"
  shows "good s (GetDesiredProfileOnSteadyState rnd v (currentProfileIndex s) d nw s)"
proof -
  have reset: "good s (Inr (d, s\<lparr>mABRLowBufferCounter := 0, mABRHighBufferCounter := 0\<rparr>))"
    by (rule goodI [OF _ assms(2)], rule keeps_with [OF keeps_refl [OF assms(1)]]) simp_all
  show ?thesis
  proof (cases "videoTrack v")
    case None
    then show ?thesis using reset by (simp add: GetDesiredProfileOnSteadyState_def)
  next
    case (Some video)
    let ?b = "GetBufferValue rnd v (videoTrack v)"
    have "good s (ebind (steady_high v ?b (currentProfileIndex s) d nw s)
        (\<lambda>(d1, s1). steady_low v video ?b (currentProfileIndex s) d1 nw s1))"
    proof (rule good_bind [OF steady_high_good [OF assms]])
      fix d1 s1 assume k: "keeps s s1" "usable d1 s"
      have "good s1 (steady_low v video ?b (currentProfileIndex s1) d1 nw s1)"
        by (rule steady_low_good [OF keeps_ok [OF k(1) assms(1)]]) (simp add: keeps_usable [OF k(1)] k(2))
      moreover have "currentProfileIndex s1 = currentProfileIndex s" using k(1) by (simp add: keeps_def)
      ultimately show "good s (case (d1, s1) of (d1, s1) \<Rightarrow> steady_low v video ?b (currentProfileIndex s) d1 nw s1)"
        using good_keeps [OF k(1)] by simp
    qed
    then show ?thesis using reset Some by (auto simp: GetDesiredProfileOnSteadyState_def Let_def)
  qed
qed

lemma buffer_checks_good:
  assumes "stream_ok s" "usable d s"
  shows "good s (ebind (if currentProfileIndex s \<noteq> d then stream_GetDesiredProfileOnBuffer rnd v (currentProfileIndex s) d s
      else Inr (d, s)) (\<lambda>(d1, s3). ebind (GetDesiredProfileOnSteadyState rnd v (currentProfileIndex s3) d1 nw s3) (\<lambda>(d2, s4).
        Inr (d2, ConfigureTimeoutOnBuffer rnd v s4))))"
proof (rule good_bind)
  show "good s (if currentProfileIndex s \<noteq> d then stream_GetDesiredProfileOnBuffer rnd v (currentProfileIndex s) d s else Inr (d, s))"
    using on_buffer_good [OF assms] goodI [OF keeps_refl [OF assms(1)] assms(2)] by simp
  fix d1 s1 assume k: "keeps s s1" "usable d1 s"
  have "good s1 (ebind (GetDesiredProfileOnSteadyState rnd v (currentProfileIndex s1) d1 nw s1) (\<lambda>(d2, s4).
      Inr (d2, ConfigureTimeoutOnBuffer rnd v s4)))"
  proof (rule good_bind)
    show "good s1 (GetDesiredProfileOnSteadyState rnd v (currentProfileIndex s1) d1 nw s1)"
      by (rule steady_state_good [OF keeps_ok [OF k(1) assms(1)]]) (simp add: keeps_usable [OF k(1)] k(2))
  qed (simp add: goodI timeouts_keep)
  then show "good s (case (d1, s1) of (d1, s3) \<Rightarrow> ebind (GetDesiredProfileOnSteadyState rnd v (currentProfileIndex s3) d1 nw s3)
      (\<lambda>(d2, s4). Inr (d2, ConfigureTimeoutOnBuffer rnd v s4)))"
    using good_keeps [OF k(1)] by simp
qed

lemma by_bandwidth_good:
  assumes "stream_ok s"
  shows "good s (desired_by_bandwidth ops rnd v s)"
proof -
  obtain b where b: "valid_profile '''' b (currentProfileIndex s) (mhAbrManager s)" by (rule stream_ok_current [OF assms])
  obtain nw s1 where r: "read_bandwidth ops v s = (nw, s1)" by force
  have s1: "keeps s s1" by (rule read_bandwidth_keeps [OF assms r])
  have s1_ok: "stream_ok s1" by (rule keeps_ok [OF s1 assms])
  have eq: "currentProfileIndex s1 = currentProfileIndex s" "mProfiles (mhAbrManager s1) = mProfiles (mhAbrManager s)"
    "abr_ok (mhAbrManager s1)" using s1 by (simp_all add: keeps_def)
  define c where "c = (if lowLatencyMode v then mABRNwConsistency s1 else if mNwConsistencyBypass s1 then 1 else mABRNwConsistency s1)"
  have "valid_profile '''' b (currentProfileIndex s1) (mhAbrManager s1)" using b eq by (simp add: valid_profile_def)
  then obtain d m e where d: "getProfileIndexByBitrateRampUpOrDown (currentProfileIndex s1) b nw c '''' (mhAbrManager s1) = Inr (d, m)"
      "mProfiles m = mProfiles (mhAbrManager s1)" "abr_ok m" "valid_profile '''' e d (mhAbrManager s1)"
    using ramp_usable [OF eq(3)] by blast
  let ?s = "s1\<lparr>mhAbrManager := m, mBitrateReason :=
    (if currentProfileIndex s1 \<noteq> d then eAAMP_BITRATE_CHANGE_BY_ABR else mBitrateReason s1)\<rparr>"
  have s2: "keeps s1 ?s" by (rule keeps_with [OF with_manager [OF s1_ok keeps_refl [OF s1_ok] d(3)]]) (simp_all add: d(2))
  have u: "usable d s1" using d(4) by (auto simp: usable_def)
  then have "usable d ?s" by (simp only: keeps_usable [OF s2])
  from buffer_checks_good [OF keeps_ok [OF s2 s1_ok] this, of rnd v nw]
  have chk: "good s1 (ebind (if currentProfileIndex ?s \<noteq> d then stream_GetDesiredProfileOnBuffer rnd v (currentProfileIndex ?s) d ?s
      else Inr (d, ?s)) (\<lambda>(d1, s3). ebind (GetDesiredProfileOnSteadyState rnd v (currentProfileIndex s3) d1 nw s3) (\<lambda>(d2, s4).
        Inr (d2, ConfigureTimeoutOnBuffer rnd v s4))))" by (rule good_keeps [OF s2])
  have "desired_by_bandwidth ops rnd v s = (if \<not> mNwConsistencyBypass ?s \<and> bufferCheckEnabled v
      then ebind (if currentProfileIndex ?s \<noteq> d then stream_GetDesiredProfileOnBuffer rnd v (currentProfileIndex ?s) d ?s
      else Inr (d, ?s)) (\<lambda>(d1, s3). ebind (GetDesiredProfileOnSteadyState rnd v (currentProfileIndex s3) d1 nw s3) (\<lambda>(d2, s4).
        Inr (d2, ConfigureTimeoutOnBuffer rnd v s4))) else Inr (d, ?s))"
    unfolding desired_by_bandwidth_def stream_bandwidth_valid(1) [OF assms b] ebind_simps r Let_def prod.case
      c_def [symmetric] d(1) abr_call_Inr ..
  also have "good s1 \<dots>" using chk goodI [OF s2 u] by (simp only: if_split simp_thms)
  finally show ?thesis by (rule good_keeps [OF s1])
qed

lemma based_on_cache_good:
  assumes "stream_ok s"
  shows "good s (GetDesiredProfileBasedOnCache ops rnd v s)"
proof (cases "videoTrack v")
  case None
  then show ?thesis using assms by (simp add: GetDesiredProfileBasedOnCache_def goodI keeps_refl stream_ok_def)
next
  case (Some video)
  obtain i where i: "getProfileIndexForLowestBandwidth (mhAbrManager s) = Inr i" "usable i s" by (rule lowest_good [OF assms])
  have "good s (Inr (i, s\<lparr>mBitrateReason := r\<rparr>))" for r
    by (rule goodI [OF _ i(2)], rule keeps_with [OF keeps_refl [OF assms]]) simp_all
  moreover have "good s (ebind (desired_by_bandwidth ops rnd v s) (\<lambda>(d, s'). Inr (d, s'\<lparr>mNwConsistencyBypass := False\<rparr>)))"
  proof (rule good_bind [OF by_bandwidth_good [OF assms]])
    fix d s' assume k: "keeps s s'" "usable d s"
    have "keeps s (s'\<lparr>mNwConsistencyBypass := False\<rparr>)" by (rule keeps_with [OF k(1)]) simp_all
    with k(2) show "good s (case (d, s') of (d, s') \<Rightarrow> Inr (d, s'\<lparr>mNwConsistencyBypass := False\<rparr>))" by (simp add: goodI)
  qed
  moreover have "\<not> trickplayMode s" using assms by (simp add: stream_ok_def)
  ultimately show ?thesis using Some i(1) by (simp add: GetDesiredProfileBasedOnCache_def)
qed

lemma profile_changed:
  assumes "stream_ok s" "keeps s s'" "usable d s" "currentProfileIndex t = d" "mhAbrManager t = mhAbrManager s'"
    "mProfileCount t = mProfileCount s'" "streamInfoStore t = streamInfoStore s'" "trickplayMode t = trickplayMode s'"
  shows "stream_ok t"
proof -
  have "stream_ok s'" by (rule keeps_ok [OF assms(2,1)])
  moreover have "usable d s'" using keeps_usable [OF assms(2)] assms(3) by simp
  ultimately show ?thesis using assms(4-8) by (simp add: stream_ok_def registered_def usable_def)
qed

lemma update_profile_good:
  assumes "stream_ok s" "videoTrack v \<noteq> None"
  shows "\<exists>r t. UpdateProfileBasedOnFragmentCache ops rnd v s = Inr (r, t) \<and> stream_ok t"
proof -
  obtain video where video: "videoTrack v = Some video" using assms(2) by blast
  obtain bw s1 where r: "read_bandwidth ops v s = (bw, s1)" by force
  have s1: "keeps s s1" by (rule read_bandwidth_keeps [OF assms(1) r])
  have s1_ok: "stream_ok s1" by (rule keeps_ok [OF s1 assms(1)])
  obtain b where b: "valid_profile '''' b (currentProfileIndex s1) (mhAbrManager s1)" by (rule stream_ok_current [OF s1_ok])
  obtain ch where ch: "CheckProfileChange (eAAMPAbrConfig s1) (totalFetchedDuration video) (currentProfileIndex s1) bw
      (mhAbrManager s1) = Inr ch" by (simp add: CheckProfileChange_def profile_bandwidth [OF b])
  obtain i m c where i: "getRampedDownProfileIndex (currentProfileIndex s1) '''' (mhAbrManager s1) = Inr (i, m)"
      "mProfiles m = mProfiles (mhAbrManager s1)" "abr_ok m" "valid_profile '''' c i (mhAbrManager s1)"
    using ramped_down_usable [OF _ b] s1_ok by (auto simp: stream_ok_def)
  have "keeps s1 (s1\<lparr>mhAbrManager := m, mDownloadDelay := 0\<rparr>)"
    by (rule keeps_with [OF with_manager [OF s1_ok keeps_refl [OF s1_ok] i(3,2)]]) simp_all
  then have "good s1 (Inr (i, s1\<lparr>mhAbrManager := m, mDownloadDelay := 0\<rparr>))" using i(4) by (auto simp: good_def usable_def)
  moreover have "good s1 (Inr (currentProfileIndex s1, s1))" using s1_ok by (simp add: goodI keeps_refl stream_ok_def)
  ultimately have "good s1 (if ch then GetDesiredProfileBasedOnCache ops rnd v s1
      else if lowLatencyMode v \<and> mDownloadDelay s1 \<ge> \<lfloor>mLiveOffset v / 2\<rfloor>
      then ebind (abr_call (getRampedDownProfileIndex (currentProfileIndex s1) '''' (mhAbrManager s1)))
        (\<lambda>(i, m). Inr (i, s1\<lparr>mhAbrManager := m, mDownloadDelay := 0\<rparr>))
      else Inr (currentProfileIndex s1, s1))" using based_on_cache_good [OF s1_ok] i(1) by simp
  then obtain d s2 where d: "(if ch then GetDesiredProfileBasedOnCache ops rnd v s1
      else if lowLatencyMode v \<and> mDownloadDelay s1 \<ge> \<lfloor>mLiveOffset v / 2\<rfloor>
      then ebind (abr_call (getRampedDownProfileIndex (currentProfileIndex s1) '''' (mhAbrManager s1)))
        (\<lambda>(i, m). Inr (i, s1\<lparr>mhAbrManager := m, mDownloadDelay := 0\<rparr>))
      else Inr (currentProfileIndex s1, s1)) = Inr (d, s2)" "keeps s1 s2" "usable d s1" by (auto simp: good_def)
  have s2_ok: "stream_ok s2" by (rule keeps_ok [OF d(2) s1_ok])
  have d2: "usable d s2" using d(3) by (simp add: keeps_usable [OF d(2)])
  obtain x y where xy: "stream_bandwidth (currentProfileIndex s2) s2 = Inr x" "stream_bandwidth d s2 = Inr y"
    using stream_bandwidth_valid(1) [OF s2_ok] s2_ok d2 by (auto simp: stream_ok_def usable_def)
  obtain bw2 s3 where r3: "read_bandwidth ops v s2 = (bw2, s3)" by force
  have "stream_ok ((drop_available ops s3)\<lparr>currentProfileIndex := d, profileIdxForBandwidthNotification := d,
      trackBandwidth := y, mABRLowBufferCounter := 0, mABRHighBufferCounter := 0\<rparr>)"
    by (rule profile_changed [OF s2_ok read_bandwidth_keeps [OF s2_ok r3] d2]) (simp_all add: drop_available_def)
  then show ?thesis
    unfolding UpdateProfileBasedOnFragmentCache_def video option.case r Let_def prod.case ch abr_call_Inr ebind_simps d(1) xy r3
    using s2_ok by auto
qed

section \<open>Ramping down after a failure\<close>

lemma failure_scan_result: "failure_scan rnd k pc cbw bs \<noteq> 0 \<Longrightarrow> failure_scan rnd k pc cbw bs \<in> set bs \<and> failure_scan rnd k pc cbw bs < cbw"
  by (induction rnd k pc cbw bs rule: failure_scan.induct) (auto split: if_splits)

lemma hd_sort_least:
  assumes "x \<in> set xs"
  shows "hd (sort xs) \<le> (x :: int)"
proof -
  have "x \<in> set (sort xs)" using assms by simp
  moreover have "sorted (sort xs)" by (rule sorted_sort)
  ultimately show ?thesis by (cases "sort xs") auto
qed

lemma failure_rampdown:
  assumes "stream_ok s" "valid_profile '''' b (currentProfileIndex s) (mhAbrManager s)"
  shows "\<exists>r. FragmentfailureRampdown rnd cfg buf (currentProfileIndex s) (mhAbrManager s) = Inr r
    \<and> (r \<noteq> 0 \<longrightarrow> r \<in> bandwidths '''' (mhAbrManager s) \<and> r \<le> b)"
proof -
  define ws where "ws = map bandwidthBitsPerSecond (filter (\<lambda>x. \<not> isIframeTrack x) (mProfiles (mhAbrManager s)))"
  have ws: "set ws = bandwidths '''' (mhAbrManager s)"
    using assms(1) by (auto simp: ws_def bandwidths_def stream_ok_def registered_def)
  have b: "b \<in> set ws" using valid_bandwidth [OF assms(2)] ws by simp
  then have ne: "sort ws \<noteq> []" by (metis empty_iff list.set(1) set_sort)
  have hd: "hd (sort ws) \<in> set ws" "hd (sort ws) \<le> b"
    using hd_in_set [OF ne] hd_sort_least [OF b] by force+
  show ?thesis
    unfolding FragmentfailureRampdown_def profile_bandwidth [OF assms(2)] ebind_simps Let_def ws_def [symmetric] if_not_P [OF ne]
    using hd ws failure_scan_result [of rnd "rnd (100 / rnd (of_int (last (sort ws))))"
        "rnd (rnd (of_int buf / of_int (abrMaxBuffer cfg)) * 100)" b "rev (sort ws)"] by auto
qed

lemma ramp_target:
  assumes "stream_ok s" "valid_profile '''' b (currentProfileIndex s) (mhAbrManager s)"
  shows "\<exists>d s' c. ramp_down_target rnd v s = Inr (d, s') \<and> keeps s s' \<and> valid_profile '''' c d (mhAbrManager s) \<and> c \<le> b"
proof -
  have ok: "abr_ok (mhAbrManager s)" and trick: "\<not> trickplayMode s" using assms(1) by (simp_all add: stream_ok_def)
  have refl: "keeps s s" by (rule keeps_refl [OF assms(1)])
  obtain l where l: "getProfileIndexForLowestBandwidth (mhAbrManager s) = Inr l"
      "valid_profile '''' (Min (bandwidths '''' (mhAbrManager s))) l (mhAbrManager s)"
    using lowest_profile [OF ok ok_bandwidths [OF assms(1)]] by blast
  have min: "Min (bandwidths '''' (mhAbrManager s)) \<le> b" using valid_bandwidth [OF assms(2)] by simp
  obtain i m c where i: "getRampedDownProfileIndex (currentProfileIndex s) '''' (mhAbrManager s) = Inr (i, m)"
      "mProfiles m = mProfiles (mhAbrManager s)" "abr_ok m" "valid_profile '''' c i (mhAbrManager s)" "c \<le> b"
    using ramped_down_usable [OF ok assms(2)] by blast
  have down: "keeps s (s\<lparr>mhAbrManager := m\<rparr>)" by (rule with_manager [OF assms(1) refl i(3,2)])
  obtain r where r: "FragmentfailureRampdown rnd (eAAMPAbrConfig s) (trunc_real (GetBufferValue rnd v (videoTrack v)))
      (currentProfileIndex s) (mhAbrManager s) = Inr r" "r \<noteq> 0 \<Longrightarrow> r \<in> bandwidths '''' (mhAbrManager s) \<and> r \<le> b"
    using failure_rampdown [OF assms] by blast
  have range: "\<forall>k \<in> bandwidths '''' (mhAbrManager s). 0 < k \<and> k < 2 ^ 31"
    using assms(1) by (auto simp: stream_ok_def registered_def bandwidths_def)
  have best: "r > 0 \<Longrightarrow> valid_profile '''' r (GetProfileIndexForBandwidth r s) (mhAbrManager s) \<and> r \<le> b"
    using best_matched_exact [OF ok _ range, of r] r(2) by (simp add: GetProfileIndexForBandwidth_def)
  consider "videoTrack v = None" | "videoTrack v \<noteq> None" "GetBufferValue rnd v (videoTrack v) \<le> 2"
    | "videoTrack v \<noteq> None" "\<not> GetBufferValue rnd v (videoTrack v) \<le> 2" "GetBufferValue rnd v (videoTrack v) > of_int (mABRMaxBuffer s)"
    | "videoTrack v \<noteq> None" "\<not> GetBufferValue rnd v (videoTrack v) \<le> 2" "\<not> GetBufferValue rnd v (videoTrack v) > of_int (mABRMaxBuffer s)"
    by blast
  then show ?thesis
  proof cases
    case 1
    then show ?thesis using trick refl assms(2) by (auto simp: ramp_down_target_def)
  next
    case 2
    then show ?thesis using trick refl l min by (auto simp: ramp_down_target_def)
  next
    case 3
    then show ?thesis using trick down i by (auto simp: ramp_down_target_def)
  next
    case 4
    then have "ramp_down_target rnd v s = Inr (if r > 0 then GetProfileIndexForBandwidth r s else currentProfileIndex s, s)"
      using trick r(1) by (auto simp: ramp_down_target_def)
    then show ?thesis using refl best assms(2) by (cases "r > 0") auto
  qed
qed

lemma ramp_down_good:
  assumes "stream_ok s" "valid_profile '''' b (currentProfileIndex s) (mhAbrManager s)"
  shows "\<exists>ret t c. RampDownProfile ops rnd v s = Inr (ret, t) \<and> stream_ok t \<and> mProfiles (mhAbrManager t) = mProfiles (mhAbrManager s)
    \<and> valid_profile '''' c (currentProfileIndex t) (mhAbrManager s) \<and> c \<le> b"
proof -
  obtain d s1 c where d: "ramp_down_target rnd v s = Inr (d, s1)" "keeps s s1" "valid_profile '''' c d (mhAbrManager s)" "c \<le> b"
    using ramp_target [OF assms] by blast
  have s1_ok: "stream_ok s1" by (rule keeps_ok [OF d(2) assms(1)])
  have same: "currentProfileIndex s1 = currentProfileIndex s" "mProfiles (mhAbrManager s1) = mProfiles (mhAbrManager s)"
    using d(2) by (simp_all add: keeps_def)
  have v: "valid_profile '''' b (currentProfileIndex s1) (mhAbrManager s1)" "valid_profile '''' c d (mhAbrManager s1)"
    using assms(2) d(3) same by (simp_all add: valid_profile_def)
  obtain i j where ij: "GetStreamInfo (currentProfileIndex s1) s1 = Some i" "GetStreamInfo d s1 = Some j"
    using stream_bandwidth_valid(2) [OF s1_ok] v by blast
  obtain bw s2 where r: "read_bandwidth ops v s1 = (bw, s2)" by force
  have s2: "keeps s1 s2" by (rule read_bandwidth_keeps [OF s1_ok r])
  define s3 where "s3 = (if bufferCheckEnabled v then ConfigureTimeoutOnBuffer rnd v s2 else s2)"
  have s3: "keeps s1 s3" using s2 by (simp add: s3_def timeouts_keep)
  let ?s4 = "s3\<lparr>currentProfileIndex := d, profileIdxForBandwidthNotification := d\<rparr>"
  define t where "t = (if d \<noteq> currentProfileIndex s1 then if videoTrack v \<noteq> None
      then (drop_available ops ?s4)\<lparr>trackBandwidth := streamBandwidth j, mBitrateReason := eAAMP_BITRATE_CHANGE_BY_RAMPDOWN,
        mABRLowBufferCounter := 0, mABRHighBufferCounter := 0\<rparr> else ?s4 else s1)"
  have eq: "RampDownProfile ops rnd v s = Inr (d \<noteq> currentProfileIndex s1, t)"
    unfolding RampDownProfile_def d(1) ebind_simps ij r Let_def prod.case option.case s3_def [symmetric] t_def by simp
  have cur: "currentProfileIndex t = d" by (simp add: t_def drop_available_def)
  have "stream_ok t"
  proof (cases "d = currentProfileIndex s1")
    case True
    then show ?thesis using s1_ok by (simp add: t_def)
  next
    case False
    have "usable d s1" using v(2) by (auto simp: usable_def)
    from profile_changed [OF s1_ok s3 this cur] show ?thesis using False by (simp add: t_def drop_available_def)
  qed
  moreover have "mProfiles (mhAbrManager t) = mProfiles (mhAbrManager s)"
    using s3 same(2) by (simp add: t_def drop_available_def keeps_def)
  ultimately show ?thesis using eq cur d(3,4) by blast
qed

section \<open>Reachable streams\<close>

lemma lowest_good_current:
  assumes "stream_ok s"
  shows "\<exists>b t. IsCurrentProfileLowest s = Inr (b, t) \<and> keeps s t"
proof -
  obtain b where b: "valid_profile '''' b (currentProfileIndex s) (mhAbrManager s)" by (rule stream_ok_current [OF assms])
  obtain pm m where a: "at_period '''' (mhAbrManager s) = (pm, m)" by force
  have ok: "abr_ok (mhAbrManager s)" "\<not> trickplayMode s" using assms by (simp_all add: stream_ok_def)
  have m: "abr_ok m" "mProfiles m = mProfiles (mhAbrManager s)"
    using abr_ok_period [OF ok(1), of "''''"] at_period_fields(1) [of "''''" "mhAbrManager s"] by (simp_all add: a)
  show ?thesis using with_manager [OF assms keeps_refl [OF assms] m] ok(2)
    by (simp add: IsCurrentProfileLowest_def isProfileIndexBitrateLowest_def valid_current [OF b] a)
qed

lemma rampdown_check_good:
  assumes "stream_ok s" "valid_profile '''' b (currentProfileIndex s) (mhAbrManager s)"
  shows "\<exists>ret t c. CheckForRampDownProfile ops rnd v e s = Inr (ret, t) \<and> stream_ok t
    \<and> valid_profile '''' c (currentProfileIndex t) (mhAbrManager t) \<and> c \<le> b"
proof -
  have counted: "stream_ok (t\<lparr>mRampDownCount := n\<rparr>) = stream_ok t" for t :: "'a StreamAbstractionAAMP" and n
    by (simp add: stream_ok_def registered_def usable_def)
  obtain l s1 where l: "IsCurrentProfileLowest s = Inr (l, s1)" "keeps s s1" using lowest_good_current [OF assms(1)] by blast
  have s1: "stream_ok s1" "valid_profile '''' b (currentProfileIndex s1) (mhAbrManager s1)"
    using keeps_ok [OF l(2) assms(1)] l(2) assms(2) by (simp_all add: keeps_def valid_profile_def)
  obtain ret t c where r: "RampDownProfile ops rnd v s1 = Inr (ret, t)" "stream_ok t"
      "mProfiles (mhAbrManager t) = mProfiles (mhAbrManager s1)" "valid_profile '''' c (currentProfileIndex t) (mhAbrManager s1)" "c \<le> b"
    using ramp_down_good [OF s1] by blast
  then have t: "valid_profile '''' c (currentProfileIndex t) (mhAbrManager t)" by (simp add: valid_profile_def)
  show ?thesis
  proof (cases "abrEnabled v \<and> GetABRMode v = ABR_MANAGER")
    case True
    then show ?thesis using l(1) r(1,2,5) t s1 by (auto simp: CheckForRampDownProfile_def Let_def counted)
  next
    case False
    then show ?thesis using assms by (auto simp: CheckForRampDownProfile_def)
  qed
qed

lemma fog_keeps:
  assumes "stream_ok s" "UpdateProfileBasedOnFragmentDownloaded v s = Inr t"
  shows "keeps s t"
  using assms by (auto simp: UpdateProfileBasedOnFragmentDownloaded_def keeps_def stream_ok_def Let_def split: if_splits option.splits)

lemma profile_check_good:
  assumes "stream_ok s" "videoTrack v \<noteq> None \<or> \<not> fogTSBSupported v"
  shows "\<exists>t. CheckForProfileChange ops rnd v s = Inr t \<and> stream_ok t"
proof (cases "fogTSBSupported v")
  case True
  then obtain video where "videoTrack v = Some video" using assms(2) by auto
  then have "\<exists>t. UpdateProfileBasedOnFragmentDownloaded v s = Inr t"
    by (simp add: UpdateProfileBasedOnFragmentDownloaded_def Let_def)
  then obtain t where "UpdateProfileBasedOnFragmentDownloaded v s = Inr t" by blast
  then show ?thesis using True fog_keeps [OF assms(1)] keeps_ok [OF _ assms(1)]
    by (auto simp: CheckForProfileChange_def GetABRMode_def)
next
  case False
  then show ?thesis using assms(1) update_profile_good [OF assms(1), of v ops rnd]
    by (cases "videoTrack v") (auto simp: CheckForProfileChange_def GetABRMode_def)
qed

text \<open>A stream after its profiles were registered, and what then happens to it.\<close>

definition new_stream :: "'e StreamAbstractionAAMP \<Rightarrow> bool" where
  "new_stream s \<longleftrightarrow> reach (\<lambda>m. m = new_abr) abr_step (mhAbrManager s) \<and> registered s \<and> \<not> trickplayMode s
     \<and> usable (currentProfileIndex s) s"

inductive stream_step :: "'e BandwidthEstimatorBase \<Rightarrow> (real \<Rightarrow> real) \<Rightarrow> 'e StreamAbstractionAAMP \<Rightarrow> 'e StreamAbstractionAAMP \<Rightarrow> bool"
  for ops rnd where
  "CheckForProfileChange ops rnd v s = Inr t \<Longrightarrow> stream_step ops rnd s t"
| "CheckForRampDownProfile ops rnd v e s = Inr (ret, t) \<Longrightarrow> stream_step ops rnd s t"
| "bandwidth_step ops (mhBandwidth s) b \<Longrightarrow> stream_step ops rnd s (s\<lparr>mhBandwidth := b\<rparr>)"
| "stream_step ops rnd s (snd (CheckForRampDownLimitReached s))"
| "stream_step ops rnd s (UpdateRampUpOrDownProfileReason v s)"
| "stream_step ops rnd s (s\<lparr>mTsbBandwidth := bw\<rparr>)"
| "stream_step ops rnd s (s\<lparr>mDownloadDelay := d\<rparr>)"

lemma stream_ok_same:
  "stream_ok s \<Longrightarrow> mhAbrManager t = mhAbrManager s \<Longrightarrow> mProfileCount t = mProfileCount s \<Longrightarrow> streamInfoStore t = streamInfoStore s
    \<Longrightarrow> trickplayMode t = trickplayMode s \<Longrightarrow> currentProfileIndex t = currentProfileIndex s \<Longrightarrow> stream_ok t"
  by (simp add: stream_ok_def registered_def usable_def)

lemma stream_step_ok: "stream_step ops rnd s t \<Longrightarrow> stream_ok s \<Longrightarrow> stream_ok t"
proof (induction rule: stream_step.induct)
  case (1 v s t)
  have "videoTrack v \<noteq> None \<or> \<not> fogTSBSupported v \<or> t = s"
    using "1.hyps" by (auto simp: CheckForProfileChange_def GetABRMode_def UpdateProfileBasedOnFragmentDownloaded_def
        split: if_splits option.splits)
  then show ?case using profile_check_good [OF 1(2), of v ops rnd] 1 by auto
next
  case (2 v e s ret t)
  obtain b where "valid_profile '''' b (currentProfileIndex s) (mhAbrManager s)" by (rule stream_ok_current [OF 2(2)])
  from rampdown_check_good [OF 2(2) this, of ops rnd v e] 2(1) show ?case by auto
qed (auto simp: CheckForRampDownLimitReached_def UpdateRampUpOrDownProfileReason_def elim!: stream_ok_same)

interpretation stream: stateful new_stream "stream_step ops rnd" stream_ok
proof
  show "stream_ok s" if "new_stream s" for s using that abr.inv_reach by (auto simp: new_stream_def stream_ok_def)
qed (rule stream_step_ok)

definition sample_profile :: "int \<Rightarrow> int \<Rightarrow> ProfileInfo" where
  "sample_profile b u = \<lparr>isIframeTrack = False, bandwidthBitsPerSecond = b, width = 1280, height = 720, periodId = '''', userData = u\<rparr>"

definition sample_stream :: "RollingMedianOutlierEstimator StreamAbstractionAAMP" where
  "sample_stream = \<lparr>trickplayMode = False, currentProfileIndex = 1, mCurrentBandwidth = 0, mTsbBandwidth = 0,
     mNwConsistencyBypass = True, profileIdxForBandwidthNotification = 1, mABRHighBufferCounter = 0, mABRLowBufferCounter = 0,
     mMaxBufferCountCheck = 3, mABRMaxBuffer = 10, mABRBufferCounter = 4, mABRMinBuffer = 5, mABRNwConsistency = 2,
     mBitrateReason = eAAMP_BITRATE_CHANGE_BY_TUNE, mRampDownLimit = -1, mRampDownCount = 0, mUpdateReason = False,
     mTsbMaxBitrateProfileIndex = -1, mProfileCount = 2, streamInfoStore = [\<lparr>streamBandwidth = 300\<rparr>, \<lparr>streamBandwidth = 800\<rparr>],
     trackBandwidth = 800, mhAbrManager = addProfile (sample_profile 800 1) (addProfile (sample_profile 300 0) new_abr),
     eAAMPAbrConfig = \<lparr>abrCacheLife = 5000, abrCacheLength = 3, abrSkipDuration = 6, abrNwConsistency = 2, abrThresholdSize = 6000,
       abrMaxBuffer = 10, abrMinBuffer = 5, abrCacheOutlier = 5000, abrBufferCounter = 4\<rparr>,
     mhBandwidth = new_bandwidth_state rolling_ops 0 new_rolling, mDownloadDelay = 0, curlDLTimeout = (\<lambda>_. 0),
     mPersistBandwidthData = (0, 0)\<rparr>"

definition sample_player :: player where
  "sample_player = \<lparr>videoTrack = Some \<lparr>track_enabled = True, fragmentDurationSeconds = 2, bufferedDuration = 1,
       lastDownloadedPosition = 0, totalFetchedDuration = 8, localTSBInjection = False, injectionAborted = False\<rparr>,
     audioTrack = None, lowLatencyMode = False, localAAMPTsb = False, sinkPaused = False, livePlayPosition = 0, mLiveOffset = 15,
     mNetworkTimeoutMs = 10000, bufferCheckEnabled = True, fogTSBSupported = False, abrEnabled = True, persistEnabled = False,
     playEnabled = True, easContent = False, curlReady = (\<lambda>_. True), nowMs = 100\<rparr>"

lemma sample_stream_new: "new_stream sample_stream"
proof -
  have "reach (\<lambda>m. m = new_abr) abr_step (mhAbrManager sample_stream)"
    unfolding sample_stream_def StreamAbstractionAAMP.select_convs
    by (rule reach_step, rule reach_step, rule reach_start, rule refl) (rule abr_step.intros(1))+
  moreover have "registered sample_stream" by code_simp
  moreover have "\<not> trickplayMode sample_stream" by code_simp
  moreover have "valid_profile '''' 800 (currentProfileIndex sample_stream) (mhAbrManager sample_stream)" by code_simp
  ultimately show ?thesis by (auto simp: new_stream_def usable_def)
qed

text \<open>
  C1: Take a stream whose profiles were registered as the collectors register them and that is not in trick play.
  Whatever sequence of profile checks, failed downloads, bandwidth reports and other calls follows, with any estimator and
  any rounding, its current profile is a profile of the list that is no iframe profile; the check for a
  profile change never faults, as long as there is a video track when the Fog buffer is in use; and the check for a
  ramp down after any error code never faults and leaves a profile whose bandwidth is not greater than the current one.
\<close>

theorem stream_abr_safe:
  assumes "reach new_stream (stream_step ops rnd) s"
  shows "\<exists>b. valid_profile '''' b (currentProfileIndex s) (mhAbrManager s)
    \<and> (videoTrack v \<noteq> None \<or> \<not> fogTSBSupported v \<longrightarrow>
        (\<exists>t c. CheckForProfileChange ops rnd v s = Inr t \<and> valid_profile '''' c (currentProfileIndex t) (mhAbrManager t)))
    \<and> (\<exists>ret t c. CheckForRampDownProfile ops rnd v http_error s = Inr (ret, t)
        \<and> valid_profile '''' c (currentProfileIndex t) (mhAbrManager t) \<and> c \<le> b)"
proof -
  have ok: "stream_ok s" by (rule stream.inv_reach [OF assms])
  obtain b where b: "valid_profile '''' b (currentProfileIndex s) (mhAbrManager s)" by (rule stream_ok_current [OF ok])
  show ?thesis
    using b profile_check_good [OF ok, of v ops rnd] rampdown_check_good [OF ok b, of ops rnd v http_error]
      stream_ok_current by metis
qed

theorem stream_abr_safe_witness:
  "\<exists>ret t c. CheckForRampDownProfile rolling_ops id sample_player 404 sample_stream = Inr (ret, t)
     \<and> valid_profile '''' c (currentProfileIndex t) (mhAbrManager t) \<and> c \<le> 800"
proof -
  have v: "valid_profile '''' 800 (currentProfileIndex sample_stream) (mhAbrManager sample_stream)" by code_simp
  obtain b where "valid_profile '''' b (currentProfileIndex sample_stream) (mhAbrManager sample_stream)"
      "\<exists>ret t c. CheckForRampDownProfile rolling_ops id sample_player 404 sample_stream = Inr (ret, t)
         \<and> valid_profile '''' c (currentProfileIndex t) (mhAbrManager t) \<and> c \<le> b"
    using stream_abr_safe [OF reach_start [of new_stream, OF sample_stream_new], of sample_player rolling_ops id 404] by blast
  then show ?thesis using v by (auto simp: valid_profile_def hits_def)
qed

end
