(* ===== verification/Mp4_State.thy ===== *)
theory Mp4_State
  imports Aamp_Prelude
begin

text \<open>
  The data of the MP4 demultiplexer (\<open>src/mp4demux/MP4Demux.h\<close> and \<open>MP4Demux.cpp\<close>,
  \<open>src/AampDemuxDataTypes.h\<close>, \<open>src/middleware/DemuxDataTypes.h\<close>): its enumerations, the
  samples it yields, the members of class \<open>Mp4Demux\<close> as a record, and the primitive readers that
  move the parser's pointer through the segment.

  A pointer is its address, an \<open>int\<close> below \<open>2 ^ 64\<close>; pointer arithmetic wraps (\<open>padd\<close>), as it does
  on the 64-bit targets of the player, and 0 is the null pointer. The segment being parsed occupies
  the addresses from \<open>data()\<close> on; reading any other address is the outcome \<open>OutOfBounds\<close>, on which
  nothing is promised. A parsing function maps the state to a result and a state, or to an outcome
  that ends the parse and the state it leaves behind (an exception does not undo the member updates
  made before it).
\<close>

section \<open>Enumerations and FourCC codes\<close>

datatype Mp4ParseError =
    MP4_PARSE_OK
  | MP4_PARSE_ERROR_INVALID_BOX
  | MP4_PARSE_ERROR_INVALID_IV_SIZE
  | MP4_PARSE_ERROR_SAMPLE_COUNT_MISMATCH
  | MP4_PARSE_ERROR_UNSUPPORTED_ENCRYPTION_SCHEME
  | MP4_PARSE_ERROR_INVALID_PADDING
  | MP4_PARSE_ERROR_UNSUPPORTED_SAMPLE_ENTRY_COUNT
  | MP4_PARSE_ERROR_UNSUPPORTED_STREAM_FORMAT
  | MP4_PARSE_ERROR_INVALID_ESDS_TAG
  | MP4_PARSE_ERROR_DATA_BOUNDARY_MISMATCH
  | MP4_PARSE_ERROR_INVALID_INPUT
  | MP4_PARSE_ERROR_INVALID_KID
  | MP4_PARSE_ERROR_INVALID_ENTRY_COUNT
  | MP4_PARSE_ERROR_VARIABLE_LENGTH_OVERFLOW
  | MP4_PARSE_ERROR_UNEXPECTED_IS_ENCRYPTED_FIELD

datatype CipherType =
  CIPHER_TYPE_CENC | CIPHER_TYPE_CBCS | CIPHER_TYPE_CBC1 | CIPHER_TYPE_CENS | CIPHER_TYPE_NONE

datatype GstStreamOutputFormat =
    GST_FORMAT_INVALID | GST_FORMAT_MPEGTS | GST_FORMAT_ISO_BMFF
  | GST_FORMAT_AUDIO_ES_MP3 | GST_FORMAT_AUDIO_ES_AAC | GST_FORMAT_AUDIO_ES_AAC_RAW
  | GST_FORMAT_AUDIO_ES_AC3 | GST_FORMAT_AUDIO_ES_EC3 | GST_FORMAT_AUDIO_ES_ATMOS
  | GST_FORMAT_AUDIO_ES_AC4 | GST_FORMAT_VIDEO_ES_H264 | GST_FORMAT_VIDEO_ES_HEVC
  | GST_FORMAT_VIDEO_ES_MPEG2 | GST_FORMAT_SUBTITLE_WEBVTT | GST_FORMAT_SUBTITLE_TTML
  | GST_FORMAT_SUBTITLE_MP4 | GST_FORMAT_UNKNOWN

definition MultiChar_Constant :: "string \<Rightarrow> u32" where
  "MultiChar_Constant TEXT =
     push_bit 24 (of_char (TEXT ! 0)) + push_bit 16 (of_char (TEXT ! 1)) +
     push_bit 8 (of_char (TEXT ! 2)) + of_char (TEXT ! 3)"

definition gCodecMappings :: "(u32 \<times> GstStreamOutputFormat) list" where
  "gCodecMappings =
     [(MultiChar_Constant ''avcC'', GST_FORMAT_VIDEO_ES_H264),
      (MultiChar_Constant ''hvcC'', GST_FORMAT_VIDEO_ES_HEVC),
      (MultiChar_Constant ''esds'', GST_FORMAT_AUDIO_ES_AAC_RAW),
      (MultiChar_Constant ''dec3'', GST_FORMAT_AUDIO_ES_EC3),
      (MultiChar_Constant ''dac4'', GST_FORMAT_AUDIO_ES_AC4)]"

definition gCipherMappings :: "(u32 \<times> CipherType) list" where
  "gCipherMappings =
     [(MultiChar_Constant ''cenc'', CIPHER_TYPE_CENC), (MultiChar_Constant ''cbcs'', CIPHER_TYPE_CBCS)]"

definition GetGstStreamOutputFormatFromFourCC :: "u32 \<Rightarrow> GstStreamOutputFormat" where
  "GetGstStreamOutputFormatFromFourCC fourCC =
     (case map_of gCodecMappings fourCC of Some format \<Rightarrow> format | None \<Rightarrow> GST_FORMAT_UNKNOWN)"

definition GetCipherTypeFromFourCC :: "u32 \<Rightarrow> CipherType" where
  "GetCipherTypeFromFourCC fourCC =
     (case map_of gCipherMappings fourCC of Some cipher \<Rightarrow> cipher | None \<Rightarrow> CIPHER_TYPE_NONE)"

text \<open>The flag bits of the boxes that carry optional fields.\<close>

definition TFHD_BASE_DATA_OFFSET_PRESENT :: u32 where "TFHD_BASE_DATA_OFFSET_PRESENT = 0x00001"
definition TFHD_SAMPLE_DESCRIPTION_INDEX_PRESENT :: u32 where
  "TFHD_SAMPLE_DESCRIPTION_INDEX_PRESENT = 0x00002"
definition TFHD_DEFAULT_SAMPLE_DURATION_PRESENT :: u32 where
  "TFHD_DEFAULT_SAMPLE_DURATION_PRESENT = 0x00008"
definition TFHD_DEFAULT_SAMPLE_SIZE_PRESENT :: u32 where "TFHD_DEFAULT_SAMPLE_SIZE_PRESENT = 0x00010"
definition TFHD_DEFAULT_SAMPLE_FLAGS_PRESENT :: u32 where "TFHD_DEFAULT_SAMPLE_FLAGS_PRESENT = 0x00020"
definition TRUN_DATA_OFFSET_PRESENT :: u32 where "TRUN_DATA_OFFSET_PRESENT = 0x0001"
definition TRUN_FIRST_SAMPLE_FLAGS_PRESENT :: u32 where "TRUN_FIRST_SAMPLE_FLAGS_PRESENT = 0x0004"
definition TRUN_SAMPLE_DURATION_PRESENT :: u32 where "TRUN_SAMPLE_DURATION_PRESENT = 0x0100"
definition TRUN_SAMPLE_SIZE_PRESENT :: u32 where "TRUN_SAMPLE_SIZE_PRESENT = 0x0200"
definition TRUN_SAMPLE_FLAGS_PRESENT :: u32 where "TRUN_SAMPLE_FLAGS_PRESENT = 0x0400"
definition TRUN_SAMPLE_COMPOSITION_TIME_OFFSET_PRESENT :: u32 where
  "TRUN_SAMPLE_COMPOSITION_TIME_OFFSET_PRESENT = 0x0800"
definition SAIZ_SAIO_AUX_INFO_TYPE_PRESENT :: u32 where "SAIZ_SAIO_AUX_INFO_TYPE_PRESENT = 0x1"
definition SENC_SUBSAMPLE_ENCRYPTION_PRESENT :: u32 where "SENC_SUBSAMPLE_ENCRYPTION_PRESENT = 0x2"
definition MP4_SUBSAMPLE_ENTRY_SIZE :: nat where "MP4_SUBSAMPLE_ENTRY_SIZE = 6"
definition VIDEO_PREDEFINED_PADDING_MARKER :: u16 where "VIDEO_PREDEFINED_PADDING_MARKER = 0xffff"
definition TENC_BOX_KEY_ID_SIZE :: nat where "TENC_BOX_KEY_ID_SIZE = 16"
definition PSSH_SYSTEM_ID_SIZE :: nat where "PSSH_SYSTEM_ID_SIZE = 16"

named_theorems mp4_consts "the named constants of the MP4 demultiplexer"

lemmas [mp4_consts] =
  TFHD_BASE_DATA_OFFSET_PRESENT_def TFHD_SAMPLE_DESCRIPTION_INDEX_PRESENT_def
  TFHD_DEFAULT_SAMPLE_DURATION_PRESENT_def TFHD_DEFAULT_SAMPLE_SIZE_PRESENT_def
  TFHD_DEFAULT_SAMPLE_FLAGS_PRESENT_def TRUN_DATA_OFFSET_PRESENT_def
  TRUN_FIRST_SAMPLE_FLAGS_PRESENT_def TRUN_SAMPLE_DURATION_PRESENT_def
  TRUN_SAMPLE_SIZE_PRESENT_def TRUN_SAMPLE_FLAGS_PRESENT_def
  TRUN_SAMPLE_COMPOSITION_TIME_OFFSET_PRESENT_def SAIZ_SAIO_AUX_INFO_TYPE_PRESENT_def
  SENC_SUBSAMPLE_ENCRYPTION_PRESENT_def MP4_SUBSAMPLE_ENTRY_SIZE_def
  VIDEO_PREDEFINED_PADDING_MARKER_def TENC_BOX_KEY_ID_SIZE_def PSSH_SYSTEM_ID_SIZE_def

definition flag_set :: "u32 \<Rightarrow> u32 \<Rightarrow> bool" where
  "flag_set fl m \<longleftrightarrow> and fl m \<noteq> 0"

section \<open>Times in seconds\<close>

text \<open>
  A \<open>double\<close> number of seconds is a rational (its rounding is not modelled), or \<open>None\<close> where the
  computation is infinite or not a number: a division by a time scale of zero, and what it taints.
\<close>

type_synonym sec_double = "rat option"

definition ticks_to_seconds :: "int \<Rightarrow> u32 \<Rightarrow> sec_double" where
  "ticks_to_seconds t scale = (if scale = 0 then None else Some (of_int t / of_int (uint scale)))"

fun sec_add :: "sec_double \<Rightarrow> sec_double \<Rightarrow> sec_double" where
  "sec_add (Some a) (Some b) = Some (a + b)"
| "sec_add _ _ = None"

section \<open>Samples, protection data and codec information\<close>

record MediaDrmMetadata =
  mIsEncrypted :: bool
  mKeyId :: "u8 list"
  mIV :: "u8 list"
  mCipher :: CipherType
  mSubSamples :: "u8 list"
  mNumSubSamples :: u16
  mCryptByteBlock :: u8
  mSkipByteBlock :: u8

definition noDrmMetadata :: MediaDrmMetadata where
  "noDrmMetadata = \<lparr>mIsEncrypted = False, mKeyId = [], mIV = [], mCipher = CIPHER_TYPE_NONE,
     mSubSamples = [], mNumSubSamples = 0, mCryptByteBlock = 0, mSkipByteBlock = 0\<rparr>"

record AampMediaSample =
  mData :: "int option"
  mDataSize :: nat
  mPts :: sec_double
  mDts :: sec_double
  mDuration :: sec_double
  mIsKeyFrame :: bool
  mDrmMetadata :: MediaDrmMetadata

definition emptySample :: AampMediaSample where
  "emptySample = \<lparr>mData = None, mDataSize = 0, mPts = Some 0, mDts = Some 0, mDuration = Some 0,
     mIsKeyFrame = False, mDrmMetadata = noDrmMetadata\<rparr>"

record MediaProtectionInfo =
  systemID :: string
  pssh :: "u8 list"

text \<open>
  The union \<open>mInfo\<close> of \<open>MediaCodecInfo\<close> overlays (\<open>mChannelCount\<close>, \<open>mSampleRate\<close>) and (\<open>mWidth\<close>,
  \<open>mHeight\<close>): two 16-bit words at the same places.
\<close>

record MediaCodecInfo =
  mCodecFormat :: GstStreamOutputFormat
  mCodecData :: "u8 list"
  mCodecIsEncrypted :: bool
  mInfo :: "u16 \<times> u16"

definition mkMediaCodecInfo :: "GstStreamOutputFormat \<Rightarrow> MediaCodecInfo" where
  "mkMediaCodecInfo format =
     \<lparr>mCodecFormat = format, mCodecData = [], mCodecIsEncrypted = False, mInfo = (0, 0)\<rparr>"

record PendingSamplePayload =
  dataPtr :: int
  sampleLen :: u32
  sampleIdx :: nat
  pDts :: sec_double
  pPts :: sec_double
  pDuration :: sec_double
  pIsKeyFrame :: bool

record MetricStats =
  ms_count :: nat
  ms_sum :: rat
  ms_min :: rat
  ms_max :: rat

definition noMetricStats :: MetricStats where
  "noMetricStats = \<lparr>ms_count = 0, ms_sum = 0, ms_min = 0, ms_max = 0\<rparr>"

section \<open>The demultiplexer\<close>

record Mp4Demux =
  streamFormat :: u32
  mMediaTypeName :: string
  ivSize :: u8
  cryptByteBlock :: u8
  skipByteBlock :: u8
  constantIvSize :: u8
  constantIv :: "u8 list"
  timeScale :: u32
  samples :: "AampMediaSample list"
  defaultKid :: "u8 list"
  gotAuxiliaryInformationOffset :: bool
  auxiliaryInformationOffset :: u64
  schemeType :: CipherType
  originalMediaType :: u32
  cencAuxInfoSizes :: "u8 list"
  protectionData :: "MediaProtectionInfo list"
  moofPtr :: int
  ptr :: int
  endPtr :: int
  mdatStart :: int
  mdatEnd :: int
  version :: u8
  flags :: u32
  baseMediaDecodeTime :: u64
  trackId :: u32
  baseDataOffset :: u64
  defaultSampleDescriptionIndex :: u32
  defaultSampleDuration :: u32
  defaultSampleSize :: u32
  defaultSampleFlags :: u32
  duration :: u64
  sampleOffset :: nat
  sencPresent :: bool
  handledEncryptedSamples :: bool
  mSampleInfo :: "PendingSamplePayload list"
  codecInfo :: MediaCodecInfo
  parseError :: Mp4ParseError
  mDemuxTimeMs :: MetricStats
  mFramesPerSecond :: MetricStats
  mLastLogTime :: int
  mLogIntervalSeconds :: int
  mCurrentSegment :: "(int \<times> u8 list) option"

definition mkMp4Demux :: "int \<Rightarrow> Mp4Demux" where
  "mkMp4Demux now = \<lparr>streamFormat = 0, mMediaTypeName = ''unknown'', ivSize = 0, cryptByteBlock = 0,
     skipByteBlock = 0, constantIvSize = 0, constantIv = [], timeScale = 0, samples = [],
     defaultKid = [], gotAuxiliaryInformationOffset = False, auxiliaryInformationOffset = 0,
     schemeType = CIPHER_TYPE_NONE, originalMediaType = 0, cencAuxInfoSizes = [],
     protectionData = [], moofPtr = 0, ptr = 0, endPtr = 0, mdatStart = 0, mdatEnd = 0,
     version = 0, flags = 0, baseMediaDecodeTime = 0, trackId = 0, baseDataOffset = 0,
     defaultSampleDescriptionIndex = 0, defaultSampleDuration = 0, defaultSampleSize = 0,
     defaultSampleFlags = 0, duration = 0, sampleOffset = 0, sencPresent = False,
     handledEncryptedSamples = False, mSampleInfo = [],
     codecInfo = mkMediaCodecInfo GST_FORMAT_INVALID, parseError = MP4_PARSE_OK,
     mDemuxTimeMs = noMetricStats, mFramesPerSecond = noMetricStats, mLastLogTime = now,
     mLogIntervalSeconds = 600, mCurrentSegment = None\<rparr>"

section \<open>Outcomes and sequencing\<close>

text \<open>
  How a parsing function can end early: a \<open>Mp4ParseException\<close> with its code, another
  \<open>std::exception\<close> (the \<open>std::length_error\<close> of a vector built from a reversed range), a read outside
  the segment, and \<open>OutOfFuel\<close> for a run longer than the fuel given to the recursion. \<open>Rejected\<close> is
  used by the reference parser of \<open>Mp4_Checked\<close> only.
\<close>

datatype mp4_exn = Mp4ParseException Mp4ParseError | StdException | OutOfBounds | OutOfFuel | Rejected

type_synonym 'a mp4m = "Mp4Demux \<Rightarrow> mp4_exn \<times> Mp4Demux + 'a \<times> Mp4Demux"

definition mret :: "'a \<Rightarrow> 'a mp4m" where
  "mret x = (\<lambda>s. Inr (x, s))"

definition mfail :: "mp4_exn \<Rightarrow> 'a mp4m" where
  "mfail e = (\<lambda>s. Inl (e, s))"

definition mbind :: "'a mp4m \<Rightarrow> ('a \<Rightarrow> 'b mp4m) \<Rightarrow> 'b mp4m" where
  "mbind m f = (\<lambda>s. case m s of Inl e \<Rightarrow> Inl e | Inr (x, t) \<Rightarrow> f x t)"

definition mseq :: "unit mp4m \<Rightarrow> 'b mp4m \<Rightarrow> 'b mp4m" where
  "mseq m k = mbind m (\<lambda>_. k)"

definition mget :: "(Mp4Demux \<Rightarrow> 'a) \<Rightarrow> 'a mp4m" where
  "mget f = (\<lambda>s. Inr (f s, s))"

definition mmod :: "(Mp4Demux \<Rightarrow> Mp4Demux) \<Rightarrow> unit mp4m" where
  "mmod f = (\<lambda>s. Inr ((), f s))"

definition mthrow :: "Mp4ParseError \<Rightarrow> 'a mp4m" where
  "mthrow e = mfail (Mp4ParseException e)"

definition throw_if :: "(Mp4Demux \<Rightarrow> bool) \<Rightarrow> Mp4ParseError \<Rightarrow> unit mp4m" where
  "throw_if c e = (\<lambda>s. if c s then mthrow e s else mret () s)"

section \<open>Pointers and the segment\<close>

definition padd :: "int \<Rightarrow> int \<Rightarrow> int" where
  "padd p n = (p + n) mod 2 ^ 64"

definition pdiff :: "int \<Rightarrow> int \<Rightarrow> int" where
  "pdiff p q = (p - q) mod 2 ^ 64"

definition in_segment :: "Mp4Demux \<Rightarrow> int \<Rightarrow> int \<Rightarrow> bool" where
  "in_segment s p n =
     (case mCurrentSegment s of None \<Rightarrow> False
      | Some (base, bs) \<Rightarrow> base \<le> p \<and> p + n \<le> base + int (length bs))"

definition bytes_at :: "Mp4Demux \<Rightarrow> int \<Rightarrow> nat \<Rightarrow> u8 list" where
  "bytes_at s p n =
     (case mCurrentSegment s of None \<Rightarrow> [] | Some (base, bs) \<Rightarrow> take n (drop (nat (p - base)) bs))"

definition Deref :: "int \<Rightarrow> u8 mp4m" where
  "Deref p = (\<lambda>s. if in_segment s p 1 then Inr (hd (bytes_at s p 1), s) else Inl (OutOfBounds, s))"

definition Advance :: "int \<Rightarrow> unit mp4m" where
  "Advance n = mmod (\<lambda>s. s\<lparr>ptr := padd (ptr s) n\<rparr>)"

definition NextByte :: "u8 mp4m" where
  "NextByte = mbind (mget ptr) (\<lambda>p. mbind (Deref p) (\<lambda>b. mseq (Advance 1) (mret b)))"

text \<open>
  \<open>std::vector<uint8_t>(ptr, ptr + n)\<close>: its length is the pointer difference as a \<open>ptrdiff_t\<close>; a
  negative one exceeds \<open>max_size()\<close> when converted to \<open>size_t\<close> and throws \<open>std::length_error\<close>.
\<close>

definition CopyBytes :: "int \<Rightarrow> u8 list mp4m" where
  "CopyBytes n = (\<lambda>s.
     let len = n mod 2 ^ 64 in
     if len = 0 then Inr ([], s)
     else if 2 ^ 63 \<le> len then Inl (StdException, s)
     else if in_segment s (ptr s) len then Inr (bytes_at s (ptr s) (nat len), s)
     else Inl (OutOfBounds, s))"

section \<open>The primitive readers\<close>

fun ReadBytes_loop :: "nat \<Rightarrow> u64 \<Rightarrow> u64 mp4m" where
  "ReadBytes_loop 0 rc = mret rc"
| "ReadBytes_loop (Suc i) rc = mbind NextByte (\<lambda>b. ReadBytes_loop i (push_bit 8 rc + ucast b))"

definition ReadBytes :: "int \<Rightarrow> u64 mp4m" where
  "ReadBytes n =
     mseq (throw_if (\<lambda>s. n \<le> 0 \<or> n > 8 \<or> ptr s = 0 \<or> endPtr s = 0 \<or> padd (ptr s) n > endPtr s)
             MP4_PARSE_ERROR_DATA_BOUNDARY_MISMATCH)
     (ReadBytes_loop (nat n) 0)"

definition ReadU8 :: "u8 mp4m" where
  "ReadU8 = mbind (ReadBytes 1) (\<lambda>x. mret (ucast x))"

definition ReadU16 :: "u16 mp4m" where
  "ReadU16 = mbind (ReadBytes 2) (\<lambda>x. mret (ucast x))"

definition ReadU32 :: "u32 mp4m" where
  "ReadU32 = mbind (ReadBytes 4) (\<lambda>x. mret (ucast x))"

definition ReadI32 :: "int mp4m" where
  "ReadI32 = mbind (ReadBytes 4) (\<lambda>x. mret (sint (ucast x :: u32)))"

definition ReadU64 :: "u64 mp4m" where
  "ReadU64 = ReadBytes 8"

definition ReadHeader :: "unit mp4m" where
  "ReadHeader =
     mseq (throw_if (\<lambda>s. ptr s = 0 \<or> endPtr s = 0 \<or> padd (ptr s) 1 > endPtr s)
             MP4_PARSE_ERROR_DATA_BOUNDARY_MISMATCH)
     (mbind NextByte (\<lambda>v.
      mseq (mmod (\<lambda>s. s\<lparr>version := v\<rparr>))
     (mbind (ReadBytes 3) (\<lambda>f.
      mmod (\<lambda>s. s\<lparr>flags := ucast f\<rparr>)))))"

definition SkipBytes :: "int \<Rightarrow> unit mp4m" where
  "SkipBytes len =
     mseq (throw_if (\<lambda>s. ptr s = 0 \<or> endPtr s = 0 \<or> padd (ptr s) len > endPtr s)
             MP4_PARSE_ERROR_DATA_BOUNDARY_MISMATCH)
     (Advance len)"

definition setParseError :: "Mp4ParseError \<Rightarrow> Mp4Demux \<Rightarrow> Mp4Demux" where
  "setParseError err s = s\<lparr>parseError := err\<rparr>"

end
