(* ===== verification/Mp4_Parsers.thy ===== *)
theory Mp4_Parsers
  imports Mp4_State
begin

text \<open>
  The parsers of the individual boxes (\<open>src/mp4demux/MP4Demux.cpp\<close>, \<open>ParseOriginalFormat\<close> to
  \<open>ParseSampleToGroup\<close>), each the sequence of reads, checks and member updates of the function it is
  named after, the deferred assignment of sample payloads (\<open>ProcessSamples\<close>) and the encryption data
  read from the auxiliary information (\<open>ProcessAuxiliaryInformation\<close>). A container's parser takes
  the recursive call \<open>DemuxHelper\<close> as its argument; the loop itself is in \<open>Mp4_Demux\<close>.
\<close>

section \<open>Encryption boxes\<close>

definition ParseOriginalFormat :: "unit mp4m" where
  "ParseOriginalFormat = mbind ReadU32 (\<lambda>x. mmod (\<lambda>s. s\<lparr>originalMediaType := x\<rparr>))"

definition ParseProtectionSchemeInfo :: "unit mp4m" where
  "ParseProtectionSchemeInfo =
     mbind ReadU32 (\<lambda>type.
     let cipher = GetCipherTypeFromFourCC type in
     if cipher = CIPHER_TYPE_NONE then mthrow MP4_PARSE_ERROR_UNSUPPORTED_ENCRYPTION_SCHEME
     else mmod (\<lambda>s. s\<lparr>schemeType := cipher\<rparr>))"

definition ParseSchemeManagementBox :: "unit mp4m" where
  "ParseSchemeManagementBox = mseq ReadHeader (mseq ParseProtectionSchemeInfo (SkipBytes 4))"

text \<open>
  \<open>if (ptr + n > bound) throw; v.assign(ptr, ptr + n); ptr += n\<close>, the way a field of known length is
  taken from the segment; \<open>bound\<close> is the end of the segment or of the box.
\<close>

definition TakeBytes :: "(Mp4Demux \<Rightarrow> int) \<Rightarrow> int \<Rightarrow> u8 list mp4m" where
  "TakeBytes bound n =
     mseq (throw_if (\<lambda>s. padd (ptr s) n > bound s) MP4_PARSE_ERROR_DATA_BOUNDARY_MISMATCH)
     (mbind (CopyBytes n) (\<lambda>v. mseq (Advance n) (mret v)))"

definition ParseTrackEncryptionBox :: "unit mp4m" where
  "ParseTrackEncryptionBox =
     mseq ReadHeader
    (mseq (SkipBytes 1)
    (mbind ReadU8 (\<lambda>pattern.
     mseq (mmod (\<lambda>s. if schemeType s = CIPHER_TYPE_CBCS
             then s\<lparr>cryptByteBlock := and (drop_bit 4 pattern) 0xf, skipByteBlock := and pattern 0xf\<rparr>
             else s))
    (mbind (ReadBytes 1) (\<lambda>enc.
     mseq (if enc = 0 then mmod (\<lambda>s. s\<lparr>codecInfo := (codecInfo s)\<lparr>mCodecIsEncrypted := False\<rparr>\<rparr>)
           else if enc = 1 then mmod (\<lambda>s. s\<lparr>codecInfo := (codecInfo s)\<lparr>mCodecIsEncrypted := True\<rparr>\<rparr>)
           else mthrow MP4_PARSE_ERROR_UNEXPECTED_IS_ENCRYPTED_FIELD)
    (mseq (mmod (\<lambda>s. s\<lparr>handledEncryptedSamples := True\<rparr>))
    (mbind ReadU8 (\<lambda>iv.
     mseq (mmod (\<lambda>s. s\<lparr>ivSize := iv\<rparr>))
    (mbind (TakeBytes endPtr (int TENC_BOX_KEY_ID_SIZE)) (\<lambda>kid.
     mseq (mmod (\<lambda>s. s\<lparr>defaultKid := kid\<rparr>))
    (mbind (mget version) (\<lambda>v.
     if v = 1 then
       mbind ReadU8 (\<lambda>c.
       mseq (mmod (\<lambda>s. s\<lparr>constantIvSize := c\<rparr>))
      (mseq (throw_if (\<lambda>s. c \<noteq> 8 \<and> c \<noteq> 16) MP4_PARSE_ERROR_INVALID_IV_SIZE)
      (mbind (TakeBytes endPtr (uint c)) (\<lambda>civ.
       mmod (\<lambda>s. s\<lparr>constantIv := civ\<rparr>)))))
     else mret ()))))))))))))"

definition hex_digit :: "u8 \<Rightarrow> char" where
  "hex_digit n = ''0123456789abcdef'' ! unat n"

definition hex_byte :: "u8 \<Rightarrow> string" where
  "hex_byte b = [hex_digit (drop_bit 4 b), hex_digit (and b 0xf)]"

definition format_systemID :: "u8 list \<Rightarrow> string" where
  "format_systemID b =
     concat (map hex_byte (take 4 b)) @ ''-'' @ concat (map hex_byte (take 2 (drop 4 b))) @ ''-'' @
     concat (map hex_byte (take 2 (drop 6 b))) @ ''-'' @ concat (map hex_byte (take 2 (drop 8 b))) @
     ''-'' @ concat (map hex_byte (drop 10 b))"

definition set_last :: "('a \<Rightarrow> 'a) \<Rightarrow> 'a list \<Rightarrow> 'a list" where
  "set_last f xs = (if xs = [] then [] else butlast xs @ [f (last xs)])"

definition ParseProtectionSystemSpecificHeaderBox :: "int \<Rightarrow> unit mp4m" where
  "ParseProtectionSystemSpecificHeaderBox next =
     mseq ReadHeader
    (mseq (throw_if (\<lambda>s. padd (ptr s) (int PSSH_SYSTEM_ID_SIZE) > next) MP4_PARSE_ERROR_DATA_BOUNDARY_MISMATCH)
    (mseq (mmod (\<lambda>s. s\<lparr>protectionData := protectionData s @ [\<lparr>systemID = [], pssh = []\<rparr>]\<rparr>))
    (mbind (CopyBytes (int PSSH_SYSTEM_ID_SIZE)) (\<lambda>ident.
     mseq (mmod (\<lambda>s. s\<lparr>protectionData :=
             set_last (\<lambda>p. p\<lparr>systemID := format_systemID ident\<rparr>) (protectionData s)\<rparr>))
    (mseq (Advance (int PSSH_SYSTEM_ID_SIZE))
    (mseq (mbind (mget version) (\<lambda>v.
       if v = 1 then
         mseq (throw_if (\<lambda>s. padd (ptr s) 4 > next) MP4_PARSE_ERROR_DATA_BOUNDARY_MISMATCH)
        (mbind ReadU32 (\<lambda>kidCount.
         let kidBytes = 16 * uint kidCount in
         mseq (throw_if (\<lambda>s. padd (ptr s) kidBytes > next) MP4_PARSE_ERROR_DATA_BOUNDARY_MISMATCH)
         (Advance kidBytes)))
       else mret ()))
    (mseq (throw_if (\<lambda>s. padd (ptr s) 4 > next) MP4_PARSE_ERROR_DATA_BOUNDARY_MISMATCH)
    (mbind ReadU32 (\<lambda>dataSize.
     mseq (throw_if (\<lambda>s. padd (ptr s) (uint dataSize) > next) MP4_PARSE_ERROR_DATA_BOUNDARY_MISMATCH)
    (mbind (CopyBytes (uint dataSize)) (\<lambda>blob.
     mseq (mmod (\<lambda>s. s\<lparr>protectionData := set_last (\<lambda>p. p\<lparr>pssh := blob\<rparr>) (protectionData s)\<rparr>))
     (SkipBytes (uint dataSize)))))))))))))"

text \<open>\<open>samples[i]\<close> and its metadata: an index past the end is a write outside the vector.\<close>

definition UpdateSample :: "nat \<Rightarrow> (AampMediaSample \<Rightarrow> AampMediaSample) \<Rightarrow> unit mp4m" where
  "UpdateSample i f = (\<lambda>s.
     if i < length (samples s) then Inr ((), s\<lparr>samples := (samples s)[i := f (samples s ! i)]\<rparr>)
     else Inl (OutOfBounds, s))"

definition UpdateDrm :: "nat \<Rightarrow> (Mp4Demux \<Rightarrow> MediaDrmMetadata \<Rightarrow> MediaDrmMetadata) \<Rightarrow> unit mp4m" where
  "UpdateDrm i f = (\<lambda>s. UpdateSample i (\<lambda>a. a\<lparr>mDrmMetadata := f s (mDrmMetadata a)\<rparr>) s)"

text \<open>\<open>if (n > size_t(endPtr - ptr)) throw; v = vector(ptr, ptr + n); ptr += n\<close>\<close>

definition TakeRemaining :: "int \<Rightarrow> u8 list mp4m" where
  "TakeRemaining n =
     mseq (throw_if (\<lambda>s. n > pdiff (endPtr s) (ptr s)) MP4_PARSE_ERROR_DATA_BOUNDARY_MISMATCH)
     (mbind (CopyBytes n) (\<lambda>v. mseq (Advance n) (mret v)))"

definition SkipRemaining :: "int \<Rightarrow> unit mp4m" where
  "SkipRemaining n =
     mseq (throw_if (\<lambda>s. n > pdiff (endPtr s) (ptr s)) MP4_PARSE_ERROR_DATA_BOUNDARY_MISMATCH)
     (Advance n)"

definition uses_constant_iv :: "Mp4Demux \<Rightarrow> bool" where
  "uses_constant_iv s \<longleftrightarrow> schemeType s = CIPHER_TYPE_CBCS \<and> constantIv s \<noteq> []"

definition drm_pattern :: "Mp4Demux \<Rightarrow> MediaDrmMetadata \<Rightarrow> MediaDrmMetadata" where
  "drm_pattern s d =
     (if schemeType s = CIPHER_TYPE_CBCS
      then d\<lparr>mCryptByteBlock := cryptByteBlock s, mSkipByteBlock := skipByteBlock s\<rparr> else d)"

definition ReadSubSamples :: "nat \<Rightarrow> unit mp4m" where
  "ReadSubSamples i =
     mbind ReadU16 (\<lambda>numSubSamples.
     mbind (TakeRemaining (uint numSubSamples * int MP4_SUBSAMPLE_ENTRY_SIZE)) (\<lambda>v.
     UpdateDrm i (\<lambda>_ d. d\<lparr>mSubSamples := v, mNumSubSamples := numSubSamples\<rparr>)))"

definition aux_sample :: "nat \<Rightarrow> unit mp4m" where
  "aux_sample i =
     mseq (UpdateDrm i (\<lambda>s d. drm_pattern s (d\<lparr>mIsEncrypted := True, mKeyId := defaultKid s,
             mCipher := (if schemeType s = CIPHER_TYPE_CBCS then CIPHER_TYPE_CBCS else CIPHER_TYPE_CENC)\<rparr>)))
    (mbind (mget ivSize) (\<lambda>iv.
     mseq (if iv \<noteq> 0 then
             mbind (mget (\<lambda>s. mIV (mDrmMetadata (samples s ! i)))) (\<lambda>old.
             if old = [] then mbind (TakeRemaining (uint iv)) (\<lambda>v. UpdateDrm i (\<lambda>_ d. d\<lparr>mIV := v\<rparr>))
             else SkipRemaining (uint iv))
           else mbind (mget uses_constant_iv) (\<lambda>u.
             if u then UpdateDrm i (\<lambda>s d. d\<lparr>mIV := constantIv s\<rparr>) else mret ()))
    (mbind (mget (\<lambda>s. cencAuxInfoSizes s ! (i - sampleOffset s))) (\<lambda>aux.
     if aux > iv then ReadSubSamples i else mret ()))))"

fun aux_loop :: "nat \<Rightarrow> nat \<Rightarrow> unit mp4m" where
  "aux_loop 0 i = mret ()"
| "aux_loop (Suc k) i = mseq (aux_sample i) (aux_loop k (Suc i))"

definition ProcessAuxiliaryInformation :: "unit mp4m" where
  "ProcessAuxiliaryInformation =
     mbind (mget ptr) (\<lambda>bptr.
     mbind (mget (\<lambda>s. length (cencAuxInfoSizes s))) (\<lambda>sampleCount.
     mbind (mget gotAuxiliaryInformationOffset) (\<lambda>got.
     mseq (if sampleCount \<noteq> 0 \<and> got then
             mseq (mmod (\<lambda>s. s\<lparr>ptr := padd (moofPtr s) (uint (auxiliaryInformationOffset s))\<rparr>))
            (mseq (throw_if (\<lambda>s. ptr s \<ge> endPtr s) MP4_PARSE_ERROR_DATA_BOUNDARY_MISMATCH)
            (mseq (throw_if (\<lambda>s. length (samples s) \<noteq> sampleOffset s + sampleCount)
                     MP4_PARSE_ERROR_SAMPLE_COUNT_MISMATCH)
            (mbind (mget sampleOffset) (\<lambda>off. aux_loop sampleCount off))))
           else mret ())
     (mmod (\<lambda>s. s\<lparr>ptr := bptr\<rparr>)))))"

fun saiz_loop :: "nat \<Rightarrow> int \<Rightarrow> unit mp4m" where
  "saiz_loop 0 p = mret ()"
| "saiz_loop (Suc k) p =
     mbind (Deref p) (\<lambda>b.
     mseq (mmod (\<lambda>s. s\<lparr>cencAuxInfoSizes := cencAuxInfoSizes s @ [b]\<rparr>))
     (saiz_loop k (padd p 1)))"

definition AuxInfoType :: "unit mp4m" where
  "AuxInfoType =
     mbind (mget flags) (\<lambda>fl.
     if flag_set fl SAIZ_SAIO_AUX_INFO_TYPE_PRESENT
     then mseq ParseProtectionSchemeInfo (SkipBytes 4) else mret ())"

definition ParseSampleAuxiliaryInformationSizes :: "unit mp4m" where
  "ParseSampleAuxiliaryInformationSizes =
     mseq ReadHeader
    (mseq AuxInfoType
    (mbind NextByte (\<lambda>defaultInfoSize.
     mbind ReadU32 (\<lambda>sampleCount.
     if defaultInfoSize \<noteq> 0 then
       mmod (\<lambda>s. s\<lparr>cencAuxInfoSizes := cencAuxInfoSizes s @ replicate (unat sampleCount) defaultInfoSize\<rparr>)
     else
       mbind (mget ptr) (\<lambda>p.
       mseq (saiz_loop (unat sampleCount) p)
       (Advance (uint sampleCount)))))))"

fun repeat_read :: "'a mp4m \<Rightarrow> nat \<Rightarrow> unit mp4m" where
  "repeat_read m 0 = mret ()"
| "repeat_read m (Suc k) = mbind m (\<lambda>_. repeat_read m k)"

definition ParseSampleAuxiliaryInformationOffsets :: "unit mp4m" where
  "ParseSampleAuxiliaryInformationOffsets =
     mseq ReadHeader
    (mseq AuxInfoType
    (mbind ReadU32 (\<lambda>entryCount.
     mseq (throw_if (\<lambda>s. entryCount = 0) MP4_PARSE_ERROR_INVALID_ENTRY_COUNT)
    (mbind (mget version) (\<lambda>v.
     if v = 0 then
       mbind ReadU32 (\<lambda>x.
       mseq (mmod (\<lambda>s. s\<lparr>auxiliaryInformationOffset := ucast x\<rparr>))
      (mseq (repeat_read ReadU32 (unat entryCount - 1))
       (mmod (\<lambda>s. s\<lparr>gotAuxiliaryInformationOffset := True\<rparr>))))
     else
       mbind ReadU64 (\<lambda>x.
       mseq (mmod (\<lambda>s. s\<lparr>auxiliaryInformationOffset := x\<rparr>))
      (mseq (repeat_read ReadU64 (unat entryCount - 1))
       (mmod (\<lambda>s. s\<lparr>gotAuxiliaryInformationOffset := True\<rparr>)))))))))"

definition senc_sample :: "nat \<Rightarrow> unit mp4m" where
  "senc_sample i =
     mseq (UpdateDrm i (\<lambda>s d. drm_pattern s (d\<lparr>mIsEncrypted := True, mKeyId := defaultKid s,
             mCipher := schemeType s\<rparr>)))
    (mbind (mget ivSize) (\<lambda>iv.
     mseq (if iv \<noteq> 0 then mbind (TakeRemaining (uint iv)) (\<lambda>v. UpdateDrm i (\<lambda>_ d. d\<lparr>mIV := v\<rparr>))
           else mbind (mget uses_constant_iv) (\<lambda>u.
             if u then UpdateDrm i (\<lambda>s d. d\<lparr>mIV := constantIv s\<rparr>) else mret ()))
    (mbind (mget flags) (\<lambda>fl.
     if flag_set fl SENC_SUBSAMPLE_ENCRYPTION_PRESENT then ReadSubSamples i else mret ()))))"

fun senc_loop :: "nat \<Rightarrow> nat \<Rightarrow> unit mp4m" where
  "senc_loop 0 i = mret ()"
| "senc_loop (Suc k) i = mseq (senc_sample i) (senc_loop k (Suc i))"

definition ParseSampleEncryption :: "unit mp4m" where
  "ParseSampleEncryption =
     mseq ReadHeader
    (mbind ReadU32 (\<lambda>sampleCount.
     mseq (throw_if (\<lambda>s. length (samples s) \<noteq> sampleOffset s + unat sampleCount)
             MP4_PARSE_ERROR_SAMPLE_COUNT_MISMATCH)
    (mbind (mget sampleOffset) (\<lambda>off.
     mseq (senc_loop (unat sampleCount) off)
     (mmod (\<lambda>s. s\<lparr>sencPresent := True\<rparr>))))))"

section \<open>Track fragments\<close>

definition ReadIf :: "u32 \<Rightarrow> u32 \<Rightarrow> 'a mp4m \<Rightarrow> 'a \<Rightarrow> 'a mp4m" where
  "ReadIf fl m rd dflt = (if flag_set fl m then rd else mret dflt)"

text \<open>
  One iteration of the loop of \<open>ParseTrackRun\<close>: \<open>i\<close> is the index of the sample in the run, \<open>dp\<close> the
  address of its payload and \<open>dts\<close> its decode time.
\<close>

definition trun_sample :: "u32 \<Rightarrow> u32 \<Rightarrow> nat \<Rightarrow> int \<Rightarrow> u64 \<Rightarrow> (u32 \<times> u32) mp4m" where
  "trun_sample fl firstSampleFlags i dp dts =
     mseq (mmod (\<lambda>s. s\<lparr>samples := samples s @ [emptySample]\<rparr>))
    (mbind (mget defaultSampleSize) (\<lambda>dsize.
     mbind (mget defaultSampleDuration) (\<lambda>ddur.
     mbind (ReadIf fl TRUN_SAMPLE_DURATION_PRESENT ReadU32 ddur) (\<lambda>sampleDuration.
     mbind (ReadIf fl TRUN_SAMPLE_SIZE_PRESENT ReadU32 dsize) (\<lambda>len.
     mbind (mget defaultSampleFlags) (\<lambda>dflags.
     mbind (ReadIf fl TRUN_SAMPLE_FLAGS_PRESENT ReadU32
              (if i = 0 \<and> flag_set fl TRUN_FIRST_SAMPLE_FLAGS_PRESENT then firstSampleFlags else dflags))
       (\<lambda>effectiveSampleFlags.
     mbind (ReadIf fl TRUN_SAMPLE_COMPOSITION_TIME_OFFSET_PRESENT ReadI32 0) (\<lambda>cto.
     mseq (mmod (\<lambda>s. s\<lparr>mSampleInfo := mSampleInfo s @
        [\<lparr>dataPtr = dp, sampleLen = len, sampleIdx = length (samples s) - 1,
          pDts = ticks_to_seconds (uint dts) (timeScale s),
          pPts = ticks_to_seconds (uint (dts + word_of_int cto)) (timeScale s),
          pDuration = ticks_to_seconds (uint sampleDuration) (timeScale s),
          pIsKeyFrame = (and effectiveSampleFlags 0x00010000 = 0)\<rparr>]\<rparr>))
     (mret (len, sampleDuration))))))))))"

fun trun_loop :: "u32 \<Rightarrow> u32 \<Rightarrow> nat \<Rightarrow> nat \<Rightarrow> int \<Rightarrow> u64 \<Rightarrow> unit mp4m" where
  "trun_loop fl firstSampleFlags 0 i dp dts = mret ()"
| "trun_loop fl firstSampleFlags (Suc k) i dp dts =
     mbind (trun_sample fl firstSampleFlags i dp dts) (\<lambda>(len, sampleDuration).
     trun_loop fl firstSampleFlags k (Suc i) (padd dp (uint len)) (dts + ucast sampleDuration))"

definition ParseTrackRun :: "unit mp4m" where
  "ParseTrackRun =
     mseq ReadHeader
    (mbind ReadU32 (\<lambda>sampleCount.
     mbind (mget flags) (\<lambda>fl.
     mbind (mget moofPtr) (\<lambda>moof.
     mbind (ReadIf fl TRUN_DATA_OFFSET_PRESENT ReadI32 0) (\<lambda>dataOffset.
     mbind (ReadIf fl TRUN_FIRST_SAMPLE_FLAGS_PRESENT ReadU32 0) (\<lambda>firstSampleFlags.
     mbind (mget baseMediaDecodeTime) (\<lambda>dts.
     trun_loop fl firstSampleFlags (unat sampleCount) 0 (padd moof dataOffset) dts)))))))"

definition process_pending :: "PendingSamplePayload \<Rightarrow> unit mp4m" where
  "process_pending p =
     mseq (throw_if (\<lambda>s. dataPtr p < mdatStart s \<or> dataPtr p \<ge> mdatEnd s)
             MP4_PARSE_ERROR_DATA_BOUNDARY_MISMATCH)
    (mseq (throw_if (\<lambda>s. padd (dataPtr p) (uint (sampleLen p)) > mdatEnd s)
             MP4_PARSE_ERROR_DATA_BOUNDARY_MISMATCH)
     (UpdateSample (sampleIdx p) (\<lambda>a. a\<lparr>mData := Some (dataPtr p), mDataSize := unat (sampleLen p),
        mDts := pDts p, mPts := pPts p, mDuration := pDuration p, mIsKeyFrame := pIsKeyFrame p\<rparr>)))"

fun process_loop :: "PendingSamplePayload list \<Rightarrow> unit mp4m" where
  "process_loop [] = mret ()"
| "process_loop (p # ps) = mseq (process_pending p) (process_loop ps)"

definition ProcessSamples :: "unit mp4m" where
  "ProcessSamples =
     mseq (throw_if (\<lambda>s. mdatStart s = 0 \<or> mdatEnd s = 0) MP4_PARSE_ERROR_DATA_BOUNDARY_MISMATCH)
    (mbind (mget mSampleInfo) (\<lambda>pending.
     mseq (process_loop pending)
     (mmod (\<lambda>s. s\<lparr>mSampleInfo := []\<rparr>))))"

definition ParseTrackFragmentHeader :: "unit mp4m" where
  "ParseTrackFragmentHeader =
     mseq ReadHeader
    (mbind ReadU32 (\<lambda>x. mseq (mmod (\<lambda>s. s\<lparr>trackId := x\<rparr>))
    (mbind (mget flags) (\<lambda>fl.
     mseq (if flag_set fl TFHD_BASE_DATA_OFFSET_PRESENT
           then mbind ReadU64 (\<lambda>x. mmod (\<lambda>s. s\<lparr>baseDataOffset := x\<rparr>)) else mret ())
    (mseq (if flag_set fl TFHD_SAMPLE_DESCRIPTION_INDEX_PRESENT
           then mbind ReadU32 (\<lambda>x. mmod (\<lambda>s. s\<lparr>defaultSampleDescriptionIndex := x\<rparr>)) else mret ())
    (mseq (if flag_set fl TFHD_DEFAULT_SAMPLE_DURATION_PRESENT
           then mbind ReadU32 (\<lambda>x. mmod (\<lambda>s. s\<lparr>defaultSampleDuration := x\<rparr>)) else mret ())
    (mseq (if flag_set fl TFHD_DEFAULT_SAMPLE_SIZE_PRESENT
           then mbind ReadU32 (\<lambda>x. mmod (\<lambda>s. s\<lparr>defaultSampleSize := x\<rparr>)) else mret ())
     (if flag_set fl TFHD_DEFAULT_SAMPLE_FLAGS_PRESENT
      then mbind ReadU32 (\<lambda>x. mmod (\<lambda>s. s\<lparr>defaultSampleFlags := x\<rparr>)) else mret ()))))))))"

definition time_size :: "u8 \<Rightarrow> int" where
  "time_size v = (if v = 1 then 8 else 4)"

definition ParseTrackFragmentDecodeTime :: "unit mp4m" where
  "ParseTrackFragmentDecodeTime =
     mseq ReadHeader
    (mbind (mget version) (\<lambda>v.
     mbind (ReadBytes (time_size v)) (\<lambda>x. mmod (\<lambda>s. s\<lparr>baseMediaDecodeTime := x\<rparr>))))"

section \<open>Movie, track and media headers\<close>

definition ParseMovieHeader :: "unit mp4m" where
  "ParseMovieHeader =
     mseq ReadHeader
    (mbind (mget version) (\<lambda>v. let sz = time_size v in
     mseq (SkipBytes sz)
    (mseq (SkipBytes sz)
    (mbind ReadU32 (\<lambda>x. mseq (mmod (\<lambda>s. s\<lparr>timeScale := x\<rparr>))
    (mbind (ReadBytes sz) (\<lambda>d. mseq (mmod (\<lambda>s. s\<lparr>duration := d\<rparr>))
    (mseq (SkipBytes 16)
     (SkipBytes 64)))))))))"

definition ParseTrackHeader :: "unit mp4m" where
  "ParseTrackHeader =
     mseq ReadHeader
    (mbind (mget version) (\<lambda>v. let sz = time_size v in
     mseq (SkipBytes sz)
    (mseq (SkipBytes sz)
    (mbind ReadU32 (\<lambda>x. mseq (mmod (\<lambda>s. s\<lparr>trackId := x\<rparr>))
    (mseq (SkipBytes (20 + sz))
     (SkipBytes 44)))))))"

definition ParseMediaHeader :: "unit mp4m" where
  "ParseMediaHeader =
     mseq ReadHeader
    (mbind (mget version) (\<lambda>v. let sz = time_size v in
     mseq (SkipBytes sz)
    (mseq (SkipBytes sz)
    (mbind ReadU32 (\<lambda>x. mseq (mmod (\<lambda>s. s\<lparr>timeScale := x\<rparr>))
    (mbind (ReadBytes sz) (\<lambda>d. mseq (mmod (\<lambda>s. s\<lparr>duration := d\<rparr>))
     (SkipBytes 4))))))))"

definition ParseTrackExtendsBox :: "unit mp4m" where
  "ParseTrackExtendsBox =
     mseq ReadHeader
    (mbind ReadU32 (\<lambda>x. mseq (mmod (\<lambda>s. s\<lparr>trackId := x\<rparr>))
    (mbind ReadU32 (\<lambda>x. mseq (mmod (\<lambda>s. s\<lparr>defaultSampleDescriptionIndex := x\<rparr>))
    (mbind ReadU32 (\<lambda>x. mseq (mmod (\<lambda>s. s\<lparr>defaultSampleDuration := x\<rparr>))
    (mbind ReadU32 (\<lambda>x. mseq (mmod (\<lambda>s. s\<lparr>defaultSampleSize := x\<rparr>))
    (mbind ReadU32 (\<lambda>x. mmod (\<lambda>s. s\<lparr>defaultSampleFlags := x\<rparr>)))))))))))"

section \<open>Sample descriptions and codec configuration\<close>

definition ParseVideoInformation :: "unit mp4m" where
  "ParseVideoInformation =
     mseq (SkipBytes 24)
    (mbind ReadU16 (\<lambda>w.
     mseq (mmod (\<lambda>s. s\<lparr>codecInfo := (codecInfo s)\<lparr>mInfo := (w, snd (mInfo (codecInfo s)))\<rparr>\<rparr>))
    (mbind ReadU16 (\<lambda>h.
     mseq (mmod (\<lambda>s. s\<lparr>codecInfo := (codecInfo s)\<lparr>mInfo := (fst (mInfo (codecInfo s)), h)\<rparr>\<rparr>))
    (mseq (SkipBytes 48)
    (mbind ReadU16 (\<lambda>pad.
     throw_if (\<lambda>s. pad \<noteq> VIDEO_PREDEFINED_PADDING_MARKER) MP4_PARSE_ERROR_INVALID_PADDING)))))))"

definition ParseAudioInformation :: "unit mp4m" where
  "ParseAudioInformation =
     mseq (SkipBytes 16)
    (mbind ReadU16 (\<lambda>c.
     mseq (mmod (\<lambda>s. s\<lparr>codecInfo := (codecInfo s)\<lparr>mInfo := (c, snd (mInfo (codecInfo s)))\<rparr>\<rparr>))
    (mseq (SkipBytes 6)
    (mbind ReadU16 (\<lambda>r.
     mseq (mmod (\<lambda>s. s\<lparr>codecInfo := (codecInfo s)\<lparr>mInfo := (fst (mInfo (codecInfo s)), r)\<rparr>\<rparr>))
     (SkipBytes 2))))))"

text \<open>Whether a FourCC is one of the labels of a \<open>switch\<close>.\<close>

definition one_of :: "u32 \<Rightarrow> string list \<Rightarrow> bool" where
  "one_of type labels \<longleftrightarrow> list_ex (\<lambda>l. type = MultiChar_Constant l) labels"

definition ParseSampleDescriptionBox :: "(int \<Rightarrow> unit mp4m) \<Rightarrow> int \<Rightarrow> unit mp4m" where
  "ParseSampleDescriptionBox demux next =
     mseq ReadHeader
    (mbind ReadU32 (\<lambda>n.
     mseq (throw_if (\<lambda>s. n \<noteq> 1) MP4_PARSE_ERROR_UNSUPPORTED_SAMPLE_ENTRY_COUNT)
     (demux next)))"

definition ParseStreamFormatBox :: "(int \<Rightarrow> unit mp4m) \<Rightarrow> u32 \<Rightarrow> int \<Rightarrow> unit mp4m" where
  "ParseStreamFormatBox demux type next =
     mseq (mmod (\<lambda>s. s\<lparr>streamFormat := type\<rparr>))
    (mseq (if one_of type [''hev1'', ''avc1'', ''hvc1'', ''encv''] then
             mseq (mmod (\<lambda>s. s\<lparr>mMediaTypeName := ''video''\<rparr>)) ParseVideoInformation
           else if one_of type [''mp4a'', ''ec-3'', ''ac-4'', ''enca''] then
             mseq (mmod (\<lambda>s. s\<lparr>mMediaTypeName := ''audio''\<rparr>)) ParseAudioInformation
           else
             mseq (mmod (\<lambda>s. s\<lparr>mMediaTypeName := ''unknown''\<rparr>))
               (mthrow MP4_PARSE_ERROR_UNSUPPORTED_STREAM_FORMAT))
     (demux next))"

function ReadLen_loop :: "nat \<Rightarrow> u32 \<Rightarrow> u32 mp4m" where
  "ReadLen_loop bits rc =
     mbind (mget (\<lambda>s. ptr s < endPtr s)) (\<lambda>more.
     if \<not> more then mthrow MP4_PARSE_ERROR_DATA_BOUNDARY_MISMATCH
     else mbind NextByte (\<lambda>octet.
       if bits + 7 > 32 then mthrow MP4_PARSE_ERROR_VARIABLE_LENGTH_OVERFLOW
       else if and octet 0x80 = 0 then mret (push_bit 7 rc + ucast (and octet 0x7f))
       else ReadLen_loop (bits + 7) (push_bit 7 rc + ucast (and octet 0x7f))))"
  by pat_completeness auto
termination
  by (relation "measure (\<lambda>(bits, rc). 40 - bits)") auto

declare ReadLen_loop.simps [simp del]

definition ReadLen :: "u32 mp4m" where
  "ReadLen =
     mseq (throw_if (\<lambda>s. ptr s = 0 \<or> endPtr s = 0) MP4_PARSE_ERROR_DATA_BOUNDARY_MISMATCH)
     (ReadLen_loop 0 0)"

definition esds_descriptor :: "int \<Rightarrow> unit mp4m" where
  "esds_descriptor next =
     mbind NextByte (\<lambda>tag.
     mbind ReadLen (\<lambda>len.
     if tag = 0x03 then SkipBytes 3
     else if tag = 0x04 then SkipBytes 13
     else if tag = 0x05 then
       mbind (TakeBytes (\<lambda>_. next) (uint len)) (\<lambda>v.
       mmod (\<lambda>s. s\<lparr>codecInfo := (codecInfo s)\<lparr>mCodecData := v\<rparr>\<rparr>))
     else if tag = 0x06 then SkipBytes (uint len)
     else mthrow MP4_PARSE_ERROR_INVALID_ESDS_TAG))"

fun esds_loop :: "nat \<Rightarrow> int \<Rightarrow> unit mp4m" where
  "esds_loop 0 next = mfail OutOfFuel"
| "esds_loop (Suc k) next =
     mbind (mget (\<lambda>s. ptr s < next)) (\<lambda>more.
     if more then mseq (esds_descriptor next) (esds_loop k next) else mret ())"

text \<open>
  Every descriptor takes at least two bytes, so the distance to the end of the box bounds the number
  of iterations.
\<close>

definition ParseEsdsCodecConfigHelper :: "int \<Rightarrow> unit mp4m" where
  "ParseEsdsCodecConfigHelper next =
     mbind (mget (\<lambda>s. nat (next - ptr s))) (\<lambda>k.
     mseq (esds_loop (Suc k) next)
     (throw_if (\<lambda>s. ptr s \<noteq> next) MP4_PARSE_ERROR_DATA_BOUNDARY_MISMATCH))"

definition ParseCodecConfigurationBox :: "u32 \<Rightarrow> int \<Rightarrow> unit mp4m" where
  "ParseCodecConfigurationBox type next =
     mseq (mmod (\<lambda>s. s\<lparr>codecInfo := (codecInfo s)\<lparr>mCodecFormat := GetGstStreamOutputFormatFromFourCC type\<rparr>\<rparr>))
     (if type = MultiChar_Constant ''esds'' then
        mseq (SkipBytes 4) (ParseEsdsCodecConfigHelper next)
      else
        mbind (mget (\<lambda>s. pdiff next (ptr s))) (\<lambda>codecDataLen.
        mseq (if type \<noteq> MultiChar_Constant ''dec3'' then
                mbind (CopyBytes codecDataLen) (\<lambda>v.
                mmod (\<lambda>s. s\<lparr>codecInfo := (codecInfo s)\<lparr>mCodecData := v\<rparr>\<rparr>))
              else mret ())
        (SkipBytes codecDataLen)))"

section \<open>Metadata and sample groups\<close>

definition SetPtr :: "int \<Rightarrow> unit mp4m" where
  "SetPtr p = mmod (\<lambda>s. s\<lparr>ptr := p\<rparr>)"

definition ParseMetaBox :: "(int \<Rightarrow> unit mp4m) \<Rightarrow> int \<Rightarrow> unit mp4m" where
  "ParseMetaBox demux next =
     mbind (mget ptr) (\<lambda>savedPtr.
     if pdiff next savedPtr < 8 then SetPtr next
     else
       mbind ReadU32 (\<lambda>firstWord.
       mbind ReadU32 (\<lambda>secondWord.
       mseq (SetPtr savedPtr)
       (if secondWord = MultiChar_Constant ''hdlr'' then demux next
        else if firstWord = 0 then mseq (SkipBytes 4) (demux next)
        else SetPtr next))))"

definition ptrdiff :: "int \<Rightarrow> int \<Rightarrow> int" where
  "ptrdiff p q = (p - q + 2 ^ 63) mod 2 ^ 64 - 2 ^ 63"

definition sgpd_entry :: "int \<Rightarrow> u32 \<Rightarrow> unit mp4m" where
  "sgpd_entry next defaultLength =
     mbind (mget version) (\<lambda>v.
     mbind (if v = 1 \<and> defaultLength = 0 then ReadU32 else mret defaultLength) (\<lambda>entryLen.
     mseq (throw_if (\<lambda>s. uint entryLen > pdiff next (ptr s) mod 2 ^ 32) MP4_PARSE_ERROR_DATA_BOUNDARY_MISMATCH)
     (SkipBytes (uint entryLen))))"

definition ParseSampleGroupDescription :: "int \<Rightarrow> unit mp4m" where
  "ParseSampleGroupDescription next =
     mseq ReadHeader
    (mbind (mget version) (\<lambda>v.
     mseq (throw_if (\<lambda>s. ptrdiff next (ptr s) < 8 + (if v \<ge> 1 then 4 else 0) + (if v \<ge> 2 then 4 else 0))
             MP4_PARSE_ERROR_INVALID_BOX)
    (mbind ReadU32 (\<lambda>groupingType.
     mbind (if v \<ge> 1 then ReadU32 else mret 0) (\<lambda>defaultLength.
     mbind (if v \<ge> 2 then ReadU32 else mret 0) (\<lambda>_.
     mbind ReadU32 (\<lambda>entryCount.
     mseq (repeat_read (sgpd_entry next defaultLength) (unat entryCount))
     (if v = 0 then SetPtr next else mret ()))))))))"

definition ParseSampleToGroup :: "int \<Rightarrow> unit mp4m" where
  "ParseSampleToGroup next =
     mseq ReadHeader
    (mbind (mget version) (\<lambda>v.
     mseq (throw_if (\<lambda>s. ptrdiff next (ptr s) < (if v \<ge> 1 then 12 else 8)) MP4_PARSE_ERROR_INVALID_BOX)
    (mbind ReadU32 (\<lambda>groupingType.
     mbind (if v = 1 then ReadU32 else mret 0) (\<lambda>_.
     mbind ReadU32 (\<lambda>entryCount.
     mseq (throw_if (\<lambda>s. uint entryCount * 8 > pdiff next (ptr s)) MP4_PARSE_ERROR_DATA_BOUNDARY_MISMATCH)
     (repeat_read (mbind ReadU32 (\<lambda>_. ReadU32)) (unat entryCount))))))))"

end
