(* ===== verification/Mp4_Demux.thy ===== *)
theory Mp4_Demux
  imports Mp4_Parsers
begin

text \<open>
  The box loop of the MP4 demultiplexer (\<open>Mp4Demux::DemuxHelper\<close>), the entry points \<open>Parse\<close> and
  \<open>ParseOrThrow\<close>, the accessors and the performance metrics (\<open>src/mp4demux/MP4Demux.cpp\<close> and the
  \<open>MetricStats\<close> of \<open>MP4Demux.h\<close>). \<open>DemuxHelper\<close> calls itself for nested boxes and loops over
  siblings; both spend one unit of fuel, and \<open>Mp4_Checked\<close> shows how much is enough. The clock is an
  argument.
\<close>

section \<open>The box loop\<close>

text \<open>The labels of the \<open>switch\<close>es, evaluated once.\<close>

lemma fourcc_values [code_unfold]:
  "MultiChar_Constant ''free'' = 0x66726565" "MultiChar_Constant ''skip'' = 0x736b6970"
  "MultiChar_Constant ''hev1'' = 0x68657631" "MultiChar_Constant ''hvc1'' = 0x68766331"
  "MultiChar_Constant ''avc1'' = 0x61766331" "MultiChar_Constant ''mp4a'' = 0x6d703461"
  "MultiChar_Constant ''ec-3'' = 0x65632d33" "MultiChar_Constant ''ac-4'' = 0x61632d34"
  "MultiChar_Constant ''enca'' = 0x656e6361" "MultiChar_Constant ''encv'' = 0x656e6376"
  "MultiChar_Constant ''hvcC'' = 0x68766343" "MultiChar_Constant ''dac4'' = 0x64616334"
  "MultiChar_Constant ''dec3'' = 0x64656333" "MultiChar_Constant ''avcC'' = 0x61766343"
  "MultiChar_Constant ''esds'' = 0x65736473" "MultiChar_Constant ''pssh'' = 0x70737368"
  "MultiChar_Constant ''saio'' = 0x7361696f" "MultiChar_Constant ''saiz'' = 0x7361697a"
  "MultiChar_Constant ''senc'' = 0x73656e63" "MultiChar_Constant ''tfhd'' = 0x74666864"
  "MultiChar_Constant ''trun'' = 0x7472756e" "MultiChar_Constant ''tfdt'' = 0x74666474"
  "MultiChar_Constant ''mvhd'' = 0x6d766864" "MultiChar_Constant ''trex'' = 0x74726578"
  "MultiChar_Constant ''tkhd'' = 0x746b6864" "MultiChar_Constant ''mdhd'' = 0x6d646864"
  "MultiChar_Constant ''stsd'' = 0x73747364" "MultiChar_Constant ''schm'' = 0x7363686d"
  "MultiChar_Constant ''frma'' = 0x66726d61" "MultiChar_Constant ''tenc'' = 0x74656e63"
  "MultiChar_Constant ''moof'' = 0x6d6f6f66" "MultiChar_Constant ''schi'' = 0x73636869"
  "MultiChar_Constant ''traf'' = 0x74726166" "MultiChar_Constant ''moov'' = 0x6d6f6f76"
  "MultiChar_Constant ''trak'' = 0x7472616b" "MultiChar_Constant ''minf'' = 0x6d696e66"
  "MultiChar_Constant ''dinf'' = 0x64696e66" "MultiChar_Constant ''mvex'' = 0x6d766578"
  "MultiChar_Constant ''mdia'' = 0x6d646961" "MultiChar_Constant ''stbl'' = 0x7374626c"
  "MultiChar_Constant ''sinf'' = 0x73696e66" "MultiChar_Constant ''meta'' = 0x6d657461"
  "MultiChar_Constant ''mehd'' = 0x6d656864" "MultiChar_Constant ''mfhd'' = 0x6d666864"
  "MultiChar_Constant ''ftyp'' = 0x66747970" "MultiChar_Constant ''hdlr'' = 0x68646c72"
  "MultiChar_Constant ''ilst'' = 0x696c7374" "MultiChar_Constant ''keys'' = 0x6b657973"
  "MultiChar_Constant ''vmhd'' = 0x766d6864" "MultiChar_Constant ''smhd'' = 0x736d6864"
  "MultiChar_Constant ''dref'' = 0x64726566" "MultiChar_Constant ''stts'' = 0x73747473"
  "MultiChar_Constant ''stsc'' = 0x73747363" "MultiChar_Constant ''stsz'' = 0x7374737a"
  "MultiChar_Constant ''stco'' = 0x7374636f" "MultiChar_Constant ''stss'' = 0x73747373"
  "MultiChar_Constant ''prft'' = 0x70726674" "MultiChar_Constant ''edts'' = 0x65647473"
  "MultiChar_Constant ''fiel'' = 0x6669656c" "MultiChar_Constant ''colr'' = 0x636f6c72"
  "MultiChar_Constant ''pasp'' = 0x70617370" "MultiChar_Constant ''btrt'' = 0x62747274"
  "MultiChar_Constant ''styp'' = 0x73747970" "MultiChar_Constant ''sidx'' = 0x73696478"
  "MultiChar_Constant ''udta'' = 0x75647461" "MultiChar_Constant ''sgpd'' = 0x73677064"
  "MultiChar_Constant ''sbgp'' = 0x73626770" "MultiChar_Constant ''mdat'' = 0x6d646174"
  "MultiChar_Constant ''cenc'' = 0x63656e63" "MultiChar_Constant ''cbcs'' = 0x63626373"
  by (simp_all add: MultiChar_Constant_def)

lemma one_of_unfold [code_unfold]:
  "one_of type [] = False" "one_of type (l # ls) = (type = MultiChar_Constant l \<or> one_of type ls)"
  by (simp_all add: one_of_def)

definition ReadBoxHeader :: "int \<Rightarrow> (u32 \<times> int) mp4m" where
  "ReadBoxHeader fin =
     mbind ReadU32 (\<lambda>sz.
     mbind ReadU32 (\<lambda>type.
     if sz = 0 then mret (type, fin)
     else
       mbind (if sz = 1 then
                mbind ReadU64 (\<lambda>large.
                if large < 16 then mthrow MP4_PARSE_ERROR_INVALID_BOX else mret (uint large - 16))
              else if sz \<ge> 8 then mret (uint sz - 8)
              else mthrow MP4_PARSE_ERROR_INVALID_BOX) (\<lambda>size.
       mbind (mget ptr) (\<lambda>p.
       if size > pdiff fin p then mthrow MP4_PARSE_ERROR_DATA_BOUNDARY_MISMATCH
       else mret (type, padd p size)))))"

definition StartFragment :: "unit mp4m" where
  "StartFragment =
     mmod (\<lambda>s. s\<lparr>moofPtr := padd (ptr s) (- 8), sampleOffset := length (samples s),
                 gotAuxiliaryInformationOffset := False, cencAuxInfoSizes := [],
                 sencPresent := False, mSampleInfo := []\<rparr>)"

definition ParseMovieFragment :: "(int \<Rightarrow> unit mp4m) \<Rightarrow> int \<Rightarrow> unit mp4m" where
  "ParseMovieFragment demux next =
     mseq StartFragment
    (mseq (demux next)
    (mbind (mget (\<lambda>s. \<not> sencPresent s \<and> gotAuxiliaryInformationOffset s)) (\<lambda>aux.
     if aux then ProcessAuxiliaryInformation else mret ())))"

definition ParseMovieData :: "int \<Rightarrow> unit mp4m" where
  "ParseMovieData next =
     mseq (mmod (\<lambda>s. s\<lparr>mdatStart := ptr s, mdatEnd := next\<rparr>))
    (mseq ProcessSamples
     (SetPtr next))"

definition DispatchBox :: "(int \<Rightarrow> unit mp4m) \<Rightarrow> u32 \<Rightarrow> int \<Rightarrow> unit mp4m" where
  "DispatchBox demux type next =
    (if one_of type [''free'', ''skip''] then SetPtr next
     else if one_of type [''hev1'', ''hvc1'', ''avc1'', ''mp4a'', ''ec-3'', ''ac-4'', ''enca'', ''encv'']
       then ParseStreamFormatBox demux type next
     else if one_of type [''hvcC'', ''dac4'', ''dec3'', ''avcC'', ''esds'']
       then ParseCodecConfigurationBox type next
     else if one_of type [''pssh''] then ParseProtectionSystemSpecificHeaderBox next
     else if one_of type [''saio''] then ParseSampleAuxiliaryInformationOffsets
     else if one_of type [''saiz''] then ParseSampleAuxiliaryInformationSizes
     else if one_of type [''senc''] then ParseSampleEncryption
     else if one_of type [''tfhd''] then ParseTrackFragmentHeader
     else if one_of type [''trun''] then ParseTrackRun
     else if one_of type [''tfdt''] then ParseTrackFragmentDecodeTime
     else if one_of type [''mvhd''] then ParseMovieHeader
     else if one_of type [''trex''] then ParseTrackExtendsBox
     else if one_of type [''tkhd''] then ParseTrackHeader
     else if one_of type [''mdhd''] then ParseMediaHeader
     else if one_of type [''stsd''] then ParseSampleDescriptionBox demux next
     else if one_of type [''schm''] then ParseSchemeManagementBox
     else if one_of type [''frma''] then ParseOriginalFormat
     else if one_of type [''tenc''] then ParseTrackEncryptionBox
     else if one_of type [''moof''] then ParseMovieFragment demux next
     else if one_of type [''schi'', ''traf'', ''moov'', ''trak'', ''minf'', ''dinf'', ''mvex'', ''mdia'',
                          ''stbl'', ''sinf''] then demux next
     else if one_of type [''meta''] then ParseMetaBox demux next
     else if one_of type [''mehd'', ''mfhd'', ''ftyp'', ''hdlr'', ''ilst'', ''keys'', ''vmhd'', ''smhd'',
                          ''dref'', ''stts'', ''stsc'', ''stsz'', ''stco'', ''stss'', ''prft'', ''edts'',
                          ''fiel'', ''colr'', ''pasp'', ''btrt'', ''styp'', ''sidx'', ''udta'']
       then SetPtr next
     else if one_of type [''sgpd''] then ParseSampleGroupDescription next
     else if one_of type [''sbgp''] then ParseSampleToGroup next
     else if one_of type [''mdat''] then ParseMovieData next
     else SetPtr next)"

fun DemuxHelper :: "nat \<Rightarrow> int \<Rightarrow> unit mp4m" where
  "DemuxHelper 0 fin = mfail OutOfFuel"
| "DemuxHelper (Suc fuel) fin =
     mbind (mget (\<lambda>s. ptr s < fin)) (\<lambda>more.
     if more then
       mbind (ReadBoxHeader fin) (\<lambda>(type, next).
       mseq (DispatchBox (DemuxHelper fuel) type next)
      (mseq (throw_if (\<lambda>s. ptr s \<noteq> next) MP4_PARSE_ERROR_DATA_BOUNDARY_MISMATCH)
       (DemuxHelper fuel fin)))
     else mret ())"

section \<open>Metrics\<close>

definition MetricStats_Update :: "rat \<Rightarrow> MetricStats \<Rightarrow> MetricStats" where
  "MetricStats_Update v m =
     (let m = (if ms_count m = 0 then m\<lparr>ms_min := v, ms_max := v\<rparr>
               else let m = (if v < ms_min m then m\<lparr>ms_min := v\<rparr> else m) in
                    if v > ms_max m then m\<lparr>ms_max := v\<rparr> else m)
      in m\<lparr>ms_sum := ms_sum m + v, ms_count := ms_count m + 1\<rparr>)"

definition GetAverage :: "MetricStats \<Rightarrow> rat" where
  "GetAverage m = (if ms_count m > 0 then ms_sum m / of_nat (ms_count m) else 0)"

definition HasData :: "MetricStats \<Rightarrow> bool" where
  "HasData m \<longleftrightarrow> ms_count m > 0"

definition MetricStats_Reset :: "MetricStats \<Rightarrow> MetricStats" where
  "MetricStats_Reset m = m\<lparr>ms_count := 0, ms_sum := 0, ms_min := 0, ms_max := 0\<rparr>"

definition LogMetrics :: "int \<Rightarrow> Mp4Demux \<Rightarrow> Mp4Demux" where
  "LogMetrics now s =
     (if \<not> HasData (mDemuxTimeMs s) \<or> \<not> HasData (mFramesPerSecond s) then s
      else s\<lparr>mLastLogTime := now, mDemuxTimeMs := MetricStats_Reset (mDemuxTimeMs s),
             mFramesPerSecond := MetricStats_Reset (mFramesPerSecond s)\<rparr>)"

definition ShouldLogMetrics :: "int \<Rightarrow> Mp4Demux \<Rightarrow> bool" where
  "ShouldLogMetrics now s \<longleftrightarrow> now - mLastLogTime s \<ge> mLogIntervalSeconds s"

definition RecordDemuxMetrics :: "int \<Rightarrow> rat \<Rightarrow> rat \<Rightarrow> Mp4Demux \<Rightarrow> Mp4Demux" where
  "RecordDemuxMetrics now demuxTimeMs fps s =
     (let s = s\<lparr>mDemuxTimeMs := MetricStats_Update demuxTimeMs (mDemuxTimeMs s),
                mFramesPerSecond := MetricStats_Update fps (mFramesPerSecond s)\<rparr>
      in if ShouldLogMetrics now s then LogMetrics now s else s)"

text \<open>
  A sum that is infinite or not a number gives 0 frames per second: the quotient by infinity is 0,
  and not-a-number is not above 0.
\<close>

definition frames_per_second :: "AampMediaSample list \<Rightarrow> rat" where
  "frames_per_second xs =
     (case fold (\<lambda>a t. sec_add t (mDuration a)) xs (Some 0) of
        None \<Rightarrow> 0
      | Some d \<Rightarrow> if d > 0 then of_nat (length xs) / d else 0)"

section \<open>The entry points\<close>

definition ResetForSegment :: "int \<Rightarrow> u8 list \<Rightarrow> Mp4Demux \<Rightarrow> Mp4Demux" where
  "ResetForSegment base bs s =
     s\<lparr>mCurrentSegment := Some (base, bs), parseError := MP4_PARSE_OK, samples := [],
       cencAuxInfoSizes := [], protectionData := [], mSampleInfo := [],
       gotAuxiliaryInformationOffset := False, moofPtr := 0, endPtr := base + int (length bs),
       mdatStart := 0, mdatEnd := 0, ptr := base\<rparr>"

definition ForceEncrypted :: "Mp4Demux \<Rightarrow> Mp4Demux" where
  "ForceEncrypted s =
     (if handledEncryptedSamples s \<and> \<not> mCodecIsEncrypted (codecInfo s)
      then s\<lparr>codecInfo := (codecInfo s)\<lparr>mCodecIsEncrypted := True\<rparr>\<rparr> else s)"

definition RecordSegment :: "int \<Rightarrow> rat \<Rightarrow> Mp4Demux \<Rightarrow> Mp4Demux" where
  "RecordSegment now demuxTimeMs s =
     (if samples s \<noteq> [] then RecordDemuxMetrics now demuxTimeMs (frames_per_second (samples s)) s else s)"

text \<open>
  \<open>Parse\<close> returns its Boolean and the object, or the outcome that is not an exception: a read outside
  the segment, or a run longer than the fuel. \<open>segment\<close> is the shared pointer to the buffer, with the
  address of the buffer's bytes; \<open>now\<close> and \<open>demuxTimeMs\<close> come from the clock.
\<close>

definition Parse :: "nat \<Rightarrow> int \<Rightarrow> rat \<Rightarrow> (int \<times> u8 list) option \<Rightarrow> Mp4Demux \<Rightarrow> mp4_exn + bool \<times> Mp4Demux" where
  "Parse fuel now demuxTimeMs segment s =
     (case segment of
        None \<Rightarrow> Inr (False, setParseError MP4_PARSE_ERROR_INVALID_INPUT s)
      | Some (base, bs) \<Rightarrow>
          if bs = [] then Inr (False, setParseError MP4_PARSE_ERROR_INVALID_INPUT s)
          else case DemuxHelper fuel (base + int (length bs)) (ResetForSegment base bs s) of
            Inr (_, t) \<Rightarrow>
              Inr (True, (RecordSegment now demuxTimeMs (ForceEncrypted t))\<lparr>mCurrentSegment := None\<rparr>)
          | Inl (Mp4ParseException code, t) \<Rightarrow> Inr (False, (setParseError code t)\<lparr>mCurrentSegment := None\<rparr>)
          | Inl (StdException, t) \<Rightarrow>
              Inr (False, (setParseError MP4_PARSE_ERROR_INVALID_BOX t)\<lparr>mCurrentSegment := None\<rparr>)
          | Inl (e, t) \<Rightarrow> Inl e)"

definition ParseOrThrow :: "nat \<Rightarrow> int \<Rightarrow> rat \<Rightarrow> (int \<times> u8 list) option \<Rightarrow> Mp4Demux \<Rightarrow> mp4_exn \<times> Mp4Demux option + Mp4Demux" where
  "ParseOrThrow fuel now demuxTimeMs segment s =
     (case Parse fuel now demuxTimeMs segment s of
        Inl e \<Rightarrow> Inl (e, None)
      | Inr (ok, t) \<Rightarrow> if ok then Inr t else Inl (Mp4ParseException (parseError t), Some t))"

definition GetLastError :: "Mp4Demux \<Rightarrow> Mp4ParseError" where
  "GetLastError s = parseError s"

definition GetTimeScale :: "Mp4Demux \<Rightarrow> u32" where
  "GetTimeScale s = timeScale s"

text \<open>The getters that move a member out leave it as a moved-from object: an invalid format, an empty vector.\<close>

definition GetCodecInfo :: "Mp4Demux \<Rightarrow> MediaCodecInfo \<times> Mp4Demux" where
  "GetCodecInfo s = (codecInfo s, s\<lparr>codecInfo := mkMediaCodecInfo GST_FORMAT_INVALID\<rparr>)"

definition GetProtectionEvents :: "Mp4Demux \<Rightarrow> MediaProtectionInfo list \<times> Mp4Demux" where
  "GetProtectionEvents s = (protectionData s, s\<lparr>protectionData := []\<rparr>)"

definition GetSamples :: "Mp4Demux \<Rightarrow> AampMediaSample list \<times> Mp4Demux" where
  "GetSamples s = (samples s, s\<lparr>samples := []\<rparr>)"

end
