(* ===== verification/Mp4_Checked.thy ===== *)
theory Mp4_Checked
  imports Mp4_Demux
begin

text \<open>
  Memory safety and termination of the MP4 demultiplexer. The code bounds its reads by the end of the
  segment and a box's payload by the end of its container, but leaves three things unchecked: that a
  box header lies inside its container, that the bytes a \<open>saiz\<close> box lists lie inside the segment, and
  that the offset of a \<open>saio\<close> box does not wrap around to an address below the segment. \<open>CheckedDemux\<close>
  is the parser with these three checks added (\<open>Rejected\<close>): a reference definition, which is shown
  never to read outside the segment and to stop on every input, and with which the code's parser
  agrees on every segment the checks do not reject. Without them the code reads outside the segment
  and does not return on segments that are shown here too.
\<close>

section \<open>The checked parser\<close>

definition reject_if :: "(Mp4Demux \<Rightarrow> bool) \<Rightarrow> unit mp4m" where
  "reject_if c = (\<lambda>s. if c s then Inl (Rejected, s) else Inr ((), s))"

definition CheckedBoxHeader :: "int \<Rightarrow> (u32 \<times> int) mp4m" where
  "CheckedBoxHeader fin =
     mbind (ReadBoxHeader fin) (\<lambda>h. mseq (reject_if (\<lambda>s. fin < ptr s)) (mret h))"

definition CheckedSaiz :: "unit mp4m" where
  "CheckedSaiz =
     mseq ReadHeader
    (mseq AuxInfoType
    (mseq (reject_if (\<lambda>s. endPtr s \<le> ptr s))
    (mbind NextByte (\<lambda>defaultInfoSize.
     mbind ReadU32 (\<lambda>sampleCount.
     if defaultInfoSize \<noteq> 0 then
       mmod (\<lambda>s. s\<lparr>cencAuxInfoSizes := cencAuxInfoSizes s @ replicate (unat sampleCount) defaultInfoSize\<rparr>)
     else
       mseq (reject_if (\<lambda>s. endPtr s < ptr s + uint sampleCount))
      (mbind (mget ptr) (\<lambda>p.
       mseq (saiz_loop (unat sampleCount) p)
       (Advance (uint sampleCount)))))))))"

definition below_segment :: "Mp4Demux \<Rightarrow> int \<Rightarrow> bool" where
  "below_segment s p \<longleftrightarrow> (case mCurrentSegment s of None \<Rightarrow> True | Some (base, bs) \<Rightarrow> p < base)"

definition CheckedAuxiliaryInformation :: "unit mp4m" where
  "CheckedAuxiliaryInformation =
     mseq (reject_if (\<lambda>s. below_segment s (padd (moofPtr s) (uint (auxiliaryInformationOffset s)))))
     ProcessAuxiliaryInformation"

definition CheckedMovieFragment :: "(int \<Rightarrow> unit mp4m) \<Rightarrow> int \<Rightarrow> unit mp4m" where
  "CheckedMovieFragment demux next =
     mseq StartFragment
    (mseq (demux next)
    (mbind (mget (\<lambda>s. \<not> sencPresent s \<and> gotAuxiliaryInformationOffset s)) (\<lambda>aux.
     if aux then CheckedAuxiliaryInformation else mret ())))"

definition CheckedDispatch :: "(int \<Rightarrow> unit mp4m) \<Rightarrow> u32 \<Rightarrow> int \<Rightarrow> unit mp4m" where
  "CheckedDispatch demux type next =
     (if one_of type [''saiz''] then CheckedSaiz
      else if one_of type [''moof''] then CheckedMovieFragment demux next
      else DispatchBox demux type next)"

fun CheckedDemux :: "nat \<Rightarrow> int \<Rightarrow> unit mp4m" where
  "CheckedDemux 0 fin = mfail OutOfFuel"
| "CheckedDemux (Suc fuel) fin =
     mbind (mget (\<lambda>s. ptr s < fin)) (\<lambda>more.
     if more then
       mbind (CheckedBoxHeader fin) (\<lambda>(type, next).
       mseq (CheckedDispatch (CheckedDemux fuel) type next)
      (mseq (throw_if (\<lambda>s. ptr s \<noteq> next) MP4_PARSE_ERROR_DATA_BOUNDARY_MISMATCH)
       (CheckedDemux fuel fin)))
     else mret ())"

section \<open>The invariant of a parse\<close>

definition sample_inside :: "int \<Rightarrow> u8 list \<Rightarrow> AampMediaSample \<Rightarrow> bool" where
  "sample_inside b bs a \<longleftrightarrow>
     (case mData a of None \<Rightarrow> True | Some p \<Rightarrow> b \<le> p \<and> p + int (mDataSize a) \<le> b + int (length bs))"

definition parse_core :: "int \<Rightarrow> u8 list \<Rightarrow> Mp4Demux \<Rightarrow> bool" where
  "parse_core b bs s \<longleftrightarrow>
     0 < b \<and> b + int (length bs) < 2 ^ 63 \<and>
     mCurrentSegment s = Some (b, bs) \<and> endPtr s = b + int (length bs) \<and> parseError s = MP4_PARSE_OK \<and>
     list_all (sample_inside b bs) (samples s) \<and>
     list_all (\<lambda>p. sampleIdx p < length (samples s)) (mSampleInfo s) \<and>
     (mdatStart s = 0 \<and> mdatEnd s = 0 \<or>
      b \<le> mdatStart s \<and> mdatStart s \<le> mdatEnd s \<and> mdatEnd s \<le> b + int (length bs))"

definition parse_inv :: "int \<Rightarrow> u8 list \<Rightarrow> int \<Rightarrow> Mp4Demux \<Rightarrow> bool" where
  "parse_inv b bs lo s \<longleftrightarrow> parse_core b bs s \<and> b \<le> lo \<and> lo \<le> ptr s \<and> ptr s \<le> b + int (length bs)"

text \<open>The part of it the readers rely on: the pointer is inside the segment.\<close>

definition located :: "int \<Rightarrow> u8 list \<Rightarrow> Mp4Demux \<Rightarrow> bool" where
  "located b bs s \<longleftrightarrow>
     0 < b \<and> b + int (length bs) < 2 ^ 63 \<and> mCurrentSegment s = Some (b, bs) \<and>
     endPtr s = b + int (length bs) \<and> b \<le> ptr s \<and> ptr s \<le> b + int (length bs)"

lemma inv_located: "parse_inv b bs lo s \<Longrightarrow> located b bs s"
  by (simp add: parse_inv_def parse_core_def located_def)

definition benign :: "mp4_exn \<Rightarrow> bool" where
  "benign e \<longleftrightarrow> (case e of Mp4ParseException c \<Rightarrow> c \<noteq> MP4_PARSE_OK | Rejected \<Rightarrow> True | _ \<Rightarrow> False)"

lemma benign_simps [simp]:
  "benign (Mp4ParseException c) = (c \<noteq> MP4_PARSE_OK)" "benign Rejected"
  "\<not> benign OutOfBounds" "\<not> benign OutOfFuel" "\<not> benign StdException"
  by (simp_all add: benign_def)

definition fine :: "int \<Rightarrow> u8 list \<Rightarrow> (nat \<Rightarrow> bool) \<Rightarrow> int \<Rightarrow> mp4_exn \<times> Mp4Demux + 'a \<times> Mp4Demux \<Rightarrow> bool" where
  "fine b bs J lo r \<longleftrightarrow>
     (case r of Inl (e, t) \<Rightarrow> benign e \<and> parse_core b bs t
      | Inr (x, t) \<Rightarrow> parse_inv b bs lo t \<and> J (length (samples t)))"

text \<open>
  \<open>keeps b bs J m\<close>: started inside the segment, \<open>m\<close> ends with an exception or inside the segment,
  not before where it started, and the number of samples still satisfies \<open>J\<close>.
\<close>

definition keeps :: "int \<Rightarrow> u8 list \<Rightarrow> (nat \<Rightarrow> bool) \<Rightarrow> 'a mp4m \<Rightarrow> bool" where
  "keeps b bs J m \<longleftrightarrow>
     (\<forall>lo s. parse_inv b bs lo s \<and> J (length (samples s)) \<longrightarrow> fine b bs J lo (m s))"

named_theorems keeps_intros "the parsing steps that stay inside the segment"

lemma keepsI:
  "(\<And>lo s. parse_inv b bs lo s \<Longrightarrow> J (length (samples s)) \<Longrightarrow> fine b bs J lo (m s)) \<Longrightarrow> keeps b bs J m"
  by (simp add: keeps_def)

lemma keepsD: "keeps b bs J m \<Longrightarrow> parse_inv b bs lo s \<Longrightarrow> J (length (samples s)) \<Longrightarrow> fine b bs J lo (m s)"
  by (simp add: keeps_def)

lemma fine_Inr [simp]: "fine b bs J lo (Inr (x, t)) \<longleftrightarrow> parse_inv b bs lo t \<and> J (length (samples t))"
  and fine_Inl [simp]: "fine b bs J lo (Inl (e, t)) \<longleftrightarrow> benign e \<and> parse_core b bs t"
  by (simp_all add: fine_def)

lemma inv_core: "parse_inv b bs lo s \<Longrightarrow> parse_core b bs s"
  by (simp add: parse_inv_def)

lemma fine_bind:
  assumes "fine b bs J lo (m s)"
    and "\<And>x t. m s = Inr (x, t) \<Longrightarrow> parse_inv b bs lo t \<Longrightarrow> J (length (samples t)) \<Longrightarrow> fine b bs J' lo' (f x t)"
  shows "fine b bs J' lo' (mbind m f s)"
  using assms by (auto simp: mbind_def fine_def split: sum.splits)

lemma keeps_bind [keeps_intros]:
  "keeps b bs J m \<Longrightarrow> (\<And>x. keeps b bs J (f x)) \<Longrightarrow> keeps b bs J (mbind m f)"
  by (rule keepsI, rule fine_bind, erule (2) keepsD) (blast dest: keepsD)

lemma keeps_seq [keeps_intros]: "keeps b bs J m \<Longrightarrow> keeps b bs J k \<Longrightarrow> keeps b bs J (mseq m k)"
  unfolding mseq_def by (rule keeps_bind)

lemma keeps_ret [keeps_intros]: "keeps b bs J (mret x)"
  by (rule keepsI) (simp add: mret_def)

lemma keeps_get [keeps_intros]: "keeps b bs J (mget f)"
  by (rule keepsI) (simp add: mget_def)

lemma keeps_throw [keeps_intros]: "e \<noteq> MP4_PARSE_OK \<Longrightarrow> keeps b bs J (mthrow e)"
  by (rule keepsI) (simp add: mthrow_def mfail_def inv_core)

lemma keeps_throw_if [keeps_intros]: "e \<noteq> MP4_PARSE_OK \<Longrightarrow> keeps b bs J (throw_if c e)"
  by (rule keepsI) (simp add: throw_if_def mthrow_def mfail_def mret_def inv_core)

lemma keeps_reject [keeps_intros]: "keeps b bs J (reject_if c)"
  by (rule keepsI) (simp add: reject_if_def inv_core)

lemma keeps_if [keeps_intros]:
  "(c \<Longrightarrow> keeps b bs J m) \<Longrightarrow> (\<not> c \<Longrightarrow> keeps b bs J k) \<Longrightarrow> keeps b bs J (if c then m else k)"
  by simp

text \<open>A member update that leaves the pointers, the samples and the pending payloads alone.\<close>

definition quiet :: "(Mp4Demux \<Rightarrow> Mp4Demux) \<Rightarrow> bool" where
  "quiet f \<longleftrightarrow> (\<forall>s. mCurrentSegment (f s) = mCurrentSegment s \<and> endPtr (f s) = endPtr s \<and>
     parseError (f s) = parseError s \<and> samples (f s) = samples s \<and> mSampleInfo (f s) = mSampleInfo s \<and>
     mdatStart (f s) = mdatStart s \<and> mdatEnd (f s) = mdatEnd s \<and> ptr (f s) = ptr s)"

lemma keeps_mod [keeps_intros]: "quiet f \<Longrightarrow> keeps b bs J (mmod f)"
  by (rule keepsI) (auto simp: mmod_def quiet_def parse_inv_def parse_core_def)

text \<open>Running one step: a successful step, and the two outcomes of a check.\<close>

lemma mbind_run: "m s = Inr (x, t) \<Longrightarrow> mbind m f s = f x t"
  and mseq_run: "m' s = Inr ((), t) \<Longrightarrow> mseq m' k s = k t"
  by (simp_all add: mseq_def mbind_def)

lemma guard_run [simp]:
  "\<not> c s \<Longrightarrow> mseq (throw_if c e) k s = k s" "c s \<Longrightarrow> mseq (throw_if c e) k s = Inl (Mp4ParseException e, s)"
  "\<not> c s \<Longrightarrow> mseq (reject_if c) k s = k s" "c s \<Longrightarrow> mseq (reject_if c) k s = Inl (Rejected, s)"
  by (simp_all add: mseq_def mbind_def throw_if_def reject_if_def mret_def mthrow_def mfail_def)

lemma guard_if:
  "mseq (throw_if c e) k s = (if c s then Inl (Mp4ParseException e, s) else k s)"
  by simp

lemma pure_run [simp]:
  "mbind (mget g) f s = f (g s) s" "mseq (mmod h) k s = k (h s)" "mbind (mret y) f s = f y s"
  "mseq (mret ()) k s = k s"
  by (simp_all add: mseq_def mbind_def mget_def mmod_def mret_def)

lemma padd_small: "0 \<le> p + n \<Longrightarrow> p + n < 2 ^ 64 \<Longrightarrow> padd p n = p + n"
  by (simp add: padd_def)

lemma NextByte_ok:
  assumes "located b bs s" and "ptr s < b + int (length bs)"
  shows "NextByte s = Inr (bs ! nat (ptr s - b), s\<lparr>ptr := ptr s + 1\<rparr>)"
    and "located b bs (s\<lparr>ptr := ptr s + 1\<rparr>)"
proof -
  have b: "nat (ptr s - b) < length bs" "b \<le> ptr s" "0 < b" "b + int (length bs) < 2 ^ 63"
    using assms by (auto simp: located_def)
  then have "take 1 (drop (nat (ptr s - b)) bs) = [bs ! nat (ptr s - b)]"
    by (simp add: take_Suc_conv_app_nth drop_eq_Nil take_Suc hd_drop_conv_nth)
  with b assms show "NextByte s = Inr (bs ! nat (ptr s - b), s\<lparr>ptr := ptr s + 1\<rparr>)"
    by (simp add: NextByte_def mbind_def mseq_def mget_def Deref_def in_segment_def bytes_at_def
        Advance_def mmod_def mret_def padd_small located_def)
  show "located b bs (s\<lparr>ptr := ptr s + 1\<rparr>)"
    using assms by (simp add: located_def)
qed

lemma fine_NextByte:
  assumes "parse_inv b bs lo s" and "ptr s < b + int (length bs)"
  shows "NextByte s = Inr (bs ! nat (ptr s - b), s\<lparr>ptr := ptr s + 1\<rparr>)"
    and "parse_inv b bs lo (s\<lparr>ptr := ptr s + 1\<rparr>)"
  using NextByte_ok(1) [OF inv_located [OF assms(1)] assms(2)] assms
  by (simp_all add: parse_inv_def parse_core_def)

text \<open>The value of \<open>n\<close> bytes in big-endian order, as the loop of \<open>ReadBytes\<close> accumulates it.\<close>

definition be_value :: "u64 \<Rightarrow> u8 list \<Rightarrow> u64" where
  "be_value rc bs = foldl (\<lambda>rc b. push_bit 8 rc + ucast b) rc bs"

definition ahead :: "int \<Rightarrow> u8 list \<Rightarrow> Mp4Demux \<Rightarrow> u8 list" where
  "ahead b bs s = drop (nat (ptr s - b)) bs"

lemma parse_inv_adv:
  "parse_inv b bs lo s \<Longrightarrow> 0 \<le> n \<Longrightarrow> ptr s + n \<le> b + int (length bs) \<Longrightarrow> parse_inv b bs lo (s\<lparr>ptr := ptr s + n\<rparr>)"
  by (simp add: parse_inv_def parse_core_def)

lemma ReadBytes_loop_ok:
  assumes "located b bs s" and "ptr s + int i \<le> b + int (length bs)"
  shows "ReadBytes_loop i rc s =
    Inr (be_value rc (take i (ahead b bs s)), s\<lparr>ptr := ptr s + int i\<rparr>)"
  using assms
proof (induction i arbitrary: rc s)
  case 0
  then show ?case by (simp add: mret_def be_value_def)
next
  case (Suc i)
  let ?s = "s\<lparr>ptr := ptr s + 1\<rparr>"
  note nb = NextByte_ok [OF Suc.prems(1)]
  have lt: "ptr s < b + int (length bs)" and "b \<le> ptr s"
    using Suc.prems by (auto simp: located_def)
  then have "nat (ptr s - b) < length bs" and "nat (ptr s + 1 - b) = Suc (nat (ptr s - b))"
    by (auto simp: nat_less_iff Suc_nat_eq_nat_zadd1)
  then have "ahead b bs s = bs ! nat (ptr s - b) # ahead b bs ?s"
    by (simp add: ahead_def Cons_nth_drop_Suc)
  then show ?case
    using Suc.IH [OF nb(2) [OF lt]] Suc.prems(2) lt
    by (simp add: mbind_def nb(1) [OF lt] be_value_def add.commute add.left_commute)
qed

lemma ReadBytes_ok:
  assumes "located b bs s" and "0 < n" "n \<le> 8" and "ptr s + n \<le> b + int (length bs)"
  shows "ReadBytes n s = Inr (be_value 0 (take (nat n) (ahead b bs s)), s\<lparr>ptr := ptr s + n\<rparr>)"
proof -
  have "padd (ptr s) n = ptr s + n" and "ptr s \<noteq> 0" and "endPtr s = b + int (length bs)" "endPtr s \<noteq> 0"
    using assms by (auto simp: located_def padd_small)
  then show ?thesis
    using assms ReadBytes_loop_ok [OF assms(1), of "nat n" 0]
    by (simp add: ReadBytes_def mseq_def mbind_def throw_if_def mret_def)
qed

lemma ReadBytes_short:
  assumes "located b bs s" and "n \<le> 0 \<or> n > 8 \<or> ptr s + n > b + int (length bs)"
  shows "ReadBytes n s = Inl (Mp4ParseException MP4_PARSE_ERROR_DATA_BOUNDARY_MISMATCH, s)"
proof -
  have "0 < n \<Longrightarrow> n \<le> 8 \<Longrightarrow> padd (ptr s) n = ptr s + n" and "endPtr s = b + int (length bs)"
    using assms by (auto simp: located_def padd_small)
  then show ?thesis
    using assms by (auto simp: ReadBytes_def mseq_def mbind_def throw_if_def mthrow_def mfail_def)
qed

lemma keeps_ReadBytes [keeps_intros]: "keeps b bs J (ReadBytes n)"
proof (rule keepsI)
  fix lo s assume i: "parse_inv b bs lo s" and J: "J (length (samples s))"
  show "fine b bs J lo (ReadBytes n s)"
  proof (cases "n \<le> 0 \<or> n > 8 \<or> ptr s + n > b + int (length bs)")
    case True
    then show ?thesis by (simp add: ReadBytes_short [OF inv_located [OF i] True] inv_core [OF i])
  next
    case False
    then have "ReadBytes n s = Inr (be_value 0 (take (nat n) (ahead b bs s)), s\<lparr>ptr := ptr s + n\<rparr>)"
      by (intro ReadBytes_ok [OF inv_located [OF i]]) auto
    with False J show ?thesis by (simp add: parse_inv_adv [OF i])
  qed
qed

lemma keeps_reads [keeps_intros]:
  "keeps b bs J ReadU8" "keeps b bs J ReadU16" "keeps b bs J ReadU32" "keeps b bs J ReadI32" "keeps b bs J ReadU64"
  unfolding ReadU8_def ReadU16_def ReadU32_def ReadI32_def ReadU64_def by (intro keeps_intros)+

lemma SkipBytes_ok:
  assumes "located b bs s" and "0 \<le> n" and "ptr s + n \<le> b + int (length bs)"
  shows "SkipBytes n s = Inr ((), s\<lparr>ptr := ptr s + n\<rparr>)"
  using assms
  by (auto simp: SkipBytes_def mseq_def mbind_def throw_if_def mret_def Advance_def mmod_def
      located_def padd_small)

lemma keeps_SkipBytes [keeps_intros]:
  assumes "0 \<le> n" and "n < 2 ^ 63"
  shows "keeps b bs J (SkipBytes n)"
proof (rule keepsI)
  fix lo s assume i: "parse_inv b bs lo s" and J: "J (length (samples s))"
  show "fine b bs J lo (SkipBytes n s)"
  proof (cases "ptr s + n \<le> b + int (length bs)")
    case True
    then show ?thesis using i J assms by (simp add: SkipBytes_ok [OF inv_located [OF i]] parse_inv_adv)
  next
    case False
    then have "padd (ptr s) n > endPtr s"
      using i assms by (auto simp: parse_inv_def parse_core_def padd_small)
    then show ?thesis
      using i by (simp add: SkipBytes_def mseq_def mbind_def throw_if_def mthrow_def mfail_def inv_core)
  qed
qed

lemma keeps_ReadHeader [keeps_intros]: "keeps b bs J ReadHeader"
  unfolding ReadHeader_def mseq_def
proof (rule keepsI)
  fix lo s assume i: "parse_inv b bs lo s" and J: "J (length (samples s))"
  let ?k = "mbind NextByte (\<lambda>v. mbind (mmod (version_update (\<lambda>_. v)))
     (\<lambda>_. mbind (ReadBytes 3) (\<lambda>f. mmod (flags_update (\<lambda>_. ucast f)))))"
  show "fine b bs J lo (mbind (throw_if (\<lambda>s. ptr s = 0 \<or> endPtr s = 0 \<or> endPtr s < padd (ptr s) 1)
      MP4_PARSE_ERROR_DATA_BOUNDARY_MISMATCH) (\<lambda>_. ?k) s)"
  proof (cases "ptr s < b + int (length bs)")
    case True
    have "keeps b bs J (mbind (mmod (version_update (\<lambda>_. v)))
       (\<lambda>_. mbind (ReadBytes 3) (\<lambda>f. mmod (flags_update (\<lambda>_. ucast f)))))" for v
      by (intro keeps_intros) (simp_all add: quiet_def)
    from keepsD [OF this fine_NextByte(2) [OF i True]] J
    have k: "fine b bs J lo (?k s)"
      by (simp add: mbind_def fine_NextByte(1) [OF i True])
    have "padd (ptr s) 1 \<le> endPtr s" "ptr s \<noteq> 0" "endPtr s \<noteq> 0"
      using True i by (auto simp: parse_inv_def parse_core_def padd_small)
    with k show ?thesis by (simp add: mbind_def throw_if_def mret_def)
  next
    case False
    then have "padd (ptr s) 1 > endPtr s"
      using i by (auto simp: parse_inv_def parse_core_def padd_small)
    then show ?thesis using i by (simp add: mbind_def throw_if_def mthrow_def mfail_def inv_core)
  qed
qed

section \<open>Fields taken from the segment\<close>

lemma CopyBytes_ok:
  assumes "located b bs s" and "0 \<le> n" and "ptr s + n \<le> b + int (length bs)"
  shows "CopyBytes n s = Inr (take (nat n) (ahead b bs s), s)"
proof -
  have "n < 2 ^ 63" using assms by (auto simp: located_def)
  then show ?thesis
    using assms by (auto simp: CopyBytes_def Let_def in_segment_def bytes_at_def ahead_def
        located_def)
qed

lemma Advance_ok:
  assumes "located b bs s" and "0 \<le> n" and "ptr s + n \<le> b + int (length bs)"
  shows "Advance n s = Inr ((), s\<lparr>ptr := ptr s + n\<rparr>)"
  using assms by (simp add: Advance_def mmod_def located_def padd_small)

lemma take_ok:
  assumes "located b bs s" and "0 \<le> n" and "ptr s + n \<le> b + int (length bs)"
  shows "mbind (CopyBytes n) (\<lambda>v. mseq (Advance n) (mret v)) s =
     Inr (take (nat n) (ahead b bs s), s\<lparr>ptr := ptr s + n\<rparr>)"
  by (simp add: mbind_def mseq_def mret_def CopyBytes_ok [OF assms] Advance_ok [OF assms])

lemma TakeBytes_ok:
  assumes "located b bs s" and "0 \<le> n" and "ptr s + n \<le> bound s" and "bound s \<le> b + int (length bs)"
  shows "TakeBytes bound n s = Inr (take (nat n) (ahead b bs s), s\<lparr>ptr := ptr s + n\<rparr>)"
proof -
  have "padd (ptr s) n \<le> bound s"
    using assms by (auto simp: located_def padd_small)
  then show ?thesis
    using assms take_ok [OF assms(1,2)]
    by (simp add: TakeBytes_def mseq_def mbind_def throw_if_def mret_def)
qed

lemma keeps_TakeBytes:
  assumes "0 \<le> n" and "n < 2 ^ 63"
    and "\<And>s. parse_core b bs s \<Longrightarrow> bound s \<le> b + int (length bs)"
  shows "keeps b bs J (TakeBytes bound n)"
proof (rule keepsI)
  fix lo s assume i: "parse_inv b bs lo s" and J: "J (length (samples s))"
  have bd: "bound s \<le> b + int (length bs)" by (rule assms(3) [OF inv_core [OF i]])
  show "fine b bs J lo (TakeBytes bound n s)"
  proof (cases "ptr s + n \<le> bound s")
    case True
    then show ?thesis using TakeBytes_ok [where bound = bound, OF inv_located [OF i] assms(1) True bd] bd J assms(1)
      by (simp add: parse_inv_adv [OF i])
  next
    case False
    then have "padd (ptr s) n > bound s"
      using i assms(1,2) by (auto simp: parse_inv_def parse_core_def padd_small)
    then show ?thesis
      using i by (simp add: TakeBytes_def mseq_def mbind_def throw_if_def mthrow_def mfail_def inv_core)
  qed
qed

lemma keeps_TakeBytes_end [keeps_intros]:
  "0 \<le> n \<Longrightarrow> n < 2 ^ 63 \<Longrightarrow> keeps b bs J (TakeBytes endPtr n)"
  by (rule keeps_TakeBytes) (simp_all add: parse_core_def)

lemma pdiff_end: "located b bs s \<Longrightarrow> pdiff (endPtr s) (ptr s) = b + int (length bs) - ptr s"
  by (auto simp: pdiff_def located_def)

lemma TakeRemaining_ok:
  assumes "located b bs s" and "0 \<le> n" and "ptr s + n \<le> b + int (length bs)"
  shows "TakeRemaining n s = Inr (take (nat n) (ahead b bs s), s\<lparr>ptr := ptr s + n\<rparr>)"
  using take_ok [OF assms] assms
  by (simp add: TakeRemaining_def mseq_def mbind_def throw_if_def mret_def pdiff_end [OF assms(1)])

lemma keeps_Remaining [keeps_intros]:
  assumes "0 \<le> n"
  shows "keeps b bs J (TakeRemaining n)" "keeps b bs J (SkipRemaining n)"
proof -
  have "fine b bs J lo (TakeRemaining n s) \<and> fine b bs J lo (SkipRemaining n s)"
    if i: "parse_inv b bs lo s" and J: "J (length (samples s))" for lo s
  proof (cases "ptr s + n \<le> b + int (length bs)")
    case True
    have "SkipRemaining n s = Inr ((), s\<lparr>ptr := ptr s + n\<rparr>)"
      using True by (simp add: SkipRemaining_def mseq_def mbind_def throw_if_def mret_def
          pdiff_end [OF inv_located [OF i]] Advance_ok [OF inv_located [OF i] assms True])
    then show ?thesis using TakeRemaining_ok [OF inv_located [OF i] assms True] True assms J by (simp add: parse_inv_adv [OF i])
  next
    case False
    then show ?thesis
      by (simp add: TakeRemaining_def SkipRemaining_def mseq_def mbind_def throw_if_def mthrow_def
          mfail_def pdiff_end [OF inv_located [OF i]] inv_core [OF i])
  qed
  then show "keeps b bs J (TakeRemaining n)" "keeps b bs J (SkipRemaining n)"
    by (simp_all add: keeps_def)
qed

section \<open>The box parsers stay inside the segment\<close>

lemma keeps_SchemeInfo [keeps_intros]: "keeps b bs J ParseProtectionSchemeInfo"
  unfolding ParseProtectionSchemeInfo_def Let_def by (intro keeps_intros) (simp_all add: quiet_def)

lemma keeps_AuxInfoType [keeps_intros]: "keeps b bs J AuxInfoType"
  unfolding AuxInfoType_def by (intro keeps_intros) simp_all

lemma keeps_repeat [keeps_intros]: "keeps b bs J m \<Longrightarrow> keeps b bs J (repeat_read m n)"
  by (induction n) (simp_all add: keeps_intros)

lemma uint_small [simp]: "uint (w :: u8) < 9223372036854775808" "uint (x :: u32) < 9223372036854775808"
  "16 * uint (x :: u32) < 9223372036854775808"
  using uint_lt2p [of w] uint_lt2p [of x] by simp_all

lemma time_size_small [simp]: "0 \<le> time_size v" "time_size v < 9223372036854775000"
  by (simp_all add: time_size_def)

lemma keeps_leaves [keeps_intros]:
  "keeps b bs J ParseOriginalFormat" "keeps b bs J ParseSchemeManagementBox"
  "keeps b bs J ParseSampleAuxiliaryInformationOffsets"
  "keeps b bs J ParseTrackFragmentHeader" "keeps b bs J ParseTrackFragmentDecodeTime"
  "keeps b bs J ParseTrackExtendsBox" "keeps b bs J ParseVideoInformation" "keeps b bs J ParseAudioInformation"
  unfolding ParseOriginalFormat_def ParseSchemeManagementBox_def
    ParseSampleAuxiliaryInformationOffsets_def ParseTrackFragmentHeader_def
    ParseTrackFragmentDecodeTime_def ParseTrackExtendsBox_def ParseVideoInformation_def ParseAudioInformation_def
  by ((intro keeps_intros; simp add: quiet_def)+)

lemma keeps_headers [keeps_intros]:
  "keeps b bs J ParseMovieHeader" "keeps b bs J ParseTrackHeader" "keeps b bs J ParseMediaHeader"
  unfolding ParseMovieHeader_def ParseTrackHeader_def ParseMediaHeader_def Let_def
  by ((intro keeps_intros; simp add: quiet_def time_size_def)+)

lemma keeps_tenc [keeps_intros]: "keeps b bs J ParseTrackEncryptionBox"
  unfolding ParseTrackEncryptionBox_def TENC_BOX_KEY_ID_SIZE_def
  by (intro keeps_intros) (auto simp: quiet_def)

lemma fine_weaken: "fine b bs J lo r \<Longrightarrow> (\<And>n. J n \<Longrightarrow> J' n) \<Longrightarrow> fine b bs J' lo r"
  by (auto simp: fine_def split: sum.splits)

text \<open>Appending a sample, and with it a pending payload that refers to it.\<close>

lemma fine_new_sample:
  assumes "parse_inv b bs lo s"
  shows "fine b bs (\<lambda>n. 0 < n) lo (mmod (\<lambda>s. s\<lparr>samples := samples s @ [emptySample]\<rparr>) s)"
  using assms
  by (auto simp: mmod_def parse_inv_def parse_core_def sample_inside_def emptySample_def list_all_iff
      intro: less_SucI)

lemma keeps_pending [keeps_intros]:
  "(\<And>n. J n \<Longrightarrow> 0 < n) \<Longrightarrow> (\<And>s. sampleIdx (f s) = length (samples s) - 1) \<Longrightarrow>
   keeps b bs J (mmod (\<lambda>s. s\<lparr>mSampleInfo := mSampleInfo s @ [f s]\<rparr>))"
  by (rule keepsI, drule meta_spec, drule (1) meta_mp) (auto simp: mmod_def parse_inv_def parse_core_def)

lemma keeps_case_prod [keeps_intros]:
  "(\<And>u v. x = (u, v) \<Longrightarrow> keeps b bs J (f u v)) \<Longrightarrow> keeps b bs J (case x of (u, v) \<Rightarrow> f u v)"
  by (cases x) simp

lemma keeps_ReadIf [keeps_intros]: "keeps b bs J rd \<Longrightarrow> keeps b bs J (ReadIf fl m rd d)"
  by (simp add: ReadIf_def keeps_ret)

lemma keeps_trun_sample [keeps_intros]: "keeps b bs (\<lambda>_. True) (trun_sample fl ff i dp dts)"
  unfolding trun_sample_def mseq_def
proof (rule keepsI, rule fine_bind [OF fine_new_sample], assumption)
  fix lo t
  let ?m = "mbind (mget defaultSampleSize) (\<lambda>dsize.
     mbind (mget defaultSampleDuration) (\<lambda>ddur.
     mbind (ReadIf fl TRUN_SAMPLE_DURATION_PRESENT ReadU32 ddur) (\<lambda>sampleDuration.
     mbind (ReadIf fl TRUN_SAMPLE_SIZE_PRESENT ReadU32 dsize) (\<lambda>len.
     mbind (mget defaultSampleFlags) (\<lambda>dflags.
     mbind (ReadIf fl TRUN_SAMPLE_FLAGS_PRESENT ReadU32
              (if i = 0 \<and> flag_set fl TRUN_FIRST_SAMPLE_FLAGS_PRESENT then ff else dflags))
       (\<lambda>effectiveSampleFlags.
     mbind (ReadIf fl TRUN_SAMPLE_COMPOSITION_TIME_OFFSET_PRESENT ReadI32 0) (\<lambda>cto.
     mbind (mmod (\<lambda>s. s\<lparr>mSampleInfo := mSampleInfo s @
        [\<lparr>dataPtr = dp, sampleLen = len, sampleIdx = length (samples s) - 1,
          pDts = ticks_to_seconds (uint dts) (timeScale s),
          pPts = ticks_to_seconds (uint (dts + word_of_int cto)) (timeScale s),
          pDuration = ticks_to_seconds (uint sampleDuration) (timeScale s),
          pIsKeyFrame = (and effectiveSampleFlags 0x00010000 = 0)\<rparr>]\<rparr>))
     (\<lambda>_. mret (len, sampleDuration)))))))))"
  have k: "keeps b bs (\<lambda>n. 0 < n) ?m"
    by (intro keeps_intros) simp_all
  assume "parse_inv b bs lo t" and "0 < length (samples t)"
  from keepsD [OF k this]
  show "fine b bs (\<lambda>_. True) lo (?m t)" by (rule fine_weaken) simp
qed

lemma keeps_trun_loop: "keeps b bs (\<lambda>_. True) (trun_loop fl ff k i dp dts)"
proof (induction k arbitrary: i dp dts)
  case 0
  show ?case by (simp add: keeps_ret)
next
  case (Suc k)
  show ?case
    unfolding trun_loop.simps by (intro keeps_intros Suc.IH)
qed

lemma keeps_trun [keeps_intros]: "keeps b bs (\<lambda>_. True) ParseTrackRun"
  unfolding ParseTrackRun_def by (intro keeps_intros keeps_trun_loop)

text \<open>\<open>samples[i]\<close> with an index below the number of samples.\<close>

lemma keeps_UpdateSample:
  assumes "\<And>a. sample_inside b bs a \<Longrightarrow> sample_inside b bs (f a)"
    and "\<And>n. J n \<Longrightarrow> i < n"
  shows "keeps b bs J (UpdateSample i f)"
proof (rule keepsI)
  fix lo s assume i: "parse_inv b bs lo s" and J: "J (length (samples s))"
  have "list_all (sample_inside b bs) ((samples s)[i := f (samples s ! i)])"
    using i assms(1) [of "samples s ! i"] assms(2) [OF J]
    by (auto simp: parse_inv_def parse_core_def list_all_iff dest!: set_update_subset_insert [THEN subsetD])
  then show "fine b bs J lo (UpdateSample i f s)"
    using i J assms(2) [OF J] by (simp add: UpdateSample_def parse_inv_def parse_core_def)
qed

lemma keeps_UpdateDrm [keeps_intros]:
  assumes "\<And>n. J n \<Longrightarrow> i < n"
  shows "keeps b bs J (UpdateDrm i f)"
proof (rule keepsI, unfold UpdateDrm_def)
  fix lo s assume "parse_inv b bs lo s" and "J (length (samples s))"
  moreover have "keeps b bs J (UpdateSample i (\<lambda>a. a\<lparr>mDrmMetadata := f s (mDrmMetadata a)\<rparr>))"
    by (rule keeps_UpdateSample) (simp_all add: sample_inside_def assms split: option.splits)
  ultimately show "fine b bs J lo (UpdateSample i (\<lambda>a. a\<lparr>mDrmMetadata := f s (mDrmMetadata a)\<rparr>) s)"
    by (rule keepsD [rotated])
qed

lemma keeps_SubSamples [keeps_intros]: "(\<And>n. J n \<Longrightarrow> i < n) \<Longrightarrow> keeps b bs J (ReadSubSamples i)"
  unfolding ReadSubSamples_def by (intro keeps_intros) (auto simp: MP4_SUBSAMPLE_ENTRY_SIZE_def)

lemma keeps_drm_samples [keeps_intros]:
  assumes "\<And>n. J n \<Longrightarrow> i < n"
  shows "keeps b bs J (senc_sample i)" "keeps b bs J (aux_sample i)"
  unfolding senc_sample_def aux_sample_def
  by (intro keeps_intros; use assms in simp)+

lemma keeps_drm_loops:
  assumes "\<And>n. J n \<Longrightarrow> i + k \<le> n"
  shows "keeps b bs J (senc_loop k i)" "keeps b bs J (aux_loop k i)"
  using assms
  by (induction k arbitrary: i) (force intro!: keeps_intros)+

text \<open>
  Where the number of samples is pinned down by a check, the loop over them stays in range: the check
  is the first step and the loop the rest.
\<close>

lemma fine_checked_loop:
  assumes "parse_inv b bs lo s" and "J (length (samples s))" and "e \<noteq> MP4_PARSE_OK"
    and "\<not> c s \<Longrightarrow> keeps b bs (\<lambda>n. n = length (samples s)) (k (f s))"
  shows "fine b bs J lo (mseq (throw_if c e) (mbind (mget f) k) s)"
proof (cases "c s")
  case True
  then show ?thesis using assms by (simp add: mseq_def mbind_def throw_if_def mthrow_def mfail_def inv_core)
next
  case False
  have "fine b bs (\<lambda>n. n = length (samples s)) lo (k (f s) s)"
    by (rule keepsD [OF assms(4) [OF False] assms(1)]) simp
  then have "fine b bs J lo (k (f s) s)"
    by (rule fine_weaken) (simp add: assms(2))
  with False show ?thesis by (simp add: mseq_def mbind_def throw_if_def mret_def mget_def)
qed

lemma keeps_senc [keeps_intros]: "keeps b bs J ParseSampleEncryption"
  unfolding ParseSampleEncryption_def
proof (rule keeps_seq, rule keeps_ReadHeader, rule keeps_bind, rule keeps_reads)
  fix sampleCount :: u32
  show "keeps b bs J (mseq (throw_if (\<lambda>s. length (samples s) \<noteq> sampleOffset s + unat sampleCount)
      MP4_PARSE_ERROR_SAMPLE_COUNT_MISMATCH) (mbind (mget sampleOffset)
      (\<lambda>off. mseq (senc_loop (unat sampleCount) off) (mmod (sencPresent_update (\<lambda>_. True))))))"
    by (rule keepsI, rule fine_checked_loop)
       (auto intro!: keeps_intros keeps_drm_loops simp: quiet_def)
qed

lemma keeps_aux:
  assumes i: "parse_inv b bs lo s" and J: "J (length (samples s))"
    and above: "b \<le> padd (moofPtr s) (uint (auxiliaryInformationOffset s))"
  shows "fine b bs J lo (ProcessAuxiliaryInformation s)"
proof (cases "cencAuxInfoSizes s \<noteq> [] \<and> gotAuxiliaryInformationOffset s")
  case False
  then show ?thesis using i J
    by (auto simp: ProcessAuxiliaryInformation_def mbind_def mseq_def mget_def mret_def mmod_def)
next
  case True
  let ?p = "padd (moofPtr s) (uint (auxiliaryInformationOffset s))"
  let ?s = "s\<lparr>ptr := ?p\<rparr>"
  let ?n = "length (cencAuxInfoSizes s)"
  let ?loop = "mseq (throw_if (\<lambda>s. length (samples s) \<noteq> sampleOffset s + ?n)
      MP4_PARSE_ERROR_SAMPLE_COUNT_MISMATCH) (mbind (mget sampleOffset) (\<lambda>off. aux_loop ?n off))"
  have run: "ProcessAuxiliaryInformation s = mseq (mseq
     (throw_if (\<lambda>s. ptr s \<ge> endPtr s) MP4_PARSE_ERROR_DATA_BOUNDARY_MISMATCH) ?loop)
     (mmod (\<lambda>t. t\<lparr>ptr := ptr s\<rparr>)) ?s"
    using True
    by (simp add: ProcessAuxiliaryInformation_def mbind_def mseq_def mget_def mmod_def)
  show ?thesis
  proof (cases "?p \<ge> b + int (length bs)")
    case True
    then show ?thesis using i
      by (simp add: run mseq_def mbind_def throw_if_def mthrow_def mfail_def parse_inv_def parse_core_def)
  next
    case False
    have i': "parse_inv b bs b ?s"
      using i False above by (simp add: parse_inv_def parse_core_def)
    have l: "fine b bs (\<lambda>n. n = length (samples s)) b (?loop ?s)"
      by (rule fine_checked_loop [OF i']) (auto intro!: keeps_drm_loops)
    have "fine b bs J lo (mseq ?loop (mmod (\<lambda>t. t\<lparr>ptr := ptr s\<rparr>)) ?s)"
      using l i J by (auto simp: fine_def mseq_def [of ?loop] mbind_def [of ?loop] mmod_def parse_inv_def
          parse_core_def split: sum.splits)
    then show ?thesis
      using False i by (simp add: run mseq_def mbind_def throw_if_def mret_def parse_inv_def parse_core_def)
  qed
qed

lemma keeps_checked_aux [keeps_intros]: "keeps b bs J CheckedAuxiliaryInformation"
proof (rule keepsI)
  fix lo s assume i: "parse_inv b bs lo s" and J: "J (length (samples s))"
  have seg: "mCurrentSegment s = Some (b, bs)" using i by (simp add: parse_inv_def parse_core_def)
  show "fine b bs J lo (CheckedAuxiliaryInformation s)"
    using keeps_aux [where J = J, OF i J] i
    by (simp add: CheckedAuxiliaryInformation_def mseq_def mbind_def reject_if_def below_segment_def
        seg inv_core not_less)
qed

lemma saiz_loop_ok:
  "parse_core b bs s \<Longrightarrow> b \<le> p \<Longrightarrow> p + int k \<le> b + int (length bs) \<Longrightarrow>
   saiz_loop k p s = Inr ((), s\<lparr>cencAuxInfoSizes := cencAuxInfoSizes s @ take k (drop (nat (p - b)) bs)\<rparr>)"
proof (induction k arbitrary: p s)
  case 0
  then show ?case by (simp add: mret_def)
next
  case (Suc k)
  let ?x = "bs ! nat (p - b)"
  let ?s = "s\<lparr>cencAuxInfoSizes := cencAuxInfoSizes s @ [?x]\<rparr>"
  have lt: "nat (p - b) < length bs" and s1: "nat (p + 1 - b) = Suc (nat (p - b))" and "padd p 1 = p + 1"
    using Suc.prems by (auto simp: nat_less_iff Suc_nat_eq_nat_zadd1 parse_core_def padd_small)
  then have d: "drop (nat (p - b)) bs = ?x # drop (nat (p + 1 - b)) bs"
    by (simp add: Cons_nth_drop_Suc)
  have "Deref p s = Inr (?x, s)"
    using Suc.prems by (simp add: Deref_def in_segment_def bytes_at_def d parse_core_def take_Suc)
  moreover have "saiz_loop k (p + 1) ?s =
      Inr ((), ?s\<lparr>cencAuxInfoSizes := cencAuxInfoSizes ?s @ take k (drop (nat (p + 1 - b)) bs)\<rparr>)"
    by (rule Suc.IH) (use Suc.prems in \<open>auto simp: parse_core_def\<close>)
  ultimately show ?case
    using \<open>padd p 1 = p + 1\<close> d by (simp add: mbind_def mseq_def mmod_def)
qed

lemma keeps_saiz [keeps_intros]: "keeps b bs J CheckedSaiz"
  unfolding CheckedSaiz_def
proof (rule keeps_seq, rule keeps_ReadHeader, rule keeps_seq, rule keeps_AuxInfoType)
  let ?rest = "\<lambda>defaultInfoSize. mbind ReadU32 (\<lambda>sampleCount.
     if defaultInfoSize \<noteq> 0 then
       mmod (\<lambda>s. s\<lparr>cencAuxInfoSizes := cencAuxInfoSizes s @ replicate (unat sampleCount) defaultInfoSize\<rparr>)
     else
       mseq (reject_if (\<lambda>s. endPtr s < ptr s + uint sampleCount))
      (mbind (mget ptr) (\<lambda>p.
       mseq (saiz_loop (unat sampleCount) p)
       (Advance (uint sampleCount)))))"
  have list: "keeps b bs J (mseq (reject_if (\<lambda>s. endPtr s < ptr s + uint n))
      (mbind (mget ptr) (\<lambda>p. mseq (saiz_loop (unat n) p) (Advance (uint n)))))" for n :: u32
  proof (rule keepsI)
    fix lo s assume i: "parse_inv b bs lo s" and J: "J (length (samples s))"
    have n: "int (unat n) = uint n" by simp
    show "fine b bs J lo (mseq (reject_if (\<lambda>s. endPtr s < ptr s + uint n))
        (mbind (mget ptr) (\<lambda>p. mseq (saiz_loop (unat n) p) (Advance (uint n)))) s)"
      using i J saiz_loop_ok [OF inv_core [OF i], of "ptr s" "unat n"] unfolding n
      by (auto simp: mseq_def mbind_def reject_if_def mget_def Advance_def mmod_def parse_inv_def
          parse_core_def padd_small intro: add_increasing2)
  qed
  have rest: "keeps b bs J (?rest d)" for d
    by (intro keeps_intros list) (simp add: quiet_def)
  show "keeps b bs J (mseq (reject_if (\<lambda>s. endPtr s \<le> ptr s)) (mbind NextByte ?rest))"
  proof (rule keepsI)
    fix lo s assume i: "parse_inv b bs lo s" and J: "J (length (samples s))"
    show "fine b bs J lo (mseq (reject_if (\<lambda>s. endPtr s \<le> ptr s)) (mbind NextByte ?rest) s)"
    proof (cases "ptr s < b + int (length bs)")
      case True
      then have "\<not> endPtr s \<le> ptr s" using i by (simp add: parse_inv_def parse_core_def)
      then show ?thesis
        using keepsD [OF rest fine_NextByte(2) [OF i True]] J
        by (simp add: mbind_run [where m = NextByte, OF fine_NextByte(1) [OF i True]])
    next
      case False
      then show ?thesis using i by (simp add: mseq_def mbind_def reject_if_def parse_inv_def parse_core_def)
    qed
  qed
qed

text \<open>A check against the end of the box, and the steps that rely on it.\<close>

lemma keeps_bound:
  assumes "0 \<le> n" "n < 2 ^ 63" and "next \<le> b + int (length bs)" and "e \<noteq> MP4_PARSE_OK"
    and "\<And>lo s. parse_inv b bs lo s \<Longrightarrow> J (length (samples s)) \<Longrightarrow> ptr s + n \<le> b + int (length bs) \<Longrightarrow>
           fine b bs J lo (k s)"
  shows "keeps b bs J (mseq (throw_if (\<lambda>s. padd (ptr s) n > next) e) k)"
proof (rule keepsI)
  fix lo s assume i: "parse_inv b bs lo s" and J: "J (length (samples s))"
  have "padd (ptr s) n = ptr s + n"
    using i assms(1,2) by (auto simp: parse_inv_def parse_core_def padd_small)
  then show "fine b bs J lo (mseq (throw_if (\<lambda>s. padd (ptr s) n > next) e) k s)"
    using assms(3-5) i J by (cases "ptr s + n > next") (simp_all add: inv_core)
qed

lemma quiet_inv: "quiet f \<Longrightarrow> parse_inv b bs lo s \<Longrightarrow> parse_inv b bs lo (f s)"
  by (simp add: quiet_def parse_inv_def parse_core_def)

lemma quiet_fields: "quiet f \<Longrightarrow> ptr (f s) = ptr s" "quiet f \<Longrightarrow> samples (f s) = samples s"
  by (simp_all add: quiet_def)

lemma keeps_pssh:
  assumes "next \<le> b + int (length bs)"
  shows "keeps b bs J (ParseProtectionSystemSpecificHeaderBox next)"
proof -
  have q: "quiet (\<lambda>s. s\<lparr>protectionData := f (protectionData s)\<rparr>)" for f
    by (simp add: quiet_def)
  let ?data = "\<lambda>dataSize. mseq (throw_if (\<lambda>s. padd (ptr s) (uint dataSize) > next)
         MP4_PARSE_ERROR_DATA_BOUNDARY_MISMATCH)
       (mbind (CopyBytes (uint dataSize)) (\<lambda>blob.
        mseq (mmod (\<lambda>s. s\<lparr>protectionData := set_last (\<lambda>p. p\<lparr>pssh := blob\<rparr>) (protectionData s)\<rparr>))
        (SkipBytes (uint dataSize))))"
  have data: "keeps b bs J (?data d)" for d :: u32
  proof (rule keeps_bound)
    fix lo s assume a: "parse_inv b bs lo s" "J (length (samples s))" "ptr s + uint d \<le> b + int (length bs)"
    show "fine b bs J lo (mbind (CopyBytes (uint d)) (\<lambda>blob.
        mseq (mmod (\<lambda>s. s\<lparr>protectionData := set_last (\<lambda>p. p\<lparr>pssh := blob\<rparr>) (protectionData s)\<rparr>))
        (SkipBytes (uint d))) s)"
      unfolding mbind_run [where m = "CopyBytes (uint d)", OF CopyBytes_ok [OF inv_located [OF a(1)] uint_ge_0 a(3)]]
      by (rule keepsD [where J = J, OF _ a(1,2)], intro keeps_intros) (simp_all add: q)
  qed (simp_all add: assms)
  have sized: "keeps b bs J (mseq (throw_if (\<lambda>s. padd (ptr s) 4 > next) MP4_PARSE_ERROR_DATA_BOUNDARY_MISMATCH)
      (mbind ReadU32 ?data))"
    by (intro keeps_intros data) simp
  have kids: "keeps b bs J (mseq (throw_if (\<lambda>s. padd (ptr s) k > next) MP4_PARSE_ERROR_DATA_BOUNDARY_MISMATCH)
      (Advance k))" if "0 \<le> k" "k < 2 ^ 63" for k
    by (rule keeps_bound) (use that assms in \<open>simp_all add: Advance_ok [OF inv_located] parse_inv_adv\<close>)
  have vers: "keeps b bs J (mbind (mget version) (\<lambda>v.
      if v = 1 then
        mseq (throw_if (\<lambda>s. padd (ptr s) 4 > next) MP4_PARSE_ERROR_DATA_BOUNDARY_MISMATCH)
       (mbind ReadU32 (\<lambda>kidCount.
        mseq (throw_if (\<lambda>s. padd (ptr s) (16 * uint kidCount) > next) MP4_PARSE_ERROR_DATA_BOUNDARY_MISMATCH)
        (Advance (16 * uint kidCount))))
      else mret ()))"
    by (rule keeps_bind [OF keeps_get], rule keeps_if,
        rule keeps_seq [OF keeps_throw_if keeps_bind [OF keeps_reads(3) kids]]) (simp_all add: keeps_ret)
  show ?thesis
    unfolding ParseProtectionSystemSpecificHeaderBox_def Let_def
  proof (rule keeps_seq, rule keeps_ReadHeader, rule keeps_bound)
    fix lo s assume a: "parse_inv b bs lo s" "J (length (samples s))"
      "ptr s + int PSSH_SYSTEM_ID_SIZE \<le> b + int (length bs)"
    let ?n = "int PSSH_SYSTEM_ID_SIZE"
    have step: "fine b bs J lo (mbind (CopyBytes ?n) (\<lambda>ident. mseq (mmod (\<lambda>s. s\<lparr>protectionData := g ident (protectionData s)\<rparr>))
        (mseq (Advance ?n) k)) t)"
      if k: "keeps b bs J k" and i: "parse_inv b bs lo t" and J: "J (length (samples t))"
        and le: "ptr t + ?n \<le> b + int (length bs)" for g k t
      using keepsD [OF k parse_inv_adv [OF quiet_inv [OF q i], of ?n]] le J
      by (simp add: mbind_run [where m = "CopyBytes ?n", OF CopyBytes_ok [OF inv_located [OF i] _ le]]
          mseq_run [where m' = "Advance ?n", OF Advance_ok [OF inv_located [OF quiet_inv [OF q i]]]])
    show "fine b bs J lo (mseq (mmod (\<lambda>s. s\<lparr>protectionData := protectionData s @ [\<lparr>systemID = [], pssh = []\<rparr>]\<rparr>))
       (mbind (CopyBytes ?n) (\<lambda>ident.
        mseq (mmod (\<lambda>s. s\<lparr>protectionData := set_last (\<lambda>p. p\<lparr>systemID := format_systemID ident\<rparr>) (protectionData s)\<rparr>))
       (mseq (Advance ?n)
       (mseq (mbind (mget version) (\<lambda>v.
          if v = 1 then
            mseq (throw_if (\<lambda>s. padd (ptr s) 4 > next) MP4_PARSE_ERROR_DATA_BOUNDARY_MISMATCH)
           (mbind ReadU32 (\<lambda>kidCount.
            mseq (throw_if (\<lambda>s. padd (ptr s) (16 * uint kidCount) > next) MP4_PARSE_ERROR_DATA_BOUNDARY_MISMATCH)
            (Advance (16 * uint kidCount))))
          else mret ()))
       (mseq (throw_if (\<lambda>s. padd (ptr s) 4 > next) MP4_PARSE_ERROR_DATA_BOUNDARY_MISMATCH)
       (mbind ReadU32 ?data)))))) s)"
      by (subst pure_run(2), rule step, rule keeps_seq [OF vers sized])
         (use a in \<open>simp_all add: parse_inv_def parse_core_def\<close>)
  qed (simp_all add: assms PSSH_SYSTEM_ID_SIZE_def)
qed

lemma fine_next_byte:
  assumes "parse_inv b bs lo s" and "J (length (samples s))" and "ptr s < b + int (length bs)"
    and "\<And>x. keeps b bs J (k x)"
  shows "fine b bs J (ptr s + 1) (mbind NextByte k s)"
proof -
  have "parse_inv b bs (ptr s + 1) (s\<lparr>ptr := ptr s + 1\<rparr>)"
    using fine_NextByte(2) [OF assms(1,3)] by (simp add: parse_inv_def)
  from keepsD [OF assms(4) this] show ?thesis
    using assms(2) by (simp add: mbind_run [where m = NextByte, OF fine_NextByte(1) [OF assms(1,3)]])
qed

lemma fine_lower: "fine b bs J lo r \<Longrightarrow> lo' \<le> lo \<Longrightarrow> b \<le> lo' \<Longrightarrow> fine b bs J lo' r"
  by (auto simp: fine_def parse_inv_def split: sum.splits)

lemma keeps_ReadLen_loop: "keeps b bs J (ReadLen_loop bits rc)"
proof (induction bits rc rule: ReadLen_loop.induct)
  case (1 bits rc)
  show ?case
    unfolding ReadLen_loop.simps [of bits rc]
  proof (rule keepsI)
    let ?k = "\<lambda>octet. if bits + 7 > 32 then mthrow MP4_PARSE_ERROR_VARIABLE_LENGTH_OVERFLOW
       else if and octet 0x80 = 0 then mret (push_bit 7 rc + ucast (and octet 0x7f))
       else ReadLen_loop (bits + 7) (push_bit 7 rc + ucast (and octet 0x7f))"
    fix lo s assume i: "parse_inv b bs lo s" and J: "J (length (samples s))"
    have k: "keeps b bs J (?k octet)" for octet :: u8
      using "1.IH" [of True octet] by (intro keeps_intros) simp_all
    show "fine b bs J lo (mbind (mget (\<lambda>s. ptr s < endPtr s)) (\<lambda>more.
        if \<not> more then mthrow MP4_PARSE_ERROR_DATA_BOUNDARY_MISMATCH else mbind NextByte ?k) s)"
    proof (cases "ptr s < b + int (length bs)")
      case True
      then have "ptr s < endPtr s" using i by (simp add: parse_inv_def parse_core_def)
      moreover have "fine b bs J lo (mbind NextByte ?k s)"
        by (rule fine_lower [OF fine_next_byte [where J = J, OF i J True k]]) (use i in \<open>auto simp: parse_inv_def\<close>)
      ultimately show ?thesis by simp
    next
      case False
      then show ?thesis using i by (simp add: mthrow_def mfail_def parse_inv_def parse_core_def)
    qed
  qed
qed

lemma keeps_ReadLen [keeps_intros]: "keeps b bs J ReadLen"
  unfolding ReadLen_def by (intro keeps_intros keeps_ReadLen_loop) simp

lemma fine_esds_descriptor:
  assumes "parse_inv b bs lo s" and "J (length (samples s))" and "ptr s < next" and "next \<le> b + int (length bs)"
  shows "fine b bs J (ptr s + 1) (esds_descriptor next s)"
  unfolding esds_descriptor_def
  by (rule fine_next_byte [where J = J, OF assms(1,2)])
     (use assms in \<open>auto intro!: keeps_intros keeps_TakeBytes simp: quiet_def\<close>)


lemma fine_esds_loop:
  assumes "next \<le> b + int (length bs)" and "parse_inv b bs lo s" and "J (length (samples s))"
    and "0 < k" and "next - ptr s < int k"
  shows "fine b bs J lo (esds_loop k next s)"
  using assms(2-)
proof (induction k arbitrary: s)
  case 0
  then show ?case by simp
next
  case (Suc k)
  show ?case
  proof (cases "ptr s < next")
    case True
    have "fine b bs J (ptr s + 1) (esds_descriptor next s)"
      by (rule fine_esds_descriptor [where J = J, OF Suc.prems(1,2) True assms(1)])
    then have "fine b bs J lo (mseq (esds_descriptor next) (esds_loop k next) s)"
      unfolding mseq_def
    proof (rule fine_bind)
      fix t assume "parse_inv b bs (ptr s + 1) t" and "J (length (samples t))"
      then show "fine b bs J lo (esds_loop k next t)"
        using Suc.prems True by (intro Suc.IH) (auto simp: parse_inv_def)
    qed
    with True show ?thesis by simp
  next
    case False
    then show ?thesis using Suc.prems by (simp add: mret_def)
  qed
qed

lemma keeps_esds:
  assumes "next \<le> b + int (length bs)"
  shows "keeps b bs J (ParseEsdsCodecConfigHelper next)"
proof (rule keepsI)
  fix lo s assume i: "parse_inv b bs lo s" and J: "J (length (samples s))"
  have "fine b bs J lo (esds_loop (Suc (nat (next - ptr s))) next s)"
    by (rule fine_esds_loop [where J = J, OF assms i J]) auto
  then show "fine b bs J lo (ParseEsdsCodecConfigHelper next s)"
    by (auto simp: ParseEsdsCodecConfigHelper_def mseq_def mbind_def throw_if_def mthrow_def mfail_def
        mget_def mret_def fine_def inv_core simp del: esds_loop.simps split: sum.splits)
qed

lemma fine_codec:
  assumes i: "parse_inv b bs lo s" and J: "J (length (samples s))"
    and "ptr s \<le> next" and le: "next \<le> b + int (length bs)"
  shows "fine b bs J lo (ParseCodecConfigurationBox type next s)"
proof -
  let ?f = "\<lambda>s. s\<lparr>codecInfo := (codecInfo s)\<lparr>mCodecFormat := GetGstStreamOutputFormatFromFourCC type\<rparr>\<rparr>"
  have i': "parse_inv b bs lo (?f s)" and p: "ptr (?f s) = ptr s"
    using i by (simp_all add: parse_inv_def parse_core_def)
  have d: "pdiff next (ptr s) = next - ptr s" and small: "next - ptr s < 2 ^ 63"
    using assms by (auto simp: pdiff_def parse_inv_def parse_core_def)
  have q: "quiet (\<lambda>s. s\<lparr>codecInfo := (codecInfo s)\<lparr>mCodecData := v\<rparr>\<rparr>)" for v
    by (simp add: quiet_def)
  have skip: "keeps b bs J (SkipBytes (next - ptr s))"
    by (rule keeps_SkipBytes) (use assms small in auto)
  have esds: "keeps b bs J (mseq (SkipBytes 4) (ParseEsdsCodecConfigHelper next))"
    by (intro keeps_seq keeps_SkipBytes keeps_esds le) simp_all
  have blob: "fine b bs J lo (mseq (mbind (CopyBytes (next - ptr s)) (\<lambda>v.
      mmod (\<lambda>s. s\<lparr>codecInfo := (codecInfo s)\<lparr>mCodecData := v\<rparr>\<rparr>))) (SkipBytes (next - ptr s)) (?f s))"
    using keepsD [where J = J, OF skip quiet_inv [OF q i']] J assms
      CopyBytes_ok [OF inv_located [OF i'], of "next - ptr s"]
    by (simp add: mseq_def mbind_def mmod_def)
  show ?thesis
  proof (cases "type = MultiChar_Constant ''esds''")
    case True
    then show ?thesis
      using keepsD [where J = J, OF esds i'] J by (simp add: ParseCodecConfigurationBox_def)
  next
    case False
    then show ?thesis
      using keepsD [where J = J, OF skip i'] blob J d p
      by (cases "type = MultiChar_Constant ''dec3''") (simp_all add: ParseCodecConfigurationBox_def)
  qed
qed

lemma keeps_sgpd_entry [keeps_intros]: "keeps b bs J (sgpd_entry next d)"
  unfolding sgpd_entry_def by (intro keeps_intros) simp_all


text \<open>
  The steps that move the pointer to the end of the box: they keep the lower bound when it is not
  beyond that end.
\<close>

definition keeps_from :: "int \<Rightarrow> int \<Rightarrow> u8 list \<Rightarrow> (nat \<Rightarrow> bool) \<Rightarrow> 'a mp4m \<Rightarrow> bool" where
  "keeps_from lo b bs J m \<longleftrightarrow>
     (\<forall>s. parse_inv b bs lo s \<and> J (length (samples s)) \<longrightarrow> fine b bs J lo (m s))"

lemma keeps_fromD:
  "keeps_from lo b bs J m \<Longrightarrow> parse_inv b bs lo s \<Longrightarrow> J (length (samples s)) \<Longrightarrow> fine b bs J lo (m s)"
  by (simp add: keeps_from_def)

lemma keeps_from_keeps: "keeps b bs J m \<Longrightarrow> keeps_from lo b bs J m"
  by (simp add: keeps_def keeps_from_def)

lemma keeps_from_bind: "keeps_from lo b bs J m \<Longrightarrow> (\<And>x. keeps_from lo b bs J (f x)) \<Longrightarrow> keeps_from lo b bs J (mbind m f)"
  unfolding keeps_from_def by (blast intro: fine_bind)

lemma keeps_from_seq: "keeps_from lo b bs J m \<Longrightarrow> keeps_from lo b bs J k \<Longrightarrow> keeps_from lo b bs J (mseq m k)"
  unfolding mseq_def by (rule keeps_from_bind)

lemma keeps_from_if:
  "(c \<Longrightarrow> keeps_from lo b bs J m) \<Longrightarrow> (\<not> c \<Longrightarrow> keeps_from lo b bs J k) \<Longrightarrow> keeps_from lo b bs J (if c then m else k)"
  by simp

lemma keeps_from_SetPtr: "lo \<le> p \<Longrightarrow> p \<le> b + int (length bs) \<Longrightarrow> keeps_from lo b bs J (SetPtr p)"
  by (auto simp: keeps_from_def SetPtr_def mmod_def parse_inv_def parse_core_def)

lemmas keeps_from_intros = keeps_from_bind keeps_from_seq keeps_from_if keeps_from_SetPtr

lemma keeps_from_sgpd:
  assumes "lo \<le> next" and "next \<le> b + int (length bs)"
  shows "keeps_from lo b bs J (ParseSampleGroupDescription next)"
  unfolding ParseSampleGroupDescription_def
  by (intro keeps_from_intros assms; rule keeps_from_keeps; intro keeps_intros; simp)

lemma keeps_sbgp: "keeps b bs J (ParseSampleToGroup next)"
  unfolding ParseSampleToGroup_def by (intro keeps_intros) simp_all

section \<open>Sample payloads\<close>

lemma keeps_process_pending:
  assumes "\<And>n. J n \<Longrightarrow> sampleIdx p < n"
  shows "keeps b bs J (process_pending p)"
proof (rule keepsI)
  fix lo s assume i: "parse_inv b bs lo s" and J: "J (length (samples s))"
  let ?u = "\<lambda>a. a\<lparr>mData := Some (dataPtr p), mDataSize := unat (sampleLen p), mDts := pDts p,
     mPts := pPts p, mDuration := pDuration p, mIsKeyFrame := pIsKeyFrame p\<rparr>"
  show "fine b bs J lo (process_pending p s)"
  proof (cases "dataPtr p < mdatStart s \<or> dataPtr p \<ge> mdatEnd s \<or> padd (dataPtr p) (uint (sampleLen p)) > mdatEnd s")
    case True
    then show ?thesis using i by (auto simp: process_pending_def inv_core guard_if simp del: guard_run)
  next
    case False
    moreover have "uint (sampleLen p) < 2 ^ 32" using uint_lt2p [of "sampleLen p"] by simp
    ultimately have "b \<le> dataPtr p" and "dataPtr p + uint (sampleLen p) \<le> b + int (length bs)"
      using i by (auto simp: parse_inv_def parse_core_def padd_small)
    then have "keeps b bs J (UpdateSample (sampleIdx p) ?u)"
      by (intro keeps_UpdateSample assms) (simp_all add: sample_inside_def)
    from keepsD [where J = J, OF this i J] False show ?thesis
      by (simp add: process_pending_def not_le not_less)
  qed
qed

lemma keeps_process_loop:
  "(\<And>n p. J n \<Longrightarrow> p \<in> set ps \<Longrightarrow> sampleIdx p < n) \<Longrightarrow> keeps b bs J (process_loop ps)"
  by (induction ps) (auto intro!: keeps_intros keeps_process_pending)

lemma keeps_ProcessSamples: "keeps b bs J ProcessSamples"
proof (rule keepsI)
  fix lo s assume i: "parse_inv b bs lo s" and J: "J (length (samples s))"
  have "keeps b bs (\<lambda>n. n = length (samples s)) (process_loop (mSampleInfo s))"
    by (rule keeps_process_loop) (use i in \<open>auto simp: parse_inv_def parse_core_def list_all_iff\<close>)
  from keepsD [OF this i]
  have "fine b bs (\<lambda>n. n = length (samples s)) lo (process_loop (mSampleInfo s) s)" by simp
  then have "fine b bs J lo (mseq (process_loop (mSampleInfo s)) (mmod (\<lambda>s. s\<lparr>mSampleInfo := []\<rparr>)) s)"
    using J by (auto simp: fine_def mseq_def mbind_def mmod_def parse_inv_def parse_core_def split: sum.splits)
  then show "fine b bs J lo (ProcessSamples s)"
    using i by (cases "mdatStart s = 0 \<or> mdatEnd s = 0") (auto simp: ProcessSamples_def inv_core)
qed

lemma fine_mdat:
  assumes "parse_inv b bs lo s" and "J (length (samples s))" and "ptr s \<le> next" and "next \<le> b + int (length bs)"
  shows "fine b bs J lo (ParseMovieData next s)"
proof -
  let ?s = "s\<lparr>mdatStart := ptr s, mdatEnd := next\<rparr>"
  have "parse_inv b bs lo ?s" using assms by (simp add: parse_inv_def parse_core_def)
  moreover have "keeps_from lo b bs J (mseq ProcessSamples (SetPtr next))"
    by (intro keeps_from_intros keeps_from_keeps [OF keeps_ProcessSamples])
       (use assms in \<open>auto simp: parse_inv_def\<close>)
  ultimately show ?thesis using assms(2) keeps_fromD [where J = J and s = ?s] by (simp add: ParseMovieData_def)
qed

section \<open>Safety and termination of the checked parser\<close>

abbreviation any_samples :: "nat \<Rightarrow> bool" where
  "any_samples \<equiv> \<lambda>_. True"

lemma fine_ReadU32:
  assumes "parse_inv b bs lo s"
  shows "fine b bs any_samples (ptr s + 4) (ReadU32 s)"
proof (cases "ptr s + 4 \<le> b + int (length bs)")
  case True
  then show ?thesis
    using ReadBytes_ok [OF inv_located [OF assms], of 4] assms by (auto simp: ReadU32_def mbind_def mret_def parse_inv_def parse_core_def)
next
  case False
  then show ?thesis using ReadBytes_short [OF inv_located [OF assms], of 4] by (simp add: ReadU32_def mbind_def inv_core [OF assms])
qed

definition header_fine :: "int \<Rightarrow> u8 list \<Rightarrow> int \<Rightarrow> int \<Rightarrow> mp4_exn \<times> Mp4Demux + (u32 \<times> int) \<times> Mp4Demux \<Rightarrow> bool" where
  "header_fine b bs lo fin r \<longleftrightarrow>
     (case r of Inl (e, t) \<Rightarrow> benign e \<and> parse_core b bs t
      | Inr ((type, next), t) \<Rightarrow> parse_inv b bs lo t \<and> ptr t \<le> next \<and> next \<le> fin)"

lemma header_fine_bind:
  assumes "fine b bs any_samples lo' (m s)"
    and "\<And>x t. parse_inv b bs lo' t \<Longrightarrow> header_fine b bs lo fin (f x t)"
  shows "header_fine b bs lo fin (mbind m f s)"
proof (cases "m s")
  case (Inl e)
  then show ?thesis using assms(1) by (cases e) (simp add: mbind_def header_fine_def)
next
  case (Inr r)
  then show ?thesis using assms by (cases r) (simp add: mbind_def)
qed

lemma mbind_assoc: "mbind (mbind m f) g = mbind m (\<lambda>x. mbind (f x) g)"
  by (rule ext) (auto simp: mbind_def split: sum.splits)

text \<open>
  The size step: the pointer is past the header, and a size that passes the check against the rest of
  the container keeps the box inside it, unless the header has left the container.
\<close>

lemma header_size:
  assumes "parse_inv b bs lo s" and "0 \<le> sz" and "fin \<le> b + int (length bs)"
  shows "header_fine b bs lo fin (mbind (mbind (mget ptr) (\<lambda>p.
       if sz > pdiff fin p then mthrow MP4_PARSE_ERROR_DATA_BOUNDARY_MISMATCH
       else mret (type, padd p sz))) (\<lambda>h. mseq (reject_if (\<lambda>s. fin < ptr s)) (mret h)) s)"
proof (cases "ptr s \<le> fin")
  case True
  then have "pdiff fin (ptr s) = fin - ptr s" and "sz \<le> fin - ptr s \<Longrightarrow> padd (ptr s) sz = ptr s + sz"
    using assms by (auto simp: pdiff_def padd_small parse_inv_def parse_core_def)
  then show ?thesis
    using True assms
    by (cases "sz \<le> fin - ptr s")
       (simp_all add: header_fine_def mbind_def [of "mbind _ _"] mthrow_def mfail_def mret_def inv_core)
next
  case False
  then show ?thesis
    using assms by (simp add: header_fine_def mbind_def [of "mbind _ _"] mthrow_def mfail_def mret_def inv_core)
qed

lemma header_throw:
  "parse_inv b bs lo s \<Longrightarrow> e \<noteq> MP4_PARSE_OK \<Longrightarrow> header_fine b bs lo fin (mbind (mthrow e) k s)"
  by (simp add: mbind_def mthrow_def mfail_def header_fine_def inv_core)

lemma header_large:
  assumes "parse_inv b bs lo s" and "fin \<le> b + int (length bs)"
  shows "header_fine b bs lo fin (mbind ReadU64 (\<lambda>large. mbind (if large < 16 then mthrow MP4_PARSE_ERROR_INVALID_BOX
       else mret (uint large - 16)) (\<lambda>sz. mbind (mbind (mget ptr) (\<lambda>p.
       if sz > pdiff fin p then mthrow MP4_PARSE_ERROR_DATA_BOUNDARY_MISMATCH
       else mret (type, padd p sz))) (\<lambda>h. mseq (reject_if (\<lambda>s. fin < ptr s)) (mret h)))) s)"
proof (rule header_fine_bind, rule keepsD [OF keeps_reads(5) assms(1)])
  fix large :: u64 and t assume i: "parse_inv b bs lo t"
  have "0 \<le> uint large - 16" if "\<not> large < 16"
    using that by (simp add: word_less_def)
  with i assms(2) show "header_fine b bs lo fin (mbind (if large < 16 then mthrow MP4_PARSE_ERROR_INVALID_BOX
       else mret (uint large - 16)) (\<lambda>sz. mbind (mbind (mget ptr) (\<lambda>p.
       if sz > pdiff fin p then mthrow MP4_PARSE_ERROR_DATA_BOUNDARY_MISMATCH
       else mret (type, padd p sz))) (\<lambda>h. mseq (reject_if (\<lambda>s. fin < ptr s)) (mret h))) t)"
    by (cases "large < 16") (simp_all add: header_throw header_size del: pure_run(1))
qed simp

lemma box_header_ok:
  assumes i: "parse_inv b bs lo s" and le: "fin \<le> b + int (length bs)"
  shows "header_fine b bs (ptr s + 8) fin (CheckedBoxHeader fin s)"
proof -
  let ?k = "\<lambda>h. mseq (reject_if (\<lambda>s. fin < ptr s)) (mret h)"
  let ?size = "\<lambda>type sz. mbind (mget ptr) (\<lambda>p.
       if sz > pdiff fin p then mthrow MP4_PARSE_ERROR_DATA_BOUNDARY_MISMATCH else mret (type, padd p sz))"
  show ?thesis
    unfolding CheckedBoxHeader_def ReadBoxHeader_def mbind_assoc [of ReadU32]
  proof (rule header_fine_bind [where m = ReadU32, OF fine_ReadU32 [OF i]], rule header_fine_bind [where m = ReadU32, OF fine_ReadU32], assumption)
    fix sz type :: u32 and t u
    assume "parse_inv b bs (ptr s + 4) t" and "parse_inv b bs (ptr t + 4) u"
    then have u: "parse_inv b bs (ptr s + 8) u"
      by (auto simp: parse_inv_def)
    have "0 \<le> uint sz - 8" if "8 \<le> sz"
      using that by (simp add: word_le_def)
    then show "header_fine b bs (ptr s + 8) fin (mbind (if sz = 0 then mret (type, fin)
       else mbind (if sz = 1 then mbind ReadU64 (\<lambda>large.
                if large < 16 then mthrow MP4_PARSE_ERROR_INVALID_BOX else mret (uint large - 16))
              else if sz \<ge> 8 then mret (uint sz - 8)
              else mthrow MP4_PARSE_ERROR_INVALID_BOX) (?size type)) ?k u)"
    proof -
      consider (zero) "sz = 0" | (one) "sz = 1" | (small) "sz \<noteq> 0" "sz \<noteq> 1" "8 \<le> sz"
        | (bad) "sz \<noteq> 0" "sz \<noteq> 1" "\<not> 8 \<le> sz" by blast
      then show ?thesis
      proof cases
        case zero
        then show ?thesis using u le
          by (cases "fin < ptr u") (simp_all add: header_fine_def inv_core, simp add: mret_def)
      next
        case one
        then show ?thesis using header_large [OF u le, of type] by (simp add: mbind_assoc del: pure_run(1))
      next
        case small
        then show ?thesis using header_size [OF u _ le, of "uint sz - 8" type] \<open>8 \<le> sz \<Longrightarrow> 0 \<le> uint sz - 8\<close>
          by (simp add: mbind_assoc del: pure_run(1))
      next
        case bad
        then show ?thesis by (simp add: mbind_assoc header_throw [OF u])
      qed
    qed
  qed
qed

lemma keeps_from_containers:
  assumes d: "keeps_from lo b bs J (demux next)"
  shows "keeps_from lo b bs J (ParseSampleDescriptionBox demux next)"
    and "keeps_from lo b bs J (ParseStreamFormatBox demux type next)"
  unfolding ParseSampleDescriptionBox_def ParseStreamFormatBox_def
  by ((intro keeps_from_seq keeps_from_bind d; rule keeps_from_keeps; intro keeps_intros; simp add: quiet_def)+)

lemma fine_meta:
  assumes d: "keeps_from lo b bs J (demux next)"
    and i: "parse_inv b bs lo s" and J: "J (length (samples s))"
    and "ptr s \<le> next" "next \<le> b + int (length bs)"
  shows "fine b bs J lo (ParseMetaBox demux next s)"
proof -
  have le: "lo \<le> ptr s" "ptr s \<le> b + int (length bs)" using i by (auto simp: parse_inv_def)
  have "keeps_from lo b bs J (if pdiff next (ptr s) < 8 then SetPtr next
     else mbind ReadU32 (\<lambda>firstWord. mbind ReadU32 (\<lambda>secondWord.
       mseq (SetPtr (ptr s))
       (if secondWord = MultiChar_Constant ''hdlr'' then demux next
        else if firstWord = 0 then mseq (SkipBytes 4) (demux next)
        else SetPtr next))))"
    using le assms(4,5)
    by (intro keeps_from_intros d keeps_from_keeps [OF keeps_reads(3)] keeps_from_keeps [OF keeps_SkipBytes]) auto
  from keeps_fromD [OF this i J] show ?thesis by (simp add: ParseMetaBox_def)
qed

lemma keeps_from_fragment:
  assumes d: "keeps_from lo b bs any_samples (demux next)"
  shows "keeps_from lo b bs any_samples (CheckedMovieFragment demux next)"
proof -
  have "keeps b bs any_samples StartFragment"
    by (rule keepsI) (simp add: StartFragment_def mmod_def parse_inv_def parse_core_def)
  then show ?thesis
    unfolding CheckedMovieFragment_def
    by (intro keeps_from_seq d keeps_from_keeps) (assumption | intro keeps_intros)+
qed

text \<open>
  One box: every parser stays inside the segment when the recursive call does, and the box lies
  inside the segment.
\<close>

lemma fine_dispatch:
  assumes d: "keeps_from lo b bs any_samples (demux next)"
    and i: "parse_inv b bs lo s" and "ptr s \<le> next" and le: "next \<le> b + int (length bs)"
  shows "fine b bs any_samples lo (CheckedDispatch demux type next s)"
proof -
  have set: "keeps_from lo b bs any_samples (SetPtr next)"
    by (rule keeps_from_SetPtr) (use assms in \<open>auto simp: parse_inv_def\<close>)
  have sgpd: "keeps_from lo b bs any_samples (ParseSampleGroupDescription next)"
    by (rule keeps_from_sgpd) (use assms in \<open>auto simp: parse_inv_def\<close>)
  note codec = fine_codec [where J = any_samples, OF i _ assms(3,4)]
    and mdat = fine_mdat [where J = any_samples, OF i _ assms(3,4)]
    and meta = fine_meta [where J = any_samples and demux = demux, OF d i _ assms(3,4)]
  note froms = d set sgpd keeps_from_containers [where demux = demux, OF d] keeps_from_fragment [where demux = demux, OF d]
  note all = keeps_leaves keeps_headers keeps_tenc keeps_trun keeps_senc keeps_saiz keeps_sbgp
    keeps_pssh [OF le]
  show ?thesis
    unfolding CheckedDispatch_def DispatchBox_def
    by (simp add: if_split [where P = "\<lambda>m. fine b bs any_samples lo (m s)"] keeps_fromD [OF _ i] froms
        keepsD [OF _ i] all codec mdat meta)
qed

lemma fine_CheckedDemux:
  assumes "fin \<le> b + int (length bs)" and "parse_inv b bs lo s" and "0 < k" and "fin - ptr s < 8 * int k"
  shows "fine b bs any_samples lo (CheckedDemux k fin s)"
  using assms
proof (induction k arbitrary: fin lo s)
  case 0
  then show ?case by simp
next
  case (Suc k)
  note i = Suc.prems(2)
  show ?case
  proof (cases "ptr s < fin")
    case False
    then show ?thesis using i by (simp add: mret_def)
  next
    case True
    have h: "header_fine b bs (ptr s + 8) fin (CheckedBoxHeader fin s)"
      by (rule box_header_ok [OF i Suc.prems(1)])
    show ?thesis
    proof (cases "CheckedBoxHeader fin s")
      case (Inl e)
      then show ?thesis using h True by (cases e) (simp add: header_fine_def mbind_def [of "CheckedBoxHeader _"])
    next
      case (Inr r)
      then obtain type nx t where r: "CheckedBoxHeader fin s = Inr ((type, nx), t)"
        by (metis prod.collapse)
      with h have t: "parse_inv b bs (ptr s + 8) t" "ptr t \<le> nx" "nx \<le> fin"
        by (simp_all add: header_fine_def)
      then have t': "parse_inv b bs (ptr t) t" and k: "0 < k" "nx - ptr t < 8 * int k" "fin - ptr t < 8 * int k"
        and lo: "b \<le> lo" "lo \<le> ptr t"
        using Suc.prems i by (auto simp: parse_inv_def)
      have ne: "nx \<le> b + int (length bs)" using t Suc.prems(1) by simp
      have d: "keeps_from (ptr t) b bs any_samples (CheckedDemux k nx)"
        unfolding keeps_from_def using k ne by (auto intro!: Suc.IH simp: parse_inv_def)
      have "fine b bs any_samples lo (mseq (CheckedDispatch (CheckedDemux k) type nx)
        (mseq (throw_if (\<lambda>s. ptr s \<noteq> nx) MP4_PARSE_ERROR_DATA_BOUNDARY_MISMATCH) (CheckedDemux k fin)) t)"
        unfolding mseq_def [of "CheckedDispatch _ _ _"]
      proof (rule fine_bind [where m = "CheckedDispatch (CheckedDemux k) type nx" and J = any_samples,
          OF fine_dispatch [where demux = "CheckedDemux k", OF d t' t(2) ne]])
        fix u assume u: "parse_inv b bs (ptr t) u"
        have u': "parse_inv b bs lo u" using u lo by (simp add: parse_inv_def)
        have "fine b bs any_samples lo (CheckedDemux k fin u)"
          by (rule Suc.IH [OF Suc.prems(1) u']) (use k u in \<open>auto simp: parse_inv_def\<close>)
        then show "fine b bs any_samples lo (mseq (throw_if (\<lambda>s. ptr s \<noteq> nx)
            MP4_PARSE_ERROR_DATA_BOUNDARY_MISMATCH) (CheckedDemux k fin) u)"
          by (simp add: guard_if inv_core [OF u] del: guard_run)
      qed
      with True show ?thesis by (simp add: mbind_run [where m = "CheckedBoxHeader fin", OF r])
    qed
  qed
qed

section \<open>The code's parser agrees with the checked one\<close>

text \<open>
  \<open>below x m m'\<close>: wherever \<open>m\<close> does not end with the outcome \<open>x\<close>, \<open>m'\<close> does the same as \<open>m\<close>. With
  \<open>Rejected\<close> it compares the checked parser with the code's, with \<open>OutOfFuel\<close> two amounts of fuel.
\<close>

definition below :: "mp4_exn \<Rightarrow> 'a mp4m \<Rightarrow> 'a mp4m \<Rightarrow> bool" where
  "below x m m' \<longleftrightarrow> (\<forall>s. (\<exists>t. m s = Inl (x, t)) \<or> m s = m' s)"

named_theorems below_intros "the steps that respect agreement"

lemma below_refl [below_intros]: "below x m m"
  by (simp add: below_def)

lemma below_bind [below_intros]:
  assumes "below x m m'" and "\<And>a. below x (f a) (f' a)"
  shows "below x (mbind m f) (mbind m' f')"
  unfolding below_def
proof
  fix s
  show "(\<exists>t. mbind m f s = Inl (x, t)) \<or> mbind m f s = mbind m' f' s"
  proof (cases "\<exists>t. m s = Inl (x, t)")
    case True
    then show ?thesis by (auto simp: mbind_def)
  next
    case False
    with assms(1) have "m s = m' s" by (auto simp: below_def)
    with assms(2) show ?thesis
      by (cases "m' s") (auto simp: mbind_def below_def split: prod.splits)
  qed
qed

lemma below_seq [below_intros]: "below x m m' \<Longrightarrow> below x k k' \<Longrightarrow> below x (mseq m k) (mseq m' k')"
  unfolding mseq_def by (rule below_bind)

lemma below_if [below_intros]:
  "(c \<Longrightarrow> below x m m') \<Longrightarrow> (\<not> c \<Longrightarrow> below x k k') \<Longrightarrow> below x (if c then m else k) (if c then m' else k')"
  by simp

lemma below_case_prod [below_intros]:
  "(\<And>u v. below x (f u v) (f' u v)) \<Longrightarrow> below x (case p of (u, v) \<Rightarrow> f u v) (case p of (u, v) \<Rightarrow> f' u v)"
  by (cases p) simp

lemma below_reject: "below Rejected m m' \<Longrightarrow> below Rejected (mseq (reject_if c) m) m'"
  unfolding below_def
proof
  fix s
  assume "\<forall>s. (\<exists>t. m s = Inl (Rejected, t)) \<or> m s = m' s"
  then show "(\<exists>t. mseq (reject_if c) m s = Inl (Rejected, t)) \<or> mseq (reject_if c) m s = m' s"
    by (cases "c s") simp_all
qed

lemma below_dispatch:
  assumes "\<And>n. below x (d n) (d' n)"
  shows "below x (DispatchBox d type next) (DispatchBox d' type next)"
proof -
  note d = assms [of "next"]
  have "below x (ParseSampleDescriptionBox d next) (ParseSampleDescriptionBox d' next)"
    "below x (ParseStreamFormatBox d type next) (ParseStreamFormatBox d' type next)"
    "below x (ParseMetaBox d next) (ParseMetaBox d' next)"
    "below x (ParseMovieFragment d next) (ParseMovieFragment d' next)"
    unfolding ParseSampleDescriptionBox_def ParseStreamFormatBox_def ParseMetaBox_def ParseMovieFragment_def
    by (intro below_intros d)+
  then show ?thesis
    unfolding DispatchBox_def by (intro below_if below_refl d)
qed

lemma DispatchBox_saiz: "DispatchBox d (MultiChar_Constant ''saiz'') next = ParseSampleAuxiliaryInformationSizes"
  and DispatchBox_moof: "DispatchBox d (MultiChar_Constant ''moof'') next = ParseMovieFragment d next"
  by (simp_all add: DispatchBox_def one_of_def MultiChar_Constant_def)

lemma below_saiz: "below Rejected CheckedSaiz ParseSampleAuxiliaryInformationSizes"
  unfolding CheckedSaiz_def ParseSampleAuxiliaryInformationSizes_def
  by (intro below_bind below_seq below_if below_refl below_reject)

lemma below_checked_dispatch:
  assumes "\<And>n. below Rejected (d n) (d' n)"
  shows "below Rejected (CheckedDispatch d type next) (DispatchBox d' type next)"
proof -
  have "below Rejected CheckedAuxiliaryInformation ProcessAuxiliaryInformation"
    unfolding CheckedAuxiliaryInformation_def by (intro below_reject below_refl)
  then have moof: "below Rejected (CheckedMovieFragment d next) (ParseMovieFragment d' next)"
    unfolding CheckedMovieFragment_def ParseMovieFragment_def by (intro below_intros assms)
  consider (saiz) "type = MultiChar_Constant ''saiz''" | (moof) "type = MultiChar_Constant ''moof''"
    | (other) "\<not> one_of type [''saiz'']" "\<not> one_of type [''moof'']"
    by (auto simp: one_of_def)
  then show ?thesis
  proof cases
    case saiz
    then show ?thesis by (simp add: CheckedDispatch_def one_of_def DispatchBox_saiz below_saiz)
  next
    case moof
    then show ?thesis using \<open>below Rejected (CheckedMovieFragment d next) (ParseMovieFragment d' next)\<close>
      unfolding moof DispatchBox_moof by (simp add: CheckedDispatch_def one_of_def MultiChar_Constant_def)
  next
    case other
    then show ?thesis by (simp add: CheckedDispatch_def below_dispatch [OF assms])
  qed
qed

lemma below_header: "below Rejected (CheckedBoxHeader fin) (ReadBoxHeader fin)"
proof -
  have "below Rejected (CheckedBoxHeader fin) (mbind (ReadBoxHeader fin) mret)"
    unfolding CheckedBoxHeader_def by (intro below_bind below_refl below_reject)
  moreover have "mbind m mret = m" for m :: "(u32 \<times> int) mp4m"
    by (rule ext) (auto simp: mbind_def mret_def split: sum.splits)
  ultimately show ?thesis by simp
qed

lemma checked_agrees: "below Rejected (CheckedDemux k fin) (DemuxHelper k fin)"
proof (induction k arbitrary: fin)
  case 0
  show ?case by (simp add: below_refl)
next
  case (Suc k)
  show ?case
    unfolding CheckedDemux.simps DemuxHelper.simps
    by (intro below_bind below_seq below_if below_refl below_case_prod below_header
        below_checked_dispatch Suc.IH)
qed

lemma fuel_agrees: "below OutOfFuel (DemuxHelper k fin) (DemuxHelper (k + j) fin)"
proof (induction k arbitrary: fin)
  case 0
  show ?case by (simp add: below_def mfail_def)
next
  case (Suc k)
  show ?case
    unfolding DemuxHelper.simps add_Suc
    by (intro below_bind below_seq below_if below_refl below_case_prod below_dispatch Suc.IH)
qed

lemma belowD: "below x m m' \<Longrightarrow> (\<And>t. m s \<noteq> Inl (x, t)) \<Longrightarrow> m' s = m s"
  unfolding below_def by metis

section \<open>Parsing a segment\<close>

text \<open>The fuel a segment needs: one unit for every eight bytes, the least a box header takes, and one more.\<close>

definition segment_fuel :: "u8 list \<Rightarrow> nat" where
  "segment_fuel bs = length bs div 8 + 1"

definition checks_pass :: "int \<Rightarrow> u8 list \<Rightarrow> Mp4Demux \<Rightarrow> bool" where
  "checks_pass base bs s \<longleftrightarrow>
     (case CheckedDemux (segment_fuel bs) (base + int (length bs)) (ResetForSegment base bs s) of
        Inl (Rejected, _) \<Rightarrow> False | _ \<Rightarrow> True)"

lemma reset_inv:
  "0 < b \<Longrightarrow> b + int (length bs) < 2 ^ 63 \<Longrightarrow> parse_inv b bs b (ResetForSegment b bs s)"
  by (simp add: ResetForSegment_def parse_inv_def parse_core_def)

lemma checked_fine:
  assumes "0 < b" and "b + int (length bs) < 2 ^ 63"
  shows "fine b bs any_samples b (CheckedDemux (segment_fuel bs) (b + int (length bs)) (ResetForSegment b bs s))"
  by (rule fine_CheckedDemux [OF _ reset_inv [OF assms]]) (auto simp: segment_fuel_def ResetForSegment_def)

text \<open>On a segment the checks do not reject, the code's parser ends as the checked one does, with any fuel that is enough.\<close>

lemma demux_segment:
  assumes "0 < b" and "b + int (length bs) < 2 ^ 63" and "checks_pass b bs s" and "segment_fuel bs \<le> fuel"
  shows "DemuxHelper fuel (b + int (length bs)) (ResetForSegment b bs s) =
           CheckedDemux (segment_fuel bs) (b + int (length bs)) (ResetForSegment b bs s)"
    and "fine b bs any_samples b (DemuxHelper fuel (b + int (length bs)) (ResetForSegment b bs s))"
    and "\<And>t. DemuxHelper fuel (b + int (length bs)) (ResetForSegment b bs s) \<noteq> Inl (Rejected, t)"
proof -
  let ?s = "ResetForSegment b bs s" and ?fin = "b + int (length bs)"
  let ?r = "CheckedDemux (segment_fuel bs) ?fin ?s"
  have f: "fine b bs any_samples b ?r" by (rule checked_fine [OF assms(1,2)])
  have nr: "?r \<noteq> Inl (Rejected, t)" for t
    using assms(3) by (auto simp: checks_pass_def)
  have eq: "DemuxHelper (segment_fuel bs) ?fin ?s = ?r"
    by (rule belowD [OF checked_agrees nr])
  have "DemuxHelper (segment_fuel bs) ?fin ?s \<noteq> Inl (OutOfFuel, t)" for t
    using f eq by auto
  from belowD [OF fuel_agrees [where j = "fuel - segment_fuel bs"] this] eq assms(4)
  show *: "DemuxHelper fuel ?fin ?s = ?r" by simp
  show "fine b bs any_samples b (DemuxHelper fuel ?fin ?s)" using f * by simp
  show "DemuxHelper fuel ?fin ?s \<noteq> Inl (Rejected, t)" for t using nr * by simp
qed

lemma force_record_fields [simp]:
  "samples (RecordSegment now ms t) = samples t" "parseError (RecordSegment now ms t) = parseError t"
  "codecInfo (RecordSegment now ms t) = codecInfo t"
  "handledEncryptedSamples (RecordSegment now ms t) = handledEncryptedSamples t"
  "samples (ForceEncrypted t) = samples t" "parseError (ForceEncrypted t) = parseError t"
  "handledEncryptedSamples (ForceEncrypted t) = handledEncryptedSamples t"
  by (simp_all add: RecordSegment_def RecordDemuxMetrics_def LogMetrics_def ForceEncrypted_def Let_def)

lemma force_encrypted: "\<not> handledEncryptedSamples t \<or> mCodecIsEncrypted (codecInfo (ForceEncrypted t))"
  by (simp add: ForceEncrypted_def)

lemma parse_returns:
  assumes "0 < base" and "base + int (length bs) < 2 ^ 63" and "bs \<noteq> []"
    and "checks_pass base bs s" and "segment_fuel bs \<le> fuel"
  obtains (ok) t where "parse_core base bs t"
      "Parse fuel now ms (Some (base, bs)) s =
         Inr (True, (RecordSegment now ms (ForceEncrypted t))\<lparr>mCurrentSegment := None\<rparr>)"
  | (err) code t where "parse_core base bs t" "code \<noteq> MP4_PARSE_OK"
      "Parse fuel now ms (Some (base, bs)) s = Inr (False, (setParseError code t)\<lparr>mCurrentSegment := None\<rparr>)"
proof (cases "DemuxHelper fuel (base + int (length bs)) (ResetForSegment base bs s)")
  case (Inr r)
  then show ?thesis
    using demux_segment(2) [OF assms(1,2,4,5)] assms(3) by (intro ok [of "snd r"]) (cases r; simp add: Parse_def inv_core)+
next
  case (Inl r)
  obtain e t where r: "r = (e, t)" by (cases r)
  have "benign e" "parse_core base bs t" "e \<noteq> Rejected"
    using demux_segment(2,3) [OF assms(1,2,4,5)] Inl r by auto
  moreover then obtain code where "e = Mp4ParseException code" "code \<noteq> MP4_PARSE_OK"
    by (cases e) auto
  ultimately show ?thesis
    using Inl r assms(3) by (intro err [of t code]) (simp_all add: Parse_def)
qed

text \<open>
  C6: on every segment that the three missing checks would not reject, \<open>Parse\<close> returns, whatever
  was parsed before: it never reads outside the segment; it reports success exactly when the error
  code is \<open>MP4_PARSE_OK\<close>; the payload of every sample lies inside the segment; and a successful parse
  reports encryption whenever encrypted content has been seen.
\<close>

theorem mp4_parse_safe:
  assumes "0 < base" and "base + int (length bs) < 2 ^ 63" and "bs \<noteq> []"
    and "checks_pass base bs s" and "segment_fuel bs \<le> fuel"
  shows "\<exists>ok t. Parse fuel now ms (Some (base, bs)) s = Inr (ok, t) \<and>
    ok = (parseError t = MP4_PARSE_OK) \<and> list_all (sample_inside base bs) (samples t) \<and>
    (\<not> ok \<or> \<not> handledEncryptedSamples t \<or> mCodecIsEncrypted (codecInfo t))"
  using assms
proof (cases rule: parse_returns [where now = now and ms = ms])
  case (ok t)
  show ?thesis
    unfolding ok(2) using ok(1) force_encrypted [of t]
    by (intro exI [of _ True] exI [of _ "(RecordSegment now ms (ForceEncrypted t))\<lparr>mCurrentSegment := None\<rparr>"])
       (auto simp: parse_core_def)
next
  case (err code t)
  then show ?thesis by (intro exI [of _ False] exI) (auto simp: parse_core_def setParseError_def)
qed


text \<open>
  C12: the parse of such a segment terminates: one unit of fuel for every eight bytes and one more is
  enough, and more fuel does not change the result.
\<close>

theorem mp4_parse_terminates:
  assumes "0 < base" and "base + int (length bs) < 2 ^ 63" and "bs \<noteq> []"
    and "checks_pass base bs s" and "segment_fuel bs \<le> fuel"
  shows "Parse fuel now ms (Some (base, bs)) s = Parse (segment_fuel bs) now ms (Some (base, bs)) s \<and>
    Parse (segment_fuel bs) now ms (Some (base, bs)) s \<noteq> Inl OutOfFuel"
proof -
  have "DemuxHelper fuel (base + int (length bs)) (ResetForSegment base bs s) =
      DemuxHelper (segment_fuel bs) (base + int (length bs)) (ResetForSegment base bs s)"
    using demux_segment(1) [OF assms(1,2,4,5)] demux_segment(1) [OF assms(1,2,4) order_refl] by simp
  moreover have "Parse (segment_fuel bs) now ms (Some (base, bs)) s \<noteq> Inl OutOfFuel"
    by (cases rule: parse_returns [OF assms(1-4) order_refl, where now = now and ms = ms]) simp_all
  ultimately show ?thesis by (simp add: Parse_def)
qed

section \<open>Concrete segments\<close>

text \<open>A fragment without samples: \<open>moof(traf(tfdt))\<close>.\<close>

definition empty_fragment_segment :: "u8 list" where
  "empty_fragment_segment =
     [0,0,0,32, 0x6d,0x6f,0x6f,0x66,
        0,0,0,24, 0x74,0x72,0x61,0x66,
          0,0,0,16, 0x74,0x66,0x64,0x74, 0,0,0,0, 0,0,0,100]"

text \<open>
  A \<open>moov\<close> of 24 bytes whose second child starts in its last 8 bytes and has a 64-bit size: the size
  field lies behind the container, and the distance to the container's end is negative.
\<close>

definition looping_segment :: "u8 list" where
  "looping_segment =
     [0,0,0,24, 0x6d,0x6f,0x6f,0x76,
        0,0,0,8, 0x66,0x72,0x65,0x65,
        0,0,0,1, 0x66,0x72,0x65,0x65,
      0xff,0xff,0xff,0xff,0xff,0xff,0xff,0xf8]"

text \<open>A \<open>saiz\<close> box that ends with its flags, and a fragment whose \<open>saio\<close> offset is \<open>- 64\<close>.\<close>

definition short_saiz_segment :: "u8 list" where
  "short_saiz_segment = [0,0,0,12, 0x73,0x61,0x69,0x7a, 0,0,0,0]"

definition wrapping_saio_segment :: "u8 list" where
  "wrapping_saio_segment =
     [0,0,0,73, 0x6d,0x6f,0x6f,0x66,
        0,0,0,65, 0x74,0x72,0x61,0x66,
          0,0,0,16, 0x74,0x72,0x75,0x6e, 0,0,0,0, 0,0,0,1,
          0,0,0,17, 0x73,0x61,0x69,0x7a, 0,0,0,0, 8, 0,0,0,1,
          0,0,0,24, 0x73,0x61,0x69,0x6f, 1,0,0,0, 0,0,0,1, 0xff,0xff,0xff,0xff,0xff,0xff,0xff,0xc0]"

definition at_offset :: "nat \<Rightarrow> Mp4Demux" where
  "at_offset n = (ResetForSegment 4096 looping_segment (mkMp4Demux 0))\<lparr>ptr := 4096 + int n\<rparr>"

lemma loop_free:
  "ReadBoxHeader 4120 (at_offset 8) = Inr ((MultiChar_Constant ''free'', 4112), at_offset 16)"
  "ReadBoxHeader 4120 (at_offset 16) = Inr ((MultiChar_Constant ''free'', 4104), at_offset 32)"
  "ReadBoxHeader 4128 (at_offset 0) = Inr ((MultiChar_Constant ''moov'', 4120), at_offset 8)"
  by code_simp+

lemma loop_dispatch:
  "DispatchBox d (MultiChar_Constant ''free'') next = SetPtr next"
  "DispatchBox d (MultiChar_Constant ''moov'') next = d next"
  by (simp_all add: DispatchBox_def one_of_def MultiChar_Constant_def)

lemma looping_children: "\<exists>t. DemuxHelper k 4120 (at_offset 8) = Inl (OutOfFuel, t)"
proof (induction k rule: less_induct)
  case (less k)
  have rs: "(at_offset n)\<lparr>ptr := 4104\<rparr> = at_offset 8" "(at_offset n)\<lparr>ptr := 4112\<rparr> = at_offset 16" for n
    by (simp_all add: at_offset_def)
  have p: "ptr (at_offset n) = 4096 + int n" for n by (simp add: at_offset_def)
  consider (a) "k = 0" | (b) "k = 1" | (c) j where "k = Suc (Suc j)"
    by (metis One_nat_def not0_implies_Suc)
  then show ?case
  proof cases
    case c
    have "DemuxHelper k 4120 (at_offset 8) = DemuxHelper j 4120 (at_offset 8)"
      by (simp add: c p rs mbind_run [where m = "ReadBoxHeader _", OF loop_free(1)]
          mbind_run [where m = "ReadBoxHeader _", OF loop_free(2)] loop_dispatch SetPtr_def)
    then show ?thesis using less.IH [of j] by (simp add: c)
  qed (simp_all add: mfail_def p rs loop_dispatch SetPtr_def mbind_run [where m = "ReadBoxHeader _", OF loop_free(1)])
qed

text \<open>
  C13: what the missing checks allow. The looping segment, 32 bytes, is parsed forever: no amount of
  fuel is enough, the parser returns to the first child of the \<open>moov\<close> each time the second one has
  been skipped. A \<open>saiz\<close> box at the end of the segment, and a \<open>saio\<close> offset that wraps around below the
  segment, make the parser read outside the segment.
\<close>

theorem mp4_parse_faults:
  "Parse fuel now ms (Some (4096, looping_segment)) (mkMp4Demux 0) = Inl OutOfFuel \<and>
   Parse 4 now ms (Some (4096, short_saiz_segment)) (mkMp4Demux 0) = Inl OutOfBounds \<and>
   Parse 12 now ms (Some (4096, wrapping_saio_segment)) (mkMp4Demux 0) = Inl OutOfBounds"
proof (intro conjI)
  have s: "ResetForSegment 4096 looping_segment (mkMp4Demux 0) = at_offset 0" "int (length looping_segment) = 32"
      "looping_segment \<noteq> []"
    by (simp_all add: at_offset_def ResetForSegment_def looping_segment_def)
  have "\<exists>t. DemuxHelper fuel 4128 (at_offset 0) = Inl (OutOfFuel, t)"
  proof (cases fuel)
    case (Suc k)
    have "ptr (at_offset 0) < 4128" by (simp add: at_offset_def)
    with Suc looping_children [of k] show ?thesis
      by (auto simp: mbind_run [where m = "ReadBoxHeader _", OF loop_free(3)] loop_dispatch mseq_def mbind_def [of "DemuxHelper _ _"])
  qed (simp add: mfail_def)
  then show "Parse fuel now ms (Some (4096, looping_segment)) (mkMp4Demux 0) = Inl OutOfFuel"
    by (auto simp: Parse_def s)
  have "map_sum fst (\<lambda>_. ()) (DemuxHelper 4 (4096 + int (length short_saiz_segment))
      (ResetForSegment 4096 short_saiz_segment (mkMp4Demux 0))) = Inl OutOfBounds"
    by code_simp
  then show "Parse 4 now ms (Some (4096, short_saiz_segment)) (mkMp4Demux 0) = Inl OutOfBounds"
    by (auto simp: Parse_def short_saiz_segment_def split: sum.splits)
  have "map_sum fst (\<lambda>_. ()) (DemuxHelper 12 (4096 + int (length wrapping_saio_segment))
      (ResetForSegment 4096 wrapping_saio_segment (mkMp4Demux 0))) = Inl OutOfBounds"
    by code_simp
  then show "Parse 12 now ms (Some (4096, wrapping_saio_segment)) (mkMp4Demux 0) = Inl OutOfBounds"
    by (auto simp: Parse_def wrapping_saio_segment_def split: sum.splits)
qed

text \<open>The safety and the termination theorem apply to the fragment without samples.\<close>

lemma empty_fragment_checks: "checks_pass 4096 empty_fragment_segment (mkMp4Demux 0)"
  by code_simp

theorem mp4_parse_safe_witness:
  "\<exists>ok t. Parse 20 0 0 (Some (4096, empty_fragment_segment)) (mkMp4Demux 0) = Inr (ok, t) \<and>
    ok = (parseError t = MP4_PARSE_OK) \<and> list_all (sample_inside 4096 empty_fragment_segment) (samples t) \<and>
    (\<not> ok \<or> \<not> handledEncryptedSamples t \<or> mCodecIsEncrypted (codecInfo t))"
  by (rule mp4_parse_safe [OF _ _ _ empty_fragment_checks]) (simp_all add: empty_fragment_segment_def segment_fuel_def)

theorem mp4_parse_terminates_witness:
  "Parse 20 0 0 (Some (4096, empty_fragment_segment)) (mkMp4Demux 0) =
     Parse (segment_fuel empty_fragment_segment) 0 0 (Some (4096, empty_fragment_segment)) (mkMp4Demux 0) \<and>
   Parse (segment_fuel empty_fragment_segment) 0 0 (Some (4096, empty_fragment_segment)) (mkMp4Demux 0) \<noteq> Inl OutOfFuel"
  by (rule mp4_parse_terminates [OF _ _ _ empty_fragment_checks]) (simp_all add: empty_fragment_segment_def segment_fuel_def)

end
