(* ===== verification/Mp4_Fragment.thy ===== *)
theory Mp4_Fragment
  imports Mp4_Checked
begin

text \<open>
  What the MP4 demultiplexer makes of a well-formed fragment. The writer below lays out a movie
  fragment the way ISO 14496-12 prescribes it, \<open>moof(mfhd, traf(tfhd, tfdt, trun))\<close> followed by \<open>mdat\<close>,
  with any of the optional fields of the track run; parsing what it writes gives back the samples:
  their payloads, decode and presentation times, durations and key frame marks.
\<close>

section \<open>Big-endian numbers\<close>

primrec be_bytes :: "nat \<Rightarrow> u64 \<Rightarrow> u8 list" where
  "be_bytes 0 x = []"
| "be_bytes (Suc n) x = be_bytes n (drop_bit 8 x) @ [ucast x]"

abbreviation be32 :: "u32 \<Rightarrow> u8 list" where
  "be32 x \<equiv> be_bytes 4 (ucast x)"

abbreviation be64 :: "u64 \<Rightarrow> u8 list" where
  "be64 x \<equiv> be_bytes 8 x"

lemma length_be_bytes [simp]: "length (be_bytes n x) = n"
  by (induction n arbitrary: x) auto

lemma take_bit_split: "take_bit (8 + m) (x :: u64) = push_bit 8 (take_bit m (drop_bit 8 x)) + take_bit 8 x"
proof -
  have "push_bit 8 (drop_bit 8 (take_bit (8 + m) x)) + take_bit 8 (take_bit (8 + m) x) = take_bit (8 + m) x"
    by (rule bits_ident)
  then show ?thesis by (simp add: drop_bit_take_bit)
qed

lemma be_value_bytes: "be_value rc (be_bytes n x) = push_bit (8 * n) rc + take_bit (8 * n) x"
proof (induction n arbitrary: x)
  case 0
  show ?case by (simp add: be_value_def)
next
  case (Suc n)
  have "be_value rc (be_bytes (Suc n) x) = push_bit 8 (be_value rc (be_bytes n (drop_bit 8 x))) + ucast (ucast x :: u8)"
    by (simp add: be_value_def)
  also have "ucast (ucast x :: u8) = take_bit 8 x"
    by (simp add: unsigned_ucast_eq)
  finally show ?case
    using take_bit_split [of "8 * n" x] by (simp add: Suc.IH push_bit_add push_bit_push_bit add.commute)
qed

lemma ucast_take_ucast: "ucast (take_bit n (ucast x :: u64)) = take_bit n (x :: u32)"
  by (rule bit_word_eqI) (auto simp: bit_ucast_iff bit_take_bit_iff)

lemma take_bit_24: "uint (f :: u32) < 2 ^ 24 \<Longrightarrow> take_bit 24 f = f"
  by (simp add: word_uint_eq_iff unsigned_take_bit_eq take_bit_int_eq_self)

section \<open>Reading ahead\<close>

definition facing :: "int \<Rightarrow> u8 list \<Rightarrow> Mp4Demux \<Rightarrow> u8 list \<Rightarrow> bool" where
  "facing b bs s r \<longleftrightarrow> located b bs s \<and> ahead b bs s = r"

lemma at_len: "facing b bs s r \<Longrightarrow> ptr s + int (length r) = b + int (length bs)"
  by (auto simp: facing_def located_def ahead_def)

lemma at_adv: "facing b bs s (u @ r) \<Longrightarrow> n = int (length u) \<Longrightarrow> facing b bs (s\<lparr>ptr := ptr s + n\<rparr>) r"
proof -
  assume a: "facing b bs s (u @ r)" and n: "n = int (length u)"
  then have "drop (nat (ptr s - b)) bs = u @ r" "located b bs s" "b \<le> ptr s"
    by (auto simp: facing_def ahead_def located_def)
  then have "drop (length u + nat (ptr s - b)) bs = r"
    by (simp flip: drop_drop)
  moreover have "nat (ptr s + n - b) = length u + nat (ptr s - b)"
    using \<open>b \<le> ptr s\<close> n by simp
  moreover have "ptr s + n \<le> b + int (length bs)" using at_len [OF a] n by simp
  ultimately show ?thesis using \<open>located b bs s\<close> n by (simp add: facing_def ahead_def located_def)
qed

lemma ReadBytes_at:
  assumes "facing b bs s (be_bytes n x @ r)" and "0 < n" "n \<le> 8" and "k = int n"
  shows "ReadBytes k s = Inr (take_bit (8 * n) x, s\<lparr>ptr := ptr s + k\<rparr>)"
  using ReadBytes_ok [of b bs s k] at_len [OF assms(1)] assms
  by (simp add: facing_def be_value_bytes)

lemma ReadU32_at: "facing b bs s (be32 x @ r) \<Longrightarrow> ReadU32 s = Inr (x, s\<lparr>ptr := ptr s + 4\<rparr>)"
  and ReadI32_at: "facing b bs s (be32 x @ r) \<Longrightarrow> ReadI32 s = Inr (sint x, s\<lparr>ptr := ptr s + 4\<rparr>)"
  using ReadBytes_at [of b bs s 4 "ucast x" r 4]
  by (auto simp: ReadU32_def ReadI32_def mbind_def mret_def ucast_take_ucast take_bit_word_eq_self)

lemma ReadU64_at: "facing b bs s (be64 x @ r) \<Longrightarrow> ReadU64 s = Inr (x, s\<lparr>ptr := ptr s + 8\<rparr>)"
  using ReadBytes_at [of b bs s 8 x r 8] by (simp add: ReadU64_def take_bit_word_eq_self)

lemma at_update [simp]:
  "facing b bs (s\<lparr>version := v\<rparr>) r = facing b bs s r" "facing b bs (s\<lparr>flags := f\<rparr>) r = facing b bs s r"
  "facing b bs (s\<lparr>trackId := i\<rparr>) r = facing b bs s r" "facing b bs (s\<lparr>baseMediaDecodeTime := d\<rparr>) r = facing b bs s r"
  "facing b bs (s\<lparr>samples := xs\<rparr>) r = facing b bs s r" "facing b bs (s\<lparr>mSampleInfo := ps\<rparr>) r = facing b bs s r"
  "facing b bs (s\<lparr>defaultSampleDuration := i\<rparr>) r = facing b bs s r" "facing b bs (s\<lparr>defaultSampleSize := i\<rparr>) r = facing b bs s r"
  "facing b bs (s\<lparr>defaultSampleFlags := i\<rparr>) r = facing b bs s r"
  by (simp_all add: facing_def located_def ahead_def)

lemma mmod_run: "mmod h s = Inr ((), h s)"
  and mret_run: "mret x s = Inr (x, s)"
  by (simp_all add: mmod_def mret_def)

lemma ReadHeader_at:
  assumes "facing b bs s ([v] @ be_bytes 3 (ucast f) @ r)" and "uint f < 2 ^ 24"
  shows "ReadHeader s = Inr ((), s\<lparr>ptr := ptr s + 4, version := v, flags := f\<rparr>)"
proof -
  have l: "ptr s < b + int (length bs)" "located b bs s" and hd: "bs ! nat (ptr s - b) = v"
    using at_len [OF assms(1)] assms(1) by (auto simp: facing_def ahead_def located_def hd_drop_conv_nth [symmetric] nat_less_iff)
  let ?s = "s\<lparr>ptr := ptr s + 1\<rparr>"
  have "facing b bs ?s (be_bytes 3 (ucast f) @ r)" by (rule at_adv [OF assms(1)]) simp
  then have r: "ReadBytes 3 (?s\<lparr>version := v\<rparr>) = Inr (take_bit 24 (ucast f), s\<lparr>ptr := ptr s + 4, version := v\<rparr>)"
    using ReadBytes_at [of b bs "?s\<lparr>version := v\<rparr>" 3 "ucast f" r 3] by simp
  have "ucast (take_bit 24 (ucast f :: u64)) = f"
    by (simp add: ucast_take_ucast take_bit_24 [OF assms(2)] del: unsigned_take_bit_eq)
  moreover have "ptr s \<noteq> 0" "endPtr s \<noteq> 0" "padd (ptr s) 1 \<le> endPtr s"
    using l by (auto simp: located_def padd_small)
  ultimately show ?thesis
    using NextByte_ok(1) [OF l(2,1)] hd r
    by (simp add: ReadHeader_def mbind_run [where m = NextByte] mbind_run [where m = "ReadBytes 3"] mmod_run)
qed

section \<open>The writer\<close>

record written_sample =
  w_duration :: u32
  w_flags :: u32
  w_cto :: u32
  w_data :: "u8 list"

text \<open>The header fields of a fragment: track, decode time, the defaults of \<open>tfhd\<close> and the flags of \<open>trun\<close>.\<close>

record written_fragment =
  w_track :: u32
  w_base_time :: u64
  w_default_duration :: u32
  w_default_size :: u32
  w_default_flags :: u32
  w_run_flags :: u32
  w_first_flags :: u32
  w_samples :: "written_sample list"

definition box :: "string \<Rightarrow> u8 list \<Rightarrow> u8 list" where
  "box type payload = be32 (of_nat (8 + length payload)) @ be32 (MultiChar_Constant type) @ payload"

definition full_box :: "string \<Rightarrow> u8 \<Rightarrow> u32 \<Rightarrow> u8 list \<Rightarrow> u8 list" where
  "full_box type v fl payload = box type ([v] @ be_bytes 3 (ucast fl) @ payload)"

definition when_flag :: "u32 \<Rightarrow> u32 \<Rightarrow> u8 list \<Rightarrow> u8 list" where
  "when_flag fl m bs = (if flag_set fl m then bs else [])"

definition write_entry :: "u32 \<Rightarrow> written_sample \<Rightarrow> u8 list" where
  "write_entry fl x =
     when_flag fl TRUN_SAMPLE_DURATION_PRESENT (be32 (w_duration x)) @
     when_flag fl TRUN_SAMPLE_SIZE_PRESENT (be32 (of_nat (length (w_data x)))) @
     when_flag fl TRUN_SAMPLE_FLAGS_PRESENT (be32 (w_flags x)) @
     when_flag fl TRUN_SAMPLE_COMPOSITION_TIME_OFFSET_PRESENT (be32 (w_cto x))"

definition write_tfhd :: "written_fragment \<Rightarrow> u8 list" where
  "write_tfhd w = full_box ''tfhd'' 0 0x38
     (be32 (w_track w) @ be32 (w_default_duration w) @ be32 (w_default_size w) @ be32 (w_default_flags w))"

definition write_tfdt :: "written_fragment \<Rightarrow> u8 list" where
  "write_tfdt w = full_box ''tfdt'' 1 0 (be64 (w_base_time w))"

definition write_trun :: "written_fragment \<Rightarrow> u32 \<Rightarrow> u8 list" where
  "write_trun w off = full_box ''trun'' 0 (w_run_flags w)
     (be32 (of_nat (length (w_samples w))) @ be32 off @
      when_flag (w_run_flags w) TRUN_FIRST_SAMPLE_FLAGS_PRESENT (be32 (w_first_flags w)) @
      concat (map (write_entry (w_run_flags w)) (w_samples w)))"

definition write_moof :: "written_fragment \<Rightarrow> u32 \<Rightarrow> u8 list" where
  "write_moof w off = box ''moof''
     (full_box ''mfhd'' 0 0 (be32 1) @ box ''traf'' (write_tfhd w @ write_tfdt w @ write_trun w off))"

text \<open>The data offset of the run: its payloads start behind the header of the \<open>mdat\<close> box.\<close>

definition moof_size :: "written_fragment \<Rightarrow> nat" where
  "moof_size w = length (write_moof w 0)"

definition write_mdat :: "written_fragment \<Rightarrow> u8 list" where
  "write_mdat w = box ''mdat'' (concat (map w_data (w_samples w)))"

definition write_fragment :: "written_fragment \<Rightarrow> u8 list" where
  "write_fragment w = write_moof w (of_nat (moof_size w + 8)) @ write_mdat w"

section \<open>Parsing the boxes of a fragment\<close>

definition run_duration :: "written_fragment \<Rightarrow> written_sample \<Rightarrow> u32" where
  "run_duration w x =
     (if flag_set (w_run_flags w) TRUN_SAMPLE_DURATION_PRESENT then w_duration x else w_default_duration w)"

definition run_flags :: "written_fragment \<Rightarrow> nat \<Rightarrow> written_sample \<Rightarrow> u32" where
  "run_flags w i x =
     (if flag_set (w_run_flags w) TRUN_SAMPLE_FLAGS_PRESENT then w_flags x
      else if i = 0 \<and> flag_set (w_run_flags w) TRUN_FIRST_SAMPLE_FLAGS_PRESENT then w_first_flags w
      else w_default_flags w)"

definition run_cto :: "written_fragment \<Rightarrow> written_sample \<Rightarrow> int" where
  "run_cto w x =
     (if flag_set (w_run_flags w) TRUN_SAMPLE_COMPOSITION_TIME_OFFSET_PRESENT then sint (w_cto x) else 0)"

text \<open>The pending payloads a run leaves, from the \<open>i\<close>-th sample on.\<close>

fun run_pending :: "written_fragment \<Rightarrow> u32 \<Rightarrow> nat \<Rightarrow> nat \<Rightarrow> int \<Rightarrow> u64 \<Rightarrow> written_sample list \<Rightarrow> PendingSamplePayload list" where
  "run_pending w ts n i p t [] = []"
| "run_pending w ts n i p t (x # xs) =
     \<lparr>dataPtr = p, sampleLen = of_nat (length (w_data x)), sampleIdx = n,
      pDts = ticks_to_seconds (uint t) ts,
      pPts = ticks_to_seconds (uint (t + word_of_int (run_cto w x))) ts,
      pDuration = ticks_to_seconds (uint (run_duration w x)) ts,
      pIsKeyFrame = (and (run_flags w i x) 0x00010000 = 0)\<rparr> #
     run_pending w ts (Suc n) (Suc i) (p + int (length (w_data x))) (t + ucast (run_duration w x)) xs"

lemma ReadIf_at:
  assumes "facing b bs s (when_flag fl m (be32 x) @ r)"
  obtains n where "ReadIf fl m ReadU32 d s = Inr (if flag_set fl m then x else d, s\<lparr>ptr := ptr s + n\<rparr>)"
    and "ReadIf fl m ReadI32 e s = Inr (if flag_set fl m then sint x else e, s\<lparr>ptr := ptr s + n\<rparr>)"
    and "facing b bs (s\<lparr>ptr := ptr s + n\<rparr>) r"
proof (cases "flag_set fl m")
  case True
  then have a: "facing b bs s (be32 x @ r)" using assms by (simp add: when_flag_def)
  show thesis
    by (rule that [of 4]) (simp_all add: ReadIf_def True ReadU32_at [OF a] ReadI32_at [OF a] at_adv [OF a])
next
  case False
  then show thesis using assms by (intro that [of 0]) (simp_all add: ReadIf_def mret_def when_flag_def)
qed

definition size_agrees :: "written_fragment \<Rightarrow> written_sample \<Rightarrow> bool" where
  "size_agrees w x \<longleftrightarrow> length (w_data x) < 2 ^ 32 \<and>
     (flag_set (w_run_flags w) TRUN_SAMPLE_SIZE_PRESENT \<or> of_nat (length (w_data x)) = w_default_size w)"

lemma trun_sample_at:
  assumes "facing b bs s (write_entry (w_run_flags w) x @ r)" and "size_agrees w x"
    and "defaultSampleDuration s = w_default_duration w" "defaultSampleSize s = w_default_size w"
      "defaultSampleFlags s = w_default_flags w"
    and "flag_set (w_run_flags w) TRUN_FIRST_SAMPLE_FLAGS_PRESENT \<Longrightarrow> ff = w_first_flags w"
  obtains n where "trun_sample (w_run_flags w) ff i p t s =
      Inr ((of_nat (length (w_data x)), run_duration w x),
           s\<lparr>ptr := ptr s + n, samples := samples s @ [emptySample],
             mSampleInfo := mSampleInfo s @ run_pending w (timeScale s) (length (samples s)) i p t [x]\<rparr>)"
    and "facing b bs (s\<lparr>ptr := ptr s + n\<rparr>) r"
proof -
  let ?s = "s\<lparr>samples := samples s @ [emptySample]\<rparr>"
  let ?fl = "w_run_flags w"
  let ?len = "of_nat (length (w_data x)) :: u32"
  have "facing b bs ?s (when_flag ?fl TRUN_SAMPLE_DURATION_PRESENT (be32 (w_duration x)) @
     when_flag ?fl TRUN_SAMPLE_SIZE_PRESENT (be32 ?len) @
     when_flag ?fl TRUN_SAMPLE_FLAGS_PRESENT (be32 (w_flags x)) @
     when_flag ?fl TRUN_SAMPLE_COMPOSITION_TIME_OFFSET_PRESENT (be32 (w_cto x)) @ r)"
    using assms(1) by (simp add: write_entry_def)
  from ReadIf_at [OF this, where d = "w_default_duration w"] obtain n1
    where r1: "ReadIf ?fl TRUN_SAMPLE_DURATION_PRESENT ReadU32 (w_default_duration w) ?s =
        Inr (run_duration w x, ?s\<lparr>ptr := ptr ?s + n1\<rparr>)"
      and a1: "facing b bs (?s\<lparr>ptr := ptr ?s + n1\<rparr>) (when_flag ?fl TRUN_SAMPLE_SIZE_PRESENT (be32 ?len) @
     when_flag ?fl TRUN_SAMPLE_FLAGS_PRESENT (be32 (w_flags x)) @
     when_flag ?fl TRUN_SAMPLE_COMPOSITION_TIME_OFFSET_PRESENT (be32 (w_cto x)) @ r)"
    unfolding run_duration_def .
  let ?s1 = "?s\<lparr>ptr := ptr ?s + n1\<rparr>"
  have len: "(if flag_set ?fl TRUN_SAMPLE_SIZE_PRESENT then ?len else w_default_size w) = ?len"
    using assms(2) by (auto simp: size_agrees_def)
  from ReadIf_at [OF a1, where d = "w_default_size w"] obtain n2
    where r2: "ReadIf ?fl TRUN_SAMPLE_SIZE_PRESENT ReadU32 (w_default_size w) ?s1 = Inr (?len, ?s1\<lparr>ptr := ptr ?s1 + n2\<rparr>)"
      and a2: "facing b bs (?s1\<lparr>ptr := ptr ?s1 + n2\<rparr>) (when_flag ?fl TRUN_SAMPLE_FLAGS_PRESENT (be32 (w_flags x)) @
     when_flag ?fl TRUN_SAMPLE_COMPOSITION_TIME_OFFSET_PRESENT (be32 (w_cto x)) @ r)"
    unfolding len .
  let ?s2 = "?s1\<lparr>ptr := ptr ?s1 + n2\<rparr>"
  define d where "d = (if i = 0 \<and> flag_set ?fl TRUN_FIRST_SAMPLE_FLAGS_PRESENT then ff else w_default_flags w)"
  have fl: "(if flag_set ?fl TRUN_SAMPLE_FLAGS_PRESENT then w_flags x else d) = run_flags w i x"
    using assms(6) by (auto simp: run_flags_def d_def)
  from ReadIf_at [OF a2, where d = d] obtain n3
    where r3: "ReadIf ?fl TRUN_SAMPLE_FLAGS_PRESENT ReadU32 d ?s2 = Inr (run_flags w i x, ?s2\<lparr>ptr := ptr ?s2 + n3\<rparr>)"
      and a3: "facing b bs (?s2\<lparr>ptr := ptr ?s2 + n3\<rparr>)
     (when_flag ?fl TRUN_SAMPLE_COMPOSITION_TIME_OFFSET_PRESENT (be32 (w_cto x)) @ r)"
    unfolding fl .
  let ?s3 = "?s2\<lparr>ptr := ptr ?s2 + n3\<rparr>"
  from ReadIf_at [OF a3, where e = 0] obtain n4
    where r4: "ReadIf ?fl TRUN_SAMPLE_COMPOSITION_TIME_OFFSET_PRESENT ReadI32 0 ?s3 = Inr (run_cto w x, ?s3\<lparr>ptr := ptr ?s3 + n4\<rparr>)"
      and a4: "facing b bs (?s3\<lparr>ptr := ptr ?s3 + n4\<rparr>) r"
    unfolding run_cto_def .
  show thesis
  proof (rule that [of "n1 + n2 + n3 + n4"])
    show "trun_sample ?fl ff i p t s = Inr ((?len, run_duration w x),
      s\<lparr>ptr := ptr s + (n1 + n2 + n3 + n4), samples := samples s @ [emptySample],
        mSampleInfo := mSampleInfo s @ run_pending w (timeScale s) (length (samples s)) i p t [x]\<rparr>)"
      using r1 r2 r3 r4
      by (simp add: trun_sample_def assms(3-5) d_def [symmetric] mbind_run [where m = "ReadIf _ _ _ _"] mret_run add.assoc split del: if_split cong del: if_weak_cong)
    show "facing b bs (s\<lparr>ptr := ptr s + (n1 + n2 + n3 + n4)\<rparr>) r"
      using a4 by (simp add: add.assoc facing_def located_def ahead_def)
  qed
qed

lemma facing_fields:
  "facing b bs s r \<Longrightarrow> mCurrentSegment t = mCurrentSegment s \<Longrightarrow> endPtr t = endPtr s \<Longrightarrow> ptr t = ptr s \<Longrightarrow> facing b bs t r"
  by (simp add: facing_def located_def ahead_def)

lemma trun_loop_at:
  assumes "facing b bs s (concat (map (write_entry (w_run_flags w)) xs) @ r)" and "list_all (size_agrees w) xs"
    and "defaultSampleDuration s = w_default_duration w" "defaultSampleSize s = w_default_size w"
      "defaultSampleFlags s = w_default_flags w"
    and ff: "flag_set (w_run_flags w) TRUN_FIRST_SAMPLE_FLAGS_PRESENT \<Longrightarrow> ff = w_first_flags w"
    and "0 \<le> p" "p + int (length (concat (map w_data xs))) < 2 ^ 64"
  shows "\<exists>n. trun_loop (w_run_flags w) ff (length xs) i p t s =
      Inr ((), s\<lparr>ptr := ptr s + n, samples := samples s @ replicate (length xs) emptySample,
                 mSampleInfo := mSampleInfo s @ run_pending w (timeScale s) (length (samples s)) i p t xs\<rparr>) \<and>
    facing b bs (s\<lparr>ptr := ptr s + n\<rparr>) r"
  using assms(1-5,7,8)
proof (induction xs arbitrary: s i p t)
  case Nil
  then show ?case by (intro exI [of _ 0]) (simp add: mret_run)
next
  case (Cons x xs)
  let ?fl = "w_run_flags w"
  have "facing b bs s (write_entry ?fl x @ concat (map (write_entry ?fl) xs) @ r)" and sx: "size_agrees w x"
    using Cons.prems by simp_all
  then obtain n where one: "trun_sample ?fl ff i p t s =
      Inr ((of_nat (length (w_data x)), run_duration w x),
           s\<lparr>ptr := ptr s + n, samples := samples s @ [emptySample],
             mSampleInfo := mSampleInfo s @ run_pending w (timeScale s) (length (samples s)) i p t [x]\<rparr>)"
      (is "_ = Inr (_, ?s)")
    and a: "facing b bs (s\<lparr>ptr := ptr s + n\<rparr>) (concat (map (write_entry ?fl) xs) @ r)"
    by (rule trun_sample_at [OF _ _ Cons.prems(3-5) ff])
  have len: "uint (of_nat (length (w_data x)) :: u32) = int (length (w_data x))"
    using sx by (simp add: size_agrees_def unsigned_of_nat take_bit_nat_eq_self)
  have "facing b bs ?s (concat (map (write_entry ?fl) xs) @ r)"
    by (rule facing_fields [OF a]) simp_all
  then obtain m where rest: "trun_loop ?fl ff (length xs) (Suc i) (p + int (length (w_data x))) (t + ucast (run_duration w x)) ?s =
      Inr ((), ?s\<lparr>ptr := ptr ?s + m, samples := samples ?s @ replicate (length xs) emptySample,
        mSampleInfo := mSampleInfo ?s @ run_pending w (timeScale ?s) (length (samples ?s)) (Suc i)
          (p + int (length (w_data x))) (t + ucast (run_duration w x)) xs\<rparr>)"
    and b: "facing b bs (?s\<lparr>ptr := ptr ?s + m\<rparr>) r"
    using Cons.IH [of ?s "p + int (length (w_data x))" "Suc i" "t + ucast (run_duration w x)"] Cons.prems by auto
  show ?case
  proof (intro exI [of _ "n + m"] conjI)
    have "padd p (uint (of_nat (length (w_data x)) :: u32)) = p + int (length (w_data x))"
      using len Cons.prems by (simp add: padd_small)
    then show "trun_loop ?fl ff (length (x # xs)) i p t s = Inr ((), s\<lparr>ptr := ptr s + (n + m),
        samples := samples s @ replicate (length (x # xs)) emptySample,
        mSampleInfo := mSampleInfo s @ run_pending w (timeScale s) (length (samples s)) i p t (x # xs)\<rparr>)"
      using rest by (simp add: mbind_run [where m = "trun_sample _ _ _ _ _", OF one] add.assoc)
    show "facing b bs (s\<lparr>ptr := ptr s + (n + m)\<rparr>) r"
      by (rule facing_fields [OF b]) simp_all
  qed
qed

lemma ParseTrackRun_at:
  assumes a: "facing b bs s ([0] @ be_bytes 3 (ucast (w_run_flags w)) @ be32 (of_nat (length (w_samples w))) @ be32 off @
      when_flag (w_run_flags w) TRUN_FIRST_SAMPLE_FLAGS_PRESENT (be32 (w_first_flags w)) @
      concat (map (write_entry (w_run_flags w)) (w_samples w)) @ r)"
    and fl: "uint (w_run_flags w) < 2 ^ 24" "flag_set (w_run_flags w) TRUN_DATA_OFFSET_PRESENT"
    and n: "length (w_samples w) < 2 ^ 32" and sz: "list_all (size_agrees w) (w_samples w)"
    and d: "defaultSampleDuration s = w_default_duration w" "defaultSampleSize s = w_default_size w"
      "defaultSampleFlags s = w_default_flags w"
    and p: "p = moofPtr s + sint off" "0 \<le> p" "p + int (length (concat (map w_data (w_samples w)))) < 2 ^ 64"
  shows "\<exists>m. ParseTrackRun s = Inr ((), s\<lparr>ptr := ptr s + m, version := 0, flags := w_run_flags w,
      samples := samples s @ replicate (length (w_samples w)) emptySample,
      mSampleInfo := mSampleInfo s @ run_pending w (timeScale s) (length (samples s)) 0 p (baseMediaDecodeTime s) (w_samples w)\<rparr>) \<and>
    facing b bs (s\<lparr>ptr := ptr s + m\<rparr>) r"
proof -
  let ?fl = "w_run_flags w" and ?k = "of_nat (length (w_samples w)) :: u32"
  let ?s1 = "s\<lparr>ptr := ptr s + 4, version := 0, flags := ?fl\<rparr>"
  note h = ReadHeader_at [OF a fl(1)]
  have "facing b bs (s\<lparr>ptr := ptr s + 4\<rparr>) (be32 ?k @ be32 off @
      when_flag ?fl TRUN_FIRST_SAMPLE_FLAGS_PRESENT (be32 (w_first_flags w)) @
      concat (map (write_entry ?fl) (w_samples w)) @ r)"
    by (rule at_adv [where u = "[0] @ be_bytes 3 (ucast ?fl)"]) (use a in simp_all)
  then have a1: "facing b bs ?s1 (be32 ?k @ be32 off @
      when_flag ?fl TRUN_FIRST_SAMPLE_FLAGS_PRESENT (be32 (w_first_flags w)) @
      concat (map (write_entry ?fl) (w_samples w)) @ r)" by simp
  note r1 = ReadU32_at [OF a1]
  let ?s2 = "?s1\<lparr>ptr := ptr ?s1 + 4\<rparr>"
  have a2: "facing b bs ?s2 (be32 off @
      when_flag ?fl TRUN_FIRST_SAMPLE_FLAGS_PRESENT (be32 (w_first_flags w)) @
      concat (map (write_entry ?fl) (w_samples w)) @ r)"
    by (rule at_adv [OF a1]) simp
  have r2: "ReadIf ?fl TRUN_DATA_OFFSET_PRESENT ReadI32 0 ?s2 = Inr (sint off, ?s2\<lparr>ptr := ptr ?s2 + 4\<rparr>)"
    using ReadI32_at [OF a2] fl(2) by (simp add: ReadIf_def)
  let ?s3 = "?s2\<lparr>ptr := ptr ?s2 + 4\<rparr>"
  have a3: "facing b bs ?s3 (when_flag ?fl TRUN_FIRST_SAMPLE_FLAGS_PRESENT (be32 (w_first_flags w)) @
      concat (map (write_entry ?fl) (w_samples w)) @ r)"
    by (rule at_adv [OF a2]) simp
  obtain m where r3: "ReadIf ?fl TRUN_FIRST_SAMPLE_FLAGS_PRESENT ReadU32 0 ?s3 =
      Inr (if flag_set ?fl TRUN_FIRST_SAMPLE_FLAGS_PRESENT then w_first_flags w else 0, ?s3\<lparr>ptr := ptr ?s3 + m\<rparr>)"
      (is "_ = Inr (?ff, ?s4)")
    and a4: "facing b bs (?s3\<lparr>ptr := ptr ?s3 + m\<rparr>) (concat (map (write_entry ?fl) (w_samples w)) @ r)"
    by (rule ReadIf_at [OF a3])
  have "\<exists>n. trun_loop ?fl ?ff (length (w_samples w)) 0 p (baseMediaDecodeTime s) ?s4 =
      Inr ((), ?s4\<lparr>ptr := ptr ?s4 + n, samples := samples ?s4 @ replicate (length (w_samples w)) emptySample,
         mSampleInfo := mSampleInfo ?s4 @ run_pending w (timeScale ?s4) (length (samples ?s4)) 0 p (baseMediaDecodeTime s) (w_samples w)\<rparr>) \<and>
    facing b bs (?s4\<lparr>ptr := ptr ?s4 + n\<rparr>) r"
    by (rule trun_loop_at [OF a4 sz]) (use d p in simp_all)
  then obtain n where r4: "trun_loop ?fl ?ff (length (w_samples w)) 0 p (baseMediaDecodeTime s) ?s4 =
      Inr ((), ?s4\<lparr>ptr := ptr ?s4 + n, samples := samples ?s4 @ replicate (length (w_samples w)) emptySample,
         mSampleInfo := mSampleInfo ?s4 @ run_pending w (timeScale ?s4) (length (samples ?s4)) 0 p (baseMediaDecodeTime s) (w_samples w)\<rparr>)"
    and a5: "facing b bs (?s4\<lparr>ptr := ptr ?s4 + n\<rparr>) r" by blast
  have k: "unat ?k = length (w_samples w)"
    using n by (simp add: unsigned_of_nat take_bit_nat_eq_self)
  have pp: "padd (moofPtr s) (sint off) = p"
    using p by (simp add: padd_small)
  show ?thesis
  proof (intro exI [of _ "12 + m + n"] conjI)
    show "ParseTrackRun s = Inr ((), s\<lparr>ptr := ptr s + (12 + m + n), version := 0, flags := ?fl,
      samples := samples s @ replicate (length (w_samples w)) emptySample,
      mSampleInfo := mSampleInfo s @ run_pending w (timeScale s) (length (samples s)) 0 p (baseMediaDecodeTime s) (w_samples w)\<rparr>)"
      using h r1 r2 r3 r4
      by (simp add: ParseTrackRun_def mseq_run [where m' = ReadHeader] mbind_run [where m = ReadU32]
          mbind_run [where m = "ReadIf _ _ _ _"] k pp add.assoc split del: if_split)
    show "facing b bs (s\<lparr>ptr := ptr s + (12 + m + n)\<rparr>) r"
      by (rule facing_fields [OF a5]) simp_all
  qed
qed

lemma ParseTrackFragmentHeader_at:
  assumes "facing b bs s ([0] @ be_bytes 3 (ucast (0x38 :: u32)) @ be32 tid @ be32 d @ be32 z @ be32 f @ r)"
  shows "ParseTrackFragmentHeader s = Inr ((), s\<lparr>ptr := ptr s + 20, version := 0, flags := 0x38, trackId := tid,
      defaultSampleDuration := d, defaultSampleSize := z, defaultSampleFlags := f\<rparr>)"
proof -
  let ?s1 = "s\<lparr>ptr := ptr s + 4, version := 0, flags := 0x38\<rparr>"
  have h: "ReadHeader s = Inr ((), ?s1)"
    by (rule ReadHeader_at [OF assms]) simp
  have a1: "facing b bs ?s1 (be32 tid @ be32 d @ be32 z @ be32 f @ r)"
    by (simp, rule at_adv [where u = "[0] @ be_bytes 3 (ucast (0x38 :: u32))"]) (use assms in simp_all)
  let ?s2 = "?s1\<lparr>ptr := ptr ?s1 + 4, trackId := tid\<rparr>"
  have a2: "facing b bs ?s2 (be32 d @ be32 z @ be32 f @ r)"
    using at_adv [OF a1, of 4] by simp
  let ?s3 = "?s2\<lparr>ptr := ptr ?s2 + 4, defaultSampleDuration := d\<rparr>"
  have a3: "facing b bs ?s3 (be32 z @ be32 f @ r)"
    using at_adv [OF a2, of 4] by simp
  let ?s4 = "?s3\<lparr>ptr := ptr ?s3 + 4, defaultSampleSize := z\<rparr>"
  have a4: "facing b bs ?s4 (be32 f @ r)"
    using at_adv [OF a3, of 4] by simp
  have fl: "\<not> flag_set 0x38 TFHD_BASE_DATA_OFFSET_PRESENT" "\<not> flag_set 0x38 TFHD_SAMPLE_DESCRIPTION_INDEX_PRESENT"
    "flag_set 0x38 TFHD_DEFAULT_SAMPLE_DURATION_PRESENT" "flag_set 0x38 TFHD_DEFAULT_SAMPLE_SIZE_PRESENT"
    "flag_set 0x38 TFHD_DEFAULT_SAMPLE_FLAGS_PRESENT"
    by (simp_all add: flag_set_def mp4_consts)
  show ?thesis
    using h ReadU32_at [OF a1] ReadU32_at [OF a2] ReadU32_at [OF a3] ReadU32_at [OF a4]
    by (simp add: ParseTrackFragmentHeader_def fl mbind_run [where m = ReadU32] mmod_run
        mseq_run [where m' = ReadHeader] mseq_run [where m' = "mbind ReadU32 _"])
qed

lemma ParseTrackFragmentDecodeTime_at:
  assumes "facing b bs s ([1] @ be_bytes 3 (ucast (0 :: u32)) @ be64 t @ r)"
  shows "ParseTrackFragmentDecodeTime s =
    Inr ((), s\<lparr>ptr := ptr s + 12, version := 1, flags := 0, baseMediaDecodeTime := t\<rparr>)"
proof -
  let ?s1 = "s\<lparr>ptr := ptr s + 4, version := 1, flags := 0\<rparr>"
  have h: "ReadHeader s = Inr ((), ?s1)"
    by (rule ReadHeader_at [OF assms]) simp
  have a1: "facing b bs ?s1 (be64 t @ r)"
    by (simp, rule at_adv [where u = "[1] @ be_bytes 3 (ucast (0 :: u32))"]) (use assms in simp_all)
  show ?thesis
    using h ReadBytes_at [OF a1, of 8]
    by (simp add: ParseTrackFragmentDecodeTime_def time_size_def mseq_run [where m' = ReadHeader]
        mbind_run [where m = "ReadBytes 8"] mmod_run take_bit_word_eq_self)
qed

section \<open>Boxes in a container\<close>

lemma length_box [simp]: "length (box type payload) = 8 + length payload"
  by (simp add: box_def)

lemma ReadBoxHeader_at:
  assumes a: "facing b bs s (box type payload @ r)" and n: "8 + length payload < 2 ^ 32"
    and fin: "ptr s + 8 + int (length payload) \<le> fin" "fin \<le> b + int (length bs)"
  shows "ReadBoxHeader fin s = Inr ((MultiChar_Constant type, ptr s + 8 + int (length payload)), s\<lparr>ptr := ptr s + 8\<rparr>)"
    and "facing b bs (s\<lparr>ptr := ptr s + 8\<rparr>) (payload @ r)"
proof -
  let ?sz = "of_nat (8 + length payload) :: u32"
  have a0: "facing b bs s (be32 ?sz @ be32 (MultiChar_Constant type) @ payload @ r)"
    using a by (simp add: box_def)
  let ?s1 = "s\<lparr>ptr := ptr s + 4\<rparr>"
  have a1: "facing b bs ?s1 (be32 (MultiChar_Constant type) @ payload @ r)"
    by (rule at_adv [OF a0]) simp
  have "facing b bs (?s1\<lparr>ptr := ptr ?s1 + 4\<rparr>) (payload @ r)"
    by (rule at_adv [OF a1]) simp
  then show "facing b bs (s\<lparr>ptr := ptr s + 8\<rparr>) (payload @ r)" by (simp add: add.commute)
  have sz: "uint ?sz = 8 + int (length payload)"
    using n by (simp add: unsigned_of_nat take_bit_nat_eq_self del: of_nat_add) 
  then have "?sz \<noteq> 0" "?sz \<noteq> 1" "8 \<le> ?sz"
    by (auto simp: word_uint_eq_iff word_le_def simp del: of_nat_add of_nat_numeral)
  moreover have "pdiff fin (ptr s + 8) = fin - (ptr s + 8)" "padd (ptr s + 8) (int (length payload)) = ptr s + 8 + int (length payload)"
    using a fin by (auto simp: facing_def located_def pdiff_def padd_small)
  ultimately show "ReadBoxHeader fin s = Inr ((MultiChar_Constant type, ptr s + 8 + int (length payload)), s\<lparr>ptr := ptr s + 8\<rparr>)"
    using ReadU32_at [OF a0] ReadU32_at [OF a1] sz fin
    by (simp add: ReadBoxHeader_def mbind_run [where m = ReadU32] mret_run add.commute [of 8] del: of_nat_add of_nat_numeral)
qed

lemma demux_box:
  assumes a: "facing b bs s (box type payload @ r)" and n: "8 + length payload < 2 ^ 32"
    and fin: "ptr s + 8 + int (length payload) \<le> fin" "fin \<le> b + int (length bs)"
    and d: "DispatchBox (DemuxHelper k) (MultiChar_Constant type) (ptr s + 8 + int (length payload)) (s\<lparr>ptr := ptr s + 8\<rparr>) = Inr ((), t)"
    and p: "ptr t = ptr s + 8 + int (length payload)"
  shows "DemuxHelper (Suc k) fin s = DemuxHelper k fin t"
proof -
  have "ptr s < fin" using fin by simp
  then show ?thesis
    using p by (simp add: mbind_run [where m = "ReadBoxHeader _", OF ReadBoxHeader_at(1) [OF a n fin]] mseq_run [where m' = "DispatchBox _ _ _", OF d])
qed

lemma demux_end: "ptr s = fin \<Longrightarrow> DemuxHelper (Suc k) fin s = Inr ((), s)"
  by (simp add: mret_run)

section \<open>Payloads\<close>

definition sample_of :: "PendingSamplePayload \<Rightarrow> AampMediaSample" where
  "sample_of p = emptySample\<lparr>mData := Some (dataPtr p), mDataSize := unat (sampleLen p), mDts := pDts p,
     mPts := pPts p, mDuration := pDuration p, mIsKeyFrame := pIsKeyFrame p\<rparr>"

lemma process_loop_at:
  assumes "samples s = pre @ replicate (length xs) emptySample"
    and "mdatStart s \<le> p" and "p + int (length (concat (map w_data xs))) \<le> mdatEnd s"
    and "0 \<le> p" "mdatEnd s < 2 ^ 64"
    and "list_all (\<lambda>x. w_data x \<noteq> [] \<and> length (w_data x) < 2 ^ 32) xs"
  shows "process_loop (run_pending w ts (length pre) i p t xs) s =
    Inr ((), s\<lparr>samples := pre @ map sample_of (run_pending w ts (length pre) i p t xs)\<rparr>)"
  using assms
proof (induction xs arbitrary: s pre i p t)
  case Nil
  then show ?case by (simp add: mret_run)
next
  case (Cons x xs)
  let ?q = "hd (run_pending w ts (length pre) i p t (x # xs))"
  let ?s = "s\<lparr>samples := (pre @ [sample_of ?q]) @ replicate (length xs) emptySample\<rparr>"
  have len: "uint (of_nat (length (w_data x)) :: u32) = int (length (w_data x))" and "w_data x \<noteq> []"
    using Cons.prems(6) by (simp_all add: unsigned_of_nat take_bit_nat_eq_self)
  then have "0 < int (length (w_data x))" by simp
  then have in_mdat: "mdatStart s \<le> p" "p < mdatEnd s" "padd p (int (length (w_data x))) \<le> mdatEnd s"
    using Cons.prems(2-5) by (simp_all add: padd_small del: of_nat_0_less_iff length_greater_0_conv)
  have "process_pending ?q s = Inr ((), ?s)"
    using Cons.prems(1) in_mdat
    by (simp add: process_pending_def guard_if len UpdateSample_def nth_append list_update_append sample_of_def del: guard_run)
  moreover have "process_loop (run_pending w ts (length (pre @ [sample_of ?q])) (Suc i) (p + int (length (w_data x)))
      (t + ucast (run_duration w x)) xs) ?s =
      Inr ((), ?s\<lparr>samples := (pre @ [sample_of ?q]) @ map sample_of (run_pending w ts (length (pre @ [sample_of ?q])) (Suc i)
        (p + int (length (w_data x))) (t + ucast (run_duration w x)) xs)\<rparr>)"
    by (rule Cons.IH) (use Cons.prems in simp_all)
  ultimately show ?case by (simp add: mseq_run [where m' = "process_pending _"])
qed

section \<open>The fragment\<close>

definition writable :: "written_fragment \<Rightarrow> bool" where
  "writable w \<longleftrightarrow>
     uint (w_run_flags w) < 2 ^ 24 \<and> flag_set (w_run_flags w) TRUN_DATA_OFFSET_PRESENT \<and>
     list_all (\<lambda>x. size_agrees w x \<and> w_data x \<noteq> []) (w_samples w) \<and>
     length (write_fragment w) < 2 ^ 31"

lemma length_full_box [simp]: "length (full_box type v fl payload) = 12 + length payload"
  by (simp add: full_box_def)

lemma length_moof [simp]: "length (write_moof w off) = moof_size w"
  by (simp add: moof_size_def write_moof_def write_trun_def)

lemma length_trun: "length (write_trun w off) + 80 = moof_size w"
  by (simp add: moof_size_def write_moof_def write_tfhd_def write_tfdt_def write_trun_def)

lemma dispatch_fragment:
  "DispatchBox d (MultiChar_Constant ''mfhd'') next = SetPtr next"
  "DispatchBox d (MultiChar_Constant ''traf'') next = d next"
  "DispatchBox d (MultiChar_Constant ''tfhd'') next = ParseTrackFragmentHeader"
  "DispatchBox d (MultiChar_Constant ''tfdt'') next = ParseTrackFragmentDecodeTime"
  "DispatchBox d (MultiChar_Constant ''trun'') next = ParseTrackRun"
  "DispatchBox d (MultiChar_Constant ''mdat'') next = ParseMovieData next"
  by (simp_all add: DispatchBox_def one_of_def MultiChar_Constant_def)

text \<open>The members a track fragment sets.\<close>

definition after_traf :: "written_fragment \<Rightarrow> int \<Rightarrow> Mp4Demux \<Rightarrow> Mp4Demux" where
  "after_traf w p s = s\<lparr>version := 0, flags := w_run_flags w, trackId := w_track w,
     defaultSampleDuration := w_default_duration w, defaultSampleSize := w_default_size w,
     defaultSampleFlags := w_default_flags w, baseMediaDecodeTime := w_base_time w,
     samples := samples s @ replicate (length (w_samples w)) emptySample,
     mSampleInfo := mSampleInfo s @ run_pending w (timeScale s) (length (samples s)) 0 p (w_base_time w) (w_samples w)\<rparr>"

definition after_headers :: "written_fragment \<Rightarrow> Mp4Demux \<Rightarrow> Mp4Demux" where
  "after_headers w s = s\<lparr>ptr := ptr s + 48, version := 1, flags := 0, trackId := w_track w,
     defaultSampleDuration := w_default_duration w, defaultSampleSize := w_default_size w,
     defaultSampleFlags := w_default_flags w, baseMediaDecodeTime := w_base_time w\<rparr>"

lemma demux_tfhd_tfdt:
  assumes a: "facing b bs s (write_tfhd w @ write_tfdt w @ r)"
    and fin: "ptr s + 48 \<le> fin" "fin \<le> b + int (length bs)"
  shows "DemuxHelper (Suc (Suc k)) fin s = DemuxHelper k fin (after_headers w s)"
    and "facing b bs (after_headers w s) r"
proof -
  let ?p1 = "[0] @ be_bytes 3 (ucast (0x38 :: u32)) @ be32 (w_track w) @ be32 (w_default_duration w) @
     be32 (w_default_size w) @ be32 (w_default_flags w)"
  let ?p2 = "[1] @ be_bytes 3 (ucast (0 :: u32)) @ be64 (w_base_time w)"
  have b1: "facing b bs s (box ''tfhd'' ?p1 @ write_tfdt w @ r)"
    using a by (simp add: write_tfhd_def full_box_def)
  have h1: "facing b bs (s\<lparr>ptr := ptr s + 8\<rparr>) (?p1 @ write_tfdt w @ r)"
    by (rule ReadBoxHeader_at(2) [OF b1 _ _ fin(2)]) (use fin in simp_all)
  let ?s1 = "s\<lparr>ptr := ptr s + 28, version := 0, flags := 0x38, trackId := w_track w,
      defaultSampleDuration := w_default_duration w, defaultSampleSize := w_default_size w,
      defaultSampleFlags := w_default_flags w\<rparr>"
  have r1: "ParseTrackFragmentHeader (s\<lparr>ptr := ptr s + 8\<rparr>) = Inr ((), ?s1)"
    using ParseTrackFragmentHeader_at [of b bs "s\<lparr>ptr := ptr s + 8\<rparr>"] h1 by simp
  have e1: "DemuxHelper (Suc (Suc k)) fin s = DemuxHelper (Suc k) fin ?s1"
    by (rule demux_box [OF b1 _ _ fin(2)]) (use fin r1 in \<open>simp_all add: dispatch_fragment\<close>)
  have "facing b bs (s\<lparr>ptr := ptr s + 28\<rparr>) (write_tfdt w @ r)"
    using at_adv [OF h1, of 20] by (simp add: add.assoc)
  then have b2: "facing b bs ?s1 (box ''tfdt'' ?p2 @ r)"
    by (simp add: write_tfdt_def full_box_def)
  have h2: "facing b bs (?s1\<lparr>ptr := ptr ?s1 + 8\<rparr>) (?p2 @ r)"
    by (rule ReadBoxHeader_at(2) [OF b2 _ _ fin(2)]) (use fin in simp_all)
  have r2: "ParseTrackFragmentDecodeTime (?s1\<lparr>ptr := ptr ?s1 + 8\<rparr>) = Inr ((), after_headers w s)"
    using ParseTrackFragmentDecodeTime_at [of b bs "?s1\<lparr>ptr := ptr ?s1 + 8\<rparr>"] h2 by (simp add: after_headers_def)
  have "DemuxHelper (Suc k) fin ?s1 = DemuxHelper k fin (after_headers w s)"
    by (rule demux_box [OF b2 _ _ fin(2)]) (use fin r2 in \<open>simp_all add: dispatch_fragment add.assoc after_headers_def\<close>)
  with e1 show "DemuxHelper (Suc (Suc k)) fin s = DemuxHelper k fin (after_headers w s)" by simp
  show "facing b bs (after_headers w s) r"
    by (rule facing_fields [OF at_adv [OF h2, of 12]]) (simp_all add: after_headers_def)
qed

lemma demux_trun:
  assumes w: "uint (w_run_flags w) < 2 ^ 24" "flag_set (w_run_flags w) TRUN_DATA_OFFSET_PRESENT"
      "list_all (size_agrees w) (w_samples w)" "length (w_samples w) < 2 ^ 32" "length (write_trun w off) < 2 ^ 32"
    and a: "facing b bs s (write_trun w off @ r)"
    and fin: "fin = ptr s + int (length (write_trun w off))" "fin \<le> b + int (length bs)"
    and d: "defaultSampleDuration s = w_default_duration w" "defaultSampleSize s = w_default_size w"
      "defaultSampleFlags s = w_default_flags w" "baseMediaDecodeTime s = w_base_time w" "trackId s = w_track w"
    and p: "p = moofPtr s + sint off" "0 \<le> p" "p + int (length (concat (map w_data (w_samples w)))) < 2 ^ 64"
  shows "DemuxHelper (Suc (Suc k)) fin s = Inr ((), (after_traf w p s)\<lparr>ptr := fin\<rparr>)"
proof -
  let ?pl = "[0] @ be_bytes 3 (ucast (w_run_flags w)) @ be32 (of_nat (length (w_samples w))) @ be32 off @
      when_flag (w_run_flags w) TRUN_FIRST_SAMPLE_FLAGS_PRESENT (be32 (w_first_flags w)) @
      concat (map (write_entry (w_run_flags w)) (w_samples w))"
  have eq: "write_trun w off = box ''trun'' ?pl" by (simp add: write_trun_def full_box_def)
  have b1: "facing b bs s (box ''trun'' ?pl @ r)" using a unfolding eq .
  have len: "length (write_trun w off) = 8 + length ?pl" unfolding eq by simp
  have n: "8 + length ?pl < 2 ^ 32" using w(5) len by simp
  have f1: "ptr s + 8 + int (length ?pl) \<le> fin" and f2: "ptr s + 8 + int (length ?pl) = fin"
    using fin(1) unfolding len by simp_all
  have h: "facing b bs (s\<lparr>ptr := ptr s + 8\<rparr>) (?pl @ r)"
    by (rule ReadBoxHeader_at(2) [OF b1 n f1 fin(2)])
  let ?s = "s\<lparr>ptr := ptr s + 8\<rparr>"
  have "\<exists>m. ParseTrackRun ?s = Inr ((), ?s\<lparr>ptr := ptr ?s + m, version := 0, flags := w_run_flags w,
      samples := samples ?s @ replicate (length (w_samples w)) emptySample,
      mSampleInfo := mSampleInfo ?s @ run_pending w (timeScale ?s) (length (samples ?s)) 0 p (baseMediaDecodeTime ?s) (w_samples w)\<rparr>) \<and>
    facing b bs (?s\<lparr>ptr := ptr ?s + m\<rparr>) r"
    by (rule ParseTrackRun_at [OF _ w(1,2,4,3)]) (use h d p in simp_all)
  moreover have upd: "(after_traf w p s)\<lparr>ptr := x\<rparr> = ?s\<lparr>ptr := x, version := 0, flags := w_run_flags w,
      samples := samples ?s @ replicate (length (w_samples w)) emptySample,
      mSampleInfo := mSampleInfo ?s @ run_pending w (timeScale ?s) (length (samples ?s)) 0 p (baseMediaDecodeTime ?s) (w_samples w)\<rparr>" for x
    by (rule Mp4Demux.equality) (simp_all add: after_traf_def d)
  ultimately obtain m where r1: "ParseTrackRun ?s = Inr ((), (after_traf w p s)\<lparr>ptr := ptr s + 8 + m\<rparr>)"
    and a': "facing b bs (?s\<lparr>ptr := ptr ?s + m\<rparr>) r"
    unfolding upd by auto
  have m: "ptr s + 8 + m = fin"
    using at_len [OF a'] at_len [OF a] fin(1) by simp
  have "DemuxHelper (Suc (Suc k)) fin s = DemuxHelper (Suc k) fin ((after_traf w p s)\<lparr>ptr := fin\<rparr>)"
    by (rule demux_box [OF b1 n f1 fin(2)]) (use r1 m f2 in \<open>simp_all add: dispatch_fragment\<close>)
  then show ?thesis by (simp add: mret_run)
qed

lemma writable_size:
  assumes "writable w"
  shows "moof_size w + 8 + length (concat (map w_data (w_samples w))) < 2 ^ 31"
    and "length (write_trun w off) < 2 ^ 32" and "length (w_samples w) < 2 ^ 32"
proof -
  show t: "moof_size w + 8 + length (concat (map w_data (w_samples w))) < 2 ^ 31"
    using assms by (simp add: writable_def write_fragment_def write_mdat_def)
  then show "length (write_trun w off) < 2 ^ 32"
    using length_trun [of w off] by simp
  have "length xs \<le> length (concat (map w_data xs))" if "list_all (\<lambda>x. size_agrees w x \<and> w_data x \<noteq> []) xs" for xs
    using that by (induction xs) (auto simp: Suc_le_eq neq_Nil_conv)
  from this [of "w_samples w"] t assms show "length (w_samples w) < 2 ^ 32"
    by (simp add: writable_def)
qed

lemma demux_moof_children:
  assumes w: "writable w"
    and a: "facing b bs s (full_box ''mfhd'' 0 0 (be32 1) @ box ''traf'' (write_tfhd w @ write_tfdt w @ write_trun w off) @ r)"
    and fin: "fin = ptr s + int (moof_size w) - 8" "fin \<le> b + int (length bs)"
    and p: "p = moofPtr s + sint off" "0 \<le> p" "p + int (length (concat (map w_data (w_samples w)))) < 2 ^ 64"
  shows "DemuxHelper (Suc (Suc (Suc (Suc (Suc (Suc (Suc k))))))) fin s = Inr ((), (after_traf w p s)\<lparr>ptr := fin\<rparr>)"
proof -
  let ?tr = "write_tfhd w @ write_tfdt w @ write_trun w off"
  let ?mf = "[0] @ be_bytes 3 (ucast (0 :: u32)) @ be32 1"
  have lt: "8 + length ?tr + 16 + 8 = moof_size w"
    using length_trun [of w off] by (simp add: write_tfhd_def write_tfdt_def)
  have n: "8 + length ?tr < 2 ^ 32" using writable_size(1) [OF w] lt by simp
  have b1: "facing b bs s (box ''mfhd'' ?mf @ box ''traf'' ?tr @ r)"
    using a by (simp add: full_box_def)
  let ?s1 = "s\<lparr>ptr := ptr s + 16\<rparr>"
  have f1: "ptr s + 8 + int (length ?mf) \<le> fin" using fin(1) lt by simp
  have e1: "DemuxHelper (Suc (Suc (Suc (Suc (Suc (Suc (Suc k))))))) fin s = DemuxHelper (Suc (Suc (Suc (Suc (Suc (Suc k)))))) fin ?s1"
    by (rule demux_box [OF b1 _ f1 fin(2)]) (simp_all add: dispatch_fragment SetPtr_def mmod_run)
  have b2: "facing b bs ?s1 (box ''traf'' ?tr @ r)"
    by (rule at_adv [OF b1]) simp
  have f2: "ptr ?s1 + 8 + int (length ?tr) = fin" using fin(1) lt by (simp add: of_nat_diff)
  let ?s2 = "?s1\<lparr>ptr := ptr ?s1 + 8\<rparr>"
  have a2: "facing b bs ?s2 (?tr @ r)"
    by (rule ReadBoxHeader_at(2) [OF b2 n _ fin(2)]) (simp add: f2 [simplified])
  have a3: "facing b bs ?s2 (write_tfhd w @ write_tfdt w @ write_trun w off @ r)" using a2 by simp
  have f3: "ptr ?s2 + 48 \<le> fin" using f2 by (simp add: write_tfhd_def write_tfdt_def)
  note h = demux_tfhd_tfdt [OF a3 f3 fin(2)]
  let ?s3 = "after_headers w ?s2"
  have "DemuxHelper (Suc (Suc (Suc k))) fin ?s3 = Inr ((), (after_traf w p ?s3)\<lparr>ptr := fin\<rparr>)"
    by (rule demux_trun [OF _ _ _ writable_size(3) [OF w] writable_size(2) [OF w] h(2) _ fin(2)])
       (use w p f2 in \<open>auto simp: writable_def list_all_iff after_headers_def write_tfhd_def write_tfdt_def\<close>)
  moreover have "(after_traf w p ?s3)\<lparr>ptr := fin\<rparr> = (after_traf w p s)\<lparr>ptr := fin\<rparr>"
    by (rule Mp4Demux.equality) (simp_all add: after_traf_def after_headers_def)
  ultimately have "DemuxHelper (Suc (Suc (Suc (Suc (Suc k))))) fin ?s2 = Inr ((), (after_traf w p s)\<lparr>ptr := fin\<rparr>)"
    using h(1) [of "Suc (Suc (Suc k))"] by simp
  then have "DemuxHelper (Suc (Suc (Suc (Suc (Suc (Suc k)))))) fin ?s1 =
      DemuxHelper (Suc (Suc (Suc (Suc (Suc k))))) fin ((after_traf w p s)\<lparr>ptr := fin\<rparr>)"
    by (intro demux_box [OF b2 n _ fin(2)]) (use f2 in \<open>simp_all add: dispatch_fragment\<close>)
  with e1 show ?thesis by (simp add: mret_run)
qed

text \<open>Where the payloads of the fragment start.\<close>

definition payload_start :: "int \<Rightarrow> written_fragment \<Rightarrow> int" where
  "payload_start base w = base + int (moof_size w) + 8"

definition fragment_pending :: "int \<Rightarrow> u32 \<Rightarrow> written_fragment \<Rightarrow> PendingSamplePayload list" where
  "fragment_pending base ts w = run_pending w ts 0 0 (payload_start base w) (w_base_time w) (w_samples w)"

lemma demux_moof:
  assumes w: "writable w" and off: "off = of_nat (moof_size w + 8)"
    and a: "facing b bs s (write_moof w off @ write_mdat w)" and s: "ptr s = b" "samples s = []"
    and bs: "bs = write_fragment w" and b: "0 < b" "b + int (length bs) < 2 ^ 63"
  obtains t where "\<forall>k. DemuxHelper (k + 8) (b + int (length bs)) s = DemuxHelper (k + 7) (b + int (length bs)) t"
    and "facing b bs t (write_mdat w)" and "ptr t = payload_start b w - 8"
    and "samples t = replicate (length (w_samples w)) emptySample"
    and "mSampleInfo t = fragment_pending b (timeScale s) w"
proof -
  let ?pl = "full_box ''mfhd'' 0 0 (be32 1) @ box ''traf'' (write_tfhd w @ write_tfdt w @ write_trun w off)"
  let ?fin = "b + int (length bs)"
  have eq: "write_moof w off = box ''moof'' ?pl" by (simp add: write_moof_def)
  have len: "8 + length ?pl = moof_size w" using length_moof [of w off] unfolding eq by simp
  have b1: "facing b bs s (box ''moof'' ?pl @ write_mdat w)" using a unfolding eq .
  have n: "8 + length ?pl < 2 ^ 32" using writable_size(1) [OF w] len by simp
  have tot: "length bs = moof_size w + 8 + length (concat (map w_data (w_samples w)))"
    using bs by (simp add: write_fragment_def write_mdat_def)
  have f1: "ptr s + 8 + int (length ?pl) \<le> ?fin" using s len tot by simp
  have h: "facing b bs (s\<lparr>ptr := ptr s + 8\<rparr>) (?pl @ write_mdat w)"
    by (rule ReadBoxHeader_at(2) [OF b1 n f1 order_refl])
  let ?s1 = "(s\<lparr>ptr := ptr s + 8\<rparr>)\<lparr>moofPtr := b, sampleOffset := 0, gotAuxiliaryInformationOffset := False,
      cencAuxInfoSizes := [], sencPresent := False, mSampleInfo := []\<rparr>"
  have start: "StartFragment (s\<lparr>ptr := ptr s + 8\<rparr>) = Inr ((), ?s1)"
    using s b by (simp add: StartFragment_def mmod_run padd_small)
  have a1: "facing b bs ?s1 (full_box ''mfhd'' 0 0 (be32 1) @ box ''traf'' (write_tfhd w @ write_tfdt w @ write_trun w off) @ write_mdat w)"
    using facing_fields [OF h, of ?s1] by simp
  let ?t = "(after_traf w (payload_start b w) ?s1)\<lparr>ptr := b + int (moof_size w)\<rparr>"
  have so: "sint off = int (moof_size w + 8)"
    using writable_size(1) [OF w] unfolding off by (simp add: signed_of_nat signed_take_bit_int_eq_self del: of_nat_add)
  have ch: "DemuxHelper (k + 7) (b + int (moof_size w)) ?s1 = Inr ((), ?t)" for k
  proof -
    have "DemuxHelper (Suc (Suc (Suc (Suc (Suc (Suc (Suc k))))))) (b + int (moof_size w)) ?s1 = Inr ((), ?t)"
      by (rule demux_moof_children [OF w a1]) (use s b tot so in \<open>simp_all add: payload_start_def\<close>)
    then show ?thesis by (simp add: numeral_eq_Suc)
  qed
  show thesis
  proof (rule that [of ?t])
    have "ParseMovieFragment (DemuxHelper (k + 7)) (b + int (moof_size w)) (s\<lparr>ptr := ptr s + 8\<rparr>) = Inr ((), ?t)" for k
      using ch [of k] start
      by (simp add: ParseMovieFragment_def mseq_run [where m' = StartFragment] mseq_run [where m' = "DemuxHelper _ _"] mret_run
          after_traf_def del: DemuxHelper.simps)
    then have d: "DispatchBox (DemuxHelper (k + 7)) (MultiChar_Constant ''moof'') (ptr s + 8 + int (length ?pl)) (s\<lparr>ptr := ptr s + 8\<rparr>) = Inr ((), ?t)" for k
      using s len by (simp add: DispatchBox_moof add.assoc flip: len)
    show "\<forall>k. DemuxHelper (k + 8) ?fin s = DemuxHelper (k + 7) ?fin ?t"
    proof
      fix k
      have "DemuxHelper (Suc (k + 7)) ?fin s = DemuxHelper (k + 7) ?fin ?t"
        by (rule demux_box [OF b1 n f1 order_refl d]) (use s len in simp)
      then show "DemuxHelper (k + 8) ?fin s = DemuxHelper (k + 7) ?fin ?t"
        by (simp add: add_Suc_right [symmetric] del: DemuxHelper.simps)
    qed
    show "facing b bs ?t (write_mdat w)"
    proof -
      have "facing b bs (s\<lparr>ptr := ptr s + int (moof_size w)\<rparr>) (write_mdat w)"
        by (rule at_adv [OF a]) simp
      then show ?thesis by (rule facing_fields) (simp_all add: after_traf_def s)
    qed
  qed (use s in \<open>simp_all add: after_traf_def payload_start_def fragment_pending_def\<close>)
qed

lemma demux_mdat:
  assumes w: "writable w" and a: "facing b bs s (write_mdat w)" and p: "ptr s = payload_start b w - 8"
    and smp: "samples s = replicate (length (w_samples w)) emptySample"
    and pend: "mSampleInfo s = fragment_pending b ts w" and b: "0 < b" "b + int (length bs) < 2 ^ 63"
  obtains t where "DemuxHelper (Suc (Suc k)) (b + int (length bs)) s = Inr ((), t)"
    and "samples t = map sample_of (fragment_pending b ts w)"
proof -
  let ?pl = "concat (map w_data (w_samples w))" and ?fin = "b + int (length bs)"
  have b1: "facing b bs s (box ''mdat'' ?pl @ [])" using a by (simp add: write_mdat_def)
  have f: "ptr s + 8 + int (length ?pl) = ?fin" using at_len [OF a] by (simp add: write_mdat_def)
  have n: "8 + length ?pl < 2 ^ 32" using writable_size(1) [OF w] by simp
  let ?s = "s\<lparr>ptr := ptr s + 8, mdatStart := ptr s + 8, mdatEnd := ?fin\<rparr>"
  let ?t = "?s\<lparr>samples := map sample_of (fragment_pending b ts w), mSampleInfo := [], ptr := ?fin\<rparr>"
  have "process_loop (run_pending w ts (length ([] :: AampMediaSample list)) 0 (payload_start b w) (w_base_time w) (w_samples w)) ?s =
      Inr ((), ?s\<lparr>samples := [] @ map sample_of (run_pending w ts (length ([] :: AampMediaSample list)) 0 (payload_start b w) (w_base_time w) (w_samples w))\<rparr>)"
    by (rule process_loop_at)
       (use w p f b smp in \<open>auto simp: writable_def list_all_iff size_agrees_def payload_start_def\<close>)
  then have loop: "process_loop (fragment_pending b ts w) ?s = Inr ((), ?s\<lparr>samples := map sample_of (fragment_pending b ts w)\<rparr>)"
    by (simp add: fragment_pending_def)
  have "0 < ptr s + 8" "0 < ?fin" using p b by (simp_all add: payload_start_def)
  then have "ParseMovieData ?fin (s\<lparr>ptr := ptr s + 8\<rparr>) = Inr ((), ?t)"
    using pend loop
    by (simp add: ParseMovieData_def ProcessSamples_def guard_if mseq_run [where m' = "process_loop _"] mseq_def [of "mseq _ _"]
        mbind_def [of "mseq _ _"] mmod_run SetPtr_def del: guard_run)
  then have "DemuxHelper (Suc (Suc k)) ?fin s = DemuxHelper (Suc k) ?fin ?t"
    by (intro demux_box [OF b1 n _ order_refl]) (simp_all add: dispatch_fragment f del: DemuxHelper.simps)
  then show thesis by (intro that [of ?t]) (simp_all add: mret_run)
qed

definition fragment_sample :: "int \<Rightarrow> u32 \<Rightarrow> written_fragment \<Rightarrow> nat \<Rightarrow> AampMediaSample" where
  "fragment_sample base ts w i =
     (let x = w_samples w ! i;
          before = take i (w_samples w);
          t = w_base_time w + sum_list (map (\<lambda>y. ucast (run_duration w y)) before)
      in emptySample\<lparr>mData := Some (payload_start base w + int (length (concat (map w_data before)))),
           mDataSize := length (w_data x),
           mDts := ticks_to_seconds (uint t) ts,
           mPts := ticks_to_seconds (uint (t + word_of_int (run_cto w x))) ts,
           mDuration := ticks_to_seconds (uint (run_duration w x)) ts,
           mIsKeyFrame := (and (run_flags w i x) 0x00010000 = 0)\<rparr>)"

lemma length_run_pending [simp]: "length (run_pending w ts n i p t xs) = length xs"
  by (induction xs arbitrary: n i p t) simp_all

lemma run_pending_nth:
  "j < length xs \<Longrightarrow> run_pending w ts n i p t xs ! j =
     \<lparr>dataPtr = p + int (length (concat (map w_data (take j xs)))),
      sampleLen = of_nat (length (w_data (xs ! j))), sampleIdx = n + j,
      pDts = ticks_to_seconds (uint (t + sum_list (map (\<lambda>y. ucast (run_duration w y)) (take j xs)))) ts,
      pPts = ticks_to_seconds (uint (t + sum_list (map (\<lambda>y. ucast (run_duration w y)) (take j xs)) + word_of_int (run_cto w (xs ! j)))) ts,
      pDuration = ticks_to_seconds (uint (run_duration w (xs ! j))) ts,
      pIsKeyFrame = (and (run_flags w (i + j) (xs ! j)) 0x00010000 = 0)\<rparr>"
proof (induction xs arbitrary: n i p t j)
  case (Cons x xs)
  then show ?case by (cases j) (simp_all add: add.assoc)
qed simp

lemma fragment_samples:
  assumes "writable w"
  shows "map sample_of (fragment_pending base ts w) = map (fragment_sample base ts w) [0..<length (w_samples w)]"
proof (rule nth_equalityI)
  fix i assume "i < length (map sample_of (fragment_pending base ts w))"
  then have i: "i < length (w_samples w)" by (simp add: fragment_pending_def)
  then have "length (w_data (w_samples w ! i)) < 2 ^ 32"
    using assms by (auto simp: writable_def list_all_length size_agrees_def)
  then show "map sample_of (fragment_pending base ts w) ! i = map (fragment_sample base ts w) [0..<length (w_samples w)] ! i"
    using i by (simp add: fragment_pending_def run_pending_nth sample_of_def fragment_sample_def Let_def unsigned_of_nat take_bit_nat_eq_self)
qed (simp add: fragment_pending_def)

text \<open>The bytes a sample's data pointer and size delimit.\<close>

definition sample_payload :: "int \<Rightarrow> u8 list \<Rightarrow> AampMediaSample \<Rightarrow> u8 list" where
  "sample_payload base bs a =
     (case mData a of None \<Rightarrow> [] | Some p \<Rightarrow> take (mDataSize a) (drop (nat (p - base)) bs))"

lemma concat_nth_slice:
  "i < length xss \<Longrightarrow> take (length (xss ! i)) (drop (length (concat (take i xss))) (concat xss)) = xss ! i"
  by (induction xss arbitrary: i) (auto simp: nth_Cons take_Cons split: nat.splits)

lemma fragment_payloads:
  "map (sample_payload base (write_fragment w)) (map (fragment_sample base ts w) [0..<length (w_samples w)]) =
     map w_data (w_samples w)"
proof (rule nth_equalityI)
  fix i assume "i < length (map (sample_payload base (write_fragment w)) (map (fragment_sample base ts w) [0..<length (w_samples w)]))"
  then have i: "i < length (w_samples w)" by simp
  have "drop (moof_size w + 8) (write_fragment w) = concat (map w_data (w_samples w))"
    by (simp add: write_fragment_def write_mdat_def box_def)
  then have "drop (moof_size w + 8 + n) (write_fragment w) = drop n (concat (map w_data (w_samples w)))" for n
    by (simp only: drop_drop [symmetric] add.commute [of "moof_size w + 8"])
  moreover have "nat (payload_start base w + int n - base) = moof_size w + 8 + n" for n
    by (simp add: payload_start_def)
  ultimately show "map (sample_payload base (write_fragment w)) (map (fragment_sample base ts w) [0..<length (w_samples w)]) ! i =
      map w_data (w_samples w) ! i"
    using i concat_nth_slice [of i "map w_data (w_samples w)"]
    by (simp add: sample_payload_def fragment_sample_def Let_def take_map)
qed simp

lemma parse_fragment:
  assumes "writable w" and "0 < base" and "base + int (length (write_fragment w)) < 2 ^ 63" and "8 \<le> fuel"
  shows "\<exists>t. Parse fuel now ms (Some (base, write_fragment w)) s = Inr (True, t) \<and>
    samples t = map (fragment_sample base (timeScale s) w) [0..<length (w_samples w)] \<and>
    map (sample_payload base (write_fragment w)) (samples t) = map w_data (w_samples w)"
proof -
  let ?bs = "write_fragment w" and ?r = "ResetForSegment base (write_fragment w) s"
  have "0 < length ?bs" by (simp add: write_fragment_def write_mdat_def)
  then have ne: "?bs \<noteq> []" by auto
  have a: "facing base ?bs ?r (write_moof w (of_nat (moof_size w + 8)) @ write_mdat w)"
    using assms by (simp add: facing_def located_def ahead_def ResetForSegment_def write_fragment_def)
  have r: "ptr ?r = base" "samples ?r = []" "timeScale ?r = timeScale s"
    by (simp_all add: ResetForSegment_def)
  obtain t where t: "\<forall>k. DemuxHelper (k + 8) (base + int (length ?bs)) ?r = DemuxHelper (k + 7) (base + int (length ?bs)) t"
    "facing base ?bs t (write_mdat w)" "ptr t = payload_start base w - 8"
    "samples t = replicate (length (w_samples w)) emptySample"
    "mSampleInfo t = fragment_pending base (timeScale ?r) w"
    by (rule demux_moof [OF assms(1) refl a r(1,2) refl assms(2,3)])
  obtain u where u: "DemuxHelper (Suc (Suc (fuel - 8 + 5))) (base + int (length ?bs)) t = Inr ((), u)"
    "samples u = map sample_of (fragment_pending base (timeScale ?r) w)"
    by (rule demux_mdat [OF assms(1) t(2-5) assms(2,3)])
  have "fuel - 8 + 8 = fuel" and "Suc (Suc (fuel - 8 + 5)) = fuel - 8 + 7" using assms(4) by simp_all
  then have "DemuxHelper fuel (base + int (length ?bs)) ?r = Inr ((), u)"
    using t(1) [rule_format, of "fuel - 8"] u(1) by metis
  then have "Parse fuel now ms (Some (base, ?bs)) s =
      Inr (True, (RecordSegment now ms (ForceEncrypted u))\<lparr>mCurrentSegment := None\<rparr>)"
    using ne by (simp add: Parse_def)
  then show ?thesis
    using u(2) fragment_samples [OF assms(1), of base "timeScale s"] fragment_payloads [of base w "timeScale s"] r(3) by auto
qed

text \<open>
  C5: a fragment written as ISO 14496-12 prescribes is parsed into its samples. Whatever optional
  fields the track run has, and whatever the demultiplexer parsed before, \<open>Parse\<close> succeeds and yields
  one sample for each sample of the run, in order: its payload is the sample's, its decode time is
  the fragment's base time plus the durations of the samples before it, its presentation time is
  shifted by the composition offset, fields missing from the run come from the defaults of \<open>tfhd\<close> (or,
  for the flags of the first sample, from the run), and it is a key frame when bit 16 of its flags is
  clear.
\<close>

theorem mp4_fragment_roundtrip:
  assumes "writable w" and "0 < base" and "base + int (length (write_fragment w)) < 2 ^ 63" and "8 \<le> fuel"
  shows "\<exists>t. Parse fuel now ms (Some (base, write_fragment w)) s = Inr (True, t) \<and>
    samples t = map (fragment_sample base (timeScale s) w) [0..<length (w_samples w)] \<and>
    map (sample_payload base (write_fragment w)) (samples t) = map w_data (w_samples w)"
  using assms by (rule parse_fragment)

text \<open>A fragment of three samples with per-sample durations, sizes and composition offsets, in ticks of 1/90000 second.\<close>

definition three_samples :: written_fragment where
  "three_samples = \<lparr>w_track = 1, w_base_time = 900000, w_default_duration = 3000, w_default_size = 0,
     w_default_flags = 0x01010000, w_run_flags = 0x000b05, w_first_flags = 0x02000000,
     w_samples =
      [\<lparr>w_duration = 3000, w_flags = 0, w_cto = 6000, w_data = [1, 2, 3]\<rparr>,
       \<lparr>w_duration = 3003, w_flags = 0, w_cto = 0, w_data = [4]\<rparr>,
       \<lparr>w_duration = 3000, w_flags = 0, w_cto = - 3000, w_data = [5, 6]\<rparr>]\<rparr>"

lemma three_samples_writable: "writable three_samples"
  by (simp add: writable_def three_samples_def flag_set_def mp4_consts size_agrees_def write_fragment_def
      write_mdat_def moof_size_def write_moof_def write_tfhd_def write_tfdt_def write_trun_def write_entry_def when_flag_def)

theorem mp4_fragment_roundtrip_witness:
  "\<exists>t. Parse 8 0 0 (Some (4096, write_fragment three_samples)) ((mkMp4Demux 0)\<lparr>timeScale := 90000\<rparr>) = Inr (True, t) \<and>
    samples t = map (fragment_sample 4096 90000 three_samples) [0..<3] \<and>
    map (sample_payload 4096 (write_fragment three_samples)) (samples t) = [[1, 2, 3], [4], [5, 6]]"
proof -
  have "base + int (length (write_fragment three_samples)) < 2 ^ 63" if "base = 4096" for base
    using three_samples_writable that by (simp add: writable_def)
  moreover have "length (w_samples three_samples) = 3" "map w_data (w_samples three_samples) = [[1, 2, 3], [4], [5, 6]]"
    by (simp_all add: three_samples_def)
  ultimately show ?thesis
    using mp4_fragment_roundtrip [OF three_samples_writable, of 4096 8 0 0 "(mkMp4Demux 0)\<lparr>timeScale := 90000\<rparr>"]
    by simp
qed

end
