(* ===== verification/Mp4_Sender.thy ===== *)
theory Mp4_Sender
  imports Mp4_Fragment
begin

text \<open>
  The media processor that feeds demultiplexed MP4 samples to the player
  (\<open>src/mp4demux/AampMp4Demuxer.cpp\<close>): \<open>sendSegment\<close> parses a segment and passes its samples on, with
  their presentation times shifted by the fragment's offset or, in trick play, restamped onto a
  timeline of its own. What it hands to \<open>PrivateInstanceAAMP\<close> is recorded as a list of calls.
\<close>

datatype Mp4TrickPhase = FIRST_SAMPLE | DISCONTINUITY | STEADY

record AampMp4Demuxer =
  mMp4Demux :: Mp4Demux
  mEnablePtsRestamp :: bool
  mTrickPlayFPS :: int
  mRate :: rat
  mIsTrickMode :: bool
  mLastSamplePts :: sec_double
  mRestampedPts :: sec_double
  mTrickPhase :: Mp4TrickPhase
  mLastTrickRate :: rat
  mRestampedDuration :: sec_double

datatype player_call = SendStreamTransfer AampMediaSample | SetStreamCaps MediaCodecInfo

definition TRICKPLAY_VOD_PLAYBACK_FPS :: int where
  "TRICKPLAY_VOD_PLAYBACK_FPS = 4"

definition AAMP_NORMAL_PLAY_RATE :: rat where
  "AAMP_NORMAL_PLAY_RATE = 1"

definition mkAampMp4Demuxer :: "int \<Rightarrow> bool \<Rightarrow> AampMp4Demuxer" where
  "mkAampMp4Demuxer now enablePtsRestamp =
     \<lparr>mMp4Demux = mkMp4Demux now, mEnablePtsRestamp = enablePtsRestamp, mTrickPlayFPS = 0, mRate = 1,
      mIsTrickMode = False, mLastSamplePts = Some 0, mRestampedPts = Some 0, mTrickPhase = FIRST_SAMPLE,
      mLastTrickRate = 0, mRestampedDuration = Some 0\<rparr>"

definition setFrameRateForTM :: "int \<Rightarrow> AampMp4Demuxer \<Rightarrow> AampMp4Demuxer" where
  "setFrameRateForTM frameRate m =
     m\<lparr>mTrickPlayFPS := (if frameRate \<le> 0 then TRICKPLAY_VOD_PLAYBACK_FPS else frameRate)\<rparr>"

definition resetTrickMode :: "AampMp4Demuxer \<Rightarrow> AampMp4Demuxer" where
  "resetTrickMode m = m\<lparr>mTrickPhase := FIRST_SAMPLE, mLastSamplePts := Some 0, mRestampedPts := Some 0,
     mRestampedDuration := Some 0, mLastTrickRate := 0\<rparr>"

definition setRate :: "rat \<Rightarrow> AampMp4Demuxer \<Rightarrow> AampMp4Demuxer" where
  "setRate rate m =
     (let m = (if mRate m \<noteq> rate then (resetTrickMode m)\<lparr>mLastTrickRate := rate\<rparr> else m)
      in m\<lparr>mRate := rate, mIsTrickMode := (rate > AAMP_NORMAL_PLAY_RATE \<or> rate < 0)\<rparr>)"

definition abort :: "AampMp4Demuxer \<Rightarrow> AampMp4Demuxer" where
  "abort m = m\<lparr>mTrickPhase := FIRST_SAMPLE, mLastSamplePts := Some 0, mRestampedPts := Some 0,
     mRestampedDuration := Some 0, mLastTrickRate := 0\<rparr>"

definition reset :: "AampMp4Demuxer \<Rightarrow> AampMp4Demuxer" where
  "reset m = resetTrickMode m"

definition HandleTrickModeDiscontinuity :: "AampMp4Demuxer \<Rightarrow> AampMp4Demuxer" where
  "HandleTrickModeDiscontinuity m =
     (if mTrickPhase m = STEADY
      then m\<lparr>mRestampedPts := sec_add (mRestampedPts m) (mRestampedDuration m), mTrickPhase := DISCONTINUITY\<rparr>
      else m)"

definition sec_quot :: "sec_double \<Rightarrow> rat \<Rightarrow> sec_double" where
  "sec_quot a r = (if r = 0 then None else map_option (\<lambda>x. x / r) a)"

fun sec_distance :: "sec_double \<Rightarrow> sec_double \<Rightarrow> sec_double" where
  "sec_distance (Some a) (Some b) = Some \<bar>a - b\<bar>"
| "sec_distance _ _ = None"

text \<open>
  \<open>MAX(duration / fabs(mRate), 1.0 / mTrickPlayFPS)\<close>; the quotients are not finite for a zero rate or a
  zero frame rate, and neither is the larger of the two then.
\<close>

fun sec_max :: "sec_double \<Rightarrow> sec_double \<Rightarrow> sec_double" where
  "sec_max (Some a) (Some b) = Some (max a b)"
| "sec_max _ _ = None"

definition TrickmodePtsRestamp :: "AampMediaSample \<Rightarrow> rat \<Rightarrow> AampMp4Demuxer \<Rightarrow> AampMediaSample \<times> AampMp4Demuxer" where
  "TrickmodePtsRestamp sample dur m =
     (let (restampedDuration, m) =
        (case mTrickPhase m of
           FIRST_SAMPLE \<Rightarrow>
             let d = sec_max (sec_quot (Some dur) \<bar>mRate m\<bar>) (sec_quot (Some 1) (of_int (mTrickPlayFPS m)))
             in (d, m\<lparr>mRestampedDuration := d, mRestampedPts := Some 0, mTrickPhase := STEADY\<rparr>)
         | DISCONTINUITY \<Rightarrow> (mRestampedDuration m, m\<lparr>mTrickPhase := STEADY\<rparr>)
         | STEADY \<Rightarrow>
             let d = sec_quot (sec_distance (mPts sample) (mLastSamplePts m)) \<bar>mRate m\<bar>
             in (d, m\<lparr>mRestampedDuration := d, mRestampedPts := sec_add (mRestampedPts m) d\<rparr>));
          m = m\<lparr>mLastSamplePts := mPts sample\<rparr>
      in (sample\<lparr>mPts := mRestampedPts m, mDts := mRestampedPts m, mDuration := restampedDuration\<rparr>, m))"

definition offsetSample :: "rat \<Rightarrow> AampMediaSample \<Rightarrow> AampMediaSample" where
  "offsetSample off a = a\<lparr>mPts := sec_add (mPts a) (Some off), mDts := sec_add (mDts a) (Some off)\<rparr>"

text \<open>
  \<open>sendSegment\<close>: the result, the calls made and the new state, or the outcome of a parse that does not
  return. \<open>base\<close> is the address of the segment's buffer.
\<close>

definition sendSegment ::
    "nat \<Rightarrow> int \<Rightarrow> rat \<Rightarrow> int \<Rightarrow> u8 list \<Rightarrow> rat \<Rightarrow> rat \<Rightarrow> bool \<Rightarrow> bool \<Rightarrow> AampMp4Demuxer \<Rightarrow>
     mp4_exn + bool \<times> player_call list \<times> AampMp4Demuxer" where
  "sendSegment fuel now ms base buffer dur fragmentPTSoffset discontinuous isInit m =
     (if buffer = [] then Inr (False, [], m)
      else case Parse fuel now ms (Some (base, buffer)) (mMp4Demux m) of
        Inl e \<Rightarrow> Inl e
      | Inr (ok, d) \<Rightarrow>
          let m = m\<lparr>mMp4Demux := d\<rparr> in
          if \<not> ok then Inr (False, [], m)
          else
            let (xs, d) = GetSamples d; m = m\<lparr>mMp4Demux := d\<rparr> in
            if xs \<noteq> [] then
              if mIsTrickMode m then
                let (iframe, m) = TrickmodePtsRestamp (hd xs) dur m
                in Inr (True, [SendStreamTransfer iframe], m)
              else
                Inr (True, map (\<lambda>a. SendStreamTransfer
                       (if mEnablePtsRestamp m then offsetSample fragmentPTSoffset a else a)) xs, m)
            else
              let (info, d) = GetCodecInfo d; m = m\<lparr>mMp4Demux := d\<rparr> in
              if mCodecFormat info \<noteq> GST_FORMAT_INVALID \<and> mCodecFormat info \<noteq> GST_FORMAT_UNKNOWN then
                Inr (True, [SetStreamCaps info],
                     if mIsTrickMode m \<and> isInit \<and> discontinuous then HandleTrickModeDiscontinuity m else m)
              else Inr (False, [], m))"

definition getPTSRestampStatus :: "AampMp4Demuxer \<Rightarrow> bool" where
  "getPTSRestampStatus m = mEnablePtsRestamp m"

section \<open>The trick play timeline\<close>

text \<open>What reaches the restamping in trick play: the key frames, and the marks of discontinuous initialization segments.\<close>

datatype trick_input = Frame AampMediaSample rat | Discontinuity

fun trick_run :: "trick_input list \<Rightarrow> AampMp4Demuxer \<Rightarrow> AampMediaSample list" where
  "trick_run [] m = []"
| "trick_run (Frame a dur # es) m =
     (let (b, m') = TrickmodePtsRestamp a dur m in b # trick_run es m')"
| "trick_run (Discontinuity # es) m = trick_run es (HandleTrickModeDiscontinuity m)"

text \<open>
  The intended timeline: the first frame is at 0; from one frame to the next it advances by the
  distance of their original times divided by the speed, or, across a discontinuity, by the duration
  of the frame before it.
\<close>

fun trick_spec :: "rat \<Rightarrow> trick_input list \<Rightarrow> rat \<Rightarrow> rat \<Rightarrow> rat \<Rightarrow> bool \<Rightarrow> (rat \<times> rat) list" where
  "trick_spec r [] t p d disc = []"
| "trick_spec r (Frame a dur # es) t p d disc =
     (let q = the (mPts a);
          d' = (if disc then d else \<bar>q - p\<bar> / \<bar>r\<bar>);
          t' = t + d'
      in (t', d') # trick_spec r es t' q d' False)"
| "trick_spec r (Discontinuity # es) t p d disc = trick_spec r es t p d True"

definition finite_frames :: "trick_input list \<Rightarrow> bool" where
  "finite_frames es \<longleftrightarrow> list_all (\<lambda>e. case e of Frame a dur \<Rightarrow> mPts a \<noteq> None \<and> dur \<ge> 0 | Discontinuity \<Rightarrow> True) es"

definition timeline :: "AampMediaSample list \<Rightarrow> (sec_double \<times> sec_double \<times> sec_double) list" where
  "timeline xs = map (\<lambda>a. (mPts a, mDts a, mDuration a)) xs"

definition on_track :: "rat \<Rightarrow> rat \<Rightarrow> rat \<Rightarrow> bool \<Rightarrow> rat \<Rightarrow> AampMp4Demuxer \<Rightarrow> bool" where
  "on_track t p d disc r m \<longleftrightarrow>
     mRate m = r \<and> r \<noteq> 0 \<and> mLastSamplePts m = Some p \<and> mRestampedDuration m = Some d \<and>
     (if disc then mTrickPhase m = DISCONTINUITY \<and> mRestampedPts m = Some (t + d)
      else mTrickPhase m = STEADY \<and> mRestampedPts m = Some t)"

lemma trick_run_on_track:
  "on_track t p d disc r m \<Longrightarrow> finite_frames es \<Longrightarrow>
   timeline (trick_run es m) = map (\<lambda>(t, d). (Some t, Some t, Some d)) (trick_spec r es t p d disc)"
proof (induction es arbitrary: t p d disc m)
  case Nil
  then show ?case by (simp add: timeline_def)
next
  case (Cons e es)
  show ?case
  proof (cases e)
    case (Frame a dur)
    obtain q where q: "mPts a = Some q" and f: "finite_frames es"
      using Cons.prems(2) by (auto simp: Frame finite_frames_def)
    let ?d = "if disc then d else \<bar>q - p\<bar> / \<bar>r\<bar>"
    obtain b m' where s: "TrickmodePtsRestamp a dur m = (b, m')" by fastforce
    have m': "on_track (t + ?d) q ?d False r m'" and b: "mPts b = Some (t + ?d)" "mDts b = Some (t + ?d)" "mDuration b = Some ?d"
      using s Cons.prems(1) q
      by (auto simp: TrickmodePtsRestamp_def on_track_def sec_quot_def Let_def split: if_splits)
    show ?thesis
      using Cons.IH [OF m' f] b s q by (simp add: Frame timeline_def Let_def)
  next
    case Discontinuity
    have "on_track t p d True r (HandleTrickModeDiscontinuity m)"
      using Cons.prems(1) by (auto simp: on_track_def HandleTrickModeDiscontinuity_def split: if_splits)
    moreover have "finite_frames es" using Cons.prems(2) by (simp add: Discontinuity finite_frames_def)
    ultimately show ?thesis using Cons.IH [of t p d True "HandleTrickModeDiscontinuity m"] by (simp add: Discontinuity)
  qed
qed

lemma trick_spec_steps:
  "r \<noteq> 0 \<Longrightarrow> 0 \<le> d \<Longrightarrow> list_all (\<lambda>(t', d'). t \<le> t' \<and> 0 \<le> d') (trick_spec r es t p d disc) \<and>
   sorted (map fst (trick_spec r es t p d disc))"
proof (induction es arbitrary: t p d disc)
  case (Cons e es)
  show ?case
  proof (cases e)
    case (Frame a dur)
    define D where "D = (if disc then d else \<bar>the (mPts a) - p\<bar> / \<bar>r\<bar>)"
    let ?L = "trick_spec r es (t + D) (the (mPts a)) D False"
    have D: "0 \<le> D" using Cons.prems by (simp add: D_def)
    note IH = Cons.IH [OF Cons.prems(1) D, of "t + D" "the (mPts a)" False]
    have "list_all (\<lambda>(t', d'). t \<le> t' \<and> 0 \<le> d') ?L"
      using IH D by (auto elim!: list.pred_mono_strong intro: order_trans [of t "t + D"])
    with IH D show ?thesis
      by (auto simp: Frame Let_def D_def [symmetric] list_all_iff)
  next
    case Discontinuity
    then show ?thesis using Cons by simp
  qed
qed simp



text \<open>
  Without a call of \<open>setFrameRateForTM\<close> the frame rate is 0: the first frame gets a duration that is
  not finite, and a discontinuity carries it into the timeline.
\<close>

lemma trick_frame_rate_unset:
  "timeline (trick_run [Frame a 2, Discontinuity, Frame c 2] (setRate 4 (mkAampMp4Demuxer 0 False))) =
     [(Some 0, Some 0, None), (None, None, None)]"
  by (simp add: timeline_def TrickmodePtsRestamp_def HandleTrickModeDiscontinuity_def setRate_def resetTrickMode_def
      mkAampMp4Demuxer_def sec_quot_def Let_def)

section \<open>Sending a fragment\<close>

text \<open>
  C28: end to end, in normal play: a fragment written as prescribed reaches the player as its
  samples, in order, each with its payload's address, its times and its key frame mark; where
  restamping is enabled, presentation and decode times are shifted by the fragment's offset and
  nothing else changes. The samples are moved out of the demultiplexer.
\<close>

theorem send_fragment:
  assumes "writable w" and "w_samples w \<noteq> []" and "0 < base" and "base + int (length (write_fragment w)) < 2 ^ 63"
    and "8 \<le> fuel" and "\<not> mIsTrickMode m"
  shows "\<exists>m'. sendSegment fuel now ms base (write_fragment w) dur off discontinuous isInit m =
      Inr (True, map (\<lambda>i. SendStreamTransfer
        ((if mEnablePtsRestamp m then offsetSample off else id) (fragment_sample base (timeScale (mMp4Demux m)) w i)))
        [0..<length (w_samples w)], m') \<and>
    samples (mMp4Demux m') = [] \<and> mRestampedPts m' = mRestampedPts m"
proof -
  obtain t where t: "Parse fuel now ms (Some (base, write_fragment w)) (mMp4Demux m) = Inr (True, t)"
    "samples t = map (fragment_sample base (timeScale (mMp4Demux m)) w) [0..<length (w_samples w)]"
    using parse_fragment [OF assms(1,3,4,5)] by blast
  have "0 < length (write_fragment w)" by (simp add: write_fragment_def write_mdat_def)
  then have "write_fragment w \<noteq> []" by auto
  then show ?thesis
    using t assms(2,6) by (simp add: sendSegment_def GetSamples_def Let_def comp_def)
qed

theorem send_fragment_witness:
  "\<exists>m'. sendSegment 8 0 0 4096 (write_fragment three_samples) 1 7 False False
        ((mkAampMp4Demuxer 0 True)\<lparr>mMp4Demux := (mkMp4Demux 0)\<lparr>timeScale := 90000\<rparr>\<rparr>) =
      Inr (True, map (\<lambda>i. SendStreamTransfer (offsetSample 7 (fragment_sample 4096 90000 three_samples i))) [0..<3], m') \<and>
    samples (mMp4Demux m') = [] \<and> mRestampedPts m' = Some 0"
proof -
  let ?m = "(mkAampMp4Demuxer 0 True)\<lparr>mMp4Demux := (mkMp4Demux 0)\<lparr>timeScale := 90000\<rparr>\<rparr>"
  have m: "\<not> mIsTrickMode ?m" "mEnablePtsRestamp ?m" "timeScale (mMp4Demux ?m) = 90000" "mRestampedPts ?m = Some 0"
    by (simp_all add: mkAampMp4Demuxer_def)
  have l: "length (w_samples three_samples) = 3" by (simp add: three_samples_def)
  then have ne: "w_samples three_samples \<noteq> []" by auto
  have "4096 + int (length (write_fragment three_samples)) < 2 ^ 63"
    using three_samples_writable by (simp add: writable_def)
  note send_fragment [OF three_samples_writable ne _ this _ m(1), of 8 0 0 1 7 False False]
  moreover have "mEnablePtsRestamp (mkAampMp4Demuxer 0 True)" by (simp add: mkAampMp4Demuxer_def)
  ultimately show ?thesis unfolding m l by simp
qed

end
