(* ===== verification/Track_Worker.thy ===== *)
theory Track_Worker
  imports Aamp_Prelude Media_Type
begin

text \<open>
  The worker thread of a track (\<open>src/AampTrackWorker.cpp\<close>, \<open>src/AampTrackWorker.hpp\<close>): a queue of
  jobs, the thread that runs them one after the other, and the calls that submit, cancel, pause,
  reschedule, start and stop. A job is a number into the store \<open>jobs\<close>; its promise is set at most once, as
  \<open>std::promise\<close> has it (a second attempt throws \<open>std::future_error\<close>, which the code catches).

  A section of the code under \<open>mQueueMutex\<close> is one step. What runs outside the mutex is split where
  another thread can come in between: \<open>Run\<close> of a job, \<open>SetCancelled\<close> called from outside, \<open>StartWorker\<close>
  (which sets \<open>mStopped\<close> without the mutex before it creates the thread) and \<open>StopWorker\<close> (which signals, joins and
  clears). \<open>StartWorker\<close> and \<open>StopWorker\<close> come from one owner at a time. \<open>Execute\<close> is a virtual function
  outside this component: it may take any time, return or throw, and the calls it makes are steps of the others.
\<close>

section \<open>Jobs\<close>

datatype promise_state = Unsatisfied | HasValue | HasException

record AampTrackWorkerJob =
  mCancelled :: bool
  mPromise :: promise_state

definition mkAampTrackWorkerJob :: AampTrackWorkerJob where
  "mkAampTrackWorkerJob = \<lparr>mCancelled = False, mPromise = Unsatisfied\<rparr>"

fun set_once :: "promise_state \<Rightarrow> promise_state \<Rightarrow> promise_state" where
  "set_once v Unsatisfied = v"
| "set_once v p = p"

section \<open>The worker\<close>

text \<open>
  Where the worker thread stands: not created or joined; at the wait of \<open>ProcessJob\<close>; in \<open>Run\<close> before the first
  look at \<open>mCancelled\<close>, in \<open>Execute\<close>, before the second look, before \<open>set_value\<close>, or in the handler of an
  exception; after \<open>Run\<close>; and past the loop.
\<close>

datatype track_pc =
    NoThread | AtWait | RunBegins nat | InExecute nat | RunChecks nat | RunSets nat | RunThrew nat
  | RunEnded | ThreadEnded

text \<open>Where the owner stands: in \<open>StartWorker\<close> before the creation of the thread, or in one of the stages of \<open>StopWorker\<close>.\<close>

datatype owner_pc = OwnerIdle | Starting | StopJoins | StopClears | StopForgets

record AampTrackWorker =
  mMediaType :: AampMediaType
  mWorkerThread :: track_pc
  mJobQueue :: "nat list"
  mStopped :: bool
  mPaused :: bool
  mActiveJob :: "nat option"
  owner :: owner_pc
  jobs :: "AampTrackWorkerJob list"
  cancelling :: "nat list"
  accepted :: "nat list"

text \<open>The constructor; a null player is \<open>std::invalid_argument\<close>.\<close>

definition mkAampTrackWorker :: "bool \<Rightarrow> AampMediaType \<Rightarrow> string + AampTrackWorker" where
  "mkAampTrackWorker aamp_null mediaType =
     (if aamp_null then Inl ''AampTrackWorker: _aamp cannot be null''
      else Inr \<lparr>mMediaType = mediaType, mWorkerThread = NoThread, mJobQueue = [], mStopped = True, mPaused = False,
             mActiveJob = None, owner = OwnerIdle, jobs = [], cancelling = [], accepted = []\<rparr>)"

definition with_job :: "nat \<Rightarrow> (AampTrackWorkerJob \<Rightarrow> AampTrackWorkerJob) \<Rightarrow> AampTrackWorker \<Rightarrow> AampTrackWorker" where
  "with_job j f w = w\<lparr>jobs := (jobs w)[j := f (jobs w ! j)]\<rparr>"

definition satisfy :: "nat \<Rightarrow> promise_state \<Rightarrow> AampTrackWorker \<Rightarrow> AampTrackWorker" where
  "satisfy j v = with_job j (\<lambda>b. b\<lparr>mPromise := set_once v (mPromise b)\<rparr>)"

definition IsCancelled :: "nat \<Rightarrow> AampTrackWorker \<Rightarrow> bool" where
  "IsCancelled j w \<longleftrightarrow> mCancelled (jobs w ! j)"

text \<open>\<open>SetCancelled\<close>: the exchange of the flag, and then the exception; the second only where the flag was down.\<close>

definition cancel_flag :: "nat \<Rightarrow> AampTrackWorker \<Rightarrow> AampTrackWorker" where
  "cancel_flag j = with_job j (\<lambda>b. b\<lparr>mCancelled := True\<rparr>)"

definition SetCancelled :: "nat \<Rightarrow> AampTrackWorker \<Rightarrow> AampTrackWorker" where
  "SetCancelled j w = (if IsCancelled j w then w else satisfy j HasException (cancel_flag j w))"

definition SubmitJob :: "nat option \<Rightarrow> bool \<Rightarrow> AampTrackWorker \<Rightarrow> nat option \<times> AampTrackWorker" where
  "SubmitJob job highPriority w =
     (case job of None \<Rightarrow> (None, w)
      | Some j \<Rightarrow>
          if \<not> mStopped w
          then (Some j, w\<lparr>mJobQueue := (if highPriority then j # mJobQueue w else mJobQueue w @ [j]),
                         accepted := j # accepted w\<rparr>)
          else (None, w))"

definition Pause :: "AampTrackWorker \<Rightarrow> AampTrackWorker" where
  "Pause w = w\<lparr>mPaused := True\<rparr>"

definition Resume :: "AampTrackWorker \<Rightarrow> AampTrackWorker" where
  "Resume w = w\<lparr>mPaused := False\<rparr>"

definition ClearJobs :: "AampTrackWorker \<Rightarrow> AampTrackWorker" where
  "ClearJobs w = (fold SetCancelled (mJobQueue w) w)\<lparr>mJobQueue := []\<rparr>"

text \<open>\<open>Clone\<close> gives a job of its own, with a promise nobody waits for yet.\<close>

definition RescheduleActiveJob :: "AampTrackWorker \<Rightarrow> AampTrackWorker" where
  "RescheduleActiveJob w =
     (case mActiveJob w of None \<Rightarrow> w
      | Some j \<Rightarrow> w\<lparr>jobs := jobs w @ [mkAampTrackWorkerJob], mJobQueue := length (jobs w) # mJobQueue w, mActiveJob := None\<rparr>)"

definition joinable :: "AampTrackWorker \<Rightarrow> bool" where
  "joinable w \<longleftrightarrow> mWorkerThread w \<noteq> NoThread"

definition start_flag :: "AampTrackWorker \<Rightarrow> string + AampTrackWorker" where
  "start_flag w =
     (if joinable w \<or> \<not> mStopped w then Inl ''Worker thread is already running''
      else Inr (w\<lparr>mStopped := False, owner := Starting\<rparr>))"

text \<open>The creation of the thread; \<open>created\<close> is false where \<open>std::thread\<close> throws.\<close>

definition create_thread :: "bool \<Rightarrow> AampTrackWorker \<Rightarrow> AampTrackWorker" where
  "create_thread created w =
     (if created then w\<lparr>mWorkerThread := AtWait, owner := OwnerIdle\<rparr>
      else w\<lparr>mStopped := True, owner := OwnerIdle\<rparr>)"

definition StartWorker :: "bool \<Rightarrow> AampTrackWorker \<Rightarrow> string + AampTrackWorker" where
  "StartWorker created w = map_sum id (create_thread created) (start_flag w)"

definition stop_signal :: "AampTrackWorker \<Rightarrow> AampTrackWorker" where
  "stop_signal w = w\<lparr>mStopped := True, owner := StopJoins\<rparr>"

definition stop_join :: "AampTrackWorker \<Rightarrow> AampTrackWorker option" where
  "stop_join w =
     (if joinable w \<and> mWorkerThread w \<noteq> ThreadEnded then None
      else Some (w\<lparr>mWorkerThread := NoThread, owner := StopClears\<rparr>))"

definition stop_clear :: "AampTrackWorker \<Rightarrow> AampTrackWorker" where
  "stop_clear w = (ClearJobs w)\<lparr>owner := StopForgets\<rparr>"

definition stop_forget :: "AampTrackWorker \<Rightarrow> AampTrackWorker" where
  "stop_forget w = w\<lparr>mActiveJob := None, owner := OwnerIdle\<rparr>"

text \<open>A step of the thread; \<open>threw\<close> tells how \<open>Execute\<close> ends. At the wait the thread is blocked while there is nothing to do.\<close>

fun run_step :: "bool \<Rightarrow> track_pc \<Rightarrow> AampTrackWorker \<Rightarrow> AampTrackWorker" where
  "run_step threw (RunBegins j) w = w\<lparr>mWorkerThread := (if IsCancelled j w then RunChecks j else InExecute j)\<rparr>"
| "run_step threw (InExecute j) w = w\<lparr>mWorkerThread := (if threw then RunThrew j else RunChecks j)\<rparr>"
| "run_step threw (RunChecks j) w = w\<lparr>mWorkerThread := (if IsCancelled j w then RunEnded else RunSets j)\<rparr>"
| "run_step threw (RunSets j) w = (satisfy j HasValue w)\<lparr>mWorkerThread := RunEnded\<rparr>"
| "run_step threw (RunThrew j) w = (satisfy j HasException w)\<lparr>mWorkerThread := RunEnded\<rparr>"
| "run_step threw pc w = w"

definition ProcessJob :: "bool \<Rightarrow> AampTrackWorker \<Rightarrow> AampTrackWorker option" where
  "ProcessJob threw w =
     (case mWorkerThread w of
        NoThread \<Rightarrow> None
      | ThreadEnded \<Rightarrow> None
      | AtWait \<Rightarrow>
          if mStopped w then Some (w\<lparr>mWorkerThread := ThreadEnded\<rparr>)
          else (case mJobQueue w of
                  [] \<Rightarrow> None
                | j # js \<Rightarrow>
                    if mPaused w then None
                    else Some (w\<lparr>mActiveJob := Some j, mJobQueue := js, mWorkerThread := RunBegins j\<rparr>))
      | RunEnded \<Rightarrow>
          Some (w\<lparr>mActiveJob := None, mWorkerThread := (if mStopped w then ThreadEnded else AtWait)\<rparr>)
      | pc \<Rightarrow> Some (run_step threw pc w))"

section \<open>Steps\<close>

datatype track_act =
    ANewJob | ASubmit "nat option" bool | APause | AResume | AClear | AReschedule
  | ACancelFlag nat | ACancelPromise nat | AStartFlag | AStartThread bool
  | AStopSignal | AStopJoin | AStopClear | AStopForget | AWorker bool

fun valid_job :: "nat option \<Rightarrow> AampTrackWorker \<Rightarrow> bool" where
  "valid_job None w = True"
| "valid_job (Some j) w = (j < length (jobs w))"

fun track_do :: "track_act \<Rightarrow> AampTrackWorker \<Rightarrow> AampTrackWorker option" where
  "track_do ANewJob w = Some (w\<lparr>jobs := jobs w @ [mkAampTrackWorkerJob]\<rparr>)"
| "track_do (ASubmit job high) w = (if valid_job job w then Some (snd (SubmitJob job high w)) else None)"
| "track_do APause w = Some (Pause w)"
| "track_do AResume w = Some (Resume w)"
| "track_do AClear w = Some (ClearJobs w)"
| "track_do AReschedule w = Some (RescheduleActiveJob w)"
| "track_do (ACancelFlag j) w =
     (if j < length (jobs w)
      then Some (if IsCancelled j w then w else (cancel_flag j w)\<lparr>cancelling := j # cancelling w\<rparr>) else None)"
| "track_do (ACancelPromise j) w =
     (if j \<in> set (cancelling w)
      then Some ((satisfy j HasException w)\<lparr>cancelling := remove1 j (cancelling w)\<rparr>) else None)"
| "track_do AStartFlag w =
     (if owner w = OwnerIdle then (case start_flag w of Inl e \<Rightarrow> Some w | Inr w' \<Rightarrow> Some w') else None)"
| "track_do (AStartThread created) w = (if owner w = Starting then Some (create_thread created w) else None)"
| "track_do AStopSignal w = (if owner w = OwnerIdle then Some (stop_signal w) else None)"
| "track_do AStopJoin w = (if owner w = StopJoins then stop_join w else None)"
| "track_do AStopClear w = (if owner w = StopClears then Some (stop_clear w) else None)"
| "track_do AStopForget w = (if owner w = StopForgets then Some (stop_forget w) else None)"
| "track_do (AWorker threw) w = ProcessJob threw w"

definition track_step :: "AampTrackWorker \<Rightarrow> AampTrackWorker \<Rightarrow> bool" where
  "track_step w w' \<longleftrightarrow> (\<exists>a. track_do a w = Some w')"

definition track_start :: "AampTrackWorker \<Rightarrow> bool" where
  "track_start w \<longleftrightarrow> (\<exists>mediaType. mkAampTrackWorker False mediaType = Inr w)"

section \<open>The invariant\<close>

definition satisfied :: "nat \<Rightarrow> AampTrackWorker \<Rightarrow> bool" where
  "satisfied j w \<longleftrightarrow> mPromise (jobs w ! j) \<noteq> Unsatisfied"

fun pc_job :: "track_pc \<Rightarrow> nat option" where
  "pc_job (RunBegins j) = Some j"
| "pc_job (InExecute j) = Some j"
| "pc_job (RunChecks j) = Some j"
| "pc_job (RunSets j) = Some j"
| "pc_job (RunThrew j) = Some j"
| "pc_job _ = None"

text \<open>A job is looked after while it waits in the queue, is being run or being cancelled, or once its promise is set.\<close>

definition accounted :: "nat \<Rightarrow> AampTrackWorker \<Rightarrow> bool" where
  "accounted j w \<longleftrightarrow>
     satisfied j w \<or> j \<in> set (mJobQueue w) \<or> pc_job (mWorkerThread w) = Some j \<or> j \<in> set (cancelling w)"

definition known_jobs :: "AampTrackWorker \<Rightarrow> nat set" where
  "known_jobs w = set (mJobQueue w) \<union> set (accepted w) \<union> set (cancelling w) \<union> set_option (pc_job (mWorkerThread w))"

definition jobs_ok :: "AampTrackWorker \<Rightarrow> bool" where
  "jobs_ok w \<longleftrightarrow>
     known_jobs w \<subseteq> {..<length (jobs w)} \<and> (\<forall>j\<in>set (accepted w). accounted j w)
     \<and> (\<forall>j<length (jobs w). IsCancelled j w \<longrightarrow> satisfied j w \<or> j \<in> set (cancelling w))"

definition thread_ok :: "AampTrackWorker \<Rightarrow> bool" where
  "thread_ok w \<longleftrightarrow>
     (mActiveJob w = None \<or> mActiveJob w = pc_job (mWorkerThread w) \<or> mWorkerThread w = RunEnded)
     \<and> (mWorkerThread w = ThreadEnded \<longrightarrow> mStopped w)
     \<and> (case owner w of
          OwnerIdle \<Rightarrow> mStopped w \<or> joinable w
        | Starting \<Rightarrow> \<not> mStopped w \<and> \<not> joinable w
        | StopJoins \<Rightarrow> mStopped w
        | StopClears \<Rightarrow> mStopped w \<and> \<not> joinable w
        | StopForgets \<Rightarrow> mStopped w \<and> \<not> joinable w \<and> mJobQueue w = [])"

definition track_ok :: "AampTrackWorker \<Rightarrow> bool" where
  "track_ok w \<longleftrightarrow> jobs_ok w \<and> thread_ok w"

text \<open>What cancelling and clearing do to the store of jobs, and that they touch nothing else.\<close>

lemma length_with_job [simp]: "length (jobs (with_job j f w)) = length (jobs w)"
  by (simp add: with_job_def)

lemma with_job_fields [simp]:
  "mWorkerThread (with_job j f w) = mWorkerThread w" "mJobQueue (with_job j f w) = mJobQueue w"
  "mStopped (with_job j f w) = mStopped w" "mPaused (with_job j f w) = mPaused w"
  "mActiveJob (with_job j f w) = mActiveJob w" "owner (with_job j f w) = owner w"
  "cancelling (with_job j f w) = cancelling w" "accepted (with_job j f w) = accepted w"
  "mMediaType (with_job j f w) = mMediaType w"
  by (simp_all add: with_job_def)

lemma nth_with_job:
  "j < length (jobs w) \<Longrightarrow> jobs (with_job j f w) ! i = (if i = j then f (jobs w ! j) else jobs w ! i)"
  by (simp add: with_job_def nth_list_update)

lemma set_once_satisfied [simp]: "set_once v p = Unsatisfied \<longleftrightarrow> v = Unsatisfied \<and> p = Unsatisfied"
  by (cases p) auto

lemma satisfy_job:
  assumes "j < length (jobs w)"
  shows "satisfied i (satisfy j v w) \<longleftrightarrow> satisfied i w \<or> (i = j \<and> v \<noteq> Unsatisfied)"
    "IsCancelled i (satisfy j v w) \<longleftrightarrow> IsCancelled i w"
  using assms by (auto simp: satisfy_def satisfied_def IsCancelled_def nth_with_job)

lemma cancel_flag_job:
  assumes "j < length (jobs w)"
  shows "satisfied i (cancel_flag j w) \<longleftrightarrow> satisfied i w" "IsCancelled i (cancel_flag j w) \<longleftrightarrow> IsCancelled i w \<or> i = j"
  using assms by (auto simp: cancel_flag_def satisfied_def IsCancelled_def nth_with_job)

lemma SetCancelled_job:
  assumes "j < length (jobs w)"
  shows "satisfied i (SetCancelled j w) \<longleftrightarrow> satisfied i w \<or> (i = j \<and> \<not> IsCancelled j w)"
    "IsCancelled i (SetCancelled j w) \<longleftrightarrow> IsCancelled i w \<or> i = j"
  using assms satisfy_job [of j "cancel_flag j w"] cancel_flag_job [OF assms] length_with_job [of j _ w]
  by (auto simp: SetCancelled_def cancel_flag_def)

definition same_but_jobs :: "AampTrackWorker \<Rightarrow> AampTrackWorker \<Rightarrow> bool" where
  "same_but_jobs w w' \<longleftrightarrow> length (jobs w') = length (jobs w) \<and> w' = w\<lparr>jobs := jobs w'\<rparr>"

lemma same_but_jobs_step: "same_but_jobs w (satisfy j v w)" "same_but_jobs w (cancel_flag j w)" "same_but_jobs w (SetCancelled j w)"
  by (auto simp: same_but_jobs_def satisfy_def cancel_flag_def SetCancelled_def with_job_def)

lemma same_but_jobs_trans: "same_but_jobs w w' \<Longrightarrow> same_but_jobs w' w'' \<Longrightarrow> same_but_jobs w w''"
  by (cases w; cases w'; cases w'') (simp add: same_but_jobs_def)

lemma cancel_all:
  assumes "set js \<subseteq> {..<length (jobs w)}"
  shows "same_but_jobs w (fold SetCancelled js w)
    \<and> (\<forall>i. (satisfied i (fold SetCancelled js w) \<longleftrightarrow> satisfied i w \<or> (i \<in> set js \<and> \<not> IsCancelled i w))
         \<and> (IsCancelled i (fold SetCancelled js w) \<longleftrightarrow> IsCancelled i w \<or> i \<in> set js))"
  using assms
proof (induction js arbitrary: w)
  case Nil
  then show ?case by (simp add: same_but_jobs_def)
next
  case (Cons j js)
  have j: "j < length (jobs w)" and js: "set js \<subseteq> {..<length (jobs (SetCancelled j w))}"
    using Cons.prems same_but_jobs_step(3) [of w j] by (auto simp: same_but_jobs_def)
  show ?case
    using Cons.IH [OF js] SetCancelled_job [OF j] same_but_jobs_trans [OF same_but_jobs_step(3) [of w j]]
    by auto
qed

lemma same_but_jobs_fields:
  assumes "same_but_jobs w w'"
  shows "mWorkerThread w' = mWorkerThread w" "mJobQueue w' = mJobQueue w" "mStopped w' = mStopped w"
    "mActiveJob w' = mActiveJob w" "owner w' = owner w" "cancelling w' = cancelling w" "accepted w' = accepted w"
    "length (jobs w') = length (jobs w)"
  using assms by (cases w; cases w'; simp add: same_but_jobs_def)+

text \<open>A step that only adds set promises, and drops a job from the queue, the thread or the cancellations once its promise is set.\<close>

lemma jobs_ok_step:
  assumes ok: "jobs_ok w" and len: "length (jobs w) \<le> length (jobs w')"
    and known: "known_jobs w' \<subseteq> {..<length (jobs w')}"
    and acc: "\<And>j. j \<in> set (accepted w') \<Longrightarrow> j \<in> set (accepted w) \<or> accounted j w'"
    and sat: "\<And>j. j < length (jobs w) \<Longrightarrow> accounted j w \<Longrightarrow> accounted j w'"
    and canc: "\<And>j. j < length (jobs w') \<Longrightarrow> IsCancelled j w' \<Longrightarrow> satisfied j w' \<or> j \<in> set (cancelling w')"
  shows "jobs_ok w'"
  using assms unfolding jobs_ok_def known_jobs_def by blast

lemma ClearJobs_fields:
  assumes "jobs_ok w"
  shows "length (jobs (ClearJobs w)) = length (jobs w)" "mJobQueue (ClearJobs w) = []"
    "mWorkerThread (ClearJobs w) = mWorkerThread w" "mStopped (ClearJobs w) = mStopped w"
    "mActiveJob (ClearJobs w) = mActiveJob w" "owner (ClearJobs w) = owner w"
    "cancelling (ClearJobs w) = cancelling w" "accepted (ClearJobs w) = accepted w"
    "satisfied i (ClearJobs w) \<longleftrightarrow> satisfied i w \<or> (i \<in> set (mJobQueue w) \<and> \<not> IsCancelled i w)"
    "IsCancelled i (ClearJobs w) \<longleftrightarrow> IsCancelled i w \<or> i \<in> set (mJobQueue w)"
proof -
  have "set (mJobQueue w) \<subseteq> {..<length (jobs w)}" using assms by (auto simp: jobs_ok_def known_jobs_def)
  note c = cancel_all [OF this]
  show "length (jobs (ClearJobs w)) = length (jobs w)" "mJobQueue (ClearJobs w) = []"
    "mWorkerThread (ClearJobs w) = mWorkerThread w" "mStopped (ClearJobs w) = mStopped w"
    "mActiveJob (ClearJobs w) = mActiveJob w" "owner (ClearJobs w) = owner w"
    "cancelling (ClearJobs w) = cancelling w" "accepted (ClearJobs w) = accepted w"
    using same_but_jobs_fields [OF conjunct1 [OF c]] by (simp_all add: ClearJobs_def)
  show "satisfied i (ClearJobs w) \<longleftrightarrow> satisfied i w \<or> (i \<in> set (mJobQueue w) \<and> \<not> IsCancelled i w)"
    "IsCancelled i (ClearJobs w) \<longleftrightarrow> IsCancelled i w \<or> i \<in> set (mJobQueue w)"
    using c by (auto simp: ClearJobs_def satisfied_def IsCancelled_def)
qed

lemma ClearJobs_ok: "jobs_ok w \<Longrightarrow> jobs_ok (ClearJobs w)"
  by (rule jobs_ok_step) (auto simp: ClearJobs_fields jobs_ok_def known_jobs_def accounted_def)

lemma satisfy_fields [simp]:
  "length (jobs (satisfy j v w)) = length (jobs w)" "mWorkerThread (satisfy j v w) = mWorkerThread w"
  "mJobQueue (satisfy j v w) = mJobQueue w" "accepted (satisfy j v w) = accepted w" "cancelling (satisfy j v w) = cancelling w"
  "mStopped (satisfy j v w) = mStopped w" "mActiveJob (satisfy j v w) = mActiveJob w" "owner (satisfy j v w) = owner w"
  by (simp_all add: satisfy_def)

lemma satisfy_ok:
  assumes "jobs_ok w" "j < length (jobs w)" "v \<noteq> Unsatisfied" "set js \<subseteq> set (cancelling w)"
    "set (cancelling w) \<subseteq> insert j (set js)" "pc_job pc = None \<or> pc_job pc = pc_job (mWorkerThread w)"
    "pc_job (mWorkerThread w) \<noteq> pc_job pc \<longrightarrow> pc_job (mWorkerThread w) = Some j"
  shows "jobs_ok ((satisfy j v w)\<lparr>cancelling := js, mWorkerThread := pc\<rparr>)"
proof -
  let ?w = "(satisfy j v w)\<lparr>cancelling := js, mWorkerThread := pc\<rparr>"
  have f: "length (jobs ?w) = length (jobs w)" "mJobQueue ?w = mJobQueue w" "accepted ?w = accepted w"
    "satisfied i ?w \<longleftrightarrow> satisfied i w \<or> i = j" "IsCancelled i ?w \<longleftrightarrow> IsCancelled i w" for i
    using assms(2,3) satisfy_job [OF assms(2), of i v] by (auto simp: satisfy_def satisfied_def IsCancelled_def)
  have k: "set (mJobQueue w) \<subseteq> {..<length (jobs w)}" "set (accepted w) \<subseteq> {..<length (jobs w)}"
    "set (cancelling w) \<subseteq> {..<length (jobs w)}" "set_option (pc_job (mWorkerThread w)) \<subseteq> {..<length (jobs w)}"
    and c: "\<And>i. i < length (jobs w) \<Longrightarrow> IsCancelled i w \<Longrightarrow> satisfied i w \<or> i \<in> set (cancelling w)"
    using assms(1) by (auto simp: jobs_ok_def known_jobs_def)
  have "set js \<subseteq> {..<length (jobs w)}" "set_option (pc_job pc) \<subseteq> {..<length (jobs w)}"
    using k(3,4) assms(4,6) by auto
  then have "known_jobs ?w \<subseteq> {..<length (jobs ?w)}"
    using k by (simp add: known_jobs_def)
  moreover have "accounted i ?w" if "accounted i w" for i
    using that assms(5,7) by (auto simp: accounted_def f)
  moreover have "satisfied i ?w \<or> i \<in> set (cancelling ?w)" if "i < length (jobs ?w)" "IsCancelled i ?w" for i
    using c [of i] that assms(5) by (auto simp: f)
  ultimately show ?thesis
    using f(1) by (intro jobs_ok_step [OF assms(1)]) simp_all
qed

lemma same_jobs_ok:
  assumes "jobs_ok w" "jobs w' = jobs w" "cancelling w' = cancelling w" "set (accepted w') \<subseteq> set (accepted w) \<union> set (mJobQueue w')"
    "set (mJobQueue w) \<union> set_option (pc_job (mWorkerThread w)) \<subseteq>
      set (mJobQueue w') \<union> set_option (pc_job (mWorkerThread w')) \<union> {j. satisfied j w \<or> j \<in> set (cancelling w)}"
    "set (mJobQueue w') \<union> set_option (pc_job (mWorkerThread w')) \<subseteq> {..<length (jobs w)}"
  shows "jobs_ok w'"
proof (rule jobs_ok_step [OF assms(1)])
  have same: "satisfied i w' = satisfied i w" "IsCancelled i w' = IsCancelled i w" for i
    by (simp_all add: satisfied_def IsCancelled_def assms(2))
  show "known_jobs w' \<subseteq> {..<length (jobs w')}"
    using assms(1,4,6) by (auto simp: jobs_ok_def known_jobs_def assms(2,3))
  show "accounted j w'" if "accounted j w" for j
    using that assms(5) by (auto simp: accounted_def same assms(3))
  show "satisfied j w' \<or> j \<in> set (cancelling w')" if "j < length (jobs w')" "IsCancelled j w'" for j
    using that assms(1) by (auto simp: jobs_ok_def same assms(2,3))
  show "j \<in> set (accepted w) \<or> accounted j w'" if "j \<in> set (accepted w')" for j
    using that assms(4) by (auto simp: accounted_def)
qed (simp add: assms(2))

lemma append_job_ok:
  assumes "jobs_ok w" "w' = w\<lparr>jobs := jobs w @ [mkAampTrackWorkerJob], mJobQueue := q, mActiveJob := a\<rparr>"
    "set (mJobQueue w) \<subseteq> set q" "set q \<subseteq> insert (length (jobs w)) (set (mJobQueue w))"
  shows "jobs_ok w'"
proof (rule jobs_ok_step [OF assms(1)])
  have new: "satisfied (length (jobs w)) w' = False" "IsCancelled (length (jobs w)) w' = False"
    by (simp_all add: assms(2) satisfied_def IsCancelled_def mkAampTrackWorkerJob_def)
  have old: "satisfied i w' = satisfied i w" "IsCancelled i w' = IsCancelled i w" if "i < length (jobs w)" for i
    using that by (simp_all add: assms(2) satisfied_def IsCancelled_def nth_append)
  have c: "\<And>i. i < length (jobs w) \<Longrightarrow> IsCancelled i w \<Longrightarrow> satisfied i w \<or> i \<in> set (cancelling w)"
    using assms(1) by (simp add: jobs_ok_def)
  show "known_jobs w' \<subseteq> {..<length (jobs w')}"
    using assms(1,4) by (auto simp: assms(2) jobs_ok_def known_jobs_def)
  show "accounted j w'" if "j < length (jobs w)" "accounted j w" for j
    using that assms(3) old(1) [of j] by (auto simp: assms(2) accounted_def)
  show "satisfied j w' \<or> j \<in> set (cancelling w')" if "j < length (jobs w')" "IsCancelled j w'" for j
    using that c [of j] old [of j] new by (cases "j = length (jobs w)") (auto simp: assms(2))
qed (simp_all add: assms(2))

lemma jobs_okD:
  assumes "jobs_ok w"
  shows "set (mJobQueue w) \<subseteq> {..<length (jobs w)}" "set (accepted w) \<subseteq> {..<length (jobs w)}"
    "set (cancelling w) \<subseteq> {..<length (jobs w)}" "set_option (pc_job (mWorkerThread w)) \<subseteq> {..<length (jobs w)}"
    "IsCancelled j w \<Longrightarrow> j < length (jobs w) \<Longrightarrow> satisfied j w \<or> j \<in> set (cancelling w)"
  using assms by (auto simp: jobs_ok_def known_jobs_def)

lemma cancel_flag_fields [simp]:
  "length (jobs (cancel_flag j w)) = length (jobs w)" "mWorkerThread (cancel_flag j w) = mWorkerThread w"
  "mJobQueue (cancel_flag j w) = mJobQueue w" "accepted (cancel_flag j w) = accepted w" "cancelling (cancel_flag j w) = cancelling w"
  "mStopped (cancel_flag j w) = mStopped w" "mActiveJob (cancel_flag j w) = mActiveJob w" "owner (cancel_flag j w) = owner w"
  by (simp_all add: cancel_flag_def)

lemma cancel_flag_ok:
  assumes "jobs_ok w" "j < length (jobs w)"
  shows "jobs_ok ((cancel_flag j w)\<lparr>cancelling := j # cancelling w\<rparr>)" (is "jobs_ok ?w")
proof -
  have f: "satisfied i ?w \<longleftrightarrow> satisfied i w" "IsCancelled i ?w \<longleftrightarrow> IsCancelled i w \<or> i = j" for i
    using cancel_flag_job [OF assms(2), of i] by (simp_all add: satisfied_def IsCancelled_def)
  show ?thesis
    by (rule jobs_ok_step [OF assms(1)])
      (use assms in \<open>auto simp: f jobs_ok_def known_jobs_def accounted_def\<close>)
qed

lemma ended_ok:
  assumes "jobs_ok w" "pc_job (mWorkerThread w) = Some j" "IsCancelled j w" "pc_job pc = None"
  shows "jobs_ok (w\<lparr>mWorkerThread := pc\<rparr>)"
  using jobs_okD(1,4) [OF assms(1)] jobs_okD(5) [OF assms(1,3)] assms(2,4)
  by (intro same_jobs_ok [OF assms(1)]) auto

lemma satisfy_keeps:
  "(satisfy j v w)\<lparr>cancelling := cancelling w, mWorkerThread := pc\<rparr> = (satisfy j v w)\<lparr>mWorkerThread := pc\<rparr>"
  "(satisfy j v w)\<lparr>cancelling := js, mWorkerThread := mWorkerThread w\<rparr> = (satisfy j v w)\<lparr>cancelling := js\<rparr>"
  by (cases w; simp add: satisfy_def with_job_def)+

lemma run_step_ok:
  assumes "jobs_ok w" "pc_job (mWorkerThread w) = Some j"
  shows "jobs_ok (run_step threw (mWorkerThread w) w)"
proof -
  have j: "j < length (jobs w)" using jobs_okD(4) [OF assms(1)] assms(2) by simp
  have move: "jobs_ok (w\<lparr>mWorkerThread := pc\<rparr>)" if "pc_job pc = Some j" for pc
    using jobs_okD(1,4) [OF assms(1)] assms(2) that by (intro same_jobs_ok [OF assms(1)]) auto
  have set: "jobs_ok ((satisfy j v w)\<lparr>mWorkerThread := RunEnded\<rparr>)" if "v \<noteq> Unsatisfied" for v
    by (subst satisfy_keeps(1) [symmetric], rule satisfy_ok) (use assms j that in auto)
  show ?thesis
    using assms(2) ended_ok [OF assms, of RunEnded] by (cases "mWorkerThread w") (simp_all add: move set)
qed

lemma worker_jobs_ok:
  assumes "jobs_ok w" "ProcessJob threw w = Some w'"
  shows "jobs_ok w'"
proof (cases "pc_job (mWorkerThread w)")
  case None
  then show ?thesis
    using jobs_okD(1) [OF assms(1)] assms(2)
    by (intro same_jobs_ok [OF assms(1)]) (auto simp: ProcessJob_def split: track_pc.splits if_splits list.splits)
next
  case (Some j)
  then show ?thesis
    using run_step_ok [OF assms(1) Some, of threw] assms(2) by (auto simp: ProcessJob_def split: track_pc.splits)
qed

lemma submit_jobs_ok:
  assumes "jobs_ok w" "valid_job job w"
  shows "jobs_ok (snd (SubmitJob job high w))"
  using jobs_okD(1,4) [OF assms(1)] assms(2)
  by (cases job; intro same_jobs_ok [OF assms(1)]) (auto simp: SubmitJob_def)

lemma track_jobs_ok:
  assumes "jobs_ok w" "track_do a w = Some w'" "thread_ok w"
  shows "jobs_ok w'"
proof (cases a)
  case ANewJob
  then have "w' = w\<lparr>jobs := jobs w @ [mkAampTrackWorkerJob], mJobQueue := mJobQueue w, mActiveJob := mActiveJob w\<rparr>"
    using assms(2) by (cases w) auto
  then show ?thesis by (rule append_job_ok [OF assms(1)]) auto
next
  case AReschedule
  then show ?thesis
    using assms append_job_ok [OF assms(1), of _ None "length (jobs w) # mJobQueue w"]
    by (auto simp: RescheduleActiveJob_def split: option.splits)
next
  case (ACancelFlag j)
  then show ?thesis using assms cancel_flag_ok [of w j] by (auto split: if_splits)
next
  case (ACancelPromise j)
  have "set (remove1 j (cancelling w)) \<subseteq> set (cancelling w)" "set (cancelling w) \<subseteq> insert j (set (remove1 j (cancelling w)))"
    using set_remove1_subset [of j "cancelling w"] in_set_remove1 [of _ j "cancelling w"] by blast+
  moreover have "j < length (jobs w)" "w' = (satisfy j HasException w)\<lparr>cancelling := remove1 j (cancelling w)\<rparr>"
    using assms ACancelPromise by (auto simp: jobs_ok_def known_jobs_def split: if_splits)
  ultimately show ?thesis
    using satisfy_ok [OF assms(1), of j HasException "remove1 j (cancelling w)" "mWorkerThread w"]
    unfolding satisfy_keeps(2) by blast
next
  case AStopClear
  have "jobs_ok (stop_clear w)"
    using jobs_okD(1,4) [OF ClearJobs_ok [OF assms(1)]]
    unfolding stop_clear_def by (intro same_jobs_ok [OF ClearJobs_ok [OF assms(1)]]) auto
  then show ?thesis using assms AStopClear by (auto split: if_splits)
next
  case AStopJoin
  then show ?thesis
    using jobs_okD(1) [OF assms(1)] assms(2)
    by (intro same_jobs_ok [OF assms(1)]) (auto simp: stop_join_def joinable_def split: if_splits)
next
  case (ASubmit job high)
  then show ?thesis using assms by (auto simp: submit_jobs_ok split: if_splits)
next
  case (AWorker threw)
  then show ?thesis using assms worker_jobs_ok by auto
next
  case AClear
  then show ?thesis using assms ClearJobs_ok by auto
next
  case (AStartThread created)
  then have "mWorkerThread w = NoThread" using assms(2,3) by (auto simp: thread_ok_def joinable_def split: if_splits)
  then show ?thesis
    using AStartThread jobs_okD(1) [OF assms(1)] assms(2)
    by (intro same_jobs_ok [OF assms(1)]) (auto simp: create_thread_def split: if_splits)
qed (use jobs_okD(1,4) [OF assms(1)] assms(2) in \<open>auto simp: Pause_def Resume_def start_flag_def create_thread_def
       stop_signal_def stop_forget_def split: if_splits sum.splits intro!: same_jobs_ok [OF assms(1)]\<close>)

lemma thread_ok_update [simp]: "thread_ok (w\<lparr>mPaused := b\<rparr>) = thread_ok w" "thread_ok (w\<lparr>jobs := bs\<rparr>) = thread_ok w"
  by (simp_all add: thread_ok_def joinable_def split: owner_pc.split)

lemma worker_frame:
  assumes "ProcessJob threw w = Some w'"
  shows "owner w' = owner w" "mStopped w' = mStopped w" "joinable w'" "joinable w"
    "mWorkerThread w' = ThreadEnded \<Longrightarrow> mStopped w'" "mJobQueue w = [] \<Longrightarrow> mJobQueue w' = []"
  using assms by (cases "mWorkerThread w"; auto simp: ProcessJob_def joinable_def split: if_splits list.splits)+

lemma track_thread_ok:
  assumes "track_ok w" "track_do a w = Some w'"
  shows "thread_ok w'"
proof -
  have ok: "jobs_ok w" "thread_ok w" using assms(1) by (simp_all add: track_ok_def)
  note clear = ClearJobs_fields [OF ok(1)]
  show ?thesis
  proof (cases a)
    case (AWorker threw)
    then have step: "ProcessJob threw w = Some w'" using assms(2) by simp
    have "mActiveJob w = None \<or> mActiveJob w = pc_job (mWorkerThread w) \<or> mWorkerThread w = RunEnded"
      using ok(2) by (simp add: thread_ok_def)
    then have "mActiveJob w' = None \<or> mActiveJob w' = pc_job (mWorkerThread w') \<or> mWorkerThread w' = RunEnded"
      using step by (cases "mWorkerThread w") (auto simp: ProcessJob_def split: if_splits list.splits)
    then show ?thesis
      using worker_frame [OF step] ok(2) by (cases "owner w") (simp_all add: thread_ok_def)
  next
    case AReschedule
    then show ?thesis
      using ok(2) assms(2)
      by (auto simp: RescheduleActiveJob_def thread_ok_def joinable_def split: option.splits owner_pc.splits)
  next
    case (ASubmit job high)
    then show ?thesis
      using ok(2) assms(2) by (auto simp: SubmitJob_def thread_ok_def joinable_def split: option.splits if_splits owner_pc.splits)
  next
    case AClear
    then show ?thesis using ok(2) assms(2) by (cases "owner w") (auto simp: clear thread_ok_def joinable_def)
  next
    case AStartFlag
    then show ?thesis
      using ok(2) assms(2) by (cases "owner w") (auto simp: thread_ok_def joinable_def start_flag_def split: if_splits)
  next
    case (AStartThread created)
    then show ?thesis
      using ok(2) assms(2) by (cases "owner w") (auto simp: thread_ok_def joinable_def create_thread_def split: if_splits)
  next
    case AStopSignal
    then show ?thesis
      using ok(2) assms(2) by (cases "owner w") (auto simp: thread_ok_def joinable_def stop_signal_def split: if_splits)
  next
    case AStopJoin
    then show ?thesis
      using ok(2) assms(2) by (cases "owner w") (auto simp: thread_ok_def joinable_def stop_join_def split: if_splits)
  next
    case AStopClear
    then show ?thesis
      using ok(2) assms(2) by (cases "owner w") (auto simp: clear thread_ok_def joinable_def stop_clear_def split: if_splits)
  next
    case AStopForget
    then show ?thesis
      using ok(2) assms(2) by (cases "owner w") (auto simp: thread_ok_def joinable_def stop_forget_def split: if_splits)
  next
    case (ACancelFlag j)
    then show ?thesis
      using ok(2) assms(2) by (cases "owner w") (auto simp: thread_ok_def joinable_def split: if_splits)
  next
    case (ACancelPromise j)
    then show ?thesis
      using ok(2) assms(2) by (cases "owner w") (auto simp: thread_ok_def joinable_def split: if_splits)
  next
    case ANewJob
    then show ?thesis using ok(2) assms(2) by auto
  next
    case APause
    then show ?thesis using ok(2) assms(2) by (auto simp: Pause_def)
  next
    case AResume
    then show ?thesis using ok(2) assms(2) by (auto simp: Resume_def)
  qed
qed

lemma track_ok_step:
  assumes "track_ok w" "track_step w w'"
  shows "track_ok w'"
proof -
  obtain a where "track_do a w = Some w'" using assms(2) unfolding track_step_def by blast
  then show ?thesis
    using track_jobs_ok [of w a w'] track_thread_ok [OF assms(1), of a w'] assms(1) by (simp add: track_ok_def)
qed

interpretation track: stateful track_start track_step track_ok
proof
  show "track_ok w" if "track_start w" for w
    using that by (auto simp: track_start_def mkAampTrackWorker_def track_ok_def jobs_ok_def known_jobs_def
        thread_ok_def joinable_def)
qed (rule track_ok_step)

section \<open>Runs\<close>

fun run_acts :: "track_act list \<Rightarrow> AampTrackWorker \<Rightarrow> AampTrackWorker option" where
  "run_acts [] w = Some w"
| "run_acts (a # as) w = (case track_do a w of None \<Rightarrow> None | Some w' \<Rightarrow> run_acts as w')"

lemma run_acts_append:
  "run_acts (as @ bs) w = (case run_acts as w of None \<Rightarrow> None | Some w' \<Rightarrow> run_acts bs w')"
  by (induction as arbitrary: w) (auto split: option.split)

lemma run_acts_reach:
  "reach track_start track_step w \<Longrightarrow> run_acts as w = Some w' \<Longrightarrow> reach track_start track_step w'"
proof (induction as arbitrary: w)
  case (Cons a as)
  then obtain v where v: "track_do a w = Some v" "run_acts as v = Some w'" by (auto split: option.splits)
  have "reach track_start track_step v" by (rule reach_step [OF Cons.prems(1)]) (use v(1) in \<open>auto simp: track_step_def\<close>)
  then show ?case by (rule Cons.IH) (rule v(2))
qed simp

text \<open>A promise that is set stays as it is.\<close>

lemma promise_with_job:
  "satisfied j w \<Longrightarrow> mPromise (jobs (satisfy i v w) ! j) = mPromise (jobs w ! j)"
  by (cases "i < length (jobs w)"; cases "mPromise (jobs w ! j)")
    (auto simp: satisfied_def satisfy_def with_job_def nth_list_update list_update_beyond)

lemma promise_cancel_flag: "mPromise (jobs (cancel_flag i w) ! j) = mPromise (jobs w ! j)"
  by (cases "i < length (jobs w)") (auto simp: cancel_flag_def with_job_def nth_list_update list_update_beyond)

lemma promise_SetCancelled:
  "satisfied j w \<Longrightarrow> mPromise (jobs (SetCancelled i w) ! j) = mPromise (jobs w ! j)"
  by (simp add: SetCancelled_def promise_with_job promise_cancel_flag satisfied_def)

lemma promise_cancel_all:
  "satisfied j w \<Longrightarrow> mPromise (jobs (fold SetCancelled js w) ! j) = mPromise (jobs w ! j)"
proof (induction js arbitrary: w)
  case (Cons i js)
  have "satisfied j (SetCancelled i w)"
    using Cons.prems promise_SetCancelled [OF Cons.prems] by (simp add: satisfied_def)
  then show ?case using Cons by (simp add: promise_SetCancelled)
qed simp

lemma promise_run_step:
  "satisfied j w \<Longrightarrow> mPromise (jobs (run_step threw pc w) ! j) = mPromise (jobs w ! j)"
  by (cases pc) (simp_all add: promise_with_job)

lemma promise_worker:
  "satisfied j w \<Longrightarrow> ProcessJob threw w = Some w' \<Longrightarrow> mPromise (jobs w' ! j) = mPromise (jobs w ! j)"
  by (auto simp: ProcessJob_def promise_run_step simp del: run_step.simps split: track_pc.splits if_splits list.splits)

lemma promise_kept:
  assumes "satisfied j w" "j < length (jobs w)" "track_do a w = Some w'"
  shows "mPromise (jobs w' ! j) = mPromise (jobs w ! j)"
  using assms
  by (cases a) (auto simp: SubmitJob_def Pause_def Resume_def ClearJobs_def RescheduleActiveJob_def nth_append
      promise_cancel_all promise_cancel_flag promise_with_job start_flag_def create_thread_def stop_signal_def
      stop_join_def stop_clear_def stop_forget_def promise_worker split: if_splits option.splits sum.splits)

section \<open>Stopping\<close>

text \<open>How many steps the thread still takes at most once \<open>mStopped\<close> is set.\<close>

fun pc_rank :: "track_pc \<Rightarrow> nat" where
  "pc_rank (RunBegins j) = 5"
| "pc_rank (InExecute j) = 4"
| "pc_rank (RunChecks j) = 3"
| "pc_rank (RunSets j) = 2"
| "pc_rank (RunThrew j) = 2"
| "pc_rank RunEnded = 1"
| "pc_rank AtWait = 1"
| "pc_rank _ = 0"

fun is_worker :: "track_act \<Rightarrow> bool" where
  "is_worker (AWorker threw) = True"
| "is_worker _ = False"

definition stopping :: "AampTrackWorker \<Rightarrow> bool" where
  "stopping w \<longleftrightarrow> owner w \<in> {StopJoins, StopClears, StopForgets} \<and> mStopped w"

lemma worker_rank:
  assumes "ProcessJob threw w = Some w'" "mStopped w"
  shows "pc_rank (mWorkerThread w') < pc_rank (mWorkerThread w)" "mStopped w'" "owner w' = owner w" "accepted w' = accepted w"
  using assms by (auto simp: ProcessJob_def split: track_pc.splits if_splits list.splits)

lemma stopping_do:
  assumes "track_ok w" "stopping w" "track_do a w = Some w'" "a \<noteq> AStopForget"
  shows "stopping w' \<and> accepted w' = accepted w
    \<and> (if is_worker a then 1 else 0) + pc_rank (mWorkerThread w') \<le> pc_rank (mWorkerThread w)"
proof -
  have "jobs_ok w" using assms(1) by (simp add: track_ok_def)
  note clear = ClearJobs_fields [OF this]
  show ?thesis
  proof (cases a)
    case (AWorker threw)
    then show ?thesis using worker_rank [of threw w w'] assms(2,3) by (simp add: stopping_def)
  next
    case AStopJoin
    then show ?thesis using assms(2,3) by (auto simp: stopping_def stop_join_def split: if_splits)
  next
    case (ASubmit job high)
    then show ?thesis using assms(2,3) by (auto simp: stopping_def SubmitJob_def split: if_splits option.splits)
  qed (use assms in \<open>auto simp: clear stopping_def Pause_def Resume_def RescheduleActiveJob_def stop_clear_def
         split: if_splits option.splits\<close>)
qed

lemma stopping_run:
  assumes "track_ok w" "stopping w" "run_acts as w = Some w'" "AStopForget \<notin> set as"
  shows "track_ok w' \<and> stopping w' \<and> accepted w' = accepted w
    \<and> length (filter is_worker as) + pc_rank (mWorkerThread w') \<le> pc_rank (mWorkerThread w)"
  using assms
proof (induction as arbitrary: w)
  case (Cons a as)
  then obtain v where v: "track_do a w = Some v" "run_acts as v = Some w'" by (auto split: option.splits)
  have "track_ok v" using track_ok_step [OF Cons.prems(1)] v(1) by (auto simp: track_step_def)
  then show ?case
    using stopping_do [OF Cons.prems(1,2) v(1)] Cons.IH [of v] v(2) Cons.prems(4) by (auto split: if_splits)
qed simp

lemma stopped_never_blocked:
  assumes "mStopped w" "pc_rank (mWorkerThread w) > 0"
  shows "ProcessJob threw w \<noteq> None"
  using assms by (auto simp: ProcessJob_def split: track_pc.splits)

section \<open>Running the queue\<close>

lemma set_once_twice [simp]: "set_once v (set_once v p) = set_once v p"
  by (cases p; cases v) auto

text \<open>The thread alone, from one wait to the next: the first job of the queue is run.\<close>

definition idle_at_wait :: "AampTrackWorker \<Rightarrow> bool" where
  "idle_at_wait w \<longleftrightarrow> mWorkerThread w = AtWait \<and> \<not> mStopped w \<and> \<not> mPaused w \<and> jobs_ok w"

definition promises_after :: "nat set \<Rightarrow> AampTrackWorker \<Rightarrow> AampTrackWorker \<Rightarrow> bool" where
  "promises_after J w w' \<longleftrightarrow> length (jobs w') = length (jobs w) \<and> cancelling w' = cancelling w \<and> accepted w' = accepted w
     \<and> (\<forall>i. IsCancelled i w' = IsCancelled i w)
     \<and> (\<forall>i. mPromise (jobs w' ! i) =
            (if i \<in> J \<and> \<not> IsCancelled i w then set_once HasValue (mPromise (jobs w ! i)) else mPromise (jobs w ! i)))"

lemma run_first_job:
  assumes "idle_at_wait w" "mJobQueue w = j # js"
  shows "\<exists>n w'. n \<le> 6 \<and> run_acts (replicate n (AWorker False)) w = Some w' \<and> mWorkerThread w' = AtWait
    \<and> \<not> mStopped w' \<and> \<not> mPaused w' \<and> mJobQueue w' = js \<and> mActiveJob w' = None \<and> promises_after {j} w w'"
proof (cases "IsCancelled j w")
  case True
  have "run_acts (replicate 4 (AWorker False)) w = Some (w\<lparr>mActiveJob := None, mJobQueue := js\<rparr>)"
    using assms True by (cases w) (simp add: eval_nat_numeral ProcessJob_def idle_at_wait_def IsCancelled_def)
  moreover have "promises_after {j} w (w\<lparr>mActiveJob := None, mJobQueue := js\<rparr>)"
    using True by (auto simp: promises_after_def IsCancelled_def)
  ultimately show ?thesis
    using assms by (intro exI [of _ 4] exI) (auto simp: idle_at_wait_def)
next
  case False
  have j: "j < length (jobs w)" using jobs_okD(1) [of w] assms by (auto simp: idle_at_wait_def)
  let ?w = "satisfy j HasValue (w\<lparr>mActiveJob := None, mJobQueue := js\<rparr>)"
  have "run_acts (replicate 6 (AWorker False)) w = Some ?w"
    using assms False by (cases w)
      (simp add: eval_nat_numeral ProcessJob_def idle_at_wait_def IsCancelled_def satisfy_def with_job_def)
  moreover have "promises_after {j} w ?w"
    using False j satisfy_job(2) [of j "w\<lparr>mActiveJob := None, mJobQueue := js\<rparr>" _ HasValue]
    by (auto simp: promises_after_def satisfy_def nth_with_job IsCancelled_def)
  ultimately show ?thesis
    using assms by (intro exI [of _ 6] exI [of _ ?w]) (auto simp: idle_at_wait_def satisfy_def)
qed

lemma promises_after_trans:
  "promises_after J w w' \<Longrightarrow> promises_after K w' w'' \<Longrightarrow> promises_after (J \<union> K) w w''"
  by (auto simp: promises_after_def)

lemma run_worker_ok:
  "jobs_ok w \<Longrightarrow> run_acts (replicate n (AWorker threw)) w = Some w' \<Longrightarrow> jobs_ok w'"
  by (induction n arbitrary: w) (auto split: option.splits dest: worker_jobs_ok)

lemma run_queue:
  assumes "idle_at_wait w" "mJobQueue w = js" "mActiveJob w = None"
  shows "\<exists>n w'. n \<le> 6 * length js \<and> run_acts (replicate n (AWorker False)) w = Some w' \<and> mWorkerThread w' = AtWait
    \<and> mJobQueue w' = [] \<and> mActiveJob w' = None \<and> promises_after (set js) w w'"
  using assms
proof (induction js arbitrary: w)
  case Nil
  then show ?case by (intro exI [of _ 0] exI [of _ w]) (simp add: idle_at_wait_def promises_after_def)
next
  case (Cons j js)
  obtain n v where v: "n \<le> 6" "run_acts (replicate n (AWorker False)) w = Some v" "mWorkerThread v = AtWait"
    "\<not> mStopped v" "\<not> mPaused v" "mJobQueue v = js" "mActiveJob v = None" "promises_after {j} w v"
    using run_first_job [OF Cons.prems(1,2)] by blast
  have "idle_at_wait v"
    using v Cons.prems(1) run_worker_ok [OF _ v(2)] by (simp add: idle_at_wait_def)
  then obtain m w' where w': "m \<le> 6 * length js" "run_acts (replicate m (AWorker False)) v = Some w'"
    "mWorkerThread w' = AtWait" "mJobQueue w' = []" "mActiveJob w' = None" "promises_after (set js) v w'"
    using Cons.IH [of v] v by blast
  have "run_acts (replicate (n + m) (AWorker False)) w = Some w'"
    using v(2) w'(2) by (simp add: replicate_add run_acts_append)
  then show ?case
    using v(1) w' promises_after_trans [OF v(8) w'(6)] by (intro exI [of _ "n + m"] exI [of _ w']) auto
qed

section \<open>Properties\<close>

definition sample_worker :: AampTrackWorker where
  "sample_worker = \<lparr>mMediaType = eMEDIATYPE_VIDEO, mWorkerThread = NoThread, mJobQueue = [], mStopped = True,
     mPaused = False, mActiveJob = None, owner = OwnerIdle, jobs = [], cancelling = [], accepted = []\<rparr>"

definition sample_running :: AampTrackWorker where
  "sample_running = sample_worker\<lparr>mWorkerThread := AtWait, mStopped := False, mJobQueue := [1, 0],
     jobs := [mkAampTrackWorkerJob, mkAampTrackWorkerJob], accepted := [1, 0]\<rparr>"

definition sample_stopping :: AampTrackWorker where
  "sample_stopping = sample_running\<lparr>mActiveJob := Some 1, mJobQueue := [0], mWorkerThread := RunBegins 1,
     mStopped := True, owner := StopJoins\<rparr>"

lemma sample_running_reach: "reach track_start track_step sample_running"
proof (rule run_acts_reach)
  show "reach track_start track_step sample_worker"
    by (rule reach_start) (simp add: track_start_def mkAampTrackWorker_def sample_worker_def)
  show "run_acts [AStartFlag, AStartThread True, ANewJob, ANewJob, ASubmit (Some 0) False, ASubmit (Some 1) True] sample_worker
    = Some sample_running"
    by (simp add: sample_worker_def sample_running_def start_flag_def joinable_def create_thread_def SubmitJob_def)
qed

lemma sample_running_idle: "mWorkerThread sample_running = AtWait" "\<not> mStopped sample_running" "\<not> mPaused sample_running"
  by (simp_all add: sample_running_def sample_worker_def)

lemma sample_stopping_reach: "reach track_start track_step sample_stopping"
proof (rule run_acts_reach [OF sample_running_reach])
  show "run_acts [AWorker False, AStopSignal] sample_running = Some sample_stopping"
    by (simp add: sample_worker_def sample_running_def sample_stopping_def ProcessJob_def stop_signal_def)
qed

text \<open>
  C16: no job that was accepted is lost, under every interleaving of submitters, cancellers, the owner and the
  thread: in each reachable state it waits in the queue, is being run, is being cancelled by some thread, or
  its promise is set; a cancelled job has its promise set or is about to; and a promise that is set never
  changes again, whatever is called or run next.
\<close>

theorem track_jobs_accounted:
  assumes "reach track_start track_step w"
  shows "(\<forall>j. j \<in> set (accepted w) \<longrightarrow> accounted j w)
    \<and> (\<forall>j. j < length (jobs w) \<and> IsCancelled j w \<longrightarrow> satisfied j w \<or> j \<in> set (cancelling w))
    \<and> (\<forall>a w' j. track_do a w = Some w' \<and> j < length (jobs w) \<and> satisfied j w
         \<longrightarrow> mPromise (jobs w' ! j) = mPromise (jobs w ! j))"
  using track.inv_reach [OF assms] by (auto simp: track_ok_def jobs_ok_def intro: promise_kept)

theorem track_jobs_accounted_witness: "accounted 0 sample_stopping \<and> \<not> satisfied 0 sample_stopping"
  using track_jobs_accounted [OF sample_stopping_reach]
  by (simp add: sample_stopping_def sample_running_def satisfied_def mkAampTrackWorkerJob_def)

text \<open>
  C18: \<open>StopWorker\<close> returns and leaves no accepted job behind. After its signal, however the other threads
  interleave, the worker thread is never blocked and takes at most five more steps before it ends
  (given that \<open>Execute\<close> returns or throws), the join is possible once it has ended, nothing more is accepted, and
  when the jobs have been cleared the queue is empty and every job accepted before has its promise set, or another
  thread that cancelled it is about to set it.
\<close>

theorem stop_worker_ends:
  assumes "reach track_start track_step w" "owner w = StopJoins"
    and "run_acts as w = Some w'" "AStopForget \<notin> set as"
  shows "length (filter is_worker as) + pc_rank (mWorkerThread w') \<le> 5 \<and> accepted w' = accepted w
    \<and> (pc_rank (mWorkerThread w') > 0 \<longrightarrow> (\<forall>threw. ProcessJob threw w' \<noteq> None))
    \<and> (owner w' = StopJoins \<and> pc_rank (mWorkerThread w') = 0 \<longrightarrow> stop_join w' \<noteq> None)
    \<and> (owner w' = StopForgets \<longrightarrow> mJobQueue w' = [] \<and> mActiveJob w' = None
         \<and> (\<forall>j. j \<in> set (accepted w) \<longrightarrow> satisfied j w' \<or> j \<in> set (cancelling w')))"
proof (intro conjI impI allI)
  have ok: "track_ok w" by (rule track.inv_reach [OF assms(1)])
  then have st: "stopping w" using assms(2) by (simp add: stopping_def track_ok_def thread_ok_def)
  note run = stopping_run [OF ok st assms(3,4)]
  have "pc_rank (mWorkerThread w) \<le> 5" by (cases "mWorkerThread w") auto
  then show "length (filter is_worker as) + pc_rank (mWorkerThread w') \<le> 5" using run by linarith
  show "ProcessJob threw w' \<noteq> None" if "pc_rank (mWorkerThread w') > 0" for threw
    using stopped_never_blocked that run by (simp add: stopping_def)
  show "stop_join w' \<noteq> None" if "owner w' = StopJoins \<and> pc_rank (mWorkerThread w') = 0"
    using that by (cases "mWorkerThread w'") (auto simp: stop_join_def joinable_def)
  show acc: "accepted w' = accepted w" using run by simp
  show "mJobQueue w' = []" "mActiveJob w' = None" if "owner w' = StopForgets"
    using run that by (auto simp: track_ok_def thread_ok_def joinable_def)
  show "satisfied j w' \<or> j \<in> set (cancelling w')" if "owner w' = StopForgets" "j \<in> set (accepted w)" for j
    using run that by (auto simp: acc track_ok_def thread_ok_def joinable_def jobs_ok_def accounted_def)
qed

theorem stop_worker_ends_witness:
  "\<exists>w'. run_acts (replicate 5 (AWorker False) @ [AStopJoin, AStopClear]) sample_stopping = Some w'
     \<and> owner w' = StopForgets \<and> mPromise (jobs w' ! 1) = HasValue \<and> mPromise (jobs w' ! 0) = HasException \<and> mJobQueue w' = []"
proof -
  let ?as = "replicate 5 (AWorker False) @ [AStopJoin, AStopClear]"
  obtain w' where w': "run_acts ?as sample_stopping = Some w'" "owner w' = StopForgets"
    "mPromise (jobs w' ! 1) = HasValue" "mPromise (jobs w' ! 0) = HasException"
    by (simp add: eval_nat_numeral sample_stopping_def sample_running_def sample_worker_def ProcessJob_def IsCancelled_def
        satisfy_def with_job_def mkAampTrackWorkerJob_def stop_join_def joinable_def stop_clear_def ClearJobs_def
        SetCancelled_def cancel_flag_def)
  moreover have "mJobQueue w' = []"
    using stop_worker_ends [OF sample_stopping_reach _ w'(1)] w'(2) by (simp add: sample_stopping_def)
  ultimately show ?thesis by blast
qed

text \<open>
  A worker that waits, neither stopped nor paused, and is left to run with jobs that return, works its queue
  off within six steps for each job: then the queue is empty, the thread waits again, the future of every job that
  waited and was not cancelled has a value (unless its promise was set before), and no other promise has changed.
\<close>

theorem worker_runs_queue:
  assumes "reach track_start track_step w" "mWorkerThread w = AtWait" "\<not> mStopped w" "\<not> mPaused w"
  shows "\<exists>n w'. n \<le> 6 * length (mJobQueue w) \<and> run_acts (replicate n (AWorker False)) w = Some w'
    \<and> mWorkerThread w' = AtWait \<and> mJobQueue w' = [] \<and> mActiveJob w' = None
    \<and> (\<forall>i. mPromise (jobs w' ! i) =
         (if i \<in> set (mJobQueue w) \<and> \<not> IsCancelled i w then set_once HasValue (mPromise (jobs w ! i))
          else mPromise (jobs w ! i)))"
proof -
  have ok: "track_ok w" by (rule track.inv_reach [OF assms(1)])
  then have "idle_at_wait w" "mActiveJob w = None"
    using assms by (auto simp: idle_at_wait_def track_ok_def thread_ok_def)
  then show ?thesis using run_queue [of w "mJobQueue w"] by (auto simp: promises_after_def)
qed

theorem worker_runs_queue_witness:
  "\<exists>n w'. run_acts (replicate n (AWorker False)) sample_running = Some w' \<and> mJobQueue w' = []
     \<and> mPromise (jobs w' ! 0) = HasValue \<and> mPromise (jobs w' ! 1) = HasValue"
proof -
  obtain n w' where w': "run_acts (replicate n (AWorker False)) sample_running = Some w'" "mJobQueue w' = []"
    and p: "\<And>i. mPromise (jobs w' ! i) =
         (if i \<in> set (mJobQueue sample_running) \<and> \<not> IsCancelled i sample_running
          then set_once HasValue (mPromise (jobs sample_running ! i)) else mPromise (jobs sample_running ! i))"
    using worker_runs_queue [OF sample_running_reach] sample_running_idle by blast
  have "mPromise (jobs w' ! 0) = HasValue" "mPromise (jobs w' ! 1) = HasValue"
    unfolding p by (simp_all add: sample_running_def IsCancelled_def mkAampTrackWorkerJob_def)
  with w' show ?thesis by blast
qed

text \<open>
  What the calls do that are refused, and where a job is stranded. \<open>SubmitJob\<close> of a null job or on a stopped worker
  returns an empty future and changes nothing; \<open>StartWorker\<close> throws exactly when the thread is joinable or the worker
  is not stopped. When the thread cannot be created, a job accepted between the flag and the failure stays
  queued, unsatisfied, on a stopped worker without a thread.
\<close>

theorem track_worker_refusals:
  "SubmitJob None high w = (None, w) \<and> (mStopped w \<longrightarrow> SubmitJob job high w = (None, w))
   \<and> (isl (StartWorker created w) \<longleftrightarrow> joinable w \<or> \<not> mStopped w)
   \<and> (\<exists>w. run_acts [ANewJob, AStartFlag, ASubmit (Some 0) False, AStartThread False] sample_worker = Some w
        \<and> mJobQueue w = [0] \<and> 0 \<in> set (accepted w) \<and> \<not> satisfied 0 w \<and> mStopped w \<and> \<not> joinable w)"
  by (auto simp: SubmitJob_def StartWorker_def start_flag_def create_thread_def sample_worker_def joinable_def
      satisfied_def mkAampTrackWorkerJob_def isl_def split: option.split if_splits)

theorem track_worker_refusals_witness: "mStopped sample_worker \<and> SubmitJob (Some 0) True sample_worker = (None, sample_worker)"
  using track_worker_refusals [of True sample_worker "Some 0"] by (simp add: sample_worker_def)

section \<open>A job as a barrier\<close>

text \<open>
  \<open>WaitForCompletionWithTimeout\<close> and \<open>ResetWorker\<close> of the manager wait for a job of their own at the end of the
  queue. \<open>settled\<close>: the promise is set, or the thread that cancelled the job is about to set it.
\<close>

definition settled :: "nat \<Rightarrow> AampTrackWorker \<Rightarrow> bool" where
  "settled j w \<longleftrightarrow> satisfied j w \<or> j \<in> set (cancelling w)"

definition before :: "nat \<Rightarrow> nat list \<Rightarrow> nat set" where
  "before j q = set (takeWhile (\<lambda>i. i \<noteq> j) q)"

definition behind :: "nat set \<Rightarrow> nat \<Rightarrow> AampTrackWorker \<Rightarrow> bool" where
  "behind A j w \<longleftrightarrow>
     (\<forall>i\<in>A. settled i w) \<or> mPromise (jobs w ! j) = HasException
     \<or> (j \<in> set (mJobQueue w) \<and> \<not> satisfied j w \<and> j \<notin> set (cancelling w) \<and> pc_job (mWorkerThread w) \<noteq> Some j
        \<and> (\<forall>i\<in>A. settled i w \<or> pc_job (mWorkerThread w) = Some i \<or> i \<in> before j (mJobQueue w)))"

definition leaves_alone :: "nat \<Rightarrow> track_act \<Rightarrow> bool" where
  "leaves_alone j a \<longleftrightarrow> a \<noteq> ACancelFlag j \<and> (\<forall>high. a \<noteq> ASubmit (Some j) high)"

lemma before_simps [simp]:
  "before j (i # q) = (if i = j then {} else insert i (before j q))" "before j [] = {}"
  "j \<in> set q \<Longrightarrow> before j (q @ r) = before j q"
  by (auto simp: before_def takeWhile_append1)

lemma before_snoc: "j \<notin> set q \<Longrightarrow> before j (q @ [j]) = set q"
  by (induction q) auto

lemma before_notin: "j \<notin> before j q" "before j q \<subseteq> set q"
  by (auto simp: before_def dest: set_takeWhileD)

lemma settled_frame:
  assumes "track_ok w" "track_do a w = Some w'" "i < length (jobs w)" "settled i w"
  shows "settled i w'"
proof (cases "satisfied i w")
  case True
  then show ?thesis using promise_kept [OF True assms(3,2)] by (simp add: settled_def satisfied_def)
next
  case False
  then have i: "i \<in> set (cancelling w)" using assms(4) by (simp add: settled_def)
  have "jobs_ok w" using assms(1) by (simp add: track_ok_def)
  note clear = ClearJobs_fields [OF this]
  show ?thesis
  proof (cases a)
    case (ACancelPromise j)
    then show ?thesis
      using assms(2,3) i satisfied_def satisfy_job(1) [of j w i HasException] in_set_remove1 [of i j "cancelling w"]
      by (cases "i = j") (auto simp: settled_def satisfied_def split: if_splits)
  next
    case (AWorker threw)
    have "cancelling w' = cancelling w"
      using assms(2) AWorker by (auto simp: ProcessJob_def IsCancelled_def split: track_pc.splits if_splits list.splits)
    then show ?thesis using i by (simp add: settled_def)
  qed (use assms(2) i in \<open>auto simp: clear settled_def SubmitJob_def Pause_def Resume_def RescheduleActiveJob_def start_flag_def
         create_thread_def stop_signal_def stop_join_def stop_clear_def stop_forget_def split: if_splits option.splits sum.splits\<close>)
qed

lemma run_settles:
  assumes "track_ok w" "pc_job (mWorkerThread w) = Some k" "ProcessJob threw w = Some w'" "pc_job (mWorkerThread w') \<noteq> Some k"
  shows "settled k w'"
proof -
  have k: "k < length (jobs w)" and c: "IsCancelled k w \<Longrightarrow> settled k w"
    using jobs_okD(4,5) [of w] assms(1,2) by (auto simp: track_ok_def settled_def)
  have "mPromise (jobs (satisfy k HasValue w) ! k) \<noteq> Unsatisfied" "mPromise (jobs (satisfy k HasException w) ! k) \<noteq> Unsatisfied"
    using satisfy_job(1) [OF k] by (auto simp: satisfied_def)
  then show ?thesis
    using assms(2-4) c
    by (cases "mWorkerThread w") (auto simp: ProcessJob_def settled_def satisfied_def split: if_splits)
qed

lemma worker_other_promise:
  assumes "ProcessJob threw w = Some w'" "pc_job (mWorkerThread w) \<noteq> Some j"
  shows "mPromise (jobs w' ! j) = mPromise (jobs w ! j)" "cancelling w' = cancelling w"
  using assms by (auto simp: ProcessJob_def satisfy_def with_job_def split: track_pc.splits if_splits list.splits)

lemma behind_worker:
  assumes ok: "track_ok w" and A: "A \<subseteq> {..<length (jobs w)}" and b: "behind A j w"
    and step: "ProcessJob threw w = Some w'"
  shows "behind A j w'"
proof -
  have keep: "settled i w'" if "settled i w" "i \<in> A" for i
    using settled_frame [OF ok, of "AWorker threw" w' i] step that A by auto
  consider "\<forall>i\<in>A. settled i w" | "mPromise (jobs w ! j) = HasException"
    | "j \<in> set (mJobQueue w)" "\<not> satisfied j w" "j \<notin> set (cancelling w)" "pc_job (mWorkerThread w) \<noteq> Some j"
      "\<forall>i\<in>A. settled i w \<or> pc_job (mWorkerThread w) = Some i \<or> i \<in> before j (mJobQueue w)"
    using b unfolding behind_def by blast
  then show ?thesis
  proof cases
    case 1
    then show ?thesis using keep by (auto simp: behind_def)
  next
    case 2
    then have "mPromise (jobs w' ! j) = HasException"
      using promise_worker [OF _ step, of j] by (simp add: satisfied_def)
    then show ?thesis by (simp add: behind_def)
  next
    case 3
    note other = worker_other_promise [OF step 3(4)]
    show ?thesis
    proof (cases "mWorkerThread w = AtWait \<and> \<not> mStopped w")
      case True
      then obtain k q where q: "mJobQueue w = k # q" "w' = w\<lparr>mActiveJob := Some k, mJobQueue := q, mWorkerThread := RunBegins k\<rparr>"
        using step by (auto simp: ProcessJob_def split: list.splits if_splits)
      show ?thesis
      proof (cases "k = j")
        case True
        then show ?thesis using 3(5) q keep \<open>mWorkerThread w = AtWait \<and> \<not> mStopped w\<close> by (auto simp: behind_def)
      next
        case False
        then show ?thesis
          using 3 q keep \<open>mWorkerThread w = AtWait \<and> \<not> mStopped w\<close>
          by (auto simp: behind_def satisfied_def settled_def)
      qed
    next
      case False
      have same: "mJobQueue w' = mJobQueue w" and pc: "pc_job (mWorkerThread w') \<in> {None, pc_job (mWorkerThread w)}"
        using step False by (auto simp: ProcessJob_def split: track_pc.splits if_splits list.splits)
      have "settled i w' \<or> pc_job (mWorkerThread w') = Some i \<or> i \<in> before j (mJobQueue w')" if "i \<in> A" for i
        using 3(5) that keep [of i] run_settles [OF ok _ step, of i] unfolding same by auto
      moreover have "\<not> satisfied j w'" "j \<notin> set (cancelling w')" "pc_job (mWorkerThread w') \<noteq> Some j"
        using 3 other pc by (auto simp: satisfied_def)
      ultimately show ?thesis using 3(1) same by (simp add: behind_def)
    qed
  qed
qed

lemma cancel_all_promise:
  "mPromise (jobs (fold SetCancelled js w) ! j) \<in> {mPromise (jobs w ! j), HasException}"
proof (induction js arbitrary: w)
  case (Cons i js)
  have "mPromise (jobs (satisfy i HasException v) ! j) \<in> {mPromise (jobs v ! j), HasException}" for v
    by (cases "i < length (jobs v)"; cases "mPromise (jobs v ! i)") (auto simp: satisfy_def with_job_def nth_list_update list_update_beyond)
  then have "mPromise (jobs (SetCancelled i w) ! j) \<in> {mPromise (jobs w ! j), HasException}"
    by (metis SetCancelled_def insertI1 promise_cancel_flag)
  then show ?case using Cons [of "SetCancelled i w"] by auto
qed simp

lemma behind_do:
  assumes ok: "track_ok w" and A: "A \<subseteq> {..<length (jobs w)}" and j: "j < length (jobs w)"
    and b: "behind A j w" and step: "track_do a w = Some w'" and alone: "leaves_alone j a"
  shows "behind A j w'"
proof -
  have jok: "jobs_ok w" using ok by (simp add: track_ok_def)
  note clear = ClearJobs_fields [OF jok]
  have keep: "settled i w'" if "settled i w" "i \<in> A" for i
    using settled_frame [OF ok step] that A by auto
  have exn: "behind A j w'" if "mPromise (jobs w' ! j) = HasException"
    using that by (simp add: behind_def)
  consider "\<forall>i\<in>A. settled i w" | "mPromise (jobs w ! j) = HasException"
    | "j \<in> set (mJobQueue w)" "\<not> satisfied j w" "j \<notin> set (cancelling w)" "pc_job (mWorkerThread w) \<noteq> Some j"
      "\<forall>i\<in>A. settled i w \<or> pc_job (mWorkerThread w) = Some i \<or> i \<in> before j (mJobQueue w)"
    using b unfolding behind_def by blast
  then show ?thesis
  proof cases
    case 1
    then show ?thesis using keep by (auto simp: behind_def)
  next
    case 2
    then show ?thesis using promise_kept [OF _ j step] exn by (simp add: satisfied_def)
  next
    case 3
    have moved: "behind A j w'"
      if "mPromise (jobs w' ! j) = mPromise (jobs w ! j)" "set (cancelling w') \<subseteq> insert i (set (cancelling w))" "i \<noteq> j"
        "mWorkerThread w' = mWorkerThread w" "before j (mJobQueue w) \<subseteq> before j (mJobQueue w')" "j \<in> set (mJobQueue w')" for i
      using that 3 keep by (auto simp: behind_def satisfied_def)
    have "\<not> IsCancelled j w" using jobs_okD(5) [OF jok _ j] 3 by blast
    then have "satisfied j (ClearJobs w)" using 3(1) by (simp add: clear)
    then have cleared: "mPromise (jobs (ClearJobs w) ! j) = HasException"
      using cancel_all_promise [of "mJobQueue w" w j] 3(2) by (auto simp: ClearJobs_def satisfied_def)
    show ?thesis
    proof (cases a)
      case (AWorker threw)
      then show ?thesis using behind_worker [OF ok A b] step by simp
    next
      case (ASubmit job high)
      then show ?thesis
        using step alone j 3(1)
        by (intro moved [of "Suc j"]) (auto simp: SubmitJob_def leaves_alone_def split: if_splits option.splits)
    next
      case ANewJob
      then show ?thesis using step j 3(1) by (intro moved [of "Suc j"]) (auto simp: nth_append)
    next
      case AReschedule
      then show ?thesis
        using step j 3(1) by (intro moved [of "Suc j"]) (auto simp: RescheduleActiveJob_def nth_append split: option.splits)
    next
      case (ACancelFlag i)
      then show ?thesis
        using step alone 3(1) by (intro moved [of i]) (auto simp: leaves_alone_def promise_cancel_flag split: if_splits)
    next
      case (ACancelPromise i)
      have "mPromise (jobs (satisfy i HasException w) ! j) = mPromise (jobs w ! j)" if "i \<noteq> j"
        using that by (cases "i < length (jobs w)") (auto simp: satisfy_def with_job_def list_update_beyond)
      moreover have "i \<noteq> j" using step ACancelPromise 3(3) by (auto split: if_splits)
      ultimately show ?thesis
        using step ACancelPromise 3(1,3) set_remove1_subset [of i "cancelling w"]
        by (intro moved [of i]) (auto split: if_splits)
    next
      case AClear
      then show ?thesis using step cleared exn by simp
    next
      case AStopClear
      then show ?thesis using step cleared by (intro exn) (auto simp: stop_clear_def split: if_splits)
    next
      case (AStartThread created)
      then have "pc_job (mWorkerThread w) = None"
        using ok step by (auto simp: track_ok_def thread_ok_def joinable_def split: if_splits)
      then show ?thesis
        using AStartThread step 3 keep by (auto simp: behind_def create_thread_def satisfied_def settled_def split: if_splits)
    next
      case AStopJoin
      then have "pc_job (mWorkerThread w) = None"
        using step by (auto simp: stop_join_def joinable_def split: if_splits)
      then show ?thesis
        using AStopJoin step 3 keep by (auto simp: behind_def stop_join_def satisfied_def settled_def split: if_splits)
    qed (rule moved [of "Suc j"]; use step 3(1) in \<open>auto simp: Pause_def Resume_def start_flag_def stop_signal_def stop_forget_def
           split: if_splits sum.splits\<close>)+
  qed
qed

lemma jobs_grow:
  assumes "track_ok w" "track_do a w = Some w'"
  shows "length (jobs w) \<le> length (jobs w')"
proof -
  have "jobs_ok w" using assms(1) by (simp add: track_ok_def)
  note clear = ClearJobs_fields [OF this]
  show ?thesis
  proof (cases a)
    case (AWorker threw)
    then show ?thesis
      using assms(2) by (auto simp: ProcessJob_def split: track_pc.splits if_splits list.splits)
  qed (use assms(2) in \<open>auto simp: clear SubmitJob_def Pause_def Resume_def RescheduleActiveJob_def start_flag_def
         create_thread_def stop_signal_def stop_join_def stop_clear_def stop_forget_def split: if_splits option.splits sum.splits\<close>)
qed

lemma behind_run:
  assumes "reach track_start track_step w" "A \<subseteq> {..<length (jobs w)}" "j < length (jobs w)" "behind A j w"
    "run_acts as w = Some w'" "\<And>a. a \<in> set as \<Longrightarrow> leaves_alone j a"
  shows "behind A j w'"
  using assms
proof (induction as arbitrary: w)
  case (Cons a as)
  then obtain v where v: "track_do a w = Some v" "run_acts as v = Some w'" by (auto split: option.splits)
  have ok: "track_ok w" by (rule track.inv_reach [OF Cons.prems(1)])
  have r: "reach track_start track_step v" by (rule reach_step [OF Cons.prems(1)]) (use v(1) in \<open>auto simp: track_step_def\<close>)
  have "behind A j v" using behind_do [OF ok Cons.prems(2-4) v(1)] Cons.prems(6) by simp
  moreover have "length (jobs w) \<le> length (jobs v)" by (rule jobs_grow [OF ok v(1)])
  ultimately show ?case
    using Cons.IH [OF r _ _ _ v(2)] Cons.prems(2,3,6) by (meson lessThan_subset_iff order.trans less_le_trans list.set_intros(2))
qed simp

lemma behind_submitted:
  assumes "track_ok w" "\<not> mStopped w"
  shows "behind (set (accepted w)) (length (jobs w))
    (snd (SubmitJob (Some (length (jobs w))) False (w\<lparr>jobs := jobs w @ [mkAampTrackWorkerJob]\<rparr>)))"
proof -
  let ?j = "length (jobs w)"
  let ?v = "w\<lparr>jobs := jobs w @ [mkAampTrackWorkerJob], mJobQueue := mJobQueue w @ [?j], accepted := ?j # accepted w\<rparr>"
  have ok: "jobs_ok w" using assms(1) by (simp add: track_ok_def)
  have "?j \<notin> set (mJobQueue w)" "?j \<notin> set (cancelling w)" "pc_job (mWorkerThread w) \<noteq> Some ?j"
    using jobs_okD(1,3,4) [OF ok] by auto
  moreover have "settled i ?v \<or> pc_job (mWorkerThread w) = Some i \<or> i \<in> set (mJobQueue w)" if "i \<in> set (accepted w)" for i
    using that ok jobs_okD(2) [OF ok] by (auto simp: jobs_ok_def accounted_def settled_def satisfied_def nth_append)
  ultimately have "behind (set (accepted w)) ?j ?v"
    by (auto simp: behind_def satisfied_def mkAampTrackWorkerJob_def before_snoc)
  then show ?thesis using assms(2) by (simp add: SubmitJob_def)
qed

text \<open>
  A job submitted at the end of the queue is a barrier. If its future comes to hold a value, every job accepted
  before it has its promise set, or is being cancelled, at that time. This holds under every interleaving in
  which nobody else submits or cancels that job; it is what the manager relies on when it waits for its own empty job.
\<close>

theorem barrier_job:
  assumes "reach track_start track_step w" "\<not> mStopped w"
    and "run_acts (ANewJob # ASubmit (Some (length (jobs w))) False # as) w = Some w'"
    and "list_all (leaves_alone (length (jobs w))) as" "mPromise (jobs w' ! length (jobs w)) = HasValue"
    and "i \<in> set (accepted w)"
  shows "satisfied i w' \<or> i \<in> set (cancelling w')"
proof -
  let ?j = "length (jobs w)"
  let ?v = "w\<lparr>jobs := jobs w @ [mkAampTrackWorkerJob], mJobQueue := mJobQueue w @ [?j], accepted := ?j # accepted w\<rparr>"
  have ok: "jobs_ok w" using track.inv_reach [OF assms(1)] by (simp add: track_ok_def)
  have v: "run_acts [ANewJob, ASubmit (Some ?j) False] w = Some ?v" using assms(2) by (simp add: SubmitJob_def)
  have b: "behind (set (accepted w)) ?j ?v"
    using behind_submitted [OF track.inv_reach [OF assms(1)] assms(2)] assms(2) by (simp add: SubmitJob_def)
  have r: "run_acts as ?v = Some w'"
    using assms(3) run_acts_append [of "[ANewJob, ASubmit (Some ?j) False]" as w]
    unfolding v by (simp only: append.simps option.case)
  have "behind (set (accepted w)) ?j w'"
  proof (rule behind_run [OF run_acts_reach [OF assms(1) v] _ _ b r])
    show "set (accepted w) \<subseteq> {..<length (jobs ?v)}" using jobs_okD(2) [OF ok] by auto
    show "leaves_alone ?j a" if "a \<in> set as" for a using assms(4) that by (simp add: list_all_iff)
  qed simp
  then show ?thesis
    using assms(5,6) by (auto simp: behind_def satisfied_def settled_def)
qed

definition sample_barrier :: AampTrackWorker where
  "sample_barrier = sample_running\<lparr>jobs := [mkAampTrackWorkerJob, mkAampTrackWorkerJob, mkAampTrackWorkerJob],
     mJobQueue := [1, 0, 2], accepted := [2, 1, 0]\<rparr>"

lemma sample_barrier_reach:
  "run_acts [ANewJob, ASubmit (Some 2) False] sample_running = Some sample_barrier"
  by (simp add: sample_barrier_def sample_running_def sample_worker_def SubmitJob_def)

theorem barrier_job_witness:
  "\<exists>n w'. run_acts (ANewJob # ASubmit (Some 2) False # replicate n (AWorker False)) sample_running = Some w'
     \<and> mPromise (jobs w' ! 2) = HasValue \<and> (satisfied 0 w' \<or> 0 \<in> set (cancelling w'))"
proof -
  have "jobs_ok sample_barrier"
    using track.inv_reach [OF run_acts_reach [OF sample_running_reach sample_barrier_reach]] by (simp add: track_ok_def)
  then have "idle_at_wait sample_barrier" "mActiveJob sample_barrier = None" "mJobQueue sample_barrier = [1, 0, 2]"
    by (simp_all add: idle_at_wait_def sample_barrier_def sample_running_def sample_worker_def)
  from run_queue [OF this(1,3,2)] obtain n w' where w':
    "run_acts (replicate n (AWorker False)) sample_barrier = Some w'" "promises_after (set [1, 0, 2]) sample_barrier w'"
    by blast
  have v: "mPromise (jobs w' ! 2) = HasValue"
    using w'(2) by (simp add: promises_after_def IsCancelled_def sample_barrier_def mkAampTrackWorkerJob_def)
  have r: "run_acts (ANewJob # ASubmit (Some 2) False # replicate n (AWorker False)) sample_running = Some w'"
    using run_acts_append [of "[ANewJob, ASubmit (Some 2) False]" "replicate n (AWorker False)" sample_running] w'(1)
    unfolding sample_barrier_reach by (simp only: append.simps option.case)
  have len: "length (jobs sample_running) = 2" by (simp add: sample_running_def)
  have "satisfied 0 w' \<or> 0 \<in> set (cancelling w')"
    by (rule barrier_job [OF sample_running_reach sample_running_idle(2), unfolded len, OF r _ v])
      (simp_all add: sample_running_def leaves_alone_def list_all_iff)
  with r v show ?thesis by blast
qed

end
