(* ===== verification/Track_Worker_Manager.thy ===== *)
theory Track_Worker_Manager
  imports Track_Worker
begin

text \<open>
  The manager of the track workers (\<open>src/AampTrackWorkerManager.cpp\<close>): it creates a worker per media type, passes
  jobs on, starts and stops all workers, and waits for them. The workers stand in a store, because a shared pointer
  taken with \<open>GetWorker\<close> stays valid after \<open>RemoveWorkers\<close>; the map holds their numbers in the order in which
  the code iterates over it.

  A call that holds \<open>mMutex\<close> throughout and takes nothing else is one step. \<open>StartWorkers\<close> and \<open>ResetWorker\<close> keep
  \<open>mMutex\<close> over several steps of the workers; \<open>StopWorkers\<close> and \<open>WaitForCompletionWithTimeout\<close> copy the map under
  \<open>mMutex\<close> and work through the copy without it. Each of these is driven by one thread at a time. All other threads,
  the workers' own among them, take steps on any worker in between.
\<close>

section \<open>State\<close>

text \<open>The thread in \<open>StartWorkers\<close> or \<open>StopWorkers\<close>, with the workers still to be handled; the flag tells whether the
  first of them has been paused.\<close>

datatype caller_pc = CallerIdle | StartEach "nat list" | StopFlagged | StopEach bool "nat list"

text \<open>The thread in \<open>ResetWorker\<close>: the worker, and the job that is waited for. \<open>ResetThrew\<close>: \<open>get\<close> of the future has
  thrown out of the call.\<close>

datatype reset_pc = ResetIdle | ResetThrew | ResetClears nat | ResetSubmits nat | ResetWaits nat nat

text \<open>The thread in \<open>WaitForCompletionWithTimeout\<close>.\<close>

datatype wait_pc = WaitIdle | WaitEach "nat list" | WaitsFor nat nat "nat list"

record AampTrackWorkerManager =
  mWorkers :: "(AampMediaType \<times> nat) list"
  mStopInProgress :: bool
  workers :: "AampTrackWorker list"
  caller :: caller_pc
  resetter :: reset_pc
  waiter :: wait_pc

definition mkAampTrackWorkerManager :: AampTrackWorkerManager where
  "mkAampTrackWorkerManager =
     \<lparr>mWorkers = [], mStopInProgress = False, workers = [], caller = CallerIdle, resetter = ResetIdle, waiter = WaitIdle\<rparr>"

definition mMutex_free :: "AampTrackWorkerManager \<Rightarrow> bool" where
  "mMutex_free m \<longleftrightarrow> (case caller m of StartEach is \<Rightarrow> False | _ \<Rightarrow> True) \<and> (resetter m = ResetIdle \<or> resetter m = ResetThrew)"

definition set_worker :: "nat \<Rightarrow> AampTrackWorker \<Rightarrow> AampTrackWorkerManager \<Rightarrow> AampTrackWorkerManager" where
  "set_worker i w m = m\<lparr>workers := (workers m)[i := w]\<rparr>"

section \<open>Operations under the mutex\<close>

definition GetWorker :: "AampMediaType \<Rightarrow> AampTrackWorkerManager \<Rightarrow> nat option" where
  "GetWorker mediaType m = map_of (mWorkers m) mediaType"

definition CreateWorker :: "bool \<Rightarrow> AampMediaType \<Rightarrow> AampTrackWorkerManager \<Rightarrow> nat option \<times> AampTrackWorkerManager" where
  "CreateWorker aamp_null mediaType m =
     (case map_of (mWorkers m) mediaType of
        Some i \<Rightarrow> (Some i, m)
      | None \<Rightarrow>
          (case mkAampTrackWorker aamp_null mediaType of
             Inl e \<Rightarrow> (None, m)
           | Inr w \<Rightarrow> (Some (length (workers m)),
               m\<lparr>workers := workers m @ [w], mWorkers := mWorkers m @ [(mediaType, length (workers m))]\<rparr>)))"

definition ManagerSubmitJob ::
    "AampMediaType \<Rightarrow> nat option \<Rightarrow> bool \<Rightarrow> AampTrackWorkerManager \<Rightarrow> nat option \<times> AampTrackWorkerManager" where
  "ManagerSubmitJob mediaType job highPriority m =
     (if mStopInProgress m then (None, m)
      else case map_of (mWorkers m) mediaType of
          None \<Rightarrow> (None, m)
        | Some i \<Rightarrow>
            let (future, w) = SubmitJob job highPriority (workers m ! i) in (future, set_worker i w m))"

definition RemoveWorkers :: "AampTrackWorkerManager \<Rightarrow> AampTrackWorkerManager" where
  "RemoveWorkers m = m\<lparr>mWorkers := [], mStopInProgress := False\<rparr>"

definition IsEmpty :: "AampTrackWorkerManager \<Rightarrow> bool" where
  "IsEmpty m \<longleftrightarrow> mWorkers m = []"

definition GetWorkerCount :: "AampTrackWorkerManager \<Rightarrow> nat" where
  "GetWorkerCount m = length (mWorkers m)"

section \<open>Operations of several steps\<close>

text \<open>\<open>StartWorkers\<close>: for each worker the flag and the thread; a worker that throws is passed over.\<close>

definition start_next :: "bool \<Rightarrow> nat \<Rightarrow> nat list \<Rightarrow> AampTrackWorkerManager \<Rightarrow> AampTrackWorkerManager" where
  "start_next created i is m =
     (let w = workers m ! i in
      if owner w = Starting then (set_worker i (create_thread created w) m)\<lparr>caller := StartEach is\<rparr>
      else case start_flag w of
          Inl e \<Rightarrow> m\<lparr>caller := StartEach is\<rparr>
        | Inr w' \<Rightarrow> set_worker i w' m)"

text \<open>\<open>StopWorkers\<close>: for each worker \<open>Pause\<close> and the stages of \<open>StopWorker\<close>, whose join may block.\<close>

definition stop_next :: "bool \<Rightarrow> nat \<Rightarrow> nat list \<Rightarrow> AampTrackWorkerManager \<Rightarrow> AampTrackWorkerManager option" where
  "stop_next paused i is m =
     (let w = workers m ! i in
      if \<not> paused then Some ((set_worker i (Pause w) m)\<lparr>caller := StopEach True (i # is)\<rparr>)
      else case owner w of
          OwnerIdle \<Rightarrow> Some (set_worker i (stop_signal w) m)
        | Starting \<Rightarrow> None
        | StopJoins \<Rightarrow> map_option (\<lambda>w'. set_worker i w' m) (stop_join w)
        | StopClears \<Rightarrow> Some (set_worker i (stop_clear w) m)
        | StopForgets \<Rightarrow> Some ((set_worker i (stop_forget w) m)\<lparr>caller := StopEach False is\<rparr>))"

text \<open>Submission of an empty job made by the manager itself: it is the next of the worker's store.\<close>

definition submit_own :: "AampTrackWorker \<Rightarrow> nat option \<times> AampTrackWorker" where
  "submit_own w = SubmitJob (Some (length (jobs w))) False (w\<lparr>jobs := jobs w @ [mkAampTrackWorkerJob]\<rparr>)"

text \<open>\<open>ResetWorker\<close>, which keeps \<open>mMutex\<close> until the future is ready.\<close>

fun reset_next :: "reset_pc \<Rightarrow> AampTrackWorkerManager \<Rightarrow> AampTrackWorkerManager option" where
  "reset_next (ResetClears i) m = Some ((set_worker i (ClearJobs (workers m ! i)) m)\<lparr>resetter := ResetSubmits i\<rparr>)"
| "reset_next (ResetSubmits i) m =
     (let (future, w) = submit_own (workers m ! i)
      in Some ((set_worker i w m)\<lparr>resetter := (case future of None \<Rightarrow> ResetIdle | Some j \<Rightarrow> ResetWaits i j)\<rparr>))"
| "reset_next (ResetWaits i j) m =
     (case mPromise (jobs (workers m ! i) ! j) of
        Unsatisfied \<Rightarrow> None
      | HasValue \<Rightarrow> Some (m\<lparr>resetter := ResetIdle\<rparr>)
      | HasException \<Rightarrow> Some (m\<lparr>resetter := ResetThrew\<rparr>))"
| "reset_next _ m = None"

text \<open>
  \<open>WaitForCompletionWithTimeout\<close>: an empty job for each worker; the video and the audio worker are waited for, an
  exception of the future is caught, and \<open>onTimeout\<close> is called (without effect here) while it is not ready.
\<close>

fun wait_next :: "wait_pc \<Rightarrow> AampTrackWorkerManager \<Rightarrow> AampTrackWorkerManager option" where
  "wait_next (WaitEach []) m = Some (m\<lparr>waiter := WaitIdle\<rparr>)"
| "wait_next (WaitEach (i # is)) m =
     (let (future, w) = submit_own (workers m ! i)
      in Some ((set_worker i w m)\<lparr>waiter :=
           (case future of
              Some j \<Rightarrow> (if mMediaType w \<in> {eMEDIATYPE_VIDEO, eMEDIATYPE_AUDIO} then WaitsFor i j is else WaitEach is)
            | None \<Rightarrow> WaitEach is)\<rparr>))"
| "wait_next (WaitsFor i j is) m =
     Some (if satisfied j (workers m ! i) then m\<lparr>waiter := WaitEach is\<rparr> else m)"
| "wait_next WaitIdle m = None"

section \<open>Steps\<close>

datatype mgr_act =
    MCreate bool AampMediaType | MSubmit AampMediaType "nat option" bool | MRemove
  | MStart | MStartNext bool | MStop | MStopNext | MStopEnd
  | MReset AampMediaType | MResetNext | MWait | MWaitNext | MTrack nat track_act

text \<open>Only the manager starts and stops workers.\<close>

fun external :: "track_act \<Rightarrow> bool" where
  "external AStartFlag = False"
| "external (AStartThread created) = False"
| "external AStopSignal = False"
| "external AStopJoin = False"
| "external AStopClear = False"
| "external AStopForget = False"
| "external _ = True"

fun mgr_do :: "mgr_act \<Rightarrow> AampTrackWorkerManager \<Rightarrow> AampTrackWorkerManager option" where
  "mgr_do (MCreate aamp_null mediaType) m =
     (if mMutex_free m then Some (snd (CreateWorker aamp_null mediaType m)) else None)"
| "mgr_do (MSubmit mediaType job high) m =
     (if mMutex_free m \<and> (\<forall>i \<in> set_option (GetWorker mediaType m). valid_job job (workers m ! i))
      then Some (snd (ManagerSubmitJob mediaType job high m)) else None)"
| "mgr_do MRemove m = (if mMutex_free m then Some (RemoveWorkers m) else None)"
| "mgr_do MStart m =
     (if mMutex_free m \<and> caller m = CallerIdle then Some (m\<lparr>caller := StartEach (map snd (mWorkers m))\<rparr>) else None)"
| "mgr_do (MStartNext created) m =
     (case caller m of
        StartEach [] \<Rightarrow> Some (m\<lparr>caller := CallerIdle\<rparr>)
      | StartEach (i # is) \<Rightarrow> Some (start_next created i is m)
      | _ \<Rightarrow> None)"
| "mgr_do MStop m = (if caller m = CallerIdle then Some (m\<lparr>mStopInProgress := True, caller := StopFlagged\<rparr>) else None)"
| "mgr_do MStopNext m =
     (case caller m of
        StopFlagged \<Rightarrow> (if mMutex_free m then Some (m\<lparr>caller := StopEach False (map snd (mWorkers m))\<rparr>) else None)
      | StopEach paused (i # is) \<Rightarrow> stop_next paused i is m
      | _ \<Rightarrow> None)"
| "mgr_do MStopEnd m =
     (case caller m of StopEach paused [] \<Rightarrow> Some (m\<lparr>caller := CallerIdle\<rparr>) | _ \<Rightarrow> None)"
| "mgr_do (MReset mediaType) m =
     (if mMutex_free m
      then Some (case map_of (mWorkers m) mediaType of None \<Rightarrow> m | Some i \<Rightarrow> m\<lparr>resetter := ResetClears i\<rparr>) else None)"
| "mgr_do MResetNext m = reset_next (resetter m) m"
| "mgr_do MWait m =
     (if mMutex_free m \<and> waiter m = WaitIdle then Some (m\<lparr>waiter := WaitEach (map snd (mWorkers m))\<rparr>) else None)"
| "mgr_do MWaitNext m = wait_next (waiter m) m"
| "mgr_do (MTrack i a) m =
     (if i < length (workers m) \<and> external a then map_option (\<lambda>w. set_worker i w m) (track_do a (workers m ! i)) else None)"

definition mgr_step :: "AampTrackWorkerManager \<Rightarrow> AampTrackWorkerManager \<Rightarrow> bool" where
  "mgr_step m m' \<longleftrightarrow> (\<exists>a. mgr_do a m = Some m')"

fun run_mgr :: "mgr_act list \<Rightarrow> AampTrackWorkerManager \<Rightarrow> AampTrackWorkerManager option" where
  "run_mgr [] m = Some m"
| "run_mgr (a # as) m = (case mgr_do a m of None \<Rightarrow> None | Some m' \<Rightarrow> run_mgr as m')"

section \<open>What a step does to the workers\<close>

lemma set_worker_fields [simp]:
  "mWorkers (set_worker i w m) = mWorkers m" "mStopInProgress (set_worker i w m) = mStopInProgress m"
  "caller (set_worker i w m) = caller m" "resetter (set_worker i w m) = resetter m" "waiter (set_worker i w m) = waiter m"
  "workers (set_worker i w m) = (workers m)[i := w]"
  by (simp_all add: set_worker_def)

text \<open>The calls of the manager leave the job of another alone.\<close>

definition spares :: "nat \<Rightarrow> nat \<Rightarrow> mgr_act \<Rightarrow> bool" where
  "spares i j a \<longleftrightarrow> (\<forall>b. a = MTrack i b \<longrightarrow> leaves_alone j b) \<and> (\<forall>mediaType high. a \<noteq> MSubmit mediaType (Some j) high)"

definition handled :: "mgr_act \<Rightarrow> AampTrackWorkerManager \<Rightarrow> nat \<Rightarrow> bool" where
  "handled a m i \<longleftrightarrow>
     (\<exists>is. caller m = StartEach (i # is) \<and> (\<exists>created. a = MStartNext created)
        \<or> (\<exists>paused. caller m = StopEach paused (i # is) \<and> a = MStopNext))"

fun caller_ids :: "caller_pc \<Rightarrow> nat list" where
  "caller_ids (StartEach is) = is"
| "caller_ids (StopEach paused is) = is"
| "caller_ids _ = []"

fun reset_ids :: "reset_pc \<Rightarrow> nat list" where
  "reset_ids (ResetClears i) = [i]"
| "reset_ids (ResetSubmits i) = [i]"
| "reset_ids (ResetWaits i j) = [i]"
| "reset_ids _ = []"

fun wait_ids :: "wait_pc \<Rightarrow> nat list" where
  "wait_ids (WaitEach is) = is"
| "wait_ids (WaitsFor i j is) = i # is"
| "wait_ids WaitIdle = []"

definition ids_ok :: "AampTrackWorkerManager \<Rightarrow> bool" where
  "ids_ok m \<longleftrightarrow>
     distinct (map fst (mWorkers m)) \<and> distinct (map snd (mWorkers m)) \<and> distinct (caller_ids (caller m))
     \<and> set (map snd (mWorkers m)) \<union> set (caller_ids (caller m)) \<union> set (reset_ids (resetter m))
         \<union> set (wait_ids (waiter m)) \<subseteq> {..<length (workers m)}"

lemma ids_okD:
  assumes "ids_ok m"
  shows "map_of (mWorkers m) mediaType = Some i \<Longrightarrow> i < length (workers m)"
    "caller m = StartEach (i # is) \<Longrightarrow> i < length (workers m)"
    "caller m = StopEach paused (i # is) \<Longrightarrow> i < length (workers m)"
    "resetter m = ResetClears i \<or> resetter m = ResetSubmits i \<or> resetter m = ResetWaits i j \<Longrightarrow> i < length (workers m)"
    "waiter m = WaitEach (i # is) \<Longrightarrow> i < length (workers m)"
  using assms by (auto simp: ids_ok_def dest!: map_of_SomeD)

text \<open>Every step leaves the workers alone, creates one, or runs actions on one.\<close>

inductive workers_change :: "mgr_act \<Rightarrow> AampTrackWorkerManager \<Rightarrow> AampTrackWorkerManager \<Rightarrow> bool"
  for a m m' where
  unchanged: "workers m' = workers m \<Longrightarrow> workers_change a m m'"
| created: "track_start w \<Longrightarrow> mMediaType w = mediaType \<Longrightarrow> workers m' = workers m @ [w] \<Longrightarrow> workers_change a m m'"
| ran: "i < length (workers m) \<Longrightarrow> run_acts as (workers m ! i) = Some w \<Longrightarrow> workers m' = (workers m)[i := w]
    \<Longrightarrow> list_all external as \<or> handled a m i
    \<Longrightarrow> (\<And>j. j < length (jobs (workers m ! i)) \<Longrightarrow> spares i j a \<Longrightarrow> list_all (leaves_alone j) as)
    \<Longrightarrow> workers_change a m m'"

lemma ran_one:
  assumes "i < length (workers m)" "track_do b (workers m ! i) = Some w" "workers m' = (workers m)[i := w]"
    "external b \<or> handled a m i" "\<And>j. j < length (jobs (workers m ! i)) \<Longrightarrow> spares i j a \<Longrightarrow> leaves_alone j b"
  shows "workers_change a m m'"
  by (rule ran [of i m "[b]"]) (use assms in auto)

lemma ran_own:
  assumes "i < length (workers m)" "workers m' = (workers m)[i := snd (submit_own (workers m ! i))]"
  shows "workers_change a m m'"
  by (rule ran [of i m "[ANewJob, ASubmit (Some (length (jobs (workers m ! i)))) False]" _ m'])
    (use assms in \<open>auto simp: submit_own_def leaves_alone_def\<close>)

lemma start_next_change:
  assumes "caller m = StartEach (i # is)" "i < length (workers m)" "\<And>w. w = workers m ! i \<Longrightarrow> owner w = OwnerIdle \<or> owner w = Starting"
  shows "workers_change (MStartNext created) m (start_next created i is m)"
proof (cases "owner (workers m ! i) = Starting")
  case True
  then show ?thesis
    by (intro ran_one [of i m "AStartThread created" "create_thread created (workers m ! i)"])
      (use assms in \<open>auto simp: start_next_def handled_def leaves_alone_def\<close>)
next
  case False
  show ?thesis
  proof (cases "start_flag (workers m ! i)")
    case (Inl e)
    then show ?thesis using False by (intro unchanged) (simp add: start_next_def)
  next
    case (Inr w)
    then show ?thesis
      by (intro ran_one [of i m AStartFlag w]) (use assms False in \<open>auto simp: start_next_def handled_def leaves_alone_def\<close>)
  qed
qed

lemma stop_next_change:
  assumes "caller m = StopEach paused (i # is)" "i < length (workers m)" "stop_next paused i is m = Some m'"
  shows "workers_change MStopNext m m'"
proof -
  have step: "workers_change MStopNext m m'" if "track_do b (workers m ! i) = Some w" "workers m' = (workers m)[i := w]"
    "\<And>j. leaves_alone j b" for b w
    using that assms(1,2) by (intro ran_one [of i m b w]) (auto simp: handled_def)
  show ?thesis
  proof (cases paused)
    case False
    then show ?thesis using assms(3) by (intro step [of APause]) (auto simp: stop_next_def leaves_alone_def)
  next
    case True
    show ?thesis
    proof (cases "owner (workers m ! i)")
      case OwnerIdle
      then show ?thesis using True assms(3) by (intro step [of AStopSignal]) (auto simp: stop_next_def leaves_alone_def)
    next
      case Starting
      then show ?thesis using True assms(3) by (simp add: stop_next_def)
    next
      case StopJoins
      then obtain w where "stop_join (workers m ! i) = Some w" "m' = set_worker i w m"
        using True assms(3) by (auto simp: stop_next_def)
      then show ?thesis using StopJoins by (intro step [of AStopJoin w]) (auto simp: leaves_alone_def)
    next
      case StopClears
      then show ?thesis using True assms(3) by (intro step [of AStopClear]) (auto simp: stop_next_def leaves_alone_def)
    next
      case StopForgets
      then show ?thesis using True assms(3) by (intro step [of AStopForget]) (auto simp: stop_next_def leaves_alone_def)
    qed
  qed
qed

section \<open>The invariant\<close>

text \<open>Only the worker that the caller is at is being started or stopped.\<close>

definition owner_ok :: "AampTrackWorkerManager \<Rightarrow> nat \<Rightarrow> bool" where
  "owner_ok m i \<longleftrightarrow>
     (case owner (workers m ! i) of
        OwnerIdle \<Rightarrow> True
      | Starting \<Rightarrow> (\<exists>is. caller m = StartEach (i # is))
      | _ \<Rightarrow> (\<exists>is. caller m = StopEach True (i # is)))"

definition mgr_ok :: "AampTrackWorkerManager \<Rightarrow> bool" where
  "mgr_ok m \<longleftrightarrow>
     ids_ok m \<and> (\<forall>i<length (workers m). reach track_start track_step (workers m ! i) \<and> owner_ok m i)
     \<and> (\<forall>(mediaType, i)\<in>set (mWorkers m). mMediaType (workers m ! i) = mediaType)"

lemma mgr_change:
  assumes "mgr_ok m" "mgr_do a m = Some m'"
  shows "workers_change a m m'"
proof -
  have ids: "ids_ok m" using assms(1) by (simp add: mgr_ok_def)
  note idsD = ids_okD [OF ids]
  show ?thesis
  proof (cases a)
    case (MCreate aamp_null mediaType)
    show ?thesis
    proof (cases "workers m' = workers m")
      case False
      then obtain w where w: "mkAampTrackWorker False mediaType = Inr w" "workers m' = workers m @ [w]"
        using assms(2) MCreate
        by (auto simp: CreateWorker_def mkAampTrackWorker_def split: if_splits option.splits sum.splits)
      then show ?thesis
        by (intro created [of w mediaType]) (auto simp: track_start_def mkAampTrackWorker_def)
    qed (rule unchanged)
  next
    case (MSubmit mediaType job high)
    show ?thesis
    proof (cases "workers m' = workers m")
      case False
      then obtain i where i: "map_of (mWorkers m) mediaType = Some i" "valid_job job (workers m ! i)"
          "workers m' = (workers m)[i := snd (SubmitJob job high (workers m ! i))]" "job \<noteq> None"
        using assms(2) MSubmit
        by (cases job) (auto simp: ManagerSubmitJob_def GetWorker_def SubmitJob_def Let_def split: if_splits option.splits prod.splits)
      then show ?thesis
        using idsD(1) [OF i(1)] MSubmit
        by (intro ran_one [of i m "ASubmit job high"]) (auto simp: leaves_alone_def spares_def)
    qed (rule unchanged)
  next
    case (MStartNext created)
    then show ?thesis
    proof (cases "caller m")
      case (StartEach ks)
      show ?thesis
      proof (cases ks)
        case Nil
        then show ?thesis using StartEach MStartNext assms(2) by (intro unchanged) auto
      next
        case (Cons i js)
        then have c: "caller m = StartEach (i # js)" "m' = start_next created i js m"
          using StartEach MStartNext assms(2) by auto
        have "owner_ok m i" using idsD(2) [OF c(1)] assms(1) by (simp add: mgr_ok_def)
        then show ?thesis
          using start_next_change [OF c(1) idsD(2) [OF c(1)]] c MStartNext by (auto simp: owner_ok_def split: owner_pc.splits)
      qed
    qed (use assms(2) in auto)
  next
    case MStopNext
    then show ?thesis
    proof (cases "caller m")
      case (StopEach paused ks)
      then show ?thesis
        using MStopNext assms(2) stop_next_change [of m paused _ _ m'] idsD(3) by (cases ks) auto
    qed (use assms(2) in \<open>auto intro: unchanged split: if_splits\<close>)
  next
    case MResetNext
    then show ?thesis
    proof (cases "resetter m")
      case (ResetClears i)
      then show ?thesis
        using MResetNext assms(2) idsD(4) by (intro ran_one [of i m AClear]) (auto simp: leaves_alone_def)
    next
      case (ResetSubmits i)
      then show ?thesis
        using MResetNext assms(2) idsD(4) by (intro ran_own [of i]) (auto simp: split_beta)
    qed (use assms(2) in \<open>auto intro!: unchanged split: promise_state.splits\<close>)
  next
    case MWaitNext
    then show ?thesis
    proof (cases "waiter m")
      case (WaitEach ks)
      then show ?thesis
        using MWaitNext assms(2) idsD(5) by (cases ks) (auto simp: split_beta intro: unchanged ran_own)
    qed (use assms(2) in \<open>auto intro!: unchanged split: if_splits\<close>)
  next
    case (MTrack i b)
    then show ?thesis
      using assms(2) by (auto simp: spares_def split: if_splits intro: ran_one [of i m b])
  qed (use assms(2) in \<open>auto simp: RemoveWorkers_def intro!: unchanged split: if_splits caller_pc.splits list.splits option.splits\<close>)
qed

lemma owner_external: "external b \<Longrightarrow> track_do b w = Some w' \<Longrightarrow> jobs_ok w \<Longrightarrow> owner w' = owner w"
  by (cases b) (auto simp: SubmitJob_def Pause_def Resume_def ClearJobs_fields RescheduleActiveJob_def worker_frame
      split: if_splits option.splits)

lemma media_type_cancel_all: "mMediaType (fold SetCancelled js w) = mMediaType w"
  by (induction js arbitrary: w) (simp_all add: SetCancelled_def satisfy_def cancel_flag_def)

lemma media_type_kept: "track_do b w = Some w' \<Longrightarrow> mMediaType w' = mMediaType w"
proof (cases b)
  case (AWorker threw)
  assume "track_do b w = Some w'"
  then show ?thesis
    using AWorker by (cases "mWorkerThread w") (auto simp: ProcessJob_def satisfy_def split: if_splits list.splits)
qed (auto simp: SubmitJob_def Pause_def Resume_def ClearJobs_def RescheduleActiveJob_def media_type_cancel_all satisfy_def
    cancel_flag_def start_flag_def create_thread_def stop_signal_def stop_join_def stop_clear_def stop_forget_def
    split: if_splits option.splits sum.splits)

lemma run_acts_inv:
  assumes "run_acts as w = Some w'" "track_ok w"
  shows "track_ok w' \<and> mMediaType w' = mMediaType w \<and> (list_all external as \<longrightarrow> owner w' = owner w)"
  using assms
proof (induction as arbitrary: w)
  case (Cons b as)
  then obtain v where v: "track_do b w = Some v" "run_acts as v = Some w'" by (auto split: option.splits)
  have "track_ok v" using track_ok_step [OF Cons.prems(2)] v(1) by (auto simp: track_step_def)
  then show ?case
    using Cons.IH [OF v(2)] media_type_kept [OF v(1)] owner_external [OF _ v(1)] Cons.prems(2)
    by (auto simp: track_ok_def)
qed simp

lemma change_workers:
  assumes "workers_change a m m'" "mgr_ok m"
  shows "length (workers m) \<le> length (workers m')"
    "i < length (workers m') \<Longrightarrow> reach track_start track_step (workers m' ! i)"
    "i < length (workers m) \<Longrightarrow> mMediaType (workers m' ! i) = mMediaType (workers m ! i)"
    "i < length (workers m) \<Longrightarrow> handled a m i \<or> owner (workers m' ! i) = owner (workers m ! i)"
    "i < length (workers m') \<Longrightarrow> \<not> i < length (workers m) \<Longrightarrow> owner (workers m' ! i) = OwnerIdle"
proof -
  have r: "reach track_start track_step (workers m ! i)" if "i < length (workers m)" for i
    using that assms(2) by (simp add: mgr_ok_def)
  have new: "reach track_start track_step w \<and> owner w = OwnerIdle" if "track_start w" for w
    using that by (auto simp: track_start_def mkAampTrackWorker_def intro: reach_start)
  have "length (workers m) \<le> length (workers m')
    \<and> (\<forall>i<length (workers m'). reach track_start track_step (workers m' ! i)
         \<and> (if i < length (workers m)
            then mMediaType (workers m' ! i) = mMediaType (workers m ! i)
              \<and> (handled a m i \<or> owner (workers m' ! i) = owner (workers m ! i))
            else owner (workers m' ! i) = OwnerIdle))"
    using assms(1)
  proof cases
    case unchanged
    then show ?thesis using r by simp
  next
    case (created w mediaType)
    then show ?thesis using r new [of w] by (auto simp: nth_append)
  next
    case (ran i as w)
    have "reach track_start track_step w" by (rule run_acts_reach [OF r [OF ran(1)] ran(2)])
    then show ?thesis
      using ran r run_acts_inv [OF ran(2) track.inv_reach [OF r [OF ran(1)]]] by (auto simp: nth_list_update)
  qed
  then show "length (workers m) \<le> length (workers m')"
    "i < length (workers m') \<Longrightarrow> reach track_start track_step (workers m' ! i)"
    "i < length (workers m) \<Longrightarrow> mMediaType (workers m' ! i) = mMediaType (workers m ! i)"
    "i < length (workers m) \<Longrightarrow> handled a m i \<or> owner (workers m' ! i) = owner (workers m ! i)"
    "i < length (workers m') \<Longrightarrow> \<not> i < length (workers m) \<Longrightarrow> owner (workers m' ! i) = OwnerIdle"
    by (auto split: if_splits)
qed

lemma CreateWorker_cases:
  "snd (CreateWorker aamp_null mediaType m) = m
   \<or> (\<exists>w. mkAampTrackWorker False mediaType = Inr w \<and> map_of (mWorkers m) mediaType = None
        \<and> snd (CreateWorker aamp_null mediaType m)
          = m\<lparr>workers := workers m @ [w], mWorkers := mWorkers m @ [(mediaType, length (workers m))]\<rparr>)"
  by (cases aamp_null) (auto simp: CreateWorker_def mkAampTrackWorker_def split: option.split)

lemma ids_ok_step:
  assumes "ids_ok m" "mgr_do a m = Some m'" "length (workers m) \<le> length (workers m')"
  shows "ids_ok m'"
proof -
  let ?n = "length (workers m)"
  have ids: "distinct (map fst (mWorkers m))" "distinct (map snd (mWorkers m))" "distinct (caller_ids (caller m))"
    "set (map snd (mWorkers m)) \<subseteq> {..<?n}" "set (caller_ids (caller m)) \<subseteq> {..<?n}"
    "set (reset_ids (resetter m)) \<subseteq> {..<?n}" "set (wait_ids (waiter m)) \<subseteq> {..<?n}"
    using assms(1) by (simp_all add: ids_ok_def)
  have entry: "i < ?n" if "(mediaType, i) \<in> set (mWorkers m)" for mediaType i
    using ids(4) that by force
  have sub: "{..<?n} \<subseteq> {..<length (workers m')}" using assms(3) by simp
  have pcs: "ids_ok m'" if "mWorkers m' = mWorkers m" "distinct (caller_ids (caller m'))"
    "set (caller_ids (caller m')) \<subseteq> {..<?n}" "set (reset_ids (resetter m')) \<subseteq> {..<?n}" "set (wait_ids (waiter m')) \<subseteq> {..<?n}"
    using that ids(1,2,4) sub unfolding ids_ok_def by (auto simp del: set_map)
  show ?thesis
  proof (cases a)
    case (MCreate aamp_null mediaType)
    then have "m' = snd (CreateWorker aamp_null mediaType m)" using assms(2) by (simp split: if_splits)
    with CreateWorker_cases [of aamp_null mediaType m] show ?thesis
    proof (elim disjE exE conjE)
      fix w assume w: "map_of (mWorkers m) mediaType = None"
        and m': "snd (CreateWorker aamp_null mediaType m)
          = m\<lparr>workers := workers m @ [w], mWorkers := mWorkers m @ [(mediaType, ?n)]\<rparr>"
      assume "m' = snd (CreateWorker aamp_null mediaType m)"
      moreover have "mediaType \<notin> set (map fst (mWorkers m))" using w by (simp add: map_of_eq_None_iff)
      moreover have "?n \<notin> set (map snd (mWorkers m))" using ids(4) by blast
      ultimately show ?thesis
        using ids(1-3) ids(4-7) [THEN subset_trans, of "{..<Suc ?n}"] by (simp add: m' ids_ok_def)
    qed (use assms(1) in simp)
  next
    case MRemove
    then show ?thesis using assms(2) ids sub by (auto simp: RemoveWorkers_def ids_ok_def split: if_splits)
  next
    case (MSubmit mediaType job high)
    then show ?thesis
      using assms(2) ids
      by (intro pcs) (auto simp: ManagerSubmitJob_def Let_def split: if_splits option.splits prod.splits)
  next
    case (MStartNext created)
    then show ?thesis
      using assms(2) ids
      by (intro pcs) (auto simp: start_next_def Let_def split: caller_pc.splits list.splits if_splits sum.splits)
  next
    case MStopNext
    then show ?thesis
      using assms(2) ids
      by (intro pcs) (auto simp: stop_next_def Let_def entry split: caller_pc.splits list.splits if_splits owner_pc.splits)
  next
    case MResetNext
    then show ?thesis
      using assms(2) ids
      by (cases "resetter m"; intro pcs) (auto simp: Let_def split: prod.splits option.splits promise_state.splits)
  next
    case MWaitNext
    show ?thesis
    proof (cases "waiter m")
      case (WaitEach ks)
      then show ?thesis
        using MWaitNext assms(2) ids
        by (cases ks; intro pcs) (auto simp: Let_def split: prod.splits option.splits if_splits)
    qed (rule pcs; use MWaitNext assms(2) ids in \<open>auto split: if_splits\<close>)+
  next
    case (MReset mediaType)
    then show ?thesis
      using assms(2) ids by (intro pcs) (auto split: if_splits option.splits dest!: map_of_SomeD)
  qed (rule pcs; use assms(2) ids in \<open>auto simp: entry split: if_splits caller_pc.splits list.splits\<close>)+
qed

lemma CreateWorker_map:
  "mgr_do (MCreate aamp_null mediaType) m = Some m' \<Longrightarrow> (t, i) \<in> set (mWorkers m')
   \<Longrightarrow> (t, i) \<in> set (mWorkers m) \<or> i = length (workers m) \<and> mMediaType (workers m' ! i) = t"
  using CreateWorker_cases [of aamp_null mediaType m]
  by (auto simp: mkAampTrackWorker_def split: if_splits)

lemma mgr_map:
  assumes "mgr_do a m = Some m'" "(t, i) \<in> set (mWorkers m')"
  shows "(t, i) \<in> set (mWorkers m) \<or> i = length (workers m) \<and> mMediaType (workers m' ! i) = t"
proof (cases a)
  case (MCreate aamp_null mediaType)
  then show ?thesis using CreateWorker_map assms by blast
next
  case (MSubmit mediaType job high)
  then show ?thesis
    using assms by (auto simp: ManagerSubmitJob_def Let_def split: if_splits option.splits prod.splits)
next
  case MRemove
  then show ?thesis using assms by (auto simp: RemoveWorkers_def split: if_splits)
next
  case (MStartNext created)
  then show ?thesis
    using assms by (auto simp: start_next_def Let_def split: caller_pc.splits list.splits if_splits sum.splits)
next
  case MStopNext
  then show ?thesis
    using assms by (auto simp: stop_next_def Let_def split: caller_pc.splits list.splits if_splits owner_pc.splits)
next
  case MResetNext
  then show ?thesis
    using assms by (cases "resetter m") (auto simp: Let_def split: prod.splits option.splits promise_state.splits)
next
  case MWaitNext
  show ?thesis
  proof (cases "waiter m")
    case (WaitEach ks)
    then show ?thesis using MWaitNext assms by (cases ks) (auto simp: Let_def split: prod.splits)
  qed (use MWaitNext assms in \<open>auto split: if_splits\<close>)
qed (use assms in \<open>auto split: if_splits caller_pc.splits list.splits option.splits\<close>)

lemma mgr_caller:
  assumes "mgr_do a m = Some m'" "\<And>created. a \<noteq> MStartNext created" "a \<noteq> MStopNext"
  shows "caller m' = caller m \<or> caller m = CallerIdle \<or> (\<exists>paused. a = MStopEnd \<and> caller m = StopEach paused [])"
proof (cases a)
  case (MCreate aamp_null mediaType)
  then show ?thesis using assms(1) CreateWorker_cases [of aamp_null mediaType m] by (auto split: if_splits)
next
  case (MSubmit mediaType job high)
  then show ?thesis
    using assms(1) by (auto simp: ManagerSubmitJob_def Let_def split: if_splits option.splits prod.splits)
next
  case MResetNext
  then show ?thesis
    using assms(1) by (cases "resetter m") (auto simp: Let_def split: prod.splits option.splits promise_state.splits)
next
  case MWaitNext
  show ?thesis
  proof (cases "waiter m")
    case (WaitEach ks)
    then show ?thesis using MWaitNext assms(1) by (cases ks) (auto simp: Let_def split: prod.splits)
  qed (use MWaitNext assms(1) in \<open>auto split: if_splits\<close>)
qed (use assms in \<open>auto simp: RemoveWorkers_def split: if_splits caller_pc.splits list.splits option.splits\<close>)

lemma mgr_stop_flag:
  assumes "mgr_do a m = Some m'" "mStopInProgress m" "a \<noteq> MRemove"
  shows "mStopInProgress m'"
proof (cases a)
  case (MCreate aamp_null mediaType)
  then show ?thesis using assms CreateWorker_cases [of aamp_null mediaType m] by (auto split: if_splits)
next
  case (MSubmit mediaType job high)
  then show ?thesis using assms by (auto simp: ManagerSubmitJob_def split: if_splits)
next
  case (MStartNext created)
  then show ?thesis
    using assms by (auto simp: start_next_def Let_def split: caller_pc.splits list.splits if_splits sum.splits)
next
  case MStopNext
  then show ?thesis
    using assms by (auto simp: stop_next_def Let_def split: caller_pc.splits list.splits if_splits owner_pc.splits)
next
  case MResetNext
  then show ?thesis
    using assms by (cases "resetter m") (auto simp: Let_def split: prod.splits option.splits promise_state.splits)
next
  case MWaitNext
  show ?thesis
  proof (cases "waiter m")
    case (WaitEach ks)
    then show ?thesis using MWaitNext assms by (cases ks) (auto simp: Let_def split: prod.splits)
  qed (use MWaitNext assms in \<open>auto split: if_splits\<close>)
qed (use assms in \<open>auto split: if_splits caller_pc.splits list.splits option.splits\<close>)

lemma owner_ok_idle: "owner (workers m ! i) = OwnerIdle \<Longrightarrow> owner_ok m i"
  by (simp add: owner_ok_def)

lemma start_next_owner:
  assumes "caller m = StartEach (k # ks)" "k < length (workers m)" "\<And>i. i < length (workers m) \<Longrightarrow> owner_ok m i"
    "i < length (workers m)"
  shows "owner_ok (start_next created k ks m) i"
proof -
  have idle: "owner (workers m ! i) = OwnerIdle" if "i \<noteq> k"
    using assms(1) assms(3) [OF assms(4)] that by (auto simp: owner_ok_def split: owner_pc.splits)
  have k: "owner (workers m ! k) = OwnerIdle \<or> owner (workers m ! k) = Starting"
    using assms(1) assms(3) [OF assms(2)] by (auto simp: owner_ok_def split: owner_pc.splits)
  show ?thesis
    using idle k assms(1,4)
    by (cases "i = k") (auto simp: start_next_def create_thread_def owner_ok_def start_flag_def Let_def split: sum.split)
qed

lemma stop_next_owner:
  assumes "caller m = StopEach paused (k # ks)" "k < length (workers m)" "\<And>i. i < length (workers m) \<Longrightarrow> owner_ok m i"
    "i < length (workers m)" "stop_next paused k ks m = Some m'" "jobs_ok (workers m ! k)"
  shows "owner_ok m' i"
proof -
  have idle: "owner (workers m ! i) = OwnerIdle" if "i \<noteq> k \<or> \<not> paused"
    using assms(1) assms(3) [OF assms(4)] that by (auto simp: owner_ok_def split: owner_pc.splits)
  have c: "caller m' = StopEach True (k # ks) \<or> (caller m' = StopEach False ks \<and> owner (workers m' ! k) = OwnerIdle)"
    using assms(1,2,5) by (auto simp: stop_next_def Let_def stop_forget_def split: if_splits owner_pc.splits)
  have other: "workers m' ! i = workers m ! i" if "i \<noteq> k"
    using assms(5) that by (auto simp: stop_next_def Let_def split: if_splits owner_pc.splits)
  have k: "owner (workers m' ! k) \<noteq> Starting"
    using assms(1,2,5) assms(3) [OF assms(2)] ClearJobs_fields(6) [OF assms(6)]
    by (auto simp: stop_next_def Let_def Pause_def stop_signal_def stop_join_def stop_clear_def stop_forget_def owner_ok_def
        split: if_splits owner_pc.splits)
  show ?thesis
    using idle c other k by (cases "i = k"; cases "owner (workers m' ! i)") (auto simp: owner_ok_def)
qed

lemma mgr_ok_step:
  assumes ok: "mgr_ok m" and step: "mgr_do a m = Some m'"
  shows "mgr_ok m'"
proof -
  note change = change_workers [OF mgr_change [OF ok step] ok]
  have ids: "ids_ok m" and ow: "\<And>i. i < length (workers m) \<Longrightarrow> owner_ok m i"
    and mt: "\<And>t i. (t, i) \<in> set (mWorkers m) \<Longrightarrow> mMediaType (workers m ! i) = t"
    using ok by (auto simp: mgr_ok_def)
  have jok: "jobs_ok (workers m ! i)" if "i < length (workers m)" for i
    using track.inv_reach [of "workers m ! i"] ok that by (auto simp: mgr_ok_def track_ok_def)
  have "owner_ok m' i" if i: "i < length (workers m')" for i
  proof (cases "i < length (workers m)")
    case False
    then show ?thesis using change(5) i by (intro owner_ok_idle) simp
  next
    case True
    consider created k ks where "a = MStartNext created" "caller m = StartEach (k # ks)"
      | paused k ks where "a = MStopNext" "caller m = StopEach paused (k # ks)"
      | "\<not> handled a m i" "owner_ok m i"
        "caller m' = caller m \<or> caller m = CallerIdle \<or> (\<exists>paused. a = MStopEnd \<and> caller m = StopEach paused []) \<or>
         caller m = StartEach [] \<or> caller m = StopFlagged"
    proof (cases "(\<exists>created. a = MStartNext created) \<or> a = MStopNext")
      case False
      then show ?thesis using that(3) mgr_caller [OF step] ow [OF True] by (auto simp: handled_def)
    next
      case special: True
      then show ?thesis
        using that ow [OF True] step by (cases "caller m") (auto simp: handled_def split: list.splits)
    qed
    then show ?thesis
    proof cases
      case (1 created k ks)
      then have "m' = start_next created k ks m" using step by simp
      then show ?thesis using start_next_owner [OF 1(2) ids_okD(2) [OF ids 1(2)] ow True] by simp
    next
      case (2 paused k ks)
      then have "stop_next paused k ks m = Some m'" using step by simp
      then show ?thesis
        using stop_next_owner [OF 2(2) ids_okD(3) [OF ids 2(2)] ow True _ jok [OF ids_okD(3) [OF ids 2(2)]]] by simp
    next
      case 3
      then have "owner (workers m' ! i) = owner (workers m ! i)" using change(4) [OF True] by simp
      with 3(2,3) show ?thesis by (auto simp: owner_ok_def split: owner_pc.splits)
    qed
  qed
  moreover have "mMediaType (workers m' ! i) = t" if "(t, i) \<in> set (mWorkers m')" for t i
    using mgr_map [OF step that] change(3) [of i] mt [of t i] ids by (auto simp: ids_ok_def)
  ultimately show ?thesis
    using ids_ok_step [OF ids step change(1)] change(2) by (auto simp: mgr_ok_def)
qed

interpretation manager: stateful "\<lambda>m. m = mkAampTrackWorkerManager" mgr_step mgr_ok
proof
  show "mgr_ok m" if "m = mkAampTrackWorkerManager" for m
    using that by (simp add: mkAampTrackWorkerManager_def mgr_ok_def ids_ok_def)
  show "mgr_ok m'" if "mgr_ok m" "mgr_step m m'" for m m'
    using that mgr_ok_step unfolding mgr_step_def by blast
qed

section \<open>Runs of the manager\<close>

lemma run_mgr_ok: "mgr_ok m \<Longrightarrow> run_mgr as m = Some m' \<Longrightarrow> mgr_ok m'"
  by (induction as arbitrary: m) (auto split: option.splits dest: mgr_ok_step)

lemma change_run:
  assumes "workers_change a m m'" "i < length (workers m)" "j < length (jobs (workers m ! i))" "spares i j a"
  shows "\<exists>bs. run_acts bs (workers m ! i) = Some (workers m' ! i) \<and> list_all (leaves_alone j) bs"
  using assms(1)
proof cases
  case unchanged
  then show ?thesis by (intro exI [of _ "[]"]) simp
next
  case (created w mediaType)
  then show ?thesis using assms(2) by (intro exI [of _ "[]"]) (simp add: nth_append)
next
  case (ran k bs w)
  show ?thesis
  proof (cases "k = i")
    case True
    then show ?thesis using ran assms(3,4) by (intro exI [of _ bs]) auto
  next
    case False
    then show ?thesis using ran by (intro exI [of _ "[]"]) simp
  qed
qed

lemma run_jobs_grow:
  assumes "run_acts bs w = Some w'" "track_ok w"
  shows "length (jobs w) \<le> length (jobs w')"
  using assms
proof (induction bs arbitrary: w)
  case (Cons b bs)
  then obtain v where v: "track_do b w = Some v" "run_acts bs v = Some w'" by (auto split: option.splits)
  have "track_ok v" using track_ok_step [OF Cons.prems(2)] v(1) by (auto simp: track_step_def)
  then show ?case using Cons.IH [OF v(2)] jobs_grow [OF Cons.prems(2) v(1)] by linarith
qed simp

text \<open>Whatever the manager and the other threads do, the worker \<open>i\<close> goes through a run of its own actions.\<close>

lemma run_mgr_worker:
  assumes "mgr_ok m" "run_mgr as m = Some m'" "list_all (spares i j) as" "i < length (workers m)"
    "j < length (jobs (workers m ! i))"
  shows "\<exists>bs. run_acts bs (workers m ! i) = Some (workers m' ! i) \<and> list_all (leaves_alone j) bs"
  using assms
proof (induction as arbitrary: m)
  case Nil
  then show ?case by (intro exI [of _ "[]"]) simp
next
  case (Cons a as)
  then obtain v where v: "mgr_do a m = Some v" "run_mgr as v = Some m'" by (auto split: option.splits)
  have change: "workers_change a m v" by (rule mgr_change [OF Cons.prems(1) v(1)])
  obtain bs where bs: "run_acts bs (workers m ! i) = Some (workers v ! i)" "list_all (leaves_alone j) bs"
    using change_run [OF change Cons.prems(4,5)] Cons.prems(3) by auto
  have "reach track_start track_step (workers m ! i)" using Cons.prems(1,4) by (simp add: mgr_ok_def)
  then have "length (jobs (workers m ! i)) \<le> length (jobs (workers v ! i))"
    using run_jobs_grow [OF bs(1)] track.inv_reach by blast
  moreover have "length (workers m) \<le> length (workers v)" by (rule change_workers(1) [OF change Cons.prems(1)])
  ultimately obtain cs where "run_acts cs (workers v ! i) = Some (workers m' ! i)" "list_all (leaves_alone j) cs"
    using Cons.IH [OF mgr_ok_step [OF Cons.prems(1) v(1)] v(2)] Cons.prems(3-5) by auto
  then show ?case using bs by (intro exI [of _ "bs @ cs"]) (simp add: run_acts_append)
qed

section \<open>Stopping all workers\<close>

definition quiesced :: "AampTrackWorker \<Rightarrow> bool" where
  "quiesced w \<longleftrightarrow> owner w = OwnerIdle \<and> mStopped w \<and> \<not> joinable w \<and> mJobQueue w = [] \<and> mActiveJob w = None"

lemma quiesced_do:
  assumes "quiesced w" "jobs_ok w" "external b" "track_do b w = Some w'"
  shows "quiesced w'"
proof (cases b)
  case (AWorker threw)
  then show ?thesis using assms by (auto simp: quiesced_def joinable_def ProcessJob_def)
qed (use assms in \<open>auto simp: quiesced_def joinable_def SubmitJob_def Pause_def Resume_def ClearJobs_fields
    RescheduleActiveJob_def split: if_splits option.splits\<close>)

lemma quiesced_run:
  assumes "run_acts bs w = Some w'" "quiesced w" "track_ok w" "list_all external bs"
  shows "quiesced w'"
  using assms
proof (induction bs arbitrary: w)
  case (Cons b bs)
  then obtain v where v: "track_do b w = Some v" "run_acts bs v = Some w'" by (auto split: option.splits)
  have "track_ok v" using track_ok_step [OF Cons.prems(3)] v(1) by (auto simp: track_step_def)
  moreover have "quiesced v" using quiesced_do [OF Cons.prems(2) _ _ v(1)] Cons.prems(3,4) by (simp add: track_ok_def)
  ultimately show ?case using Cons.IH [OF v(2)] Cons.prems(4) by simp
qed simp

lemma quiesced_change:
  assumes "workers_change a m m'" "mgr_ok m" "i < length (workers m)" "quiesced (workers m ! i)" "\<not> handled a m i"
  shows "quiesced (workers m' ! i)"
  using assms(1)
proof cases
  case (ran k bs w)
  have "track_ok (workers m ! i)" using assms(2,3) track.inv_reach by (auto simp: mgr_ok_def)
  then show ?thesis
    using ran assms(3-5) quiesced_run [of bs "workers m ! k" w] by (cases "k = i") auto
qed (use assms(3,4) in \<open>auto simp: nth_append\<close>)

definition stopping_all :: "nat list \<Rightarrow> AampTrackWorkerManager \<Rightarrow> bool" where
  "stopping_all ids m \<longleftrightarrow> mgr_ok m \<and> distinct ids
     \<and> (\<exists>dn paused ks. caller m = StopEach paused ks \<and> ids = dn @ ks
          \<and> (\<forall>i\<in>set dn. i < length (workers m) \<and> quiesced (workers m ! i)))"

lemma stopping_all_do:
  assumes "stopping_all ids m" "mgr_do a m = Some m'" "a \<noteq> MStopEnd"
  shows "stopping_all ids m'"
proof -
  obtain dn paused ks where c: "caller m = StopEach paused ks" "ids = dn @ ks"
    and q: "\<And>i. i \<in> set dn \<Longrightarrow> i < length (workers m) \<and> quiesced (workers m ! i)"
    and ok: "mgr_ok m" and d: "distinct ids"
    using assms(1) by (auto simp: stopping_all_def)
  have ok': "mgr_ok m'" by (rule mgr_ok_step [OF ok assms(2)])
  have change: "workers_change a m m'" by (rule mgr_change [OF ok assms(2)])
  have len: "length (workers m) \<le> length (workers m')" by (rule change_workers(1) [OF change ok])
  have q': "i < length (workers m') \<and> quiesced (workers m' ! i)" if "i \<in> set dn" for i
  proof -
    have "\<not> handled a m i" using c d that by (auto simp: handled_def)
    then show ?thesis using quiesced_change [OF change ok] q [OF that] len by auto
  qed
  show ?thesis
  proof (cases "a = MStopNext")
    case False
    then have "caller m' = caller m" using mgr_caller [OF assms(2)] c(1) assms(2,3) by (cases a) auto
    then show ?thesis using ok' d c q' by (auto simp: stopping_all_def)
  next
    case True
    then obtain k js where k: "ks = k # js" "stop_next paused k js m = Some m'"
      using assms(2) c(1) by (cases ks) auto
    have kl: "k < length (workers m)" using ids_okD(3) c(1) k(1) ok by (auto simp: mgr_ok_def)
    then have tok: "track_ok (workers m ! k)" using ok track.inv_reach by (auto simp: mgr_ok_def)
    consider "caller m' = StopEach True ks" | "caller m' = StopEach False js" "quiesced (workers m' ! k)"
      using k kl tok by (auto simp: c(1) stop_next_def Let_def stop_forget_def quiesced_def track_ok_def thread_ok_def joinable_def
          split: if_splits owner_pc.splits)
    then show ?thesis
    proof cases
      case 1
      then show ?thesis using ok' d c(2) q' by (auto simp: stopping_all_def)
    next
      case 2
      then have "ids = (dn @ [k]) @ js" "\<forall>i\<in>set (dn @ [k]). i < length (workers m') \<and> quiesced (workers m' ! i)"
        using c(2) k(1) q' kl len by auto
      then show ?thesis using ok' d 2(1) unfolding stopping_all_def by blast
    qed
  qed
qed

lemma stopping_all_run:
  assumes "run_mgr as m = Some m'" "stopping_all ids m" "MStopEnd \<notin> set as"
  shows "stopping_all ids m' \<and> (mStopInProgress m \<and> MRemove \<notin> set as \<longrightarrow> mStopInProgress m')"
  using assms
proof (induction as arbitrary: m)
  case (Cons a as)
  then obtain v where v: "mgr_do a m = Some v" "run_mgr as v = Some m'" by (auto split: option.splits)
  have "stopping_all ids v" using stopping_all_do [OF Cons.prems(2) v(1)] Cons.prems(3) by auto
  then show ?case using Cons.IH [OF v(2)] Cons.prems(3) mgr_stop_flag [OF v(1)] by auto
qed simp

lemma stop_next_progress:
  assumes "mgr_ok m" "caller m = StopEach paused (i # ks)"
  shows "mgr_do MStopNext m \<noteq> None \<or> (\<forall>threw. mgr_do (MTrack i (AWorker threw)) m \<noteq> None)"
proof -
  have i: "i < length (workers m)" using ids_okD(3) assms by (auto simp: mgr_ok_def)
  then have ok: "track_ok (workers m ! i)" "owner_ok m i" using assms(1) track.inv_reach by (auto simp: mgr_ok_def)
  show ?thesis
  proof (cases "stop_next paused i ks m")
    case None
    then have s: "stop_join (workers m ! i) = None" "owner (workers m ! i) = StopJoins"
      using assms(2) ok(2) by (auto simp: stop_next_def Let_def owner_ok_def split: if_splits owner_pc.splits)
    then have "mStopped (workers m ! i)" using ok(1) by (simp add: track_ok_def thread_ok_def)
    moreover have "pc_rank (mWorkerThread (workers m ! i)) > 0"
      using s(1) by (cases "mWorkerThread (workers m ! i)") (auto simp: stop_join_def joinable_def)
    ultimately have "ProcessJob threw (workers m ! i) \<noteq> None" for threw by (rule stopped_never_blocked)
    then show ?thesis using i by auto
  qed (use assms(2) in simp)
qed

section \<open>Properties\<close>

lemma run_mgr_reach:
  assumes "reach (\<lambda>m. m = mkAampTrackWorkerManager) mgr_step m" "run_mgr as m = Some m'"
  shows "reach (\<lambda>m. m = mkAampTrackWorkerManager) mgr_step m'"
  using assms
proof (induction as arbitrary: m)
  case (Cons a as)
  then obtain v where v: "mgr_do a m = Some v" "run_mgr as v = Some m'" by (auto split: option.splits)
  have "reach (\<lambda>m. m = mkAampTrackWorkerManager) mgr_step v"
    by (rule reach_step [OF Cons.prems(1)]) (use v(1) in \<open>auto simp: mgr_step_def\<close>)
  then show ?case by (rule Cons.IH) (rule v(2))
qed simp

text \<open>One worker with a job that is being run, and a caller that has just raised \<open>mStopInProgress\<close>.\<close>

definition sample_video :: AampTrackWorker where
  "sample_video = \<lparr>mMediaType = eMEDIATYPE_VIDEO, mWorkerThread = AtWait, mJobQueue = [0], mStopped = False,
     mPaused = False, mActiveJob = None, owner = OwnerIdle, jobs = [mkAampTrackWorkerJob], cancelling = [], accepted = [0]\<rparr>"

definition sample_workers :: AampTrackWorkerManager where
  "sample_workers = \<lparr>mWorkers = [(eMEDIATYPE_VIDEO, 0)], mStopInProgress = False, workers = [sample_video],
     caller = CallerIdle, resetter = ResetIdle, waiter = WaitIdle\<rparr>"

lemma sample_workers_reach: "reach (\<lambda>m. m = mkAampTrackWorkerManager) mgr_step sample_workers"
proof (rule run_mgr_reach [OF reach_start])
  show "run_mgr [MCreate False eMEDIATYPE_VIDEO, MStart, MStartNext True, MStartNext True, MStartNext True, MTrack 0 ANewJob,
      MSubmit eMEDIATYPE_VIDEO (Some 0) False] mkAampTrackWorkerManager = Some sample_workers"
    by (simp add: mkAampTrackWorkerManager_def sample_workers_def sample_video_def mMutex_free_def CreateWorker_def
        mkAampTrackWorker_def start_next_def start_flag_def joinable_def create_thread_def set_worker_def
        ManagerSubmitJob_def GetWorker_def SubmitJob_def)
qed simp

definition sample_flagged :: AampTrackWorkerManager where
  "sample_flagged = sample_workers\<lparr>mStopInProgress := True, caller := StopFlagged\<rparr>"

lemma sample_flagged_reach: "reach (\<lambda>m. m = mkAampTrackWorkerManager) mgr_step sample_flagged"
  by (rule run_mgr_reach [OF sample_workers_reach, of "[MStop]"]) (simp add: sample_flagged_def sample_workers_def)

text \<open>
  C38: the map is typed. In every reachable state \<open>GetWorker\<close> returns for a media type a worker of that
  media type, which is in a reachable state of its own, and no worker is registered for two types; \<open>CreateWorker\<close>
  on a type that is registered returns that worker and changes nothing.
\<close>

theorem manager_map_typed:
  assumes "reach (\<lambda>m. m = mkAampTrackWorkerManager) mgr_step m" "GetWorker mediaType m = Some i"
  shows "i < length (workers m) \<and> mMediaType (workers m ! i) = mediaType \<and> reach track_start track_step (workers m ! i)
    \<and> (\<forall>t. GetWorker t m = Some i \<longrightarrow> t = mediaType) \<and> CreateWorker aamp_null mediaType m = (Some i, m)"
proof -
  have ok: "mgr_ok m" by (rule manager.inv_reach [OF assms(1)])
  have m: "(mediaType, i) \<in> set (mWorkers m)" using assms(2) by (auto simp: GetWorker_def dest: map_of_SomeD)
  then have "i < length (workers m)" using ok by (auto simp: mgr_ok_def ids_ok_def)
  moreover have "mMediaType (workers m ! i) = t" if "GetWorker t m = Some i" for t
    using ok that by (auto simp: mgr_ok_def GetWorker_def dest!: map_of_SomeD)
  ultimately show ?thesis
    using ok assms(2) by (auto simp: mgr_ok_def CreateWorker_def GetWorker_def)
qed

theorem manager_map_typed_witness: "mMediaType (workers sample_workers ! 0) = eMEDIATYPE_VIDEO"
  using manager_map_typed [OF sample_workers_reach, of eMEDIATYPE_VIDEO 0]
  by (simp add: sample_workers_def GetWorker_def)



text \<open>
  C21: the empty job that \<open>WaitForCompletionWithTimeout\<close> or \<open>ResetWorker\<close> submits to a worker is a barrier across the
  whole manager: if its future comes to hold a value, every job that worker had accepted before is done (or another
  thread is just cancelling it), whatever all other threads did meanwhile, as long as none of them
  submits or cancels the manager's own job.
\<close>

theorem manager_waits_for_jobs:
  assumes "reach (\<lambda>m. m = mkAampTrackWorkerManager) mgr_step m"
    and "c = MWaitNext \<and> waiter m = WaitEach (i # ks) \<or> c = MResetNext \<and> resetter m = ResetSubmits i"
    and "\<not> mStopped (workers m ! i)" "j = length (jobs (workers m ! i))"
    and "run_mgr (c # as) m = Some m'" "list_all (spares i j) as"
    and "mPromise (jobs (workers m' ! i) ! j) = HasValue" "k \<in> set (accepted (workers m ! i))"
  shows "settled k (workers m' ! i)"
proof -
  let ?w = "workers m ! i" let ?v = "snd (submit_own ?w)"
  have ok: "mgr_ok m" by (rule manager.inv_reach [OF assms(1)])
  then have i: "i < length (workers m)" using assms(2) ids_okD(4,5) by (auto simp: mgr_ok_def)
  then have r: "reach track_start track_step ?w" using ok by (simp add: mgr_ok_def)
  obtain v where v: "mgr_do c m = Some v" "run_mgr as v = Some m'" using assms(5) by (auto split: option.splits)
  have v': "workers v = (workers m)[i := ?v]" using assms(2) v(1) by (auto simp: split_beta)
  then have vi: "workers v ! i = ?v" "i < length (workers v)" using i by simp_all
  have sub: "run_acts [ANewJob, ASubmit (Some j) False] ?w = Some ?v"
    using assms(4) by (simp add: submit_own_def)
  have "behind (set (accepted ?w)) j ?v"
    using behind_submitted [OF track.inv_reach [OF r] assms(3)] assms(4) by (simp add: submit_own_def)
  moreover have len: "j < length (jobs ?v)" using assms(3,4) by (simp add: submit_own_def SubmitJob_def)
  moreover obtain bs where "run_acts bs ?v = Some (workers m' ! i)" "list_all (leaves_alone j) bs"
    using run_mgr_worker [OF mgr_ok_step [OF ok v(1)] v(2) assms(6) vi(2)] len vi(1) by auto
  moreover have "set (accepted ?w) \<subseteq> {..<length (jobs ?v)}"
    using track.inv_reach [OF r] jobs_okD(2) [of ?w] assms(3) by (auto simp: track_ok_def submit_own_def SubmitJob_def)
  ultimately have "behind (set (accepted ?w)) j (workers m' ! i)"
    using behind_run [OF run_acts_reach [OF r sub]] by (auto simp: list_all_iff)
  then show ?thesis using assms(7,8) by (auto simp: behind_def satisfied_def)
qed

definition sample_waiting :: AampTrackWorkerManager where
  "sample_waiting = sample_workers\<lparr>waiter := WaitEach [0]\<rparr>"

lemma sample_waiting_reach: "reach (\<lambda>m. m = mkAampTrackWorkerManager) mgr_step sample_waiting"
  by (rule run_mgr_reach [OF sample_workers_reach, of "[MWait]"])
    (simp add: sample_waiting_def sample_workers_def mMutex_free_def)

theorem manager_waits_for_jobs_witness:
  "\<exists>m'. run_mgr (MWaitNext # replicate 12 (MTrack 0 (AWorker False))) sample_waiting = Some m'
     \<and> mPromise (jobs (workers m' ! 0) ! 1) = HasValue \<and> settled 0 (workers m' ! 0)"
proof -
  let ?as = "replicate 12 (MTrack 0 (AWorker False))"
  have "\<exists>m'. run_mgr (MWaitNext # ?as) sample_waiting = Some m' \<and> mPromise (jobs (workers m' ! 0) ! 1) = HasValue"
    by (simp add: eval_nat_numeral sample_waiting_def sample_workers_def sample_video_def submit_own_def SubmitJob_def
        set_worker_def ProcessJob_def IsCancelled_def satisfy_def with_job_def mkAampTrackWorkerJob_def)
  then obtain m' where m': "run_mgr (MWaitNext # ?as) sample_waiting = Some m'"
    "mPromise (jobs (workers m' ! 0) ! 1) = HasValue" by blast
  have "settled 0 (workers m' ! 0)"
    by (rule manager_waits_for_jobs [OF sample_waiting_reach _ _ _ m'(1) _ m'(2)])
      (simp_all add: sample_waiting_def sample_workers_def sample_video_def spares_def leaves_alone_def list_all_iff)
  with m' show ?thesis by blast
qed

text \<open>
  \<open>ResetWorker\<close> can throw. When \<open>StopWorkers\<close> has copied the map before \<open>ResetWorker\<close> takes the mutex, the empty job of
  the reset is accepted, then cancelled by the stop, and \<open>get\<close> of its future throws out of \<open>ResetWorker\<close>; and while
  it waits for its job, no other call of the manager gets the mutex.
\<close>

theorem reset_worker_throws:
  "(\<exists>m'. run_mgr [MStop, MStopNext, MReset eMEDIATYPE_VIDEO, MResetNext, MResetNext, MStopNext, MStopNext,
        MTrack 0 (AWorker False), MStopNext, MStopNext, MResetNext] sample_workers = Some m' \<and> resetter m' = ResetThrew)
   \<and> (resetter m = ResetWaits i j \<longrightarrow> mgr_do (MSubmit t job high) m = None \<and> mgr_do MRemove m = None
        \<and> mgr_do (MCreate aamp_null t) m = None \<and> mgr_do MWait m = None \<and> mgr_do MStart m = None)"
  by (simp add: sample_workers_def sample_video_def mMutex_free_def stop_next_def set_worker_def Pause_def submit_own_def
      SubmitJob_def stop_signal_def stop_join_def joinable_def stop_clear_def stop_forget_def ProcessJob_def ClearJobs_def
      SetCancelled_def IsCancelled_def satisfy_def cancel_flag_def with_job_def mkAampTrackWorkerJob_def)

theorem reset_worker_throws_witness:
  "resetter (sample_workers\<lparr>resetter := ResetWaits 0 1\<rparr>) = ResetWaits 0 1
   \<and> mgr_do MRemove (sample_workers\<lparr>resetter := ResetWaits 0 1\<rparr>) = None"
  using reset_worker_throws [of "sample_workers\<lparr>resetter := ResetWaits 0 1\<rparr>" 0 1] by simp

end
