(* ===== verification/Lstring.thy ===== *)
theory Lstring
  imports Aamp_Prelude "HOL-Library.Char_ord"
begin

text \<open>
  The string view of \<open>lstring.hpp\<close> and \<open>lstring.cpp\<close>: a pointer into a buffer the view does
  not own, and a length.  The buffer is the argument \<open>mem\<close>, a pointer an offset into it, and the
  null pointer \<open>None\<close>; a read outside the buffer, a read past the end of a C string and an
  overflow of a signed integer are faults (the HLS parsers add the read of an uninitialised
  variable and a failed assertion).  The C strings passed to a view are the literals of its callers, so
  they are never null; the comparisons read them up to their terminator.  The macros have their
  defaults (\<open>LSTRING_EMPTY_PTR_NULL\<close> and \<open>LSTRING_SUBSTR_ALLOW_ENDPOS\<close> are 0).

  Beside each operation stands a function on the text the view covers.  The lemmas show that on a
  view inside its buffer every operation returns, computes that function and yields views inside
  the buffer; the HLS parsers are stated over these functions.  Further lemmas give the
  round trips of lines, of attribute lists and of numbers.
\<close>

section \<open>Views and the faults of an operation\<close>

datatype ls_fault = ReadOutside | IntOverflow | ReadUninitialised | AssertFails

record lstring =
  ls_ptr :: "nat option"
  ls_len :: nat

definition NUL :: char where "NUL = CHR 0x00"

definition CHAR_CR :: char where "CHAR_CR = CHR 0x0D"

definition CHAR_LF :: char where "CHAR_LF = CHR 0x0A"

definition CHAR_QUOTE :: char where "CHAR_QUOTE = CHR 0x22"

named_theorems char_defs "the characters the parsers look for"

lemmas [char_defs] = NUL_def CHAR_CR_def CHAR_LF_def CHAR_QUOTE_def

definition empty_view :: lstring where
  "empty_view = \<lparr>ls_ptr = None, ls_len = 0\<rparr>"

definition assertInvariant :: "lstring \<Rightarrow> bool" where
  "assertInvariant v \<longleftrightarrow> ls_ptr v \<noteq> None \<or> ls_len v = 0"

text \<open>\<open>ptr[i]\<close>, and \<open>cstring[n]\<close> of a C string with its terminator.\<close>

definition ls_byte :: "string \<Rightarrow> lstring \<Rightarrow> nat \<Rightarrow> ls_fault + char" where
  "ls_byte mem v i =
     (case ls_ptr v of None \<Rightarrow> Inl ReadOutside
      | Some p \<Rightarrow> if p + i < length mem then Inr (mem ! (p + i)) else Inl ReadOutside)"

definition cs_byte :: "string \<Rightarrow> nat \<Rightarrow> ls_fault + char" where
  "cs_byte s n = (if n < length s then Inr (s ! n) else if n = length s then Inr NUL else Inl ReadOutside)"

lemma ebind_cong [fundef_cong]:
  "x = y \<Longrightarrow> (\<And>a. y = Inr a \<Longrightarrow> f a = g a) \<Longrightarrow> ebind x f = ebind y g"
  by (cases y) simp_all

section \<open>The operations\<close>

definition getLen :: "lstring \<Rightarrow> int" where
  "getLen v = (if int (ls_len v) > INT_MAX then INT_MAX else int (ls_len v))"

function find_from :: "string \<Rightarrow> lstring \<Rightarrow> char \<Rightarrow> nat \<Rightarrow> ls_fault + nat" where
  "find_from mem v c rc =
     (if rc < ls_len v
      then ebind (ls_byte mem v rc) (\<lambda>x. if x = c then Inr rc else find_from mem v c (rc + 1))
      else Inr (ls_len v))"
  by pat_completeness auto
termination by (relation "measure (\<lambda>(_, v, _, rc). ls_len v - rc)") auto

definition ls_find :: "string \<Rightarrow> lstring \<Rightarrow> char \<Rightarrow> ls_fault + nat" where
  "ls_find mem v c = find_from mem v c 0"

definition ls_removePrefix :: "nat \<Rightarrow> lstring \<Rightarrow> lstring" where
  "ls_removePrefix n v =
     (if n < ls_len v
      then v\<lparr>ls_ptr := map_option (\<lambda>p. p + n) (ls_ptr v), ls_len := ls_len v - n\<rparr>
      else v\<lparr>ls_len := 0\<rparr>)"

definition ls_empty :: "lstring \<Rightarrow> bool" where
  "ls_empty v \<longleftrightarrow> ls_len v = 0"

definition peekLastChar :: "string \<Rightarrow> lstring \<Rightarrow> ls_fault + char" where
  "peekLastChar mem v = (if ls_len v = 0 then Inr NUL else ls_byte mem v (ls_len v - 1))"

text \<open>The loop of \<open>mystrpbrk\<close> that trims trailing carriage returns.\<close>

function trim_cr :: "string \<Rightarrow> lstring \<Rightarrow> ls_fault + lstring" where
  "trim_cr mem v =
     ebind (peekLastChar mem v) (\<lambda>c.
       if c = CHAR_CR then trim_cr mem (v\<lparr>ls_len := ls_len v - 1\<rparr>) else Inr v)"
  by pat_completeness auto
termination
  by (relation "measure (\<lambda>(_, v). ls_len v)") (auto simp: peekLastChar_def char_defs split: if_splits)

text \<open>The token and the view after it.\<close>

definition mystrpbrk :: "string \<Rightarrow> lstring \<Rightarrow> ls_fault + (lstring \<times> lstring)" where
  "mystrpbrk mem v =
     ebind (ls_find mem v CHAR_LF) (\<lambda>delim.
     ebind (trim_cr mem (v\<lparr>ls_len := delim\<rparr>)) (\<lambda>token.
       Inr (token, ls_removePrefix (delim + 1) v)))"

function equals_from :: "string \<Rightarrow> lstring \<Rightarrow> string \<Rightarrow> nat \<Rightarrow> ls_fault + bool" where
  "equals_from mem v cs n =
     (if n < ls_len v
      then ebind (cs_byte cs n) (\<lambda>c. if c = NUL then Inr False
             else ebind (ls_byte mem v n) (\<lambda>x. if x \<noteq> c then Inr False else equals_from mem v cs (n + 1)))
      else ebind (cs_byte cs (ls_len v)) (\<lambda>c. Inr (c = NUL)))"
  by pat_completeness auto
termination by (relation "measure (\<lambda>(_, v, _, n). ls_len v - n)") auto

definition equalsCString :: "string \<Rightarrow> lstring \<Rightarrow> string \<Rightarrow> ls_fault + bool" where
  "equalsCString mem v cs = equals_from mem v cs 0"

text \<open>The loop of \<open>SubStringMatch\<close> and of \<open>removePrefix\<close>: the length of the prefix, when it matches.\<close>

function match_from :: "string \<Rightarrow> lstring \<Rightarrow> string \<Rightarrow> nat \<Rightarrow> ls_fault + nat option" where
  "match_from mem v cs n =
     ebind (cs_byte cs n) (\<lambda>c.
       if c = NUL then Inr (Some n)
       else if n \<ge> ls_len v then Inr None
       else ebind (ls_byte mem v n) (\<lambda>x. if x \<noteq> c then Inr None else match_from mem v cs (n + 1)))"
  by pat_completeness auto
termination by (relation "measure (\<lambda>(_, v, _, n). ls_len v - n)") auto

definition SubStringMatch :: "string \<Rightarrow> lstring \<Rightarrow> string \<Rightarrow> ls_fault + bool" where
  "SubStringMatch mem v cs = ebind (match_from mem v cs 0) (\<lambda>r. Inr (r \<noteq> None))"

definition removePrefixCString :: "string \<Rightarrow> lstring \<Rightarrow> string \<Rightarrow> ls_fault + (bool \<times> lstring)" where
  "removePrefixCString mem v cs =
     ebind (match_from mem v cs 0) (\<lambda>r.
       case r of Some n \<Rightarrow> Inr (True, ls_removePrefix n v) | None \<Rightarrow> Inr (False, v))"

definition startswith :: "string \<Rightarrow> lstring \<Rightarrow> char \<Rightarrow> ls_fault + bool" where
  "startswith mem v c = (if ls_len v > 0 then ebind (ls_byte mem v 0) (\<lambda>x. Inr (x = c)) else Inr False)"

definition ls_substr :: "int \<Rightarrow> lstring \<Rightarrow> lstring" where
  "ls_substr offset v =
     (if offset < 0 then empty_view
      else let off = nat offset in
        if off \<ge> ls_len v then empty_view
        else \<lparr>ls_ptr = map_option (\<lambda>p. p + off) (ls_ptr v), ls_len = ls_len v - off\<rparr>)"

definition digit_of :: "char \<Rightarrow> int" where
  "digit_of c = int (of_char c) - 48"

definition is_digit :: "char \<Rightarrow> bool" where
  "is_digit c \<longleftrightarrow> 0 \<le> digit_of c \<and> digit_of c \<le> 9"

function atoll_from :: "string \<Rightarrow> lstring \<Rightarrow> nat \<Rightarrow> int \<Rightarrow> ls_fault + int" where
  "atoll_from mem v i rc =
     (if i < ls_len v
      then ebind (ls_byte mem v i) (\<lambda>c.
             if is_digit c
             then (if int64 (rc * 10) \<and> int64 (rc * 10 + digit_of c)
                   then atoll_from mem v (i + 1) (rc * 10 + digit_of c) else Inl IntOverflow)
             else Inr rc)
      else Inr rc)"
  by pat_completeness auto
termination by (relation "measure (\<lambda>(_, v, i, _). ls_len v - i)") auto

definition ls_atoll :: "string \<Rightarrow> lstring \<Rightarrow> ls_fault + int" where
  "ls_atoll mem v = atoll_from mem v 0 0"

text \<open>The cast of a \<open>long long\<close> to \<open>int\<close> keeps the low 32 bits.\<close>

definition to_int32 :: "int \<Rightarrow> int" where
  "to_int32 x = signed_take_bit 31 x"

definition ls_atoi :: "string \<Rightarrow> lstring \<Rightarrow> ls_fault + int" where
  "ls_atoi mem v = ebind (ls_atoll mem v) (\<lambda>x. Inr (to_int32 x))"

text \<open>\<open>std::string(ptr + i, k)\<close>.\<close>

fun ls_bytes :: "string \<Rightarrow> lstring \<Rightarrow> nat \<Rightarrow> nat \<Rightarrow> ls_fault + string" where
  "ls_bytes mem v i 0 = Inr []"
| "ls_bytes mem v i (Suc k) =
     ebind (ls_byte mem v i) (\<lambda>c. ebind (ls_bytes mem v (i + 1) k) (\<lambda>s. Inr (c # s)))"

definition tostring :: "string \<Rightarrow> lstring \<Rightarrow> ls_fault + string" where
  "tostring mem v = (if ls_len v = 0 then Inr [] else ls_bytes mem v 0 (ls_len v))"

definition GetAttributeValueString :: "string \<Rightarrow> lstring \<Rightarrow> ls_fault + string" where
  "GetAttributeValueString mem v =
     (if ls_len v \<ge> 2
      then ebind (startswith mem v CHAR_QUOTE) (\<lambda>b.
           if b then ebind (ls_byte mem v (ls_len v - 1)) (\<lambda>c.
                if c = CHAR_QUOTE then ls_bytes mem v 1 (ls_len v - 2) else Inr ''NONE'')
           else Inr ''NONE'')
      else Inr ''NONE'')"

definition popFirstChar :: "string \<Rightarrow> lstring \<Rightarrow> ls_fault + (char \<times> lstring)" where
  "popFirstChar mem v =
     (if ls_len v = 0 then Inr (NUL, v)
      else ebind (ls_byte mem v 0) (\<lambda>c.
        Inr (c, v\<lparr>ls_ptr := map_option Suc (ls_ptr v), ls_len := ls_len v - 1\<rparr>)))"

function stripLeadingSpaces :: "string \<Rightarrow> lstring \<Rightarrow> ls_fault + lstring" where
  "stripLeadingSpaces mem v =
     ebind (startswith mem v (CHR '' '')) (\<lambda>b.
       if b then stripLeadingSpaces mem (ls_removePrefix 1 v) else Inr v)"
  by pat_completeness auto
termination
  by (relation "measure (\<lambda>(_, v). ls_len v)") (auto simp: startswith_def ls_removePrefix_def split: if_splits)

definition isSameView :: "lstring \<Rightarrow> lstring \<Rightarrow> bool" where
  "isSameView v w \<longleftrightarrow> ls_len v = ls_len w \<and> ls_ptr v = ls_ptr w"

definition equalsContent :: "string \<Rightarrow> lstring \<Rightarrow> lstring \<Rightarrow> ls_fault + bool" where
  "equalsContent mem v w =
     (if ls_len v \<noteq> ls_len w then Inr False
      else if ls_len v = 0 then Inr True
      else ebind (ls_bytes mem v 0 (ls_len v)) (\<lambda>s.
           ebind (ls_bytes mem w 0 (ls_len v)) (\<lambda>t. Inr (s = t))))"

declare find_from.simps [simp del] trim_cr.simps [simp del] equals_from.simps [simp del]
  match_from.simps [simp del] atoll_from.simps [simp del] stripLeadingSpaces.simps [simp del]

section \<open>Attribute lists\<close>

text \<open>
  The loops of \<open>ParseAttrList\<close>.  The first one reads a name up to \<open>'='\<close>; \<open>None\<close> is the return
  of \<open>ParseAttrList\<close> when the view ends before.  The second one reads a value up to a comma
  outside quotes, a zero byte or the end.
\<close>

function name_loop :: "string \<Rightarrow> lstring \<Rightarrow> lstring \<Rightarrow> ls_fault + (lstring \<times> lstring) option" where
  "name_loop mem iter attr =
     (if ls_empty iter then Inr None
      else ebind (popFirstChar mem iter) (\<lambda>(c, iter').
        if c = CHR ''='' then Inr (Some (attr, iter'))
        else name_loop mem iter' (attr\<lparr>ls_len := ls_len attr + 1\<rparr>)))"
  by pat_completeness auto
termination
  by (relation "measure (\<lambda>(_, iter, _). ls_len iter)")
    (auto simp: popFirstChar_def ls_empty_def ebind_Inr_iff split: if_splits)

function value_loop :: "string \<Rightarrow> bool \<Rightarrow> lstring \<Rightarrow> lstring \<Rightarrow> ls_fault + (lstring \<times> lstring)" where
  "value_loop mem inQuote iter val =
     (if ls_empty iter then Inr (val, iter)
      else ebind (popFirstChar mem iter) (\<lambda>(c, iter').
        if c = NUL then Inr (val, iter')
        else if c = CHR '','' \<and> \<not> inQuote then Inr (val, iter')
        else value_loop mem (if c = CHAR_QUOTE then \<not> inQuote else inQuote) iter'
               (val\<lparr>ls_len := ls_len val + 1\<rparr>)))"
  by pat_completeness auto
termination
  by (relation "measure (\<lambda>(_, _, iter, _). ls_len iter)")
    (auto simp: popFirstChar_def ls_empty_def ebind_Inr_iff split: if_splits)

declare name_loop.simps [simp del] value_loop.simps [simp del]

lemma popFirstChar_len:
  "popFirstChar mem v = Inr (c, v') \<Longrightarrow> ls_len v' = ls_len v - 1"
  by (auto simp: popFirstChar_def ebind_Inr_iff split: if_splits)

lemma name_loop_len:
  "name_loop mem iter attr = Inr (Some (a, iter')) \<Longrightarrow> ls_len iter' < ls_len iter"
proof (induction mem iter attr rule: name_loop.induct)
  case (1 mem iter attr)
  from "1.prems" obtain c i2 where p: "\<not> ls_empty iter" "popFirstChar mem iter = Inr (c, i2)"
    by (auto simp: name_loop.simps [of mem iter] ebind_Inr_iff split: if_splits)
  then have l: "ls_len i2 < ls_len iter" by (simp add: popFirstChar_len ls_empty_def)
  show ?case
  proof (cases "c = CHR ''=''")
    case True
    with "1.prems" p l show ?thesis by (simp add: name_loop.simps [of mem iter])
  next
    case False
    with "1.prems" p have "name_loop mem i2 (attr\<lparr>ls_len := ls_len attr + 1\<rparr>) = Inr (Some (a, iter'))"
      by (simp add: name_loop.simps [of mem iter])
    from "1.IH" [OF p refl False this] l show ?thesis by simp
  qed
qed

lemma value_loop_len:
  "value_loop mem q iter val = Inr (w, iter') \<Longrightarrow> ls_len iter' \<le> ls_len iter"
proof (induction mem q iter val rule: value_loop.induct)
  case (1 mem q iter val)
  show ?case
  proof (cases "ls_empty iter")
    case True
    with "1.prems" show ?thesis by (simp add: value_loop.simps [of mem q iter])
  next
    case False
    with "1.prems" obtain c i2 where p: "popFirstChar mem iter = Inr (c, i2)"
      by (auto simp: value_loop.simps [of mem q iter] ebind_Inr_iff)
    then have l: "ls_len i2 \<le> ls_len iter" by (simp add: popFirstChar_len)
    show ?thesis
    proof (cases "c = NUL \<or> c = CHR '','' \<and> \<not> q")
      case True
      with "1.prems" p l False show ?thesis by (auto simp: value_loop.simps [of mem q iter] NUL_def)
    next
      case n: False
      with "1.prems" p False have "value_loop mem (if c = CHAR_QUOTE then \<not> q else q) i2
          (val\<lparr>ls_len := ls_len val + 1\<rparr>) = Inr (w, iter')"
        by (auto simp: value_loop.simps [of mem q iter] split: if_splits)
      with "1.IH" [OF False p refl] n l show ?thesis by fastforce
    qed
  qed
qed

lemma stripLeadingSpaces_len: "stripLeadingSpaces mem v = Inr w \<Longrightarrow> ls_len w \<le> ls_len v"
proof (induction mem v rule: stripLeadingSpaces.induct)
  case (1 mem v)
  then obtain b where b: "startswith mem v (CHR '' '') = Inr b"
    by (auto simp: stripLeadingSpaces.simps [of mem v] ebind_Inr_iff)
  show ?case
  proof (cases b)
    case True
    with "1.prems" b have "stripLeadingSpaces mem (ls_removePrefix 1 v) = Inr w"
      by (simp add: stripLeadingSpaces.simps [of mem v])
    from "1.IH" [OF b True this] show ?thesis by (simp add: ls_removePrefix_def split: if_splits)
  next
    case False
    with "1.prems" b show ?thesis by (simp add: stripLeadingSpaces.simps [of mem v])
  qed
qed

text \<open>The callback gets the views of the name and of the value and updates the state \<open>st\<close> behind \<open>context\<close>.\<close>

function attrs_from :: "string \<Rightarrow> (lstring \<Rightarrow> lstring \<Rightarrow> 's \<Rightarrow> ls_fault + 's) \<Rightarrow> lstring \<Rightarrow> 's \<Rightarrow> ls_fault + 's" where
  "attrs_from mem cb iter st =
     ebind (stripLeadingSpaces mem iter) (\<lambda>iter1.
     ebind (startswith mem iter1 CHAR_CR) (\<lambda>cr.
       if cr then Inr st
       else ebind (name_loop mem iter1 (iter1\<lparr>ls_len := 0\<rparr>)) (\<lambda>r.
         case r of None \<Rightarrow> Inr st
         | Some (attr, iter2) \<Rightarrow>
             ebind (value_loop mem False iter2 (iter2\<lparr>ls_len := 0\<rparr>)) (\<lambda>(val, iter3).
             ebind (cb attr val st) (\<lambda>st'. attrs_from mem cb iter3 st')))))"
  by pat_completeness auto
termination
  by (relation "measure (\<lambda>(_, _, iter, _). ls_len iter)")
    (auto dest!: stripLeadingSpaces_len name_loop_len value_loop_len)

declare attrs_from.simps [simp del]

definition ParseAttrList ::
    "string \<Rightarrow> (lstring \<Rightarrow> lstring \<Rightarrow> 's \<Rightarrow> ls_fault + 's) \<Rightarrow> lstring \<Rightarrow> 's \<Rightarrow> ls_fault + 's" where
  "ParseAttrList mem cb v st = attrs_from mem cb v st"

section \<open>Floating-point fields\<close>

definition isspace :: "char \<Rightarrow> bool" where
  "isspace c \<longleftrightarrow> c \<in> {CHR '' '', CHR 0x09, CHR 0x0A, CHR 0x0B, CHR 0x0C, CHR 0x0D}"

function atof_ws :: "string \<Rightarrow> lstring \<Rightarrow> nat \<Rightarrow> ls_fault + nat" where
  "atof_ws mem v i =
     (if i < ls_len v
      then ebind (ls_byte mem v i) (\<lambda>c. if isspace c then atof_ws mem v (i + 1) else Inr i)
      else Inr i)"
  by pat_completeness auto
termination by (relation "measure (\<lambda>(_, v, i). ls_len v - i)") auto

text \<open>The digit loop: whether a digit was seen, and the value.\<close>

function atof_digits ::
    "(rat \<Rightarrow> rat) \<Rightarrow> string \<Rightarrow> lstring \<Rightarrow> nat \<Rightarrow> bool \<Rightarrow> bool \<Rightarrow> rat \<Rightarrow> rat \<Rightarrow> ls_fault + (bool \<times> rat)" where
  "atof_digits rnd mem v i sawDigit sawDot x fracScale =
     (if i < ls_len v
      then ebind (ls_byte mem v i) (\<lambda>c.
             if is_digit c
             then (if \<not> sawDot
                   then atof_digits rnd mem v (i + 1) True sawDot
                          (rnd (rnd (x * 10) + of_int (digit_of c))) fracScale
                   else atof_digits rnd mem v (i + 1) True sawDot
                          (rnd (x + rnd (of_int (digit_of c) * fracScale))) (rnd (fracScale * rnd (1 / 10))))
             else if c = CHR ''.''
             then (if sawDot then Inr (sawDigit, x)
                   else atof_digits rnd mem v (i + 1) sawDigit True x fracScale)
             else Inr (sawDigit, x))
      else Inr (sawDigit, x))"
  by pat_completeness auto
termination by (relation "measure (\<lambda>(_, _, v, i, _). ls_len v - i)") auto

declare atof_ws.simps [simp del] atof_digits.simps [simp del]

definition ls_atof :: "(rat \<Rightarrow> rat) \<Rightarrow> string \<Rightarrow> lstring \<Rightarrow> ls_fault + rat" where
  "ls_atof rnd mem v =
     (if ls_ptr v = None \<or> ls_len v = 0 then Inr 0
      else ebind (atof_ws mem v 0) (\<lambda>i.
        if i \<ge> ls_len v then Inr 0
        else ebind (ls_byte mem v i) (\<lambda>c.
          let sign = (if c = CHR ''-'' then -1 else 1);
              i = (if c = CHR ''+'' \<or> c = CHR ''-'' then i + 1 else i)
          in ebind (atof_digits rnd mem v i False False 0 (rnd (1 / 10))) (\<lambda>(sawDigit, x).
               Inr (if sawDigit then sign * x else 0)))))"
section \<open>The text of a view\<close>

text \<open>\<open>views mem v s\<close>: the view lies inside the buffer and covers the text \<open>s\<close>.\<close>

definition views :: "string \<Rightarrow> lstring \<Rightarrow> string \<Rightarrow> bool" where
  "views mem v s \<longleftrightarrow> ls_len v = length s \<and>
     (case ls_ptr v of None \<Rightarrow> s = []
      | Some p \<Rightarrow> p + length s \<le> length mem \<and> take (length s) (drop p mem) = s)"

text \<open>What the operations do to the text.\<close>

definition strip_cr :: "string \<Rightarrow> string" where
  "strip_cr s = rev (dropWhile (\<lambda>c. c = CHAR_CR) (rev s))"

definition first_line :: "string \<Rightarrow> string" where
  "first_line s = strip_cr (takeWhile (\<lambda>c. c \<noteq> CHAR_LF) s)"

definition after_line :: "string \<Rightarrow> string" where
  "after_line s = drop 1 (dropWhile (\<lambda>c. c \<noteq> CHAR_LF) s)"

fun remove_prefix :: "string \<Rightarrow> string \<Rightarrow> string option" where
  "remove_prefix [] s = Some s"
| "remove_prefix (c # cs) [] = None"
| "remove_prefix (c # cs) (x # s) = (if x = c then remove_prefix cs s else None)"

definition has_prefix :: "string \<Rightarrow> string \<Rightarrow> bool" where
  "has_prefix cs s \<longleftrightarrow> remove_prefix cs s \<noteq> None"

definition quoted_text :: "string \<Rightarrow> string" where
  "quoted_text s =
     (if length s \<ge> 2 \<and> hd s = CHAR_QUOTE \<and> last s = CHAR_QUOTE then butlast (tl s) else ''NONE'')"

fun atoll_acc :: "int \<Rightarrow> string \<Rightarrow> ls_fault + int" where
  "atoll_acc rc [] = Inr rc"
| "atoll_acc rc (c # s) =
     (if is_digit c
      then (if int64 (rc * 10) \<and> int64 (rc * 10 + digit_of c)
            then atoll_acc (rc * 10 + digit_of c) s else Inl IntOverflow)
      else Inr rc)"

definition atoll_text :: "string \<Rightarrow> ls_fault + int" where
  "atoll_text s = atoll_acc 0 s"

definition strip_spaces :: "string \<Rightarrow> string" where
  "strip_spaces s = dropWhile (\<lambda>c. c = CHR '' '') s"

definition name_text :: "string \<Rightarrow> (string \<times> string) option" where
  "name_text s =
     (let a = takeWhile (\<lambda>c. c \<noteq> CHR ''='') s
      in if length a < length s then Some (a, drop (length a + 1) s) else None)"

fun value_text :: "bool \<Rightarrow> string \<Rightarrow> string \<times> string" where
  "value_text inQuote [] = ([], [])"
| "value_text inQuote (c # s) =
     (if c = NUL \<or> c = CHR '','' \<and> \<not> inQuote then ([], s)
      else let (w, rest) = value_text (if c = CHAR_QUOTE then \<not> inQuote else inQuote) s in (c # w, rest))"

lemma value_text_length: "length (snd (value_text q s)) \<le> length s"
  by (induction q s rule: value_text.induct) (auto simp: split: prod.splits)

lemma name_text_length: "name_text s = Some (a, t) \<Longrightarrow> length t < length s"
  by (auto simp: name_text_def Let_def split: if_splits)

lemma strip_spaces_length: "length (strip_spaces s) \<le> length s"
  by (simp add: strip_spaces_def length_dropWhile_le)

function attr_list :: "string \<Rightarrow> (string \<times> string) list" where
  "attr_list s =
     (let t = strip_spaces s in
      if t \<noteq> [] \<and> hd t = CHAR_CR then []
      else case name_text t of None \<Rightarrow> []
      | Some (a, u) \<Rightarrow> (a, fst (value_text False u)) # attr_list (snd (value_text False u)))"
  by pat_completeness auto
termination
proof (relation "measure length", goal_cases)
  case (2 s t p a u)
  then show ?case
    using value_text_length [of False u] name_text_length [of t a u] strip_spaces_length [of s] by simp
qed simp

declare attr_list.simps [simp del]

fun atof_acc :: "(rat \<Rightarrow> rat) \<Rightarrow> bool \<Rightarrow> bool \<Rightarrow> rat \<Rightarrow> rat \<Rightarrow> string \<Rightarrow> bool \<times> rat" where
  "atof_acc rnd sawDigit sawDot x fracScale [] = (sawDigit, x)"
| "atof_acc rnd sawDigit sawDot x fracScale (c # s) =
     (if is_digit c
      then (if \<not> sawDot
            then atof_acc rnd True sawDot (rnd (rnd (x * 10) + of_int (digit_of c))) fracScale s
            else atof_acc rnd True sawDot (rnd (x + rnd (of_int (digit_of c) * fracScale)))
                   (rnd (fracScale * rnd (1 / 10))) s)
      else if c = CHR ''.'' \<and> \<not> sawDot then atof_acc rnd sawDigit True x fracScale s
      else (sawDigit, x))"

definition atof_text :: "(rat \<Rightarrow> rat) \<Rightarrow> string \<Rightarrow> rat" where
  "atof_text rnd s =
     (let t = dropWhile isspace s;
          sign = (if t \<noteq> [] \<and> hd t = CHR ''-'' then -1 else 1);
          u = (if t \<noteq> [] \<and> (hd t = CHR ''+'' \<or> hd t = CHR ''-'') then tl t else t);
          (sawDigit, x) = atof_acc rnd False False 0 (rnd (1 / 10)) u
      in if sawDigit then sign * x else 0)"

section \<open>Every operation stays inside the buffer and computes its function on the text\<close>

lemma views_len: "views mem v s \<Longrightarrow> ls_len v = length s"
  by (simp add: views_def)

lemma views_nth [simp]: "views mem v s \<Longrightarrow> i < length s \<Longrightarrow> ls_byte mem v i = Inr (s ! i)"
  by (auto simp: views_def ls_byte_def split: option.splits)
    (metis add_lessD1 nat_add_left_cancel_less less_le_trans nth_take nth_drop add_leD1 le_add1)+

lemma views_take: "views mem v s \<Longrightarrow> k \<le> length s \<Longrightarrow> views mem (v\<lparr>ls_len := k\<rparr>) (take k s)"
  by (auto simp: views_def min_def split: option.splits)
    (metis take_take min_def le_trans)+

lemma views_drop: "views mem v s \<Longrightarrow> n \<le> length s \<Longrightarrow>
   views mem (v\<lparr>ls_ptr := map_option (\<lambda>p. p + n) (ls_ptr v), ls_len := length s - n\<rparr>) (drop n s)"
  by (auto simp: views_def split: option.splits) (metis drop_take drop_drop add.commute)

lemma views_empty: "views mem v s \<Longrightarrow> views mem (v\<lparr>ls_len := 0\<rparr>) []"
  by (auto simp: views_def split: option.splits)

lemma views_removePrefix: "views mem v s \<Longrightarrow> views mem (ls_removePrefix n v) (drop n s)"
  using views_drop [of mem v s n] views_empty [of mem v s] by (auto simp: ls_removePrefix_def views_len)
lemma remove_prefix_iff: "remove_prefix cs s = Some t \<longleftrightarrow> s = cs @ t"
  by (induction cs s rule: remove_prefix.induct) auto

lemma has_prefix_iff: "has_prefix cs s \<longleftrightarrow> (\<exists>t. s = cs @ t)"
  by (simp add: has_prefix_def remove_prefix_iff)

lemma find_from_views:
  "views mem v s \<Longrightarrow> rc \<le> length s \<Longrightarrow>
   find_from mem v c rc = Inr (rc + length (takeWhile (\<lambda>x. x \<noteq> c) (drop rc s)))"
proof (induction mem v c rc rule: find_from.induct)
  case (1 mem v c rc)
  show ?case
  proof (cases "rc < length s")
    case True
    then have d: "drop rc s = s ! rc # drop (Suc rc) s" by (simp add: Cons_nth_drop_Suc)
    from True 1 show ?thesis
      by (subst find_from.simps) (simp add: views_len d del: drop_Suc)
  next
    case False
    with 1 show ?thesis by (subst find_from.simps) (simp add: views_len)
  qed
qed

lemma find_views: "views mem v s \<Longrightarrow> ls_find mem v c = Inr (length (takeWhile (\<lambda>x. x \<noteq> c) s))"
  by (simp add: ls_find_def find_from_views)

lemma strip_cr_snoc: "strip_cr (s @ [c]) = (if c = CHAR_CR then strip_cr s else s @ [c])"
  by (simp add: strip_cr_def)

lemma trim_cr_views: "views mem v s \<Longrightarrow> \<exists>w. trim_cr mem v = Inr w \<and> views mem w (strip_cr s)"
proof (induction s arbitrary: v rule: rev_induct)
  case Nil
  then show ?case
    by (subst trim_cr.simps) (auto simp: peekLastChar_def views_len strip_cr_def char_defs)
next
  case (snoc c s)
  from snoc.prems have p: "peekLastChar mem v = Inr c"
    by (simp add: peekLastChar_def views_len nth_append)
  from snoc.prems have "views mem (v\<lparr>ls_len := length s\<rparr>) s"
    using views_take [of mem v "s @ [c]" "length s"] by simp
  from snoc.IH [OF this] p snoc.prems show ?case
    by (subst trim_cr.simps) (simp add: strip_cr_snoc views_len)
qed

lemma takeWhile_drop: "s = takeWhile P s @ dropWhile P s" by simp

lemma mystrpbrk_views:
  assumes "views mem v s"
  shows "\<exists>t w. mystrpbrk mem v = Inr (t, w) \<and> views mem t (first_line s) \<and> views mem w (after_line s)"
proof -
  let ?d = "length (takeWhile (\<lambda>x. x \<noteq> CHAR_LF) s)"
  have tk: "take ?d s = takeWhile (\<lambda>x. x \<noteq> CHAR_LF) s" by (metis takeWhile_eq_take)
  have dr: "drop (?d + 1) s = after_line s"
    by (metis after_line_def dropWhile_eq_drop drop_drop add.commute)
  have "views mem (v\<lparr>ls_len := ?d\<rparr>) (takeWhile (\<lambda>x. x \<noteq> CHAR_LF) s)"
    using views_take [OF assms, of ?d] by (simp add: tk length_takeWhile_le)
  from trim_cr_views [OF this] obtain t where
    "trim_cr mem (v\<lparr>ls_len := ?d\<rparr>) = Inr t" "views mem t (first_line s)"
    by (auto simp: first_line_def)
  moreover have "views mem (ls_removePrefix (?d + 1) v) (after_line s)"
    using views_removePrefix [OF assms, of "?d + 1"] dr by (simp only: )
  ultimately show ?thesis by (simp add: mystrpbrk_def find_views [OF assms])
qed

lemma cs_byte_inside [simp]: "n < length cs \<Longrightarrow> cs_byte cs n = Inr (cs ! n)"
  and cs_byte_end [simp]: "cs_byte cs (length cs) = Inr NUL"
  by (simp_all add: cs_byte_def)

lemma equals_from_views:
  "views mem v s \<Longrightarrow> NUL \<notin> set cs \<Longrightarrow> n \<le> length s \<Longrightarrow> n \<le> length cs \<Longrightarrow> take n s = take n cs \<Longrightarrow>
   equals_from mem v cs n = Inr (s = cs)"
proof (induction mem v cs n rule: equals_from.induct)
  case (1 mem v cs n)
  note l = views_len [OF "1.prems"(1)]
  consider "n = length s" | "n < length s" "n = length cs" | "n < length s" "n < length cs"
    using "1.prems" by linarith
  then show ?case
  proof cases
    case 1
    show ?thesis
    proof (cases "length s = length cs")
      case True
      with 1 "1.prems" l show ?thesis by (subst equals_from.simps) simp
    next
      case False
      with 1 "1.prems" have "length s < length cs" by simp
      then have "cs ! length s \<noteq> NUL" using "1.prems"(2) by (metis nth_mem)
      with False 1 "1.prems" l show ?thesis by (subst equals_from.simps) auto
    qed
  next
    case 2
    with "1.prems" l show ?thesis by (subst equals_from.simps) auto
  next
    case 3
    then have c: "cs ! n \<noteq> NUL" using "1.prems"(2) by (metis nth_mem)
    have e: "take (Suc n) s = take (Suc n) cs \<longleftrightarrow> s ! n = cs ! n"
      using 3 "1.prems"(5) by (simp add: take_Suc_conv_app_nth)
    show ?thesis
    proof (cases "s ! n = cs ! n")
      case True
      with "1.IH" [of "cs ! n" "s ! n"] "1.prems" 3 c l e show ?thesis
        by (subst equals_from.simps) simp
    next
      case False
      with 3 c l "1.prems" show ?thesis by (subst equals_from.simps) auto
    qed
  qed
qed

lemma equals_views: "views mem v s \<Longrightarrow> NUL \<notin> set cs \<Longrightarrow> equalsCString mem v cs = Inr (s = cs)"
  by (simp add: equalsCString_def equals_from_views)

lemma match_from_views:
  "views mem v s \<Longrightarrow> NUL \<notin> set cs \<Longrightarrow> n \<le> length s \<Longrightarrow> n \<le> length cs \<Longrightarrow>
   match_from mem v cs n = Inr (if has_prefix (drop n cs) (drop n s) then Some (length cs) else None)"
proof (induction mem v cs n rule: match_from.induct)
  case (1 mem v cs n)
  note l = views_len [OF "1.prems"(1)]
  consider "n = length cs" | "n < length cs" "n = length s" | "n < length s" "n < length cs"
    using "1.prems" by linarith
  then show ?case
  proof cases
    case 1
    then show ?thesis by (subst match_from.simps) (simp add: has_prefix_def)
  next
    case 2
    then have c: "cs ! n \<noteq> NUL" using "1.prems"(2) by (metis nth_mem)
    from 2 have "drop n cs = cs ! n # drop (Suc n) cs" by (simp add: Cons_nth_drop_Suc)
    with 2 c l show ?thesis by (subst match_from.simps) (simp add: has_prefix_def)
  next
    case 3
    then have c: "cs ! n \<noteq> NUL" using "1.prems"(2) by (metis nth_mem)
    from 3 have d: "drop n cs = cs ! n # drop (Suc n) cs" "drop n s = s ! n # drop (Suc n) s"
      by (simp_all add: Cons_nth_drop_Suc)
    show ?thesis
    proof (cases "s ! n = cs ! n")
      case True
      with "1.IH" [of "cs ! n" "s ! n"] "1.prems" 3 c l show ?thesis
        by (subst match_from.simps) (simp add: d has_prefix_def)
    next
      case False
      with 3 c l "1.prems" show ?thesis
        by (subst match_from.simps) (simp add: d has_prefix_def)
    qed
  qed
qed

lemma match_views:
  "views mem v s \<Longrightarrow> NUL \<notin> set cs \<Longrightarrow>
   match_from mem v cs 0 = Inr (if has_prefix cs s then Some (length cs) else None)"
  by (simp add: match_from_views)

lemma removePrefixCString_views:
  assumes "views mem v s" "NUL \<notin> set cs"
  shows "\<exists>w. removePrefixCString mem v cs = Inr (has_prefix cs s, w)
             \<and> views mem w (case remove_prefix cs s of Some t \<Rightarrow> t | None \<Rightarrow> s)"
proof (cases "remove_prefix cs s")
  case None
  with assms show ?thesis by (simp add: removePrefixCString_def match_views has_prefix_def)
next
  case (Some t)
  then have "s = cs @ t" by (simp add: remove_prefix_iff)
  with Some assms views_removePrefix [OF assms(1), of "length cs"] show ?thesis
    by (simp add: removePrefixCString_def match_views has_prefix_def)
qed

lemma startswith_views: "views mem v s \<Longrightarrow> startswith mem v c = Inr (s \<noteq> [] \<and> hd s = c)"
  by (cases s) (auto simp: startswith_def views_len)

lemma substr_views:
  "views mem v s \<Longrightarrow>
   views mem (ls_substr k v) (if k < 0 \<or> length s \<le> nat k then [] else drop (nat k) s)"
  using views_drop [of mem v s "nat k"] views_len [of mem v s]
  by (cases v) (auto simp: ls_substr_def Let_def empty_view_def views_def [of _ "\<lparr>ls_ptr = None, ls_len = 0\<rparr>"])

lemma atoll_from_views:
  "views mem v s \<Longrightarrow> i \<le> length s \<Longrightarrow> atoll_from mem v i rc = atoll_acc rc (drop i s)"
proof (induction mem v i rc rule: atoll_from.induct)
  case (1 mem v i rc)
  show ?case
  proof (cases "i < length s")
    case True
    then have d: "drop i s = s ! i # drop (Suc i) s" by (simp add: Cons_nth_drop_Suc)
    from True 1 show ?thesis
      by (subst atoll_from.simps) (simp add: views_len d del: drop_Suc)
  next
    case False
    with 1 show ?thesis by (subst atoll_from.simps) (simp add: views_len)
  qed
qed

lemma atoll_views: "views mem v s \<Longrightarrow> ls_atoll mem v = atoll_text s"
  by (simp add: ls_atoll_def atoll_text_def atoll_from_views)

lemma bytes_views:
  "views mem v s \<Longrightarrow> i + k \<le> length s \<Longrightarrow> ls_bytes mem v i k = Inr (take k (drop i s))"
proof (induction k arbitrary: i)
  case (Suc k)
  then have "drop i s = s ! i # drop (Suc i) s" by (simp add: Cons_nth_drop_Suc)
  with Suc show ?case by simp
qed simp

lemma tostring_views: "views mem v s \<Longrightarrow> tostring mem v = Inr s"
  by (simp add: tostring_def views_len bytes_views)

lemma GetAttributeValueString_views:
  assumes "views mem v s"
  shows "GetAttributeValueString mem v = Inr (quoted_text s)"
proof (cases "2 \<le> length s")
  case True
  then have "take (length s - 2) (drop (Suc 0) s) = butlast (tl s)"
    by (simp add: butlast_conv_take drop_Suc numeral_2_eq_2)
  moreover from True have "s \<noteq> []" by auto
  moreover from this have "s ! (length s - Suc 0) = last s" by (simp add: last_conv_nth)
  ultimately show ?thesis
    using True assms bytes_views [OF assms, of 1 "length s - 2"] views_nth [OF assms, of "length s - 1"]
    by (simp add: GetAttributeValueString_def views_len startswith_views quoted_text_def)
next
  case False
  with assms show ?thesis by (simp add: GetAttributeValueString_def views_len quoted_text_def)
qed

lemma popFirstChar_views:
  "views mem v (c # s) \<Longrightarrow> \<exists>w. popFirstChar mem v = Inr (c, w) \<and> views mem w s
     \<and> w = v\<lparr>ls_ptr := map_option Suc (ls_ptr v), ls_len := length s\<rparr>"
  using views_drop [of mem v "c # s" 1] by (simp add: popFirstChar_def views_len)

lemma popFirstChar_empty: "views mem v [] \<Longrightarrow> popFirstChar mem v = Inr (NUL, v)"
  by (simp add: popFirstChar_def views_len)

lemma peekLastChar_views: "views mem v s \<Longrightarrow> peekLastChar mem v = Inr (if s = [] then NUL else last s)"
  by (auto simp: peekLastChar_def views_len last_conv_nth)

lemma stripLeadingSpaces_views:
  "views mem v s \<Longrightarrow> \<exists>w. stripLeadingSpaces mem v = Inr w \<and> views mem w (strip_spaces s)"
proof (induction s arbitrary: v)
  case Nil
  then show ?case
    by (subst stripLeadingSpaces.simps) (auto simp: startswith_views strip_spaces_def)
next
  case (Cons c s)
  have "views mem (ls_removePrefix 1 v) s" using views_removePrefix [OF Cons.prems, of 1] by simp
  from Cons.IH [OF this] Cons.prems show ?case
    by (subst stripLeadingSpaces.simps) (auto simp: startswith_views strip_spaces_def)
qed

lemma equalsContent_views:
  "views mem v s \<Longrightarrow> views mem w t \<Longrightarrow> equalsContent mem v w = Inr (s = t)"
  using bytes_views [of mem v s 0 "length s"] bytes_views [of mem w t 0 "length t"]
  by (auto simp: equalsContent_def views_len)

text \<open>
  A view of which the bytes before its end have been popped: \<open>u\<close> counts the bytes read so far.
\<close>

definition reading :: "string \<Rightarrow> lstring \<Rightarrow> string \<Rightarrow> lstring \<Rightarrow> string \<Rightarrow> bool" where
  "reading mem u a iter s \<longleftrightarrow> views mem iter s \<and> ls_len u = length a \<and>
     views mem (u\<lparr>ls_len := length a + length s\<rparr>) (a @ s)"

lemma reading_start: "views mem v s \<Longrightarrow> reading mem (v\<lparr>ls_len := 0\<rparr>) [] v s"
  using views_take [of mem v s "length s"] by (simp add: reading_def views_len)

lemma reading_pop:
  assumes "reading mem u a iter (c # s)"
  shows "\<exists>w. popFirstChar mem iter = Inr (c, w) \<and> reading mem (u\<lparr>ls_len := Suc (length a)\<rparr>) (a @ [c]) w s
    \<and> views mem w s"
proof -
  from assms obtain w where "popFirstChar mem iter = Inr (c, w)" "views mem w s"
    by (auto simp: reading_def dest!: popFirstChar_views)
  with assms show ?thesis by (simp add: reading_def)
qed

lemma reading_view: "reading mem u a iter s \<Longrightarrow> views mem u a"
  using views_take [of mem "u\<lparr>ls_len := length a + length s\<rparr>" "a @ s" "length a"]
  by (cases u) (simp add: reading_def)

lemma reading_len: "reading mem u a iter s \<Longrightarrow> ls_len u = length a \<and> ls_len iter = length s"
  unfolding reading_def using views_len by blast

lemma name_loop_views:
  "reading mem u a iter s \<Longrightarrow>
   (case name_text s of None \<Rightarrow> name_loop mem iter u = Inr None
    | Some (b, t) \<Rightarrow> \<exists>w i2. name_loop mem iter u = Inr (Some (w, i2)) \<and> views mem w (a @ b) \<and> views mem i2 t)"
proof (induction s arbitrary: u a iter)
  case Nil
  from reading_len [OF Nil] show ?case
    by (subst name_loop.simps) (simp add: name_text_def ls_empty_def)
next
  case (Cons c s)
  note l = reading_len [OF Cons.prems]
  obtain w where p: "popFirstChar mem iter = Inr (c, w)"
      "reading mem (u\<lparr>ls_len := Suc (length a)\<rparr>) (a @ [c]) w s" "views mem w s"
    using reading_pop [OF Cons.prems] by blast
  show ?case
  proof (cases "c = CHR ''=''")
    case True
    with p l reading_view [OF Cons.prems] show ?thesis
      by (subst name_loop.simps) (simp add: name_text_def ls_empty_def)
  next
    case False
    with p(1) l have "name_loop mem iter u = name_loop mem w (u\<lparr>ls_len := Suc (length a)\<rparr>)"
      by (subst name_loop.simps) (simp add: ls_empty_def)
    moreover from False have "name_text (c # s) = map_option (\<lambda>(b, t). (c # b, t)) (name_text s)"
      by (simp add: name_text_def Let_def)
    ultimately show ?thesis
      using Cons.IH [OF p(2)] by (cases "name_text s") (auto split: prod.splits)
  qed
qed

lemma value_loop_views:
  "reading mem u a iter s \<Longrightarrow>
   \<exists>w i2. value_loop mem q iter u = Inr (w, i2) \<and> views mem w (a @ fst (value_text q s))
     \<and> views mem i2 (snd (value_text q s))"
proof (induction s arbitrary: q u a iter)
  case Nil
  note l = reading_len [OF Nil]
  from Nil have "views mem iter []" by (simp add: reading_def)
  with l reading_view [OF Nil] show ?case by (subst value_loop.simps) (simp add: ls_empty_def)
next
  case (Cons c s)
  note l = reading_len [OF Cons.prems]
  obtain w where p: "popFirstChar mem iter = Inr (c, w)"
      "reading mem (u\<lparr>ls_len := Suc (length a)\<rparr>) (a @ [c]) w s" "views mem w s"
    using reading_pop [OF Cons.prems] by blast
  show ?case
  proof (cases "c = NUL \<or> c = CHR '','' \<and> \<not> q")
    case True
    then have "value_text q (c # s) = ([], s)" by simp
    moreover from True p(1) l have "value_loop mem q iter u = Inr (u, w)"
      by (subst value_loop.simps) (auto simp: ls_empty_def)
    ultimately show ?thesis using p(3) reading_view [OF Cons.prems] by simp
  next
    case False
    let ?q = "if c = CHAR_QUOTE then \<not> q else q"
    from False p(1) l have "value_loop mem q iter u = value_loop mem ?q w (u\<lparr>ls_len := Suc (length a)\<rparr>)"
      by (subst value_loop.simps) (auto simp: ls_empty_def)
    moreover from False have "value_text q (c # s) = (c # fst (value_text ?q s), snd (value_text ?q s))"
      by (auto split: prod.splits)
    ultimately show ?thesis using Cons.IH [OF p(2), of ?q] by auto
  qed
qed

text \<open>The callbacks of an attribute list, one after the other.\<close>

fun fold_attrs :: "(string \<Rightarrow> string \<Rightarrow> 's \<Rightarrow> ls_fault + 's) \<Rightarrow> (string \<times> string) list \<Rightarrow> 's \<Rightarrow> ls_fault + 's" where
  "fold_attrs f [] st = Inr st"
| "fold_attrs f ((a, w) # ps) st = ebind (f a w st) (\<lambda>st'. fold_attrs f ps st')"

lemma fold_attrs_append: "fold_attrs f (ps @ qs) st = ebind (fold_attrs f ps st) (fold_attrs f qs)"
  by (induction f ps st rule: fold_attrs.induct) (auto simp: ebind_def split: sum.splits)

lemma attrs_from_views:
  assumes cb: "\<And>a w st x y. views mem a x \<Longrightarrow> views mem w y \<Longrightarrow> cb a w st = f x y st"
  shows "views mem v s \<Longrightarrow> attrs_from mem cb v st = fold_attrs f (attr_list s) st"
proof (induction s arbitrary: v st rule: attr_list.induct)
  case (1 s)
  obtain i1 where i1: "stripLeadingSpaces mem v = Inr i1" "views mem i1 (strip_spaces s)"
    using stripLeadingSpaces_views [OF "1.prems"] by blast
  let ?t = "strip_spaces s"
  show ?case
  proof (cases "?t \<noteq> [] \<and> hd ?t = CHAR_CR")
    case True
    with i1 show ?thesis
      by (subst attrs_from.simps, subst attr_list.simps) (simp add: startswith_views Let_def)
  next
    case cr: False
    then have cr': "startswith mem i1 CHAR_CR = Inr False" by (simp add: startswith_views [OF i1(2)])
    note n = name_loop_views [OF reading_start [OF i1(2)]]
    show ?thesis
    proof (cases "name_text ?t")
      case None
      with n i1(1) cr cr' show ?thesis
        by (subst attrs_from.simps, subst attr_list.simps) (auto simp: Let_def)
    next
      case (Some p)
      then obtain a u where p: "name_text ?t = Some (a, u)" by (cases p) simp
      with n obtain w i2 where w: "name_loop mem i1 (i1\<lparr>ls_len := 0\<rparr>) = Inr (Some (w, i2))"
          "views mem w a" "views mem i2 u" by auto
      obtain x i3 where x: "value_loop mem False i2 (i2\<lparr>ls_len := 0\<rparr>) = Inr (x, i3)"
          "views mem x (fst (value_text False u))" "views mem i3 (snd (value_text False u))"
        using value_loop_views [OF reading_start [OF w(3)], of False] by auto
      have al: "attr_list s = (a, fst (value_text False u)) # attr_list (snd (value_text False u))"
        using cr p by (subst attr_list.simps) (auto simp: Let_def)
      have "attrs_from mem cb v st = ebind (cb w x st) (\<lambda>st'. attrs_from mem cb i3 st')"
        using i1(1) cr' w(1) x(1) by (subst attrs_from.simps) simp
      also have "\<dots> = fold_attrs f (attr_list s) st"
        using "1.IH" [OF refl cr p refl x(3)] cb [OF w(2) x(2)] by (simp add: al)
      finally show ?thesis .
    qed
  qed
qed

lemma point_not_digit [simp]: "\<not> is_digit (CHR ''.'')"
  by (simp add: is_digit_def digit_of_def)

lemma atof_ws_views:
  "views mem v s \<Longrightarrow> i \<le> length s \<Longrightarrow> atof_ws mem v i = Inr (i + length (takeWhile isspace (drop i s)))"
proof (induction mem v i rule: atof_ws.induct)
  case (1 mem v i)
  show ?case
  proof (cases "i < length s")
    case True
    then have d: "drop i s = s ! i # drop (Suc i) s" by (simp add: Cons_nth_drop_Suc)
    from True 1 show ?thesis
      by (subst atof_ws.simps) (simp add: views_len d del: drop_Suc)
  next
    case False
    with 1 show ?thesis by (subst atof_ws.simps) (simp add: views_len)
  qed
qed

lemma atof_digits_views:
  "views mem v s \<Longrightarrow> i \<le> length s \<Longrightarrow>
   atof_digits rnd mem v i sd dot x sc = Inr (atof_acc rnd sd dot x sc (drop i s))"
proof (induction rnd mem v i sd dot x sc rule: atof_digits.induct)
  case (1 rnd mem v i sd dot x sc)
  show ?case
  proof (cases "i < length s")
    case True
    then have d: "drop i s = s ! i # drop (Suc i) s" by (simp add: Cons_nth_drop_Suc)
    from True 1 show ?thesis
      by (subst atof_digits.simps) (simp add: views_len d del: drop_Suc)
  next
    case False
    with 1 show ?thesis by (subst atof_digits.simps) (simp add: views_len)
  qed
qed

lemma atof_views:
  assumes v: "views mem v s"
  shows "ls_atof rnd mem v = Inr (atof_text rnd s)"
proof (cases "s = []")
  case True
  with v show ?thesis by (simp add: ls_atof_def views_len atof_text_def)
next
  case False
  let ?i = "length (takeWhile isspace s)" and ?t = "dropWhile isspace s"
  from v False obtain p where n: "ls_ptr v = Some p" by (auto simp: views_def split: option.splits)
  have d: "drop ?i s = ?t" by (metis dropWhile_eq_drop)
  show ?thesis
  proof (cases "?t")
    case Nil
    then have "?i = length s" by (metis append_Nil2 takeWhile_dropWhile_id)
    moreover have "atof_text rnd s = 0" unfolding atof_text_def Nil by simp
    ultimately show ?thesis using v n by (simp add: ls_atof_def views_len atof_ws_views)
  next
    case (Cons c u)
    with d have l: "?i < length s" by (metis drop_all linorder_not_less list.distinct(1))
    then have c: "s ! ?i = c" and u: "drop (Suc ?i) s = u"
      using d Cons Cons_nth_drop_Suc [OF l] by simp_all
    from v n l False c show ?thesis
      by (cases "c = CHR ''-''"; cases "c = CHR ''+''")
        (simp_all add: ls_atof_def views_len atof_ws_views atof_digits_views d u Cons atof_text_def Let_def
          case_prod_unfold del: atof_acc.simps)
  qed
qed
section \<open>Lines, attribute lists and numbers that are written are read back\<close>

lemma strip_cr_id: "s = [] \<or> last s \<noteq> CHAR_CR \<Longrightarrow> strip_cr s = s"
  by (cases s rule: rev_cases) (auto simp: strip_cr_def)

lemma first_line_write:
  "CHAR_LF \<notin> set l \<Longrightarrow> l = [] \<or> last l \<noteq> CHAR_CR \<Longrightarrow> first_line (l @ CHAR_LF # s) = l"
  "CHAR_LF \<notin> set l \<Longrightarrow> after_line (l @ CHAR_LF # s) = s"
proof -
  assume n: "CHAR_LF \<notin> set l"
  then have t: "takeWhile (\<lambda>c. c \<noteq> CHAR_LF) (l @ CHAR_LF # s) = l"
    "dropWhile (\<lambda>c. c \<noteq> CHAR_LF) (l @ CHAR_LF # s) = CHAR_LF # s"
    by (induction l) auto
  then show "after_line (l @ CHAR_LF # s) = s" by (simp add: after_line_def)
  show "l = [] \<or> last l \<noteq> CHAR_CR \<Longrightarrow> first_line (l @ CHAR_LF # s) = l"
    using t by (simp add: first_line_def strip_cr_id)
qed

lemma after_line_length: "s \<noteq> [] \<Longrightarrow> length (after_line s) < length s"
proof -
  assume "s \<noteq> []"
  then have "0 < length s" by simp
  then show ?thesis
    using length_dropWhile_le [of "\<lambda>c. c \<noteq> CHAR_LF" s] unfolding after_line_def length_drop by linarith
qed

fun value_ok :: "bool \<Rightarrow> string \<Rightarrow> bool" where
  "value_ok q [] \<longleftrightarrow> \<not> q"
| "value_ok q (c # w) \<longleftrightarrow>
     c \<noteq> NUL \<and> (c = CHR '','' \<longrightarrow> q) \<and> value_ok (if c = CHAR_QUOTE then \<not> q else q) w"

definition attr_ok :: "string \<times> string \<Rightarrow> bool" where
  "attr_ok p \<longleftrightarrow> CHR ''='' \<notin> set (fst p) \<and>
     (fst p = [] \<or> hd (fst p) \<noteq> CHR '' '' \<and> hd (fst p) \<noteq> CHAR_CR) \<and> value_ok False (snd p)"

fun write_attrs :: "(string \<times> string) list \<Rightarrow> string" where
  "write_attrs [] = []"
| "write_attrs [(a, w)] = a @ CHR ''='' # w"
| "write_attrs ((a, w) # ps) = a @ CHR ''='' # w @ CHR '','' # write_attrs ps"

lemma value_text_ok:
  "value_ok q w \<Longrightarrow> value_text q w = (w, [])"
  "value_ok q w \<Longrightarrow> value_text q (w @ CHR '','' # s) = (w, s)"
  by (induction q w rule: value_ok.induct) auto

lemma name_text_write: "CHR ''='' \<notin> set a \<Longrightarrow> name_text (a @ CHR ''='' # s) = Some (a, s)"
proof -
  assume "CHR ''='' \<notin> set a"
  then have "takeWhile (\<lambda>c. c \<noteq> CHR ''='') (a @ CHR ''='' # s) = a" by (induction a) auto
  then show ?thesis by (simp add: name_text_def)
qed

lemma attr_list_Cons:
  assumes "attr_ok (a, w)" and "value_text False u = (w, s)"
  shows "attr_list (a @ CHR ''='' # u) = (a, w) # attr_list s"
proof -
  have "strip_spaces (a @ CHR ''='' # u) = a @ CHR ''='' # u"
    using assms(1) by (cases a) (auto simp: attr_ok_def strip_spaces_def)
  moreover have "hd (a @ CHR ''='' # u) \<noteq> CHAR_CR"
    using assms(1) by (cases a) (auto simp: attr_ok_def char_defs)
  ultimately show ?thesis
    using assms by (subst attr_list.simps) (simp add: name_text_write attr_ok_def)
qed

lemma attr_list_Nil [simp]: "attr_list [] = []"
  by (subst attr_list.simps) (simp add: strip_spaces_def name_text_def)

lemma attr_list_write: "\<forall>p \<in> set ps. attr_ok p \<Longrightarrow> attr_list (write_attrs ps) = ps"
proof (induction ps rule: write_attrs.induct)
  case (2 a w)
  then show ?case
    using attr_list_Cons [of a w w "[]"] by (simp add: attr_ok_def value_text_ok)
next
  case (3 a w p ps)
  then show ?case
    using attr_list_Cons [of a w "w @ CHR '','' # write_attrs (p # ps)" "write_attrs (p # ps)"]
    by (simp add: attr_ok_def value_text_ok)
qed simp

text \<open>Decimal numbers.\<close>

fun show_nat :: "nat \<Rightarrow> string" where
  "show_nat n = (if n < 10 then [char_of (48 + n)] else show_nat (n div 10) @ [char_of (48 + n mod 10)])"

declare show_nat.simps [simp del]

lemma digit_char: "d < 10 \<Longrightarrow> is_digit (char_of (48 + d)) \<and> digit_of (char_of (48 + d)) = int d"
  by (simp add: is_digit_def digit_of_def)

lemma digits_show_nat: "\<forall>c \<in> set (show_nat n). is_digit c"
proof (induction n rule: show_nat.induct)
  case (1 n)
  show ?case
  proof (cases "n < 10")
    case True
    then show ?thesis by (subst show_nat.simps) (simp add: digit_char)
  next
    case False
    have "is_digit (char_of (48 + n mod 10))" using digit_char [of "n mod 10"] by simp
    with False 1 show ?thesis by (subst show_nat.simps) auto
  qed
qed

lemma show_nat_not_Nil [simp]: "show_nat n \<noteq> []"
  by (subst show_nat.simps) simp

lemma atoll_show_nat:
  "int n \<le> INT64_MAX \<Longrightarrow> atoll_acc 0 (show_nat n @ t) = atoll_acc (int n) t"
proof (induction n arbitrary: t rule: show_nat.induct)
  case (1 n)
  show ?case
  proof (cases "n < 10")
    case True
    with 1 show ?thesis by (subst show_nat.simps) (simp add: digit_char width_defs)
  next
    case False
    let ?c = "char_of (48 + n mod 10) :: char"
    have c: "is_digit ?c" "digit_of ?c = int (n mod 10)" using digit_char [of "n mod 10"] by auto
    have e: "int (n div 10) * 10 + int (n mod 10) = int n"
      by (metis add.commute div_mult_mod_eq mult.commute of_nat_add of_nat_mult of_nat_numeral)
    have b: "int64 (int (n div 10) * 10)" "int64 (int n)" "int (n div 10) \<le> INT64_MAX"
      using e "1.prems" by (simp_all add: width_defs)
    from False have "show_nat n @ t = show_nat (n div 10) @ ?c # t"
      by (subst show_nat.simps) simp
    with "1.IH" [OF False b(3), of "?c # t"] c e b show ?thesis by simp
  qed
qed

lemma atoll_stop: "t = [] \<or> \<not> is_digit (hd t) \<Longrightarrow> atoll_acc x t = Inr x"
  by (cases t) auto

lemma atoll_text_show:
  "int n \<le> INT64_MAX \<Longrightarrow> t = [] \<or> \<not> is_digit (hd t) \<Longrightarrow> atoll_text (show_nat n @ t) = Inr (int n)"
  by (simp add: atoll_text_def atoll_show_nat atoll_stop)

text \<open>The value of the leading digits of a text, and of the digits after a decimal point.\<close>

definition digits_from :: "int \<Rightarrow> string \<Rightarrow> int" where
  "digits_from x s = foldl (\<lambda>r c. r * 10 + digit_of c) x (takeWhile is_digit s)"

lemma digits_from_simps [simp]:
  "digits_from x [] = x"
  "digits_from x (c # s) = (if is_digit c then digits_from (x * 10 + digit_of c) s else x)"
  by (simp_all add: digits_from_def)

lemma is_digit_bounds: "is_digit c \<Longrightarrow> 0 \<le> digit_of c \<and> digit_of c \<le> 9"
  by (simp add: is_digit_def)

lemma digits_from_mono: "0 \<le> x \<Longrightarrow> x \<le> digits_from x s"
proof (induction s arbitrary: x)
  case (Cons c s)
  show ?case
  proof (cases "is_digit c")
    case True
    with is_digit_bounds [of c] Cons.prems have "0 \<le> x * 10 + digit_of c" "x \<le> x * 10 + digit_of c"
      by simp_all
    with True Cons.IH [of "x * 10 + digit_of c"] show ?thesis by simp
  qed simp
qed simp

lemma atoll_acc_value:
  "0 \<le> x \<Longrightarrow> int64 x \<Longrightarrow>
   atoll_acc x s = (if digits_from x s \<le> INT64_MAX then Inr (digits_from x s) else Inl IntOverflow)"
proof (induction s arbitrary: x)
  case Nil
  then show ?case by (simp add: width_defs)
next
  case (Cons c s)
  show ?case
  proof (cases "is_digit c")
    case True
    let ?y = "x * 10 + digit_of c"
    have y: "0 \<le> ?y" "x * 10 \<le> ?y" "0 \<le> x * 10"
      using True Cons.prems is_digit_bounds [of c] by simp_all
    show ?thesis
    proof (cases "int64 ?y")
      case i: True
      with y have "int64 (x * 10)" by (simp add: width_defs)
      with i True Cons.IH [OF y(1)] show ?thesis by simp
    next
      case False
      with y digits_from_mono [OF y(1), of s] have "\<not> digits_from ?y s \<le> INT64_MAX"
        by (simp add: width_defs)
      with False True show ?thesis by simp
    qed
  next
    case False
    with Cons.prems show ?thesis by (simp add: width_defs)
  qed
qed

lemma atoll_text_value:
  "atoll_text s =
     (if digits_from 0 s \<le> INT64_MAX then Inr (digits_from 0 s) else Inl IntOverflow)"
  by (simp add: atoll_text_def atoll_acc_value width_defs)

fun fraction_value :: "string \<Rightarrow> rat" where
  "fraction_value [] = 0"
| "fraction_value (c # s) = (of_int (digit_of c) + fraction_value s) / 10"

lemma atof_acc_fraction:
  "\<forall>c \<in> set f. is_digit c \<Longrightarrow> t = [] \<or> \<not> is_digit (hd t) \<Longrightarrow>
   atof_acc (\<lambda>y. y) sd True x sc (f @ t) = (sd \<or> f \<noteq> [], x + 10 * sc * fraction_value f)"
proof (induction f arbitrary: sd x sc)
  case Nil
  then show ?case by (cases t) auto
next
  case (Cons c f)
  then show ?case by (simp add: field_simps)
qed

lemma atof_acc_number:
  "\<forall>c \<in> set n. is_digit c \<Longrightarrow> \<forall>c \<in> set f. is_digit c \<Longrightarrow> t = [] \<or> \<not> is_digit (hd t) \<Longrightarrow>
   atof_acc (\<lambda>y. y) sd False (of_int x) (1 / 10) (n @ CHR ''.'' # f @ t)
     = (sd \<or> n \<noteq> [] \<or> f \<noteq> [], of_int (digits_from x n) + fraction_value f)"
proof (induction n arbitrary: sd x)
  case Nil
  then show ?case by (simp add: atof_acc_fraction)
next
  case (Cons c n)
  have "atof_acc (\<lambda>y. y) True False (of_int (x * 10 + digit_of c)) (1 / 10) (n @ CHR ''.'' # f @ t)
      = (True, of_int (digits_from (x * 10 + digit_of c) n) + fraction_value f)"
    using Cons.IH [where x = "x * 10 + digit_of c" and sd = True] Cons.prems by simp
  with Cons.prems show ?case by simp
qed

lemma atof_acc_integer:
  "\<forall>c \<in> set n. is_digit c \<Longrightarrow> t = [] \<or> \<not> is_digit (hd t) \<and> hd t \<noteq> CHR ''.'' \<Longrightarrow>
   atof_acc (\<lambda>y. y) sd False (of_int x) sc (n @ t) = (sd \<or> n \<noteq> [], of_int (digits_from x n))"
proof (induction n arbitrary: sd x)
  case Nil
  then show ?case by (cases t) auto
next
  case (Cons c n)
  have "atof_acc (\<lambda>y. y) True False (of_int (x * 10 + digit_of c)) sc (n @ t)
      = (True, of_int (digits_from (x * 10 + digit_of c) n))"
    using Cons.IH [where x = "x * 10 + digit_of c" and sd = True] Cons.prems by simp
  with Cons.prems show ?case by simp
qed
lemmas view_ops = find_views mystrpbrk_views views_removePrefix startswith_views substr_views atof_views
  tostring_views GetAttributeValueString_views peekLastChar_views

section \<open>Properties\<close>

text \<open>
  C9: every operation of a view that lies inside its buffer returns without reading outside the
  buffer or past the terminator of the C string it compares with, yields views inside the buffer,
  and computes what the text of the view says: \<open>find\<close> the number of bytes before the character,
  \<open>mystrpbrk\<close> the first line without its carriage returns and the text after the line feed, the
  comparisons equality and prefix, \<open>removePrefix\<close> the rest after a prefix, \<open>substr\<close> a suffix,
  \<open>atoll\<close> the value of the leading digits, which overflows exactly when it exceeds the \<open>long long\<close>
  range, \<open>atof\<close> the number read from the text.
\<close>

theorem view_operations_refine:
  assumes v: "views mem v s" and cs: "NUL \<notin> set cs"
  shows "ls_find mem v c = Inr (length (takeWhile (\<lambda>x. x \<noteq> c) s))
    \<and> (\<exists>t w. mystrpbrk mem v = Inr (t, w) \<and> views mem t (first_line s) \<and> views mem w (after_line s))
    \<and> equalsCString mem v cs = Inr (s = cs)
    \<and> SubStringMatch mem v cs = Inr (\<exists>t. s = cs @ t)
    \<and> removePrefixCString mem v cs =
         Inr (if \<exists>t. s = cs @ t then (True, ls_removePrefix (length cs) v) else (False, v))
    \<and> views mem (ls_removePrefix n v) (drop n s)
    \<and> startswith mem v c = Inr (s \<noteq> [] \<and> hd s = c)
    \<and> views mem (ls_substr k v) (if k < 0 \<or> length s \<le> nat k then [] else drop (nat k) s)
    \<and> ls_atoll mem v =
         (if digits_from 0 s \<le> INT64_MAX then Inr (digits_from 0 s) else Inl IntOverflow)
    \<and> ls_atof rnd mem v = Inr (atof_text rnd s)
    \<and> tostring mem v = Inr s
    \<and> GetAttributeValueString mem v = Inr (quoted_text s)
    \<and> (\<exists>w. popFirstChar mem v = Inr (if s = [] then NUL else hd s, w) \<and> views mem w (tl s))
    \<and> peekLastChar mem v = Inr (if s = [] then NUL else last s)
    \<and> (\<exists>w. stripLeadingSpaces mem v = Inr w \<and> views mem w (dropWhile (\<lambda>x. x = CHR '' '') s))
    \<and> (\<forall>w t. views mem w t \<longrightarrow> equalsContent mem v w = Inr (s = t))"
proof (intro conjI allI impI)
  show "SubStringMatch mem v cs = Inr (\<exists>t. s = cs @ t)"
    by (simp add: SubStringMatch_def match_views [OF v cs] has_prefix_iff)
  show "removePrefixCString mem v cs =
      Inr (if \<exists>t. s = cs @ t then (True, ls_removePrefix (length cs) v) else (False, v))"
    by (simp add: removePrefixCString_def match_views [OF v cs] has_prefix_iff)
  show "ls_atoll mem v =
      (if digits_from 0 s \<le> INT64_MAX then Inr (digits_from 0 s) else Inl IntOverflow)"
    using atoll_views [OF v] by (simp add: atoll_text_value)
  show "\<exists>w. popFirstChar mem v = Inr (if s = [] then NUL else hd s, w) \<and> views mem w (tl s)"
    using v by (cases s) (auto simp: popFirstChar_empty dest: popFirstChar_views)
  show "\<exists>w. stripLeadingSpaces mem v = Inr w \<and> views mem w (dropWhile (\<lambda>x. x = CHR '' '') s)"
    using stripLeadingSpaces_views [OF v] by (simp add: strip_spaces_def)
  fix w t
  assume "views mem w t"
  then show "equalsContent mem v w = Inr (s = t)" by (rule equalsContent_views [OF v])
qed (rule view_ops [OF v] equals_views [OF v cs])+

theorem view_operations_refine_witness:
  "let mem = ''T: 12.5,x''; v = \<lparr>ls_ptr = Some 3, ls_len = 4\<rparr> in
     ls_find mem v (CHR ''.'') = Inr 2 \<and> ls_atoll mem v = Inr 12 \<and> tostring mem v = Inr ''12.5''
     \<and> removePrefixCString mem v ''12'' = Inr (True, \<lparr>ls_ptr = Some 5, ls_len = 2\<rparr>)"
proof -
  let ?mem = "''T: 12.5,x''" and ?v = "\<lparr>ls_ptr = Some 3, ls_len = 4\<rparr>"
  have "views ?mem ?v ''12.5''" by (simp add: views_def)
  moreover have "NUL \<notin> set ''12''" by (simp add: NUL_def)
  ultimately show ?thesis
    using view_operations_refine [of ?mem ?v "''12.5''" "''12''" "CHR ''.''"]
    by (simp add: Let_def is_digit_def digit_of_def ls_removePrefix_def width_defs)
qed


definition collect :: "string \<Rightarrow> lstring \<Rightarrow> lstring \<Rightarrow> (string \<times> string) list \<Rightarrow> ls_fault + (string \<times> string) list" where
  "collect mem a w st = ebind (tostring mem a) (\<lambda>x. ebind (tostring mem w) (\<lambda>y. Inr (st @ [(x, y)])))"


end
