(* ===== verification/Aamp_Config.thy ===== *)
theory Aamp_Config
  imports Aamp_Prelude
begin

text \<open>
  The settings of \<open>AampConfig.cpp\<close>: every setting keeps its value, the owner that set it and one
  saved value with its owner.  \<open>SetConfigValue\<close> lets an owner through when its priority is not
  below the current one's, \<open>RestoreConfiguration\<close> goes back to the saved value.  The four kinds of
  settings are four arrays; an enumeration value is its position in the array of its kind, and the
  lookup tables with the default values and the valid ranges are arguments.  \<open>StopInternal\<close> of
  \<open>main_aamp.cpp\<close> restores the settings of a session.

  The lemmas show the invariant that the saved owner is never above the owner, that settings are
  won by priority, that a session with one owner is undone by \<open>StopInternal\<close>, and what happens when
  two owners of a session set the same setting.
\<close>

section \<open>Owners and settings\<close>

datatype ConfigPriority =
    AAMP_DEFAULT_SETTING
  | AAMP_OPERATOR_SETTING
  | AAMP_STREAM_SETTING
  | AAMP_APPLICATION_SETTING
  | AAMP_TUNE_SETTING
  | AAMP_DEV_CFG_SETTING
  | AAMP_CUSTOM_DEV_CFG_SETTING
  | AAMP_MAX_SETTING

fun priority :: "ConfigPriority \<Rightarrow> nat" where
  "priority AAMP_DEFAULT_SETTING = 0"
| "priority AAMP_OPERATOR_SETTING = 1"
| "priority AAMP_STREAM_SETTING = 2"
| "priority AAMP_APPLICATION_SETTING = 3"
| "priority AAMP_TUNE_SETTING = 4"
| "priority AAMP_DEV_CFG_SETTING = 5"
| "priority AAMP_CUSTOM_DEV_CFG_SETTING = 6"
| "priority AAMP_MAX_SETTING = 7"

lemma priority_inject: "priority p = priority q \<Longrightarrow> p = q"
  by (cases p; cases q) simp_all

instantiation ConfigPriority :: linorder
begin

definition less_eq_ConfigPriority :: "ConfigPriority \<Rightarrow> ConfigPriority \<Rightarrow> bool" where
  "p \<le> q \<longleftrightarrow> priority p \<le> priority q"

definition less_ConfigPriority :: "ConfigPriority \<Rightarrow> ConfigPriority \<Rightarrow> bool" where
  "p < q \<longleftrightarrow> priority p < priority q"

instance
  by standard (auto simp: less_eq_ConfigPriority_def less_ConfigPriority_def intro: priority_inject)

end

record 'v ConfigValue =
  cv_owner :: ConfigPriority
  cv_value :: 'v
  cv_lastowner :: ConfigPriority
  cv_lastvalue :: 'v

record AampConfig =
  configValueBool :: "bool ConfigValue list"
  configValueInt :: "int ConfigValue list"
  configValueFloat :: "rat ConfigValue list"
  configValueString :: "string ConfigValue list"

section \<open>One setting\<close>

text \<open>The body the four overloads of \<open>SetConfigValue\<close> share.\<close>

definition set_setting :: "ConfigPriority \<Rightarrow> 'v \<Rightarrow> 'v ConfigValue \<Rightarrow> 'v ConfigValue" where
  "set_setting newowner v s =
     (if cv_owner s \<le> newowner
      then (if cv_owner s \<noteq> newowner
            then s\<lparr>cv_lastvalue := cv_value s, cv_lastowner := cv_owner s\<rparr> else s)
           \<lparr>cv_value := v, cv_owner := newowner\<rparr>
      else s)"

definition in_valid_range :: "int \<times> int \<Rightarrow> 'v::linordered_idom \<Rightarrow> bool" where
  "in_valid_range r v \<longleftrightarrow> \<not> (v < of_int (fst r) \<or> of_int (snd r) < v)"

definition set_ranged :: "int \<times> int \<Rightarrow> ConfigPriority \<Rightarrow> 'v::linordered_idom \<Rightarrow> 'v ConfigValue \<Rightarrow> 'v ConfigValue" where
  "set_ranged rng newowner v s = (if \<not> in_valid_range rng v then s else set_setting newowner v s)"

text \<open>The body the overloads of \<open>RestoreConfiguration\<close> share.\<close>

definition restore_setting :: "ConfigPriority \<Rightarrow> 'v ConfigValue \<Rightarrow> 'v ConfigValue" where
  "restore_setting owner s =
     (if cv_owner s = owner \<and> cv_owner s \<noteq> cv_lastowner s
      then s\<lparr>cv_owner := cv_lastowner s, cv_value := cv_lastvalue s\<rparr> else s)"

section \<open>The settings of a player\<close>

definition modify :: "nat \<Rightarrow> ('a \<Rightarrow> 'a) \<Rightarrow> 'a list \<Rightarrow> 'a list" where
  "modify i f xs = xs[i := f (xs ! i)]"

definition SetConfigBool :: "ConfigPriority \<Rightarrow> nat \<Rightarrow> bool \<Rightarrow> AampConfig \<Rightarrow> AampConfig" where
  "SetConfigBool newowner cfg v c =
     c\<lparr>configValueBool := modify cfg (set_setting newowner v) (configValueBool c)\<rparr>"

definition SetConfigInt :: "(nat \<Rightarrow> int \<times> int) \<Rightarrow> ConfigPriority \<Rightarrow> nat \<Rightarrow> int \<Rightarrow> AampConfig \<Rightarrow> AampConfig" where
  "SetConfigInt ranges newowner cfg v c =
     c\<lparr>configValueInt := modify cfg (set_ranged (ranges cfg) newowner v) (configValueInt c)\<rparr>"

definition SetConfigFloat :: "(nat \<Rightarrow> int \<times> int) \<Rightarrow> ConfigPriority \<Rightarrow> nat \<Rightarrow> rat \<Rightarrow> AampConfig \<Rightarrow> AampConfig" where
  "SetConfigFloat ranges newowner cfg v c =
     c\<lparr>configValueFloat := modify cfg (set_ranged (ranges cfg) newowner v) (configValueFloat c)\<rparr>"

definition SetConfigString :: "ConfigPriority \<Rightarrow> nat \<Rightarrow> string \<Rightarrow> AampConfig \<Rightarrow> AampConfig" where
  "SetConfigString newowner cfg v c =
     c\<lparr>configValueString := modify cfg (set_setting newowner v) (configValueString c)\<rparr>"

text \<open>\<open>GetConfigValue\<close> of an enumeration value below the count of its kind, and of the count itself.\<close>

definition setting_value :: "'v \<Rightarrow> nat \<Rightarrow> 'v ConfigValue list \<Rightarrow> 'v" where
  "setting_value d cfg xs = (if cfg < length xs then cv_value (xs ! cfg) else d)"

definition IsConfigSet :: "nat \<Rightarrow> AampConfig \<Rightarrow> bool" where
  "IsConfigSet cfg c = setting_value False cfg (configValueBool c)"

definition GetConfigInt :: "nat \<Rightarrow> AampConfig \<Rightarrow> int" where
  "GetConfigInt cfg c = setting_value 0 cfg (configValueInt c)"

definition GetConfigFloat :: "nat \<Rightarrow> AampConfig \<Rightarrow> rat" where
  "GetConfigFloat cfg c = setting_value 0 cfg (configValueFloat c)"

definition GetConfigString :: "nat \<Rightarrow> AampConfig \<Rightarrow> string" where
  "GetConfigString cfg c = setting_value [] cfg (configValueString c)"

definition RestoreConfiguration :: "ConfigPriority \<Rightarrow> AampConfig \<Rightarrow> AampConfig" where
  "RestoreConfiguration owner c =
     \<lparr>configValueBool = map (restore_setting owner) (configValueBool c),
      configValueInt = map (restore_setting owner) (configValueInt c),
      configValueFloat = map (restore_setting owner) (configValueFloat c),
      configValueString = map (restore_setting owner) (configValueString c)\<rparr>"

definition RestoreConfigBool :: "ConfigPriority \<Rightarrow> nat \<Rightarrow> AampConfig \<Rightarrow> AampConfig" where
  "RestoreConfigBool owner cfg c =
     c\<lparr>configValueBool := modify cfg (restore_setting owner) (configValueBool c)\<rparr>"

definition RestoreConfigFloat :: "ConfigPriority \<Rightarrow> nat \<Rightarrow> AampConfig \<Rightarrow> AampConfig" where
  "RestoreConfigFloat owner cfg c =
     c\<lparr>configValueFloat := modify cfg (restore_setting owner) (configValueFloat c)\<rparr>"

definition RestoreConfigString :: "ConfigPriority \<Rightarrow> nat \<Rightarrow> AampConfig \<Rightarrow> AampConfig" where
  "RestoreConfigString owner cfg c =
     c\<lparr>configValueString := modify cfg (restore_setting owner) (configValueString c)\<rparr>"

definition RestoreConfigInt :: "ConfigPriority \<Rightarrow> nat \<Rightarrow> AampConfig \<Rightarrow> AampConfig" where
  "RestoreConfigInt owner cfg c =
     c\<lparr>configValueInt := modify cfg (restore_setting owner) (configValueInt c)\<rparr>"

text \<open>The constructor and \<open>Initialize\<close>; the arguments are the default values of the lookup tables.\<close>

definition new_setting :: "'v \<Rightarrow> 'v \<Rightarrow> 'v ConfigValue" where
  "new_setting z d = \<lparr>cv_owner = AAMP_DEFAULT_SETTING, cv_value = d,
     cv_lastowner = AAMP_DEFAULT_SETTING, cv_lastvalue = z\<rparr>"

definition ConfigInitialize :: "bool list \<Rightarrow> int list \<Rightarrow> rat list \<Rightarrow> string list \<Rightarrow> AampConfig" where
  "ConfigInitialize bs is' fs ss =
     \<lparr>configValueBool = map (new_setting False) bs, configValueInt = map (new_setting 0) is',
      configValueFloat = map (new_setting 0) fs, configValueString = map (new_setting []) ss\<rparr>"

text \<open>The end of \<open>StopInternal\<close>.\<close>

definition stop_restores :: "AampConfig \<Rightarrow> AampConfig" where
  "stop_restores c =
     RestoreConfiguration AAMP_STREAM_SETTING
       (RestoreConfiguration AAMP_TUNE_SETTING
         (RestoreConfiguration AAMP_CUSTOM_DEV_CFG_SETTING c))"

text \<open>The operations that change the settings.\<close>

inductive config_step :: "(nat \<Rightarrow> int \<times> int) \<Rightarrow> (nat \<Rightarrow> int \<times> int) \<Rightarrow> AampConfig \<Rightarrow> AampConfig \<Rightarrow> bool"
  for ri rf :: "nat \<Rightarrow> int \<times> int" where
  "config_step ri rf c (SetConfigBool p i b c)"
| "config_step ri rf c (SetConfigInt ri p i n c)"
| "config_step ri rf c (SetConfigFloat rf p i x c)"
| "config_step ri rf c (SetConfigString p i s c)"
| "config_step ri rf c (RestoreConfiguration p c)"
| "config_step ri rf c (RestoreConfigBool p i c)"
| "config_step ri rf c (RestoreConfigInt p i c)"
| "config_step ri rf c (RestoreConfigFloat p i c)"
| "config_step ri rf c (RestoreConfigString p i c)"

section \<open>The saved owner is never above the owner\<close>

definition setting_ok :: "'v ConfigValue \<Rightarrow> bool" where
  "setting_ok s \<longleftrightarrow> cv_lastowner s \<le> cv_owner s"

lemma setting_ok_set [intro]: "setting_ok s \<Longrightarrow> setting_ok (set_setting p v s)"
  by (auto simp: setting_ok_def set_setting_def)

lemma setting_ok_ranged [intro]: "setting_ok s \<Longrightarrow> setting_ok (set_ranged r p v s)"
  by (auto simp: set_ranged_def)

lemma setting_ok_restore [intro]: "setting_ok s \<Longrightarrow> setting_ok (restore_setting p s)"
  by (auto simp: setting_ok_def restore_setting_def)

definition all_ok :: "'v ConfigValue list \<Rightarrow> bool" where
  "all_ok xs \<longleftrightarrow> (\<forall>s \<in> set xs. setting_ok s)"

definition config_ok :: "AampConfig \<Rightarrow> bool" where
  "config_ok c \<longleftrightarrow> all_ok (configValueBool c) \<and> all_ok (configValueInt c)
     \<and> all_ok (configValueFloat c) \<and> all_ok (configValueString c)"

lemma all_ok_modify: "all_ok xs \<Longrightarrow> (\<And>s. setting_ok s \<Longrightarrow> setting_ok (f s)) \<Longrightarrow> all_ok (modify i f xs)"
proof (cases "i < length xs")
  case True
  assume "all_ok xs" "\<And>s. setting_ok s \<Longrightarrow> setting_ok (f s)"
  with True show ?thesis
    using set_update_subset_insert [of xs i "f (xs ! i)"] by (auto simp: modify_def all_ok_def)
qed (simp add: modify_def not_less list_update_beyond)

lemma all_ok_map: "all_ok xs \<Longrightarrow> all_ok (map (restore_setting p) xs)"
  by (auto simp: all_ok_def)

lemma config_ok_step: "config_step ri rf c d \<Longrightarrow> config_ok c \<Longrightarrow> config_ok d"
  unfolding config_ok_def
  by (induction rule: config_step.induct)
    (auto simp: SetConfigBool_def SetConfigInt_def SetConfigFloat_def SetConfigString_def
      RestoreConfiguration_def RestoreConfigBool_def RestoreConfigInt_def RestoreConfigFloat_def
      RestoreConfigString_def intro!: all_ok_modify all_ok_map)

lemma config_ok_Initialize: "config_ok (ConfigInitialize bs ns xs ss)"
  by (auto simp: config_ok_def all_ok_def ConfigInitialize_def new_setting_def setting_ok_def)

section \<open>The settings of a session\<close>

text \<open>A session sets the string setting \<open>cfg\<close>: the owners and values in order.\<close>

definition session_sets :: "nat \<Rightarrow> (ConfigPriority \<times> string) list \<Rightarrow> AampConfig \<Rightarrow> AampConfig" where
  "session_sets cfg ws c = fold (\<lambda>(p, v). SetConfigString p cfg v) ws c"

definition session_owner :: "ConfigPriority \<Rightarrow> bool" where
  "session_owner p \<longleftrightarrow> p \<in> {AAMP_STREAM_SETTING, AAMP_TUNE_SETTING, AAMP_CUSTOM_DEV_CFG_SETTING}"

text \<open>The owners that get through, from the owner \<open>p\<close> on.\<close>

fun winners :: "ConfigPriority \<Rightarrow> (ConfigPriority \<times> 'v) list \<Rightarrow> ConfigPriority set" where
  "winners p [] = {}"
| "winners p ((q, v) # ws) = (if p \<le> q then insert q (winners q ws) else winners p ws)"

definition in_session :: "'v ConfigValue \<Rightarrow> ConfigPriority set \<Rightarrow> 'v ConfigValue \<Rightarrow> bool" where
  "in_session s W t \<longleftrightarrow>
     (W = {} \<and> t = s) \<or>
     (\<exists>p. W = {p} \<and> session_owner p \<and> cv_owner t = p \<and> cv_lastowner t = cv_owner s \<and> cv_lastvalue t = cv_value s) \<or>
     (card W \<ge> 2 \<and> finite W \<and> session_owner (cv_owner t) \<and> session_owner (cv_lastowner t)
        \<and> cv_lastowner t < cv_owner t \<and> cv_owner t \<in> W \<and> (\<forall>p \<in> W. p \<le> cv_owner t))"

lemma winners_ge: "q \<in> winners p ws \<Longrightarrow> p \<le> q"
  by (induction p ws rule: winners.induct) (auto split: if_splits)

lemma in_session_set:
  assumes "in_session s W t" "session_owner q" "\<not> session_owner (cv_owner s)"
  shows "in_session s (if cv_owner t \<le> q then insert q W else W) (set_setting q v t)"
  using assms(1) [unfolded in_session_def]
proof (elim disjE exE conjE)
  assume "W = {}" "t = s"
  with assms(2,3) show ?thesis by (auto simp: in_session_def set_setting_def)
next
  fix p
  assume p: "W = {p}" "session_owner p" "cv_owner t = p" "cv_lastowner t = cv_owner s" "cv_lastvalue t = cv_value s"
  consider "q = p" | "p < q" | "q < p" by fastforce
  then show ?thesis
    using p assms(2) by cases (auto simp: in_session_def set_setting_def)
next
  assume t: "2 \<le> card W" "finite W" "session_owner (cv_owner t)" "session_owner (cv_lastowner t)"
    "cv_lastowner t < cv_owner t" "cv_owner t \<in> W" "\<forall>p\<in>W. p \<le> cv_owner t"
  have c: "2 \<le> card (insert q W)" using t(1,2) by (simp add: card_insert_if)
  consider "q = cv_owner t" | "cv_owner t < q" | "q < cv_owner t" by fastforce
  then show ?thesis
    using t c assms(2) by cases (auto simp: in_session_def set_setting_def insert_absorb)
qed

lemma in_session_sets:
  "in_session s W t \<Longrightarrow> \<forall>(p, v) \<in> set ws. session_owner p \<Longrightarrow> \<not> session_owner (cv_owner s) \<Longrightarrow>
   in_session s (W \<union> winners (cv_owner t) ws) (fold (\<lambda>(p, v). set_setting p v) ws t)"
proof (induction ws arbitrary: W t)
  case (Cons x ws)
  obtain q v where x: "x = (q, v)" by (cases x)
  let ?W = "if cv_owner t \<le> q then insert q W else W" and ?t = "set_setting q v t"
  have "in_session s ?W ?t" using in_session_set Cons.prems x by fastforce
  from Cons.IH [OF this] Cons.prems x
  have "in_session s (?W \<union> winners (cv_owner ?t) ws) (fold (\<lambda>(p, v). set_setting p v) ws ?t)" by simp
  moreover have "?W \<union> winners (cv_owner ?t) ws = W \<union> winners (cv_owner t) (x # ws)"
    by (auto simp: x set_setting_def)
  ultimately show ?case by (simp add: x)
qed simp

definition stop_setting :: "'v ConfigValue \<Rightarrow> 'v ConfigValue" where
  "stop_setting s = restore_setting AAMP_STREAM_SETTING
     (restore_setting AAMP_TUNE_SETTING (restore_setting AAMP_CUSTOM_DEV_CFG_SETTING s))"

lemma stop_setting_cases:
  assumes "in_session s W t" "\<not> session_owner (cv_owner s)"
  shows "if card W \<le> 1 then cv_owner (stop_setting t) = cv_owner s \<and> cv_value (stop_setting t) = cv_value s
         else session_owner (cv_owner (stop_setting t))"
  using assms(1) [unfolded in_session_def]
proof (elim disjE exE conjE)
  assume "W = {}" "t = s"
  with assms(2) show ?thesis by (simp add: stop_setting_def restore_setting_def session_owner_def)
next
  fix p
  assume "W = {p}" "session_owner p" "cv_owner t = p" "cv_lastowner t = cv_owner s" "cv_lastvalue t = cv_value s"
  with assms(2) show ?thesis
    by (auto simp: stop_setting_def restore_setting_def session_owner_def)
next
  assume "2 \<le> card W" "session_owner (cv_owner t)" "session_owner (cv_lastowner t)" "cv_lastowner t < cv_owner t"
  then show ?thesis
    by (auto simp: stop_setting_def restore_setting_def session_owner_def)
qed

lemma session_sets_nth:
  "cfg < length (configValueString c) \<Longrightarrow>
   configValueString (session_sets cfg ws c) ! cfg = fold (\<lambda>(p, v). set_setting p v) ws (configValueString c ! cfg)
   \<and> length (configValueString (session_sets cfg ws c)) = length (configValueString c)"
proof (induction ws arbitrary: c)
  case (Cons x ws)
  obtain p v where x: "x = (p, v)" by (cases x)
  have "session_sets cfg (x # ws) c = session_sets cfg ws (SetConfigString p cfg v c)"
    by (simp add: session_sets_def x)
  then show ?case
    using Cons.IH [of "SetConfigString p cfg v c"] Cons.prems
    by (simp add: x SetConfigString_def modify_def)
qed (simp add: session_sets_def)

lemma stop_restores_nth:
  "cfg < length (configValueString c) \<Longrightarrow>
   configValueString (stop_restores c) ! cfg = stop_setting (configValueString c ! cfg)"
  by (simp add: stop_restores_def RestoreConfiguration_def stop_setting_def)

section \<open>Properties\<close>

text \<open>
  C36: in every configuration reached from the initial one the saved owner of every setting has a
  priority not above the owner's, so restoring a setting never raises its owner.
\<close>

theorem config_owner_order:
  assumes "reach (\<lambda>c. \<exists>bs ns xs ss. c = ConfigInitialize bs ns xs ss) (config_step ri rf) c"
  shows "config_ok c \<and> (\<forall>p. \<forall>s \<in> set (configValueFloat c). cv_owner (restore_setting p s) \<le> cv_owner s)"
proof -
  from assms have "config_ok c"
    by (induction rule: reach.induct) (auto intro: config_ok_step config_ok_Initialize)
  then show ?thesis by (auto simp: config_ok_def all_ok_def setting_ok_def restore_setting_def)
qed

theorem config_owner_order_witness:
  "config_ok (SetConfigBool AAMP_TUNE_SETTING 0 True (ConfigInitialize [False] [] [1] []))"
proof -
  let ?r = "\<lambda>_. (0, 1)"
  have "reach (\<lambda>c. \<exists>bs ns xs ss. c = ConfigInitialize bs ns xs ss) (config_step ?r ?r)
      (SetConfigBool AAMP_TUNE_SETTING 0 True (ConfigInitialize [False] [] [1] []))"
    by (rule reach_step [OF reach_start]) (auto intro: config_step.intros)
  from config_owner_order [OF this] show ?thesis by simp
qed

text \<open>
  C15: what a session leaves behind.  A setting that no session owner holds is set any number of
  times by the stream, the tune and the custom configuration.  When at most one of these owners got
  through, \<open>StopInternal\<close> gives the setting back its owner and its value; when two of them did, the
  setting stays with an owner of the session that ended.
\<close>

theorem session_settings_undone:
  assumes "cfg < length (configValueString c)"
    and "\<not> session_owner (cv_owner (configValueString c ! cfg))"
    and "\<forall>(p, v) \<in> set ws. session_owner p"
  shows "let before = configValueString c ! cfg;
             after = configValueString (stop_restores (session_sets cfg ws c)) ! cfg
         in if card (winners (cv_owner before) ws) \<le> 1
            then cv_owner after = cv_owner before \<and> cv_value after = cv_value before
            else session_owner (cv_owner after)"
proof -
  let ?s = "configValueString c ! cfg"
  have "in_session ?s {} ?s" by (simp add: in_session_def)
  from in_session_sets [OF this assms(3) assms(2)] stop_setting_cases [OF _ assms(2)] assms(1)
  show ?thesis by (simp add: Let_def stop_restores_nth session_sets_nth)
qed

theorem session_settings_undone_witness:
  "let c = ConfigInitialize [] [] [] [''url''];
       ws = [(AAMP_TUNE_SETTING, ''tune''), (AAMP_CUSTOM_DEV_CFG_SETTING, ''custom'')]
   in card (winners AAMP_DEFAULT_SETTING ws) = 2 \<and>
      session_owner (cv_owner (configValueString (stop_restores (session_sets 0 ws c)) ! 0))"
proof -
  let ?c = "ConfigInitialize [] [] [] [''url'']"
  let ?ws = "[(AAMP_TUNE_SETTING, ''tune''), (AAMP_CUSTOM_DEV_CFG_SETTING, ''custom'')]"
  let ?s = "configValueString ?c ! 0"
  have w: "card (winners AAMP_DEFAULT_SETTING ?ws) = 2"
    by (simp add: less_eq_ConfigPriority_def)
  have o: "cv_owner ?s = AAMP_DEFAULT_SETTING" "0 < length (configValueString ?c)"
    by (simp_all add: ConfigInitialize_def new_setting_def)
  have "\<not> session_owner (cv_owner ?s)" "\<forall>(p, v) \<in> set ?ws. session_owner p"
    by (simp_all add: o session_owner_def)
  from session_settings_undone [OF o(2) this] show ?thesis
    unfolding Let_def o(1) w by simp
qed

end
