(* ===== verification/Hls_Manifest.thy ===== *)
theory Hls_Manifest
  imports Lstring Aamp_Config Aamp_Time Media_Type Abr_Manager "HOL-Library.List_Lexorder"
begin

text \<open>
  The main manifest of an HLS presentation: \<open>StreamAbstractionAAMP_HLS::ParseMainManifest\<close> of
  \<open>fragmentcollector_hls.cpp\<close> with its attribute callbacks.  A view is modelled by the text it
  covers; \<open>Lstring\<close> shows that the operations of a view compute the functions on its text used
  here.  The context keeps the parts of \<open>StreamAbstractionAAMP_HLS\<close> and of the player that the parser
  changes; \<open>lineNum\<close>, \<open>vProfileCount\<close> and \<open>iFrameCount\<close> are its local variables.  Arguments are the
  configuration, the rounding of double precision, the normalisation of a language code and
  \<open>ProcessContentProtection\<close>, whose helpers are the type \<open>'h\<close>.  Logging and the statistics object
  \<open>mVideoEnd\<close> are left out.
\<close>

section \<open>Streams and media\<close>

datatype StreamOutputFormat =
    FORMAT_INVALID
  | FORMAT_MPEGTS
  | FORMAT_ISO_BMFF
  | FORMAT_AUDIO_ES_MP3
  | FORMAT_AUDIO_ES_AAC
  | FORMAT_AUDIO_ES_AAC_RAW
  | FORMAT_AUDIO_ES_AC3
  | FORMAT_AUDIO_ES_EC3
  | FORMAT_AUDIO_ES_ATMOS
  | FORMAT_AUDIO_ES_AC4
  | FORMAT_VIDEO_ES_H264
  | FORMAT_VIDEO_ES_HEVC
  | FORMAT_VIDEO_ES_MPEG2
  | FORMAT_SUBTITLE_WEBVTT
  | FORMAT_SUBTITLE_TTML
  | FORMAT_SUBTITLE_MP4
  | FORMAT_UNKNOWN

text \<open>\<open>StreamInfo\<close> and \<open>HlsStreamInfo\<close>, without the fields the manifest parser leaves alone.\<close>

record HlsStreamInfo =
  si_enabled :: bool
  si_isIframeTrack :: bool
  si_codecs :: string
  si_bandwidth :: int
  si_width :: int
  si_height :: int
  si_framerate :: rat
  si_program_id :: int
  si_audio :: string
  si_uri :: string
  si_averageBandwidth :: int
  si_closedCaptions :: string
  si_subtitles :: string
  si_audioFormat :: StreamOutputFormat

definition newStreamInfo :: HlsStreamInfo where
  "newStreamInfo =
     \<lparr>si_enabled = False, si_isIframeTrack = False, si_codecs = [], si_bandwidth = 0, si_width = 0,
      si_height = 0, si_framerate = 0, si_program_id = 0, si_audio = [], si_uri = [],
      si_averageBandwidth = 0, si_closedCaptions = [], si_subtitles = [], si_audioFormat = FORMAT_INVALID\<rparr>"

record MediaInfo =
  mi_type :: AampMediaType
  mi_group_id :: string
  mi_name :: string
  mi_language :: string
  mi_autoselect :: bool
  mi_isDefault :: bool
  mi_uri :: string
  mi_audioFormat :: StreamOutputFormat
  mi_channels :: int
  mi_instreamID :: string
  mi_forced :: bool
  mi_characteristics :: string
  mi_isCC :: bool

definition newMediaInfo :: MediaInfo where
  "newMediaInfo =
     \<lparr>mi_type = eMEDIATYPE_VIDEO, mi_group_id = [], mi_name = [], mi_language = [], mi_autoselect = False,
      mi_isDefault = False, mi_uri = [], mi_audioFormat = FORMAT_INVALID, mi_channels = 0,
      mi_instreamID = [], mi_forced = False, mi_characteristics = [], mi_isCC = False\<rparr>"

datatype AAMPStatusType =
    eAAMPSTATUS_OK
  | eAAMPSTATUS_MANIFEST_CONTENT_ERROR
  | eAAMPSTATUS_PLAYLIST_PLAYBACK

datatype ContentType =
    ContentType_UNKNOWN | ContentType_CDVR | ContentType_VOD | ContentType_LINEAR | ContentType_IVOD
  | ContentType_EAS | ContentType_CAMERA | ContentType_DVR | ContentType_MDVR | ContentType_IPDVR
  | ContentType_PPV | ContentType_OTT | ContentType_OTA | ContentType_HDMIIN | ContentType_COMPOSITEIN
  | ContentType_SLE | ContentType_MAX

text \<open>The calls to the licence manager that queue a helper for a protection event and for its content.\<close>

datatype 'h license_call = QueueProtectionEvent 'h | QueueContentProtection 'h

record 'h hls_env =
  AvgBWForABR :: bool
  FragMp4PrefetchLicense :: bool
  floatRange :: "nat \<Rightarrow> int \<times> int"
  dbl :: "rat \<Rightarrow> rat"
  NormalizeLanguageCode :: "string \<Rightarrow> string"
  ProcessContentProtection :: "string \<Rightarrow> 'h option"

record 'h hls_context =
  streamInfoStore :: "HlsStreamInfo list"
  mediaInfoStore :: "MediaInfo list"
  mProfileCount :: nat
  mMediaCount :: nat
  mIframeAvailable :: bool
  mLangList :: "string list"
  mhAbrManager :: ABRManager
  mConfig :: AampConfig
  mLiveOffset :: rat
  mContentType :: ContentType
  mIsLiveStream :: bool
  mIsOffsetNegativeOne :: bool
  aesCtrAttrDataList :: "(string \<times> bool) list"
  fragmentCdmEncrypted :: bool
  mDRMLicenseManager :: bool
  license_calls :: "'h license_call list"
  mMaxLanguageCount :: nat
  mLanguageList :: "string list"
  lineNum :: nat
  vProfileCount :: nat
  iFrameCount :: nat

section \<open>Codecs\<close>

text \<open>\<open>strstr(s, sub) != NULL\<close>, and the C string of a \<open>std::string\<close>.\<close>

fun strstr :: "string \<Rightarrow> string \<Rightarrow> bool" where
  "strstr [] sub \<longleftrightarrow> has_prefix sub []"
| "strstr (c # s) sub \<longleftrightarrow> has_prefix sub (c # s) \<or> strstr s sub"

definition c_str :: "string \<Rightarrow> string" where
  "c_str s = takeWhile (\<lambda>c. c \<noteq> NUL) s"

definition mAudioFormatMap :: "(string \<times> StreamOutputFormat) list" where
  "mAudioFormatMap =
     [(''mp4a.40.2'', FORMAT_AUDIO_ES_AAC),
      (''mp4a.40.5'', FORMAT_AUDIO_ES_AAC),
      (''ac-3'', FORMAT_AUDIO_ES_AC3),
      (''mp4a.a5'', FORMAT_AUDIO_ES_AC3),
      (''ac-4.02.01.01'', FORMAT_AUDIO_ES_AC4),
      (''ac-4.02.01.02'', FORMAT_AUDIO_ES_AC4),
      (''ec-3'', FORMAT_AUDIO_ES_EC3),
      (''ec+3'', FORMAT_AUDIO_ES_ATMOS),
      (''eac3'', FORMAT_AUDIO_ES_EC3)]"

fun first_codec :: "string \<Rightarrow> (string \<times> StreamOutputFormat) list \<Rightarrow> (string \<times> StreamOutputFormat) option" where
  "first_codec codecs [] = None"
| "first_codec codecs ((codec, f) # m) =
     (if strstr codecs codec then Some (codec, f) else first_codec codecs m)"

definition GetAudioFormatForCodec :: "string \<Rightarrow> (string \<times> StreamOutputFormat) option" where
  "GetAudioFormatForCodec codecs = first_codec codecs mAudioFormatMap"

section \<open>Attribute callbacks\<close>

text \<open>
  The conversion \<open>%d\<close> of \<open>sscanf\<close>: the number and the rest of the text, \<open>None\<close> when it does not
  match; a number that does not fit an \<open>int\<close> is undefined behaviour.
\<close>

definition scan_int :: "string \<Rightarrow> ls_fault + (int \<times> string) option" where
  "scan_int s =
     (let t = dropWhile isspace s;
          neg = (t \<noteq> [] \<and> hd t = CHR ''-'');
          u = (if t \<noteq> [] \<and> (hd t = CHR ''+'' \<or> hd t = CHR ''-'') then tl t else t);
          x = (if neg then - digits_from 0 u else digits_from 0 u)
      in if u = [] \<or> \<not> is_digit (hd u) then Inr None
         else if x < - INT_MAX - 1 \<or> INT_MAX < x then Inl IntOverflow
         else Inr (Some (x, dropWhile is_digit u)))"

text \<open>\<open>sscanf(s, "%dx%d", &w, &h)\<close>: what it leaves in \<open>w\<close> and \<open>h\<close>.\<close>

definition scan_resolution :: "string \<Rightarrow> int \<Rightarrow> int \<Rightarrow> ls_fault + (int \<times> int)" where
  "scan_resolution s w h =
     ebind (scan_int s) (\<lambda>r. case r of None \<Rightarrow> Inr (w, h)
     | Some (a, t) \<Rightarrow>
         (if t \<noteq> [] \<and> hd t = CHR ''x''
          then ebind (scan_int (tl t)) (\<lambda>q. case q of None \<Rightarrow> Inr (a, h) | Some (b, _) \<Rightarrow> Inr (a, b))
          else Inr (a, h)))"

definition stream_inf_attr ::
    "(rat \<Rightarrow> rat) \<Rightarrow> string \<Rightarrow> string \<Rightarrow> HlsStreamInfo \<Rightarrow> ls_fault + HlsStreamInfo" where
  "stream_inf_attr rnd attrName val si =
     (if attrName = ''URI'' then Inr (si\<lparr>si_uri := quoted_text val\<rparr>)
      else if attrName = ''BANDWIDTH'' then ebind (atoll_text val) (\<lambda>x. Inr (si\<lparr>si_bandwidth := x\<rparr>))
      else if attrName = ''PROGRAM-ID'' then ebind (atoll_text val) (\<lambda>x. Inr (si\<lparr>si_program_id := x\<rparr>))
      else if attrName = ''AUDIO'' then Inr (si\<lparr>si_audio := quoted_text val\<rparr>)
      else if attrName = ''CODECS'' then Inr (si\<lparr>si_codecs := quoted_text val\<rparr>)
      else if attrName = ''RESOLUTION''
        then ebind (scan_resolution (c_str val) (si_width si) (si_height si))
               (\<lambda>(w, h). Inr (si\<lparr>si_width := w, si_height := h\<rparr>))
      else if attrName = ''AVERAGE-BANDWIDTH''
        then ebind (atoll_text val) (\<lambda>x. Inr (si\<lparr>si_averageBandwidth := x\<rparr>))
      else if attrName = ''FRAME-RATE'' then Inr (si\<lparr>si_framerate := atof_text rnd val\<rparr>)
      else if attrName = ''CLOSED-CAPTIONS'' then Inr (si\<lparr>si_closedCaptions := quoted_text val\<rparr>)
      else if attrName = ''SUBTITLES'' then Inr (si\<lparr>si_subtitles := quoted_text val\<rparr>)
      else Inr si)"

text \<open>The callback works on \<open>streamInfoStore[GetTotalProfileCount()]\<close>.\<close>

definition ParseStreamInfCallback ::
    "(rat \<Rightarrow> rat) \<Rightarrow> string \<Rightarrow> string \<Rightarrow> 'h hls_context \<Rightarrow> ls_fault + 'h hls_context" where
  "ParseStreamInfCallback rnd attrName val st =
     (let n = mProfileCount st in
      if n < length (streamInfoStore st)
      then ebind (stream_inf_attr rnd attrName val (streamInfoStore st ! n))
             (\<lambda>si. Inr (st\<lparr>streamInfoStore := (streamInfoStore st)[n := si]\<rparr>))
      else Inl ReadOutside)"

definition media_attr :: "string \<Rightarrow> string \<Rightarrow> MediaInfo \<Rightarrow> ls_fault + MediaInfo" where
  "media_attr attrName val mi =
     (if attrName = ''TYPE'' then
        Inr (if has_prefix ''AUDIO'' val then mi\<lparr>mi_type := eMEDIATYPE_AUDIO\<rparr>
             else if has_prefix ''VIDEO'' val then mi\<lparr>mi_type := eMEDIATYPE_VIDEO\<rparr>
             else if has_prefix ''SUBTITLES'' val then mi\<lparr>mi_type := eMEDIATYPE_SUBTITLE\<rparr>
             else if has_prefix ''CLOSED-CAPTIONS'' val
               then mi\<lparr>mi_type := eMEDIATYPE_SUBTITLE, mi_isCC := True\<rparr>
             else mi)
      else if attrName = ''GROUP-ID'' then Inr (mi\<lparr>mi_group_id := quoted_text val\<rparr>)
      else if attrName = ''NAME'' then Inr (mi\<lparr>mi_name := quoted_text val\<rparr>)
      else if attrName = ''LANGUAGE'' then Inr (mi\<lparr>mi_language := quoted_text val\<rparr>)
      else if attrName = ''AUTOSELECT''
        then Inr (if has_prefix ''YES'' val then mi\<lparr>mi_autoselect := True\<rparr> else mi)
      else if attrName = ''DEFAULT'' then Inr (mi\<lparr>mi_isDefault := has_prefix ''YES'' val\<rparr>)
      else if attrName = ''URI'' then Inr (mi\<lparr>mi_uri := quoted_text val\<rparr>)
      else if attrName = ''CHANNELS'' then ebind (atoll_text val) (\<lambda>x. Inr (mi\<lparr>mi_channels := to_int32 x\<rparr>))
      else if attrName = ''INSTREAM-ID'' then Inr (mi\<lparr>mi_instreamID := quoted_text val\<rparr>)
      else if attrName = ''FORCED''
        then Inr (if has_prefix ''YES'' val then mi\<lparr>mi_forced := True\<rparr> else mi)
      else if attrName = ''CHARACTERISTICS'' then Inr (mi\<lparr>mi_characteristics := quoted_text val\<rparr>)
      else Inr mi)"

definition ParseMediaAttributeCallback ::
    "string \<Rightarrow> string \<Rightarrow> 'h hls_context \<Rightarrow> ls_fault + 'h hls_context" where
  "ParseMediaAttributeCallback attrName val st =
     (let n = mMediaCount st in
      if n < length (mediaInfoStore st)
      then ebind (media_attr attrName val (mediaInfoStore st ! n))
             (\<lambda>mi. Inr (st\<lparr>mediaInfoStore := (mediaInfoStore st)[n := mi]\<rparr>))
      else Inl ReadOutside)"

text \<open>
  \<open>HLSXStart\<close> is declared without an initial value: its offset is \<open>None\<close> until the attribute
  sets it.
\<close>

record HLSXStart =
  xs_offset :: "rat option"
  xs_precise :: "bool option"

definition ParseXStartAttributeCallback ::
    "(rat \<Rightarrow> rat) \<Rightarrow> string \<Rightarrow> string \<Rightarrow> HLSXStart \<Rightarrow> ls_fault + HLSXStart" where
  "ParseXStartAttributeCallback rnd attrName val x =
     (if attrName = ''TIME-OFFSET'' then Inr (x\<lparr>xs_offset := Some (atof_text rnd val)\<rparr>)
      else if attrName = ''PRECISE'' then Inr (x\<lparr>xs_precise := Some False\<rparr>)
      else Inr x)"

definition ParseXStartTimeOffset :: "(rat \<Rightarrow> rat) \<Rightarrow> string \<Rightarrow> ls_fault + aamp_time" where
  "ParseXStartTimeOffset rnd xstartStr =
     ebind (fold_attrs (ParseXStartAttributeCallback rnd) (attr_list xstartStr)
              \<lparr>xs_offset = None, xs_precise = None\<rparr>)
       (\<lambda>x. case xs_offset x of None \<Rightarrow> Inl ReadUninitialised | Some off \<Rightarrow> Inr (time_of_double rnd off))"
section \<open>Tags\<close>

definition setupStreamInfo :: "HlsStreamInfo \<Rightarrow> HlsStreamInfo" where
  "setupStreamInfo si = si\<lparr>si_width := 720, si_height := 576, si_framerate := 25\<rparr>"

text \<open>
  What the three stream tags share: a new entry of the store, its attributes, the URI of the
  following line when there is none yet, and the average bandwidth when it is to be used.
\<close>

definition stream_tag ::
    "'h hls_env \<Rightarrow> HlsStreamInfo \<Rightarrow> string \<Rightarrow> string \<Rightarrow> 'h hls_context
       \<Rightarrow> ls_fault + (string \<times> HlsStreamInfo \<times> 'h hls_context)" where
  "stream_tag env si0 p iter st =
     ebind (fold_attrs (ParseStreamInfCallback (dbl env)) (attr_list p)
              (st\<lparr>streamInfoStore := streamInfoStore st @ [si0]\<rparr>)) (\<lambda>st.
       if mProfileCount st < length (streamInfoStore st)
       then let si = streamInfoStore st ! mProfileCount st;
                (si, iter) = (if si_uri si = [] then (si\<lparr>si_uri := first_line iter\<rparr>, after_line iter) else (si, iter));
                si = (if si_averageBandwidth si \<noteq> 0 \<and> AvgBWForABR env
                      then si\<lparr>si_bandwidth := si_averageBandwidth si\<rparr> else si)
            in Inr (iter, si, st)
       else Inl ReadOutside)"

definition put_stream :: "HlsStreamInfo \<Rightarrow> 'h hls_context \<Rightarrow> 'h hls_context" where
  "put_stream si st =
     st\<lparr>streamInfoStore := (streamInfoStore st)[mProfileCount st := si], mProfileCount := mProfileCount st + 1\<rparr>"

definition iframe_tag ::
    "'h hls_env \<Rightarrow> string \<Rightarrow> string \<Rightarrow> 'h hls_context \<Rightarrow> ls_fault + (string \<times> 'h hls_context)" where
  "iframe_tag env p iter st =
     ebind (stream_tag env newStreamInfo p iter st) (\<lambda>(iter, si, st).
       Inr (iter, (put_stream (si\<lparr>si_isIframeTrack := True, si_enabled := False\<rparr>) st)
                    \<lparr>iFrameCount := iFrameCount st + 1, mIframeAvailable := True\<rparr>))"

definition image_tag ::
    "'h hls_env \<Rightarrow> string \<Rightarrow> string \<Rightarrow> 'h hls_context \<Rightarrow> ls_fault + (string \<times> 'h hls_context)" where
  "image_tag env p iter st =
     ebind (stream_tag env newStreamInfo p iter st) (\<lambda>(iter, si, st).
       Inr (iter, put_stream (si\<lparr>si_isIframeTrack := True, si_enabled := False\<rparr>) st))"

definition variant_tag ::
    "'h hls_env \<Rightarrow> string \<Rightarrow> string \<Rightarrow> 'h hls_context \<Rightarrow> ls_fault + (string \<times> 'h hls_context)" where
  "variant_tag env p iter st =
     ebind (stream_tag env (setupStreamInfo newStreamInfo) p iter st) (\<lambda>(iter, si, st).
       let fmt = (case GetAudioFormatForCodec (c_str (si_codecs si)) of
                    Some (_, f) \<Rightarrow> f | None \<Rightarrow> FORMAT_UNKNOWN)
       in Inr (iter, (put_stream (si\<lparr>si_audioFormat := fmt, si_enabled := False\<rparr>) st)
                       \<lparr>vProfileCount := vProfileCount st + 1\<rparr>))"

definition GetLanguageCode :: "'h hls_env \<Rightarrow> MediaInfo \<Rightarrow> string" where
  "GetLanguageCode env mi = NormalizeLanguageCode env (mi_language mi)"

text \<open>\<open>std::set::insert\<close> into the set as the sorted list of its elements.\<close>

definition media_tag :: "'h hls_env \<Rightarrow> string \<Rightarrow> 'h hls_context \<Rightarrow> ls_fault + 'h hls_context" where
  "media_tag env p st =
     ebind (fold_attrs ParseMediaAttributeCallback (attr_list p)
              (st\<lparr>mediaInfoStore := mediaInfoStore st @ [newMediaInfo]\<rparr>)) (\<lambda>st.
       if mMediaCount st < length (mediaInfoStore st)
       then let mi = mediaInfoStore st ! mMediaCount st;
                audio = (mi_type mi = eMEDIATYPE_AUDIO);
                mi = (if audio \<and> mi_language mi = [] then mi\<lparr>mi_language := mi_name mi\<rparr> else mi);
                langs = (if audio \<and> mi_language mi \<noteq> []
                         then insort_insert (GetLanguageCode env mi) (mLangList st) else mLangList st)
            in Inr (st\<lparr>mediaInfoStore := (mediaInfoStore st)[mMediaCount st := mi], mLangList := langs,
                       mMediaCount := mMediaCount st + 1\<rparr>)
       else Inl ReadOutside)"

definition IsLiveAdjustRequired :: "'h hls_context \<Rightarrow> bool" where
  "IsLiveAdjustRequired st =
     (case mContentType st of
        ContentType_IVOD \<Rightarrow> mIsLiveStream st \<and> mIsOffsetNegativeOne st
      | ContentType_CDVR \<Rightarrow> mIsLiveStream st \<and> mIsOffsetNegativeOne st
      | ContentType_VOD \<Rightarrow> False
      | ContentType_IPDVR \<Rightarrow> False
      | ContentType_EAS \<Rightarrow> False
      | ContentType_SLE \<Rightarrow> True
      | _ \<Rightarrow> True)"

definition eAAMPConfig_LiveOffset :: nat where "eAAMPConfig_LiveOffset = 5"

definition eAAMPConfig_CDVRLiveOffset :: nat where "eAAMPConfig_CDVRLiveOffset = 8"

definition UpdateLiveOffset :: "'h hls_context \<Rightarrow> 'h hls_context" where
  "UpdateLiveOffset st =
     (if \<not> IsLiveAdjustRequired st
      then st\<lparr>mLiveOffset := GetConfigFloat eAAMPConfig_CDVRLiveOffset (mConfig st)\<rparr>
      else st\<lparr>mLiveOffset := GetConfigFloat eAAMPConfig_LiveOffset (mConfig st)\<rparr>)"

definition set_float :: "'h hls_env \<Rightarrow> nat \<Rightarrow> rat \<Rightarrow> 'h hls_context \<Rightarrow> 'h hls_context" where
  "set_float env cfg x st =
     st\<lparr>mConfig := SetConfigFloat (floatRange env) AAMP_STREAM_SETTING cfg x (mConfig st)\<rparr>"

definition start_tag :: "'h hls_env \<Rightarrow> string \<Rightarrow> 'h hls_context \<Rightarrow> ls_fault + 'h hls_context" where
  "start_tag env p st =
     ebind (ParseXStartTimeOffset (dbl env) p) (\<lambda>offsetval.
       if baseTime offsetval \<noteq> toBase (dbl env) 0
       then Inr (UpdateLiveOffset
              (if \<not> IsLiveAdjustRequired st
               then set_float env eAAMPConfig_CDVRLiveOffset \<bar>inSeconds (dbl env) offsetval\<bar> st
               else set_float env eAAMPConfig_LiveOffset \<bar>inSeconds (dbl env) offsetval\<bar> st))
       else Inr st)"

text \<open>The loop of \<open>InitiateDrmProcess\<close>: every entry is processed; the helper is the last one found.\<close>

fun drm_scan :: "(string \<Rightarrow> 'h option) \<Rightarrow> (string \<times> bool) list \<Rightarrow> 'h option \<Rightarrow> (string \<times> bool) list \<times> 'h option" where
  "drm_scan pcp [] h = ([], h)"
| "drm_scan pcp ((attrName, isProcessed) # xs) h =
     (let h' = (if isProcessed then h else case pcp attrName of None \<Rightarrow> h | Some x \<Rightarrow> Some x);
          (ys, h'') = drm_scan pcp xs h'
      in ((attrName, True) # ys, h''))"

definition InitiateDrmProcess :: "'h hls_env \<Rightarrow> 'h hls_context \<Rightarrow> 'h hls_context" where
  "InitiateDrmProcess env st =
     (if fragmentCdmEncrypted st \<and> FragMp4PrefetchLicense env
      then let (xs, h) = drm_scan (ProcessContentProtection env) (aesCtrAttrDataList st) None;
               st = st\<lparr>aesCtrAttrDataList := xs\<rparr>
           in (case h of
                 Some x \<Rightarrow> if mDRMLicenseManager st
                   then st\<lparr>license_calls := license_calls st @ [QueueProtectionEvent x, QueueContentProtection x]\<rparr>
                   else st
               | None \<Rightarrow> st)
      else st)"

definition session_key_tag :: "'h hls_env \<Rightarrow> string \<Rightarrow> 'h hls_context \<Rightarrow> 'h hls_context" where
  "session_key_tag env p st =
     (if FragMp4PrefetchLicense env
      then let xs = aesCtrAttrDataList st;
               xs = (if p \<in> fst ` set xs then xs else xs @ [(p, False)])
           in InitiateDrmProcess env (st\<lparr>aesCtrAttrDataList := xs, fragmentCdmEncrypted := True\<rparr>)
      else st)"

section \<open>The main loop\<close>

text \<open>\<open>if (ptr.removePrefix(cs)) A else B\<close>.\<close>

definition on_prefix :: "string \<Rightarrow> string \<Rightarrow> (string \<Rightarrow> 'a) \<Rightarrow> 'a \<Rightarrow> 'a" where
  "on_prefix cs p f g = (case remove_prefix cs p of Some q \<Rightarrow> f q | None \<Rightarrow> g)"

lemma on_prefix_cong [fundef_cong]:
  "cs = ds \<Longrightarrow> p = q \<Longrightarrow> (\<And>x. remove_prefix ds q = Some x \<Longrightarrow> f x = f' x)
   \<Longrightarrow> (remove_prefix ds q = None \<Longrightarrow> g = g') \<Longrightarrow> on_prefix cs p f g = on_prefix ds q f' g'"
  by (simp add: on_prefix_def split: option.splits)

text \<open>A line that begins with \<open>#EXT\<close> either lets the loop go on, with the view after it, or breaks it.\<close>

datatype 'h line_result = Continue string "'h hls_context" | Break AAMPStatusType "'h hls_context"

definition manifest_tag ::
    "'h hls_env \<Rightarrow> string \<Rightarrow> string \<Rightarrow> 'h hls_context \<Rightarrow> ls_fault + 'h line_result" where
  "manifest_tag env p iter st =
     on_prefix ''-X-I-FRAME-STREAM-INF:'' p
       (\<lambda>q. ebind (iframe_tag env q iter st) (\<lambda>(i, s). Inr (Continue i s)))
    (on_prefix ''-X-IMAGE-STREAM-INF:'' p
       (\<lambda>q. ebind (image_tag env q iter st) (\<lambda>(i, s). Inr (Continue i s)))
    (on_prefix ''-X-STREAM-INF:'' p
       (\<lambda>q. ebind (variant_tag env q iter st) (\<lambda>(i, s). Inr (Continue i s)))
    (on_prefix ''-X-MEDIA:'' p
       (\<lambda>q. ebind (media_tag env q st) (\<lambda>s. Inr (Continue iter s)))
    (on_prefix ''M3U'' p
       (\<lambda>q. if lineNum st \<noteq> 0 then Inr (Break eAAMPSTATUS_MANIFEST_CONTENT_ERROR st) else Inr (Continue iter st))
    (on_prefix ''-X-START:'' p
       (\<lambda>q. ebind (start_tag env q st) (\<lambda>s. Inr (Continue iter s)))
    (on_prefix ''INF:'' p
       (\<lambda>q. Inr (Break eAAMPSTATUS_PLAYLIST_PLAYBACK st))
    (on_prefix ''-X-SESSION-KEY:'' p
       (\<lambda>q. Inr (Continue iter (session_key_tag env q st)))
       (Inr (Continue iter st)))))))))"

lemma after_line_le: "length (after_line s) \<le> length s"
  by (cases "s = []") (auto simp: after_line_def dest: after_line_length [THEN less_imp_le])

lemma stream_tag_length:
  "stream_tag env si0 p iter st = Inr (i, si, s) \<Longrightarrow> length i \<le> length iter"
  by (auto simp: stream_tag_def ebind_Inr_iff Let_def after_line_le split: if_splits)

lemma manifest_tag_length:
  "manifest_tag env p iter st = Inr (Continue i s) \<Longrightarrow> length i \<le> length iter"
  by (auto simp: manifest_tag_def on_prefix_def iframe_tag_def image_tag_def variant_tag_def ebind_Inr_iff
      Let_def dest: stream_tag_length split: option.splits if_splits prod.splits)

function manifest_loop :: "'h hls_env \<Rightarrow> string \<Rightarrow> 'h hls_context \<Rightarrow> ls_fault + (AAMPStatusType \<times> 'h hls_context)" where
  "manifest_loop env iter st =
     (if iter = [] then Inr (eAAMPSTATUS_OK, st)
      else case remove_prefix ''#EXT'' (first_line iter) of
        None \<Rightarrow> manifest_loop env (after_line iter) st
      | Some p \<Rightarrow> ebind (manifest_tag env p (after_line iter) st) (\<lambda>r. case r of
          Continue i s \<Rightarrow> manifest_loop env i (s\<lparr>lineNum := lineNum s + 1\<rparr>)
        | Break retval s \<Rightarrow> Inr (retval, s)))"
  by pat_completeness auto
termination
  by (relation "measure (\<lambda>(_, iter, _). length iter)")
    (auto dest!: manifest_tag_length intro: after_line_length le_less_trans)

declare manifest_loop.simps [simp del]

text \<open>The codec of an audio track is that of the first stream with its group.\<close>

fun audio_format_of :: "string \<Rightarrow> HlsStreamInfo list \<Rightarrow> StreamOutputFormat option" where
  "audio_format_of g [] = None"
| "audio_format_of g (si # sis) =
     (if \<not> si_isIframeTrack si \<and> si_audio si \<noteq> [] \<and> si_audio si = g then Some (si_audioFormat si)
      else audio_format_of g sis)"

definition link_audio :: "HlsStreamInfo list \<Rightarrow> MediaInfo \<Rightarrow> MediaInfo" where
  "link_audio sis mi =
     (if mi_type mi = eMEDIATYPE_AUDIO \<and> mi_group_id mi \<noteq> []
      then (case audio_format_of (mi_group_id mi) sis of Some f \<Rightarrow> mi\<lparr>mi_audioFormat := f\<rparr> | None \<Rightarrow> mi)
      else mi)"

definition MAX_LANGUAGE_COUNT :: nat where "MAX_LANGUAGE_COUNT = 16"

definition MAX_LANGUAGE_TAG_LENGTH :: nat where "MAX_LANGUAGE_TAG_LENGTH = 42"

text \<open>\<open>StoreLanguageList\<close>: the first languages, each cut to the length of a tag.\<close>

definition StoreLanguageList :: "string list \<Rightarrow> 'h hls_context \<Rightarrow> 'h hls_context" where
  "StoreLanguageList langs st =
     (let n = min (length langs) MAX_LANGUAGE_COUNT;
          xs = map (\<lambda>l. take (MAX_LANGUAGE_TAG_LENGTH - 1) (c_str l)) (take n langs)
      in st\<lparr>mMaxLanguageCount := n, mLanguageList := xs @ drop n (mLanguageList st)\<rparr>)"

definition ParseMainManifest ::
    "'h hls_env \<Rightarrow> string \<Rightarrow> 'h hls_context \<Rightarrow> ls_fault + (AAMPStatusType \<times> 'h hls_context)" where
  "ParseMainManifest env mainManifest st =
     ebind (manifest_loop env mainManifest
              (st\<lparr>mMediaCount := 0, mProfileCount := 0, vProfileCount := 0, iFrameCount := 0, lineNum := 0,
                  mhAbrManager := clearProfiles (mhAbrManager st),
                  streamInfoStore := [], mediaInfoStore := []\<rparr>)) (\<lambda>(retval, st).
       if retval = eAAMPSTATUS_OK
       then let (retval, st) =
              (if vProfileCount st = 0 then (eAAMPSTATUS_MANIFEST_CONTENT_ERROR, st)
               else (retval, st\<lparr>mediaInfoStore := map (link_audio (streamInfoStore st)) (mediaInfoStore st)\<rparr>))
            in Inr (retval, StoreLanguageList (mLangList st) st)
       else Inr (retval, st))"

section \<open>The callbacks work on the entry that was just appended\<close>

lemma fold_ParseStreamInf:
  "mProfileCount st < length (streamInfoStore st) \<Longrightarrow>
   fold_attrs (ParseStreamInfCallback rnd) ps st =
     ebind (fold_attrs (stream_inf_attr rnd) ps (streamInfoStore st ! mProfileCount st))
       (\<lambda>si. Inr (st\<lparr>streamInfoStore := (streamInfoStore st)[mProfileCount st := si]\<rparr>))"
proof (induction ps arbitrary: st)
  case (Cons p ps)
  obtain a w where p: "p = (a, w)" by (cases p)
  show ?case
  proof (cases "stream_inf_attr rnd a w (streamInfoStore st ! mProfileCount st)")
    case (Inr si)
    then show ?thesis
      using Cons.IH [of "st\<lparr>streamInfoStore := (streamInfoStore st)[mProfileCount st := si]\<rparr>"] Cons.prems
      by (simp add: p ParseStreamInfCallback_def Let_def ebind_def split: sum.splits)
  qed (use Cons.prems in \<open>simp add: p ParseStreamInfCallback_def Let_def\<close>)
qed simp

lemma fold_ParseMedia:
  "mMediaCount st < length (mediaInfoStore st) \<Longrightarrow>
   fold_attrs ParseMediaAttributeCallback ps st =
     ebind (fold_attrs media_attr ps (mediaInfoStore st ! mMediaCount st))
       (\<lambda>mi. Inr (st\<lparr>mediaInfoStore := (mediaInfoStore st)[mMediaCount st := mi]\<rparr>))"
proof (induction ps arbitrary: st)
  case (Cons p ps)
  obtain a w where p: "p = (a, w)" by (cases p)
  show ?case
  proof (cases "media_attr a w (mediaInfoStore st ! mMediaCount st)")
    case (Inr mi)
    then show ?thesis
      using Cons.IH [of "st\<lparr>mediaInfoStore := (mediaInfoStore st)[mMediaCount st := mi]\<rparr>"] Cons.prems
      by (simp add: p ParseMediaAttributeCallback_def Let_def ebind_def split: sum.splits)
  qed (use Cons.prems in \<open>simp add: p ParseMediaAttributeCallback_def Let_def\<close>)
qed simp

text \<open>The entry a stream tag leaves, and the view after the tag.\<close>

definition stream_result :: "'h hls_env \<Rightarrow> string \<Rightarrow> HlsStreamInfo \<Rightarrow> string \<times> HlsStreamInfo" where
  "stream_result env iter si =
     (let (si, iter) = (if si_uri si = [] then (si\<lparr>si_uri := first_line iter\<rparr>, after_line iter) else (si, iter))
      in (iter, if si_averageBandwidth si \<noteq> 0 \<and> AvgBWForABR env
                then si\<lparr>si_bandwidth := si_averageBandwidth si\<rparr> else si))"

lemma stream_tag_eq:
  assumes "length (streamInfoStore st) = mProfileCount st"
  shows "stream_tag env si0 p iter st =
    ebind (fold_attrs (stream_inf_attr (dbl env)) (attr_list p) si0) (\<lambda>si.
      Inr (fst (stream_result env iter si), snd (stream_result env iter si),
           st\<lparr>streamInfoStore := streamInfoStore st @ [si]\<rparr>))"
proof -
  have "(streamInfoStore st @ [si0]) ! mProfileCount st = si0" for si0
    using assms by (metis nth_append_length)
  moreover have "(streamInfoStore st @ [si0])[mProfileCount st := si] = streamInfoStore st @ [si]" for si0 si
    using assms by (metis list_update_length)
  ultimately show ?thesis
    using assms
    by (cases "fold_attrs (stream_inf_attr (dbl env)) (attr_list p) si0")
      (auto simp: stream_tag_def fold_ParseStreamInf stream_result_def Let_def)
qed

lemma put_stream_eq:
  assumes "length (streamInfoStore st) = mProfileCount st"
  shows "put_stream si (st\<lparr>streamInfoStore := streamInfoStore st @ [x]\<rparr>) =
   st\<lparr>streamInfoStore := streamInfoStore st @ [si], mProfileCount := mProfileCount st + 1\<rparr>"
proof -
  have "(streamInfoStore st @ [x])[mProfileCount st := si] = streamInfoStore st @ [si]"
    using assms by (metis list_update_length)
  then show ?thesis by (simp add: put_stream_def)
qed

definition media_done :: "MediaInfo \<Rightarrow> MediaInfo" where
  "media_done mi =
     (if mi_type mi = eMEDIATYPE_AUDIO \<and> mi_language mi = [] then mi\<lparr>mi_language := mi_name mi\<rparr> else mi)"

definition media_langs :: "'h hls_env \<Rightarrow> MediaInfo \<Rightarrow> string list \<Rightarrow> string list" where
  "media_langs env mi langs =
     (if mi_type mi = eMEDIATYPE_AUDIO \<and> mi_language (media_done mi) \<noteq> []
      then insort_insert (GetLanguageCode env (media_done mi)) langs else langs)"

lemma media_tag_eq:
  assumes "length (mediaInfoStore st) = mMediaCount st"
  shows "media_tag env p st =
    ebind (fold_attrs media_attr (attr_list p) newMediaInfo) (\<lambda>mi.
      Inr (st\<lparr>mediaInfoStore := mediaInfoStore st @ [media_done mi],
              mLangList := media_langs env mi (mLangList st), mMediaCount := mMediaCount st + 1\<rparr>))"
proof -
  have "(mediaInfoStore st @ [mi]) ! mMediaCount st = mi" for mi
    using assms by (metis nth_append_length)
  moreover have "(mediaInfoStore st @ [x])[mMediaCount st := mi] = mediaInfoStore st @ [mi]" for x mi
    using assms by (metis list_update_length)
  ultimately show ?thesis
    using assms
    by (cases "fold_attrs media_attr (attr_list p) newMediaInfo")
      (auto simp: media_tag_def fold_ParseMedia media_done_def media_langs_def Let_def)
qed

section \<open>The counts agree with the stores\<close>

definition parse_ok :: "'h hls_context \<Rightarrow> bool" where
  "parse_ok st \<longleftrightarrow> length (streamInfoStore st) = mProfileCount st
     \<and> length (mediaInfoStore st) = mMediaCount st
     \<and> vProfileCount st = length (filter (\<lambda>si. \<not> si_isIframeTrack si) (streamInfoStore st))
     \<and> iFrameCount st \<le> length (filter si_isIframeTrack (streamInfoStore st))
     \<and> (iFrameCount st > 0 \<longrightarrow> mIframeAvailable st)
     \<and> (\<forall>si \<in> set (streamInfoStore st). \<not> si_enabled si \<and>
          (\<not> si_isIframeTrack si \<longrightarrow> si_audioFormat si =
             (case GetAudioFormatForCodec (c_str (si_codecs si)) of Some (_, f) \<Rightarrow> f | None \<Rightarrow> FORMAT_UNKNOWN)))"

definition langs_ok :: "'h hls_env \<Rightarrow> 'h hls_context \<Rightarrow> bool" where
  "langs_ok env st \<longleftrightarrow> sorted (mLangList st) \<and> distinct (mLangList st)
     \<and> (\<forall>mi \<in> set (mediaInfoStore st). mi_type mi = eMEDIATYPE_AUDIO \<longrightarrow>
          (mi_language mi = [] \<longrightarrow> mi_name mi = []) \<and>
          (mi_language mi \<noteq> [] \<longrightarrow> NormalizeLanguageCode env (mi_language mi) \<in> set (mLangList st)))"

lemma fold_attrs_keeps:
  assumes "\<And>a w s t. f a w s = Inr t \<Longrightarrow> g t = g s"
  shows "fold_attrs f ps s = Inr t \<Longrightarrow> g t = g s"
proof (induction ps arbitrary: s)
  case (Cons p ps)
  obtain a w where "p = (a, w)" by (cases p)
  with Cons show ?case by (auto simp: ebind_Inr_iff dest: assms)
qed simp

lemma stream_inf_attr_keeps:
  "stream_inf_attr rnd a w s = Inr t \<Longrightarrow>
   (si_isIframeTrack t, si_enabled t, si_audioFormat t) = (si_isIframeTrack s, si_enabled s, si_audioFormat s)"
  by (auto simp: stream_inf_attr_def ebind_Inr_iff split: if_splits prod.splits)

lemma stream_result_keeps:
  "(si_isIframeTrack (snd (stream_result env i s)), si_codecs (snd (stream_result env i s)))
   = (si_isIframeTrack s, si_codecs s)"
  by (simp add: stream_result_def Let_def)
lemma fold_stream_inf_keeps:
  "fold_attrs (stream_inf_attr rnd) ps s = Inr t \<Longrightarrow>
   si_isIframeTrack t = si_isIframeTrack s \<and> si_enabled t = si_enabled s \<and> si_audioFormat t = si_audioFormat s"
  using fold_attrs_keeps [of "stream_inf_attr rnd" "\<lambda>t. (si_isIframeTrack t, si_enabled t, si_audioFormat t)" ps s t]
    stream_inf_attr_keeps by simp

lemma parse_ok_lengths:
  "parse_ok st \<Longrightarrow> length (streamInfoStore st) = mProfileCount st \<and> length (mediaInfoStore st) = mMediaCount st"
  by (simp add: parse_ok_def)

definition ctx_ok :: "'h hls_env \<Rightarrow> 'h hls_context \<Rightarrow> bool" where
  "ctx_ok env st \<longleftrightarrow> parse_ok st \<and> langs_ok env st"

lemma ctx_ok_lengths:
  "ctx_ok env st \<Longrightarrow> length (streamInfoStore st) = mProfileCount st \<and> length (mediaInfoStore st) = mMediaCount st"
  by (simp add: ctx_ok_def parse_ok_def)

lemma variant_tag_ok:
  assumes "variant_tag env p iter st = Inr (i, t)" "ctx_ok env st"
  shows "ctx_ok env t"
proof -
  obtain si where si: "fold_attrs (stream_inf_attr (dbl env)) (attr_list p) (setupStreamInfo newStreamInfo) = Inr si"
    using assms(1) ctx_ok_lengths [OF assms(2)] by (auto simp: variant_tag_def stream_tag_eq ebind_Inr_iff)
  have f: "\<not> si_isIframeTrack (snd (stream_result env iter si))"
    using fold_stream_inf_keeps [OF si] stream_result_keeps [of env iter si]
    by (simp add: setupStreamInfo_def newStreamInfo_def)
  show ?thesis
    using assms ctx_ok_lengths [OF assms(2)] f
    by (auto simp: variant_tag_def stream_tag_eq si put_stream_eq Let_def ctx_ok_def parse_ok_def langs_ok_def)
qed

lemma iframe_tag_ok:
  assumes "iframe_tag env p iter st = Inr (i, t)" "ctx_ok env st"
  shows "ctx_ok env t"
proof -
  obtain x where t: "t = st\<lparr>streamInfoStore := streamInfoStore st @ [x], mProfileCount := mProfileCount st + 1,
      iFrameCount := iFrameCount st + 1, mIframeAvailable := True\<rparr>" "si_isIframeTrack x" "\<not> si_enabled x"
    using assms(1) ctx_ok_lengths [OF assms(2)]
    by (fastforce simp: iframe_tag_def stream_tag_eq put_stream_eq ebind_Inr_iff)
  from assms(2) show ?thesis by (simp add: t ctx_ok_def parse_ok_def langs_ok_def)
qed

lemma image_tag_ok:
  assumes "image_tag env p iter st = Inr (i, t)" "ctx_ok env st"
  shows "ctx_ok env t"
proof -
  obtain x where t: "t = st\<lparr>streamInfoStore := streamInfoStore st @ [x], mProfileCount := mProfileCount st + 1\<rparr>"
      "si_isIframeTrack x" "\<not> si_enabled x"
    using assms(1) ctx_ok_lengths [OF assms(2)]
    by (fastforce simp: image_tag_def stream_tag_eq put_stream_eq ebind_Inr_iff)
  from assms(2) show ?thesis by (simp add: t ctx_ok_def parse_ok_def langs_ok_def)
qed

lemma media_langs_props:
  "sorted ls \<and> distinct ls \<Longrightarrow> sorted (media_langs env mi ls) \<and> distinct (media_langs env mi ls)"
  "set ls \<subseteq> set (media_langs env mi ls)"
  "mi_type mi = eMEDIATYPE_AUDIO \<Longrightarrow> mi_language (media_done mi) \<noteq> [] \<Longrightarrow>
     NormalizeLanguageCode env (mi_language (media_done mi)) \<in> set (media_langs env mi ls)"
  by (auto simp: media_langs_def GetLanguageCode_def sorted_insort_insert distinct_insort_insert set_insort_insert)

lemma media_done_props:
  "mi_type (media_done mi) = mi_type mi"
  "mi_type mi = eMEDIATYPE_AUDIO \<Longrightarrow> mi_language (media_done mi) = [] \<Longrightarrow> mi_name (media_done mi) = []"
  by (simp_all add: media_done_def split: if_splits)

lemma media_tag_ok:
  assumes "media_tag env p st = Inr t" "ctx_ok env st"
  shows "ctx_ok env t"
proof -
  obtain mi where t: "t = st\<lparr>mediaInfoStore := mediaInfoStore st @ [media_done mi],
      mLangList := media_langs env mi (mLangList st), mMediaCount := mMediaCount st + 1\<rparr>"
    using assms(1) ctx_ok_lengths [OF assms(2)] by (auto simp: media_tag_eq ebind_Inr_iff)
  from assms(2) have l: "langs_ok env st" by (simp add: ctx_ok_def)
  then have s: "sorted (mLangList t) \<and> distinct (mLangList t)"
    using media_langs_props(1) [of "mLangList st" env mi] by (simp add: t langs_ok_def)
  have "set (mLangList st) \<subseteq> set (mLangList t)" by (simp add: t media_langs_props(2))
  with l s have "langs_ok env t"
    using media_langs_props(3) [of mi env "mLangList st"] media_done_props [of mi]
    unfolding langs_ok_def by (auto simp: t)
  moreover have "parse_ok t" using assms(2) by (simp add: t ctx_ok_def parse_ok_def)
  ultimately show ?thesis by (simp add: ctx_ok_def)
qed

definition same_stores :: "'h hls_context \<Rightarrow> 'h hls_context \<Rightarrow> bool" where
  "same_stores s t \<longleftrightarrow>
     (streamInfoStore t, mediaInfoStore t, mProfileCount t, mMediaCount t, mIframeAvailable t, mLangList t,
      vProfileCount t, iFrameCount t) =
     (streamInfoStore s, mediaInfoStore s, mProfileCount s, mMediaCount s, mIframeAvailable s, mLangList s,
      vProfileCount s, iFrameCount s)"

lemma same_stores_ok: "same_stores s t \<Longrightarrow> ctx_ok env s \<Longrightarrow> ctx_ok env t"
  by (simp add: same_stores_def ctx_ok_def parse_ok_def langs_ok_def)

lemma start_tag_same: "start_tag env p s = Inr t \<Longrightarrow> same_stores s t"
  by (auto simp: start_tag_def ebind_Inr_iff same_stores_def UpdateLiveOffset_def set_float_def split: if_splits)

lemma session_key_tag_same: "same_stores s (session_key_tag env p s)"
  by (simp add: session_key_tag_def InitiateDrmProcess_def same_stores_def Let_def split: prod.splits option.splits)

lemma lineNum_same: "same_stores s (s\<lparr>lineNum := n\<rparr>)"
  by (simp add: same_stores_def)

lemma manifest_tag_ok:
  "manifest_tag env p iter st = Inr r \<Longrightarrow> ctx_ok env st \<Longrightarrow>
   (case r of Continue i t \<Rightarrow> ctx_ok env t | Break ret t \<Rightarrow> ctx_ok env t)"
  by (auto simp: manifest_tag_def on_prefix_def ebind_Inr_iff
      intro: variant_tag_ok iframe_tag_ok image_tag_ok media_tag_ok same_stores_ok [OF start_tag_same]
        same_stores_ok [OF session_key_tag_same]
      split: option.splits if_splits)

lemma manifest_loop_ok:
  "manifest_loop env iter st = Inr (ret, t) \<Longrightarrow> ctx_ok env st \<Longrightarrow> ctx_ok env t"
proof (induction env iter st rule: manifest_loop.induct)
  case (1 env iter st)
  show ?case
  proof (cases "iter = []")
    case True
    with "1.prems" show ?thesis by (simp add: manifest_loop.simps [of env "[]"])
  next
    case ne: False
    show ?thesis
    proof (cases "remove_prefix ''#EXT'' (first_line iter)")
      case None
      with "1.prems" ne "1.IH"(1) [OF ne None] show ?thesis by (simp add: manifest_loop.simps [of env iter])
    next
      case (Some p)
      with "1.prems"(1) ne obtain r where r: "manifest_tag env p (after_line iter) st = Inr r"
        by (auto simp: manifest_loop.simps [of env iter] ebind_Inr_iff)
      note ok = manifest_tag_ok [OF r "1.prems"(2)]
      show ?thesis
      proof (cases r)
        case (Continue i s)
        with "1.prems"(1) ne Some r have "manifest_loop env i (s\<lparr>lineNum := lineNum s + 1\<rparr>) = Inr (ret, t)"
          by (simp add: manifest_loop.simps [of env iter])
        moreover have "ctx_ok env (s\<lparr>lineNum := lineNum s + 1\<rparr>)"
          using ok Continue same_stores_ok [OF lineNum_same] by simp
        ultimately show ?thesis using "1.IH"(2) [OF ne Some r Continue] by simp
      next
        case (Break ret' s)
        with "1.prems"(1) ne Some r ok show ?thesis by (simp add: manifest_loop.simps [of env iter])
      qed
    qed
  qed
qed

section \<open>No index is out of range\<close>

lemma fold_attrs_Inl: "fold_attrs f ps s = Inl e \<Longrightarrow> \<exists>a w t. f a w t = Inl e"
  by (induction f ps s rule: fold_attrs.induct) (auto simp: ebind_Inl_iff)

lemma atoll_text_fault: "atoll_text s = Inl e \<Longrightarrow> e = IntOverflow"
  by (simp add: atoll_text_value split: if_splits)

lemma scan_int_fault: "scan_int s = Inl e \<Longrightarrow> e = IntOverflow"
  by (simp add: scan_int_def Let_def split: if_splits)

lemma scan_resolution_fault: "scan_resolution s w h = Inl e \<Longrightarrow> e = IntOverflow"
  by (auto simp: scan_resolution_def ebind_Inl_iff dest: scan_int_fault split: option.splits if_splits)

lemma stream_inf_attr_fault: "stream_inf_attr rnd a w s = Inl e \<Longrightarrow> e = IntOverflow"
  by (auto simp: stream_inf_attr_def ebind_Inl_iff dest: atoll_text_fault scan_resolution_fault split: if_splits)

lemma media_attr_fault: "media_attr a w s = Inl e \<Longrightarrow> e = IntOverflow"
  by (auto simp: media_attr_def ebind_Inl_iff dest: atoll_text_fault split: if_splits)

lemma fold_stream_inf_fault: "fold_attrs (stream_inf_attr rnd) ps s = Inl e \<Longrightarrow> e = IntOverflow"
  using fold_attrs_Inl stream_inf_attr_fault by metis

lemma fold_media_fault: "fold_attrs media_attr ps s = Inl e \<Longrightarrow> e = IntOverflow"
  using fold_attrs_Inl media_attr_fault by metis

lemma start_tag_fault: "start_tag env p s = Inl e \<Longrightarrow> e = ReadUninitialised"
proof -
  assume "start_tag env p s = Inl e"
  then have "ParseXStartTimeOffset (dbl env) p = Inl e"
    by (auto simp: start_tag_def ebind_Inl_iff split: if_splits)
  moreover have "ParseXStartAttributeCallback rnd a w x \<noteq> Inl f" for rnd a w x f
    by (simp add: ParseXStartAttributeCallback_def)
  ultimately show ?thesis
    by (auto simp: ParseXStartTimeOffset_def ebind_Inl_iff dest: fold_attrs_Inl split: option.splits)
qed

lemma manifest_tag_fault:
  "manifest_tag env p iter st = Inl e \<Longrightarrow> ctx_ok env st \<Longrightarrow> e \<noteq> ReadOutside"
  using ctx_ok_lengths [of env st]
  by (auto simp: manifest_tag_def on_prefix_def variant_tag_def iframe_tag_def image_tag_def
      stream_tag_eq media_tag_eq ebind_Inl_iff Let_def
      dest: fold_stream_inf_fault fold_media_fault start_tag_fault split: option.splits if_splits)

lemma manifest_loop_fault:
  "manifest_loop env iter st = Inl e \<Longrightarrow> ctx_ok env st \<Longrightarrow> e \<noteq> ReadOutside"
proof (induction env iter st rule: manifest_loop.induct)
  case (1 env iter st)
  have ne: "iter \<noteq> []" using "1.prems"(1) by (auto simp: manifest_loop.simps [of env "[]"])
  show ?case
  proof (cases "remove_prefix ''#EXT'' (first_line iter)")
    case None
    with "1.prems" ne "1.IH"(1) [OF ne None] show ?thesis by (simp add: manifest_loop.simps [of env iter])
  next
    case (Some p)
    show ?thesis
    proof (cases "manifest_tag env p (after_line iter) st")
      case (Inl f)
      with "1.prems" ne Some manifest_tag_fault [OF Inl] show ?thesis
        by (simp add: manifest_loop.simps [of env iter])
    next
      case r: (Inr r)
      note ok = manifest_tag_ok [OF r "1.prems"(2)]
      show ?thesis
      proof (cases r)
        case (Continue i s)
        with "1.prems"(1) ne Some r have "manifest_loop env i (s\<lparr>lineNum := lineNum s + 1\<rparr>) = Inl e"
          by (simp add: manifest_loop.simps [of env iter])
        moreover have "ctx_ok env (s\<lparr>lineNum := lineNum s + 1\<rparr>)"
          using ok Continue same_stores_ok [OF lineNum_same] by simp
        ultimately show ?thesis using "1.IH"(2) [OF ne Some r Continue] by simp
      next
        case (Break ret' s)
        with "1.prems"(1) ne Some r show ?thesis by (simp add: manifest_loop.simps [of env iter])
      qed
    qed
  qed
qed

definition parse_start :: "'h hls_context \<Rightarrow> 'h hls_context" where
  "parse_start st =
     st\<lparr>mMediaCount := 0, mProfileCount := 0, vProfileCount := 0, iFrameCount := 0, lineNum := 0,
        mhAbrManager := clearProfiles (mhAbrManager st), streamInfoStore := [], mediaInfoStore := []\<rparr>"

lemma ctx_ok_start: "sorted (mLangList st) \<and> distinct (mLangList st) \<Longrightarrow> ctx_ok env (parse_start st)"
  by (simp add: parse_start_def ctx_ok_def parse_ok_def langs_ok_def)

lemma link_audio_keeps:
  "mi_type (link_audio sis mi) = mi_type mi" "mi_language (link_audio sis mi) = mi_language mi"
  "mi_name (link_audio sis mi) = mi_name mi" "mi_group_id (link_audio sis mi) = mi_group_id mi"
  by (simp_all add: link_audio_def split: option.splits)

lemma link_audio_format:
  "mi_type mi = eMEDIATYPE_AUDIO \<Longrightarrow> mi_group_id mi \<noteq> [] \<Longrightarrow> audio_format_of (mi_group_id mi) sis = Some f
   \<Longrightarrow> mi_audioFormat (link_audio sis mi) = f"
  by (simp add: link_audio_def)

lemma StoreLanguageList_sel [simp]:
  "streamInfoStore (StoreLanguageList ls s) = streamInfoStore s"
  "mediaInfoStore (StoreLanguageList ls s) = mediaInfoStore s"
  "mProfileCount (StoreLanguageList ls s) = mProfileCount s"
  "mMediaCount (StoreLanguageList ls s) = mMediaCount s"
  "vProfileCount (StoreLanguageList ls s) = vProfileCount s"
  "iFrameCount (StoreLanguageList ls s) = iFrameCount s"
  "mLangList (StoreLanguageList ls s) = mLangList s"
  by (simp_all add: StoreLanguageList_def Let_def)

lemma ParseMainManifest_start:
  "ParseMainManifest env m st = ebind (manifest_loop env m (parse_start st)) (\<lambda>(retval, st).
       if retval = eAAMPSTATUS_OK
       then let (retval, st) =
              (if vProfileCount st = 0 then (eAAMPSTATUS_MANIFEST_CONTENT_ERROR, st)
               else (retval, st\<lparr>mediaInfoStore := map (link_audio (streamInfoStore st)) (mediaInfoStore st)\<rparr>))
            in Inr (retval, StoreLanguageList (mLangList st) st)
       else Inr (retval, st))"
  by (simp add: ParseMainManifest_def parse_start_def)

definition codec_format :: "string \<Rightarrow> StreamOutputFormat" where
  "codec_format s = (case GetAudioFormatForCodec s of Some (_, f) \<Rightarrow> f | None \<Rightarrow> FORMAT_UNKNOWN)"

section \<open>Properties\<close>

text \<open>
  C14: parsing any bytes as a main manifest, from any context whose language set is a set, never indexes
  a store out of range: it ends with an integer overflow or the read of the uninitialised start
  offset, or returns.  When it returns, the counts are the sizes of the stores, no stream is enabled,
  every stream that is not an I-frame track has the audio format of its codecs, the normalised language
  of every audio rendition is in the language set, and with the status OK there is at least one such stream
  and every audio rendition of its group has its audio format.
\<close>

theorem main_manifest_safe:
  assumes "sorted (mLangList st) \<and> distinct (mLangList st)"
  shows "case ParseMainManifest env m st of
      Inl f \<Rightarrow> f \<noteq> ReadOutside
    | Inr (ret, t) \<Rightarrow>
        length (streamInfoStore t) = mProfileCount t \<and> length (mediaInfoStore t) = mMediaCount t
        \<and> vProfileCount t = length (filter (\<lambda>si. \<not> si_isIframeTrack si) (streamInfoStore t))
        \<and> (\<forall>si \<in> set (streamInfoStore t). \<not> si_enabled si
             \<and> (\<not> si_isIframeTrack si \<longrightarrow> si_audioFormat si = codec_format (c_str (si_codecs si))))
        \<and> (\<forall>mi \<in> set (mediaInfoStore t). mi_type mi = eMEDIATYPE_AUDIO \<and> mi_language mi \<noteq> [] \<longrightarrow>
             NormalizeLanguageCode env (mi_language mi) \<in> set (mLangList t))
        \<and> (ret = eAAMPSTATUS_OK \<longrightarrow> (\<exists>si \<in> set (streamInfoStore t). \<not> si_isIframeTrack si)
             \<and> (\<forall>mi \<in> set (mediaInfoStore t). \<forall>f. mi_type mi = eMEDIATYPE_AUDIO \<and> mi_group_id mi \<noteq> []
                  \<and> audio_format_of (mi_group_id mi) (streamInfoStore t) = Some f \<longrightarrow> mi_audioFormat mi = f))"
proof (cases "manifest_loop env m (parse_start st)")
  case (Inl f)
  with manifest_loop_fault [OF Inl ctx_ok_start [OF assms]] show ?thesis by (simp add: ParseMainManifest_start)
next
  case (Inr p)
  obtain ret t where p: "p = (ret, t)" by (cases p)
  with Inr manifest_loop_ok ctx_ok_start [OF assms] have ok: "ctx_ok env t" by metis
  have v: "vProfileCount t > 0 \<longrightarrow> (\<exists>si \<in> set (streamInfoStore t). \<not> si_isIframeTrack si)"
    using ok by (auto simp: ctx_ok_def parse_ok_def filter_empty_conv)
  show ?thesis
  proof (cases "ret = eAAMPSTATUS_OK \<and> vProfileCount t \<noteq> 0")
    case True
    let ?u = "t\<lparr>mediaInfoStore := map (link_audio (streamInfoStore t)) (mediaInfoStore t)\<rparr>"
    have "ctx_ok env ?u" using ok by (auto simp: ctx_ok_def parse_ok_def langs_ok_def link_audio_keeps)
    with True v Inr p show ?thesis
      by (auto simp: ParseMainManifest_start ctx_ok_def parse_ok_def langs_ok_def codec_format_def
          link_audio_keeps intro: link_audio_format)
  next
    case False
    with v Inr p ok show ?thesis
      by (auto simp: ParseMainManifest_start ctx_ok_def parse_ok_def langs_ok_def codec_format_def)
  qed
qed

definition example_env :: "string hls_env" where
  "example_env = \<lparr>AvgBWForABR = True, FragMp4PrefetchLicense = False, floatRange = \<lambda>_. (0, 50),
     dbl = \<lambda>x. x, NormalizeLanguageCode = \<lambda>s. s, ProcessContentProtection = \<lambda>_. None\<rparr>"

theorem main_manifest_safe_witness:
  "\<forall>st. ParseMainManifest example_env ''#EXTM3U'' (st\<lparr>mLangList := []\<rparr>) \<noteq> Inl ReadOutside"
proof
  fix st :: "string hls_context"
  have "sorted (mLangList (st\<lparr>mLangList := []\<rparr>)) \<and> distinct (mLangList (st\<lparr>mLangList := []\<rparr>))" by simp
  from main_manifest_safe [OF this, of example_env "''#EXTM3U''"]
  show "ParseMainManifest example_env ''#EXTM3U'' (st\<lparr>mLangList := []\<rparr>) \<noteq> Inl ReadOutside" by auto
qed

end
