(* ===== verification/Hls_Manifest_Roundtrip.thy ===== *)
theory Hls_Manifest_Roundtrip
  imports Hls_Manifest
begin

text \<open>
  A writer of HLS main manifests, and the proof that the parser of \<open>Hls_Manifest\<close> reads back what
  it writes: first numbers, quoted texts and attribute lists, then one step of the loop for every kind of
  entry, then whole manifests.  The statuses and faults of the parser are characterised with the same
  steps.
\<close>

section \<open>Writing a main manifest\<close>

lemma digit_other: "is_digit c \<Longrightarrow> \<not> isspace c \<and> c \<noteq> CHR ''-'' \<and> c \<noteq> CHR ''+'' \<and> c \<noteq> CHR '','' \<and> c \<noteq> NUL
    \<and> c \<noteq> CHAR_QUOTE \<and> c \<noteq> CHAR_LF \<and> c \<noteq> CHAR_CR"
  by (auto simp: isspace_def is_digit_def digit_of_def char_defs)

lemma digits_from_append: "\<forall>c \<in> set s. is_digit c \<Longrightarrow> digits_from x (s @ t) = digits_from (digits_from x s) t"
  by (induction s arbitrary: x) auto

lemma digits_from_show: "digits_from 0 (show_nat n @ t) = digits_from (int n) t"
proof (induction n arbitrary: t rule: show_nat.induct)
  case (1 n)
  show ?case
  proof (cases "n < 10")
    case True
    then show ?thesis by (subst show_nat.simps) (simp add: digit_char)
  next
    case False
    let ?c = "char_of (48 + n mod 10) :: char"
    have c: "is_digit ?c" "digit_of ?c = int (n mod 10)" using digit_char [of "n mod 10"] by auto
    have e: "int (n div 10) * 10 + int (n mod 10) = int n"
      by (metis add.commute div_mult_mod_eq mult.commute of_nat_add of_nat_mult of_nat_numeral)
    from False have "show_nat n @ t = show_nat (n div 10) @ ?c # t" by (subst show_nat.simps) simp
    with "1.IH" [OF False, of "?c # t"] c e show ?thesis by simp
  qed
qed

lemma scan_int_show:
  assumes "int n \<le> INT_MAX" "t = [] \<or> \<not> is_digit (hd t)"
  shows "scan_int (show_nat n @ t) = Inr (Some (int n, t))"
proof -
  obtain c s where s: "show_nat n = c # s" by (cases "show_nat n") auto
  then have c: "is_digit c" using digits_show_nat [of n] by simp
  have "dropWhile is_digit (show_nat n @ t) = t"
    using digits_show_nat [of n] assms(2) by (cases t) (simp_all add: dropWhile_append2)
  moreover have "digits_from (int n) t = int n" using assms(2) by (cases t) auto
  ultimately show ?thesis
    using assms(1) digits_from_show [of n t] c digit_other [OF c]
    by (simp add: scan_int_def s width_defs)
qed

lemma scan_resolution_show:
  assumes "int w \<le> INT_MAX" "int h \<le> INT_MAX"
  shows "scan_resolution (show_nat w @ CHR ''x'' # show_nat h) a b = Inr (int w, int h)"
  using scan_int_show [of w "CHR ''x'' # show_nat h"] scan_int_show [of h "[]"] assms
  by (simp add: scan_resolution_def is_digit_def digit_of_def)

definition plain :: "string \<Rightarrow> bool" where
  "plain s \<longleftrightarrow> CHAR_QUOTE \<notin> set s \<and> CHAR_LF \<notin> set s \<and> NUL \<notin> set s"

definition quote :: "string \<Rightarrow> string" where
  "quote s = CHAR_QUOTE # s @ [CHAR_QUOTE]"

lemma quoted_text_quote [simp]: "quoted_text (quote s) = s"
  by (simp add: quoted_text_def quote_def)

lemma c_str_plain: "plain s \<Longrightarrow> c_str s = s"
  by (simp add: c_str_def plain_def) (metis takeWhile_eq_all_conv)

lemma value_ok_quote: "plain s \<Longrightarrow> value_ok False (quote s)"
proof -
  have "CHAR_QUOTE \<notin> set s \<Longrightarrow> NUL \<notin> set s \<Longrightarrow> value_ok True (s @ [CHAR_QUOTE])"
    by (induction s) (auto simp: char_defs)
  then show "plain s \<Longrightarrow> value_ok False (quote s)" by (simp add: quote_def plain_def char_defs)
qed

lemma value_ok_plain: "\<forall>c \<in> set s. c \<noteq> NUL \<and> c \<noteq> CHR '','' \<and> c \<noteq> CHAR_QUOTE \<Longrightarrow> value_ok False s"
  by (induction s) auto

text \<open>An attribute of a line: the line feed and a final carriage return would end the line.\<close>

definition line_attr :: "string \<times> string \<Rightarrow> bool" where
  "line_attr p \<longleftrightarrow> attr_ok p \<and> CHAR_LF \<notin> set (fst p) \<and> CHAR_LF \<notin> set (snd p) \<and> snd p \<noteq> [] \<and> last (snd p) \<noteq> CHAR_CR"

lemma write_attrs_line:
  "\<forall>p \<in> set ps. line_attr p \<Longrightarrow> CHAR_LF \<notin> set (write_attrs ps) \<and> (write_attrs ps = [] \<or> last (write_attrs ps) \<noteq> CHAR_CR)"
proof (induction ps rule: write_attrs.induct)
  case (3 a w p ps)
  then show ?case by (cases "write_attrs (p # ps)") (auto simp: line_attr_def char_defs)
qed (auto simp: line_attr_def char_defs)

lemma attr_list_line: "\<forall>p \<in> set ps. line_attr p \<Longrightarrow> attr_list (write_attrs ps) = ps"
  by (rule attr_list_write) (simp add: line_attr_def)

lemma line_attr_quote: "CHR ''='' \<notin> set a \<Longrightarrow> CHAR_LF \<notin> set a \<Longrightarrow> a \<noteq> [] \<Longrightarrow> hd a \<noteq> CHR '' '' \<Longrightarrow> hd a \<noteq> CHAR_CR \<Longrightarrow>
   plain s \<Longrightarrow> line_attr (a, quote s)"
  by (auto simp: line_attr_def attr_ok_def value_ok_quote) (auto simp: quote_def plain_def char_defs)

lemma line_attr_number: "CHR ''='' \<notin> set a \<Longrightarrow> CHAR_LF \<notin> set a \<Longrightarrow> a \<noteq> [] \<Longrightarrow> hd a \<noteq> CHR '' '' \<Longrightarrow> hd a \<noteq> CHAR_CR \<Longrightarrow>
   s \<noteq> [] \<Longrightarrow> \<forall>c \<in> set s. is_digit c \<or> c = CHR ''x'' \<Longrightarrow> line_attr (a, s)"
proof -
  assume a: "CHR ''='' \<notin> set a" "CHAR_LF \<notin> set a" "a \<noteq> []" "hd a \<noteq> CHR '' ''" "hd a \<noteq> CHAR_CR"
    and s: "s \<noteq> []" "\<forall>c \<in> set s. is_digit c \<or> c = CHR ''x''"
  have *: "c \<noteq> NUL \<and> c \<noteq> CHR '','' \<and> c \<noteq> CHAR_QUOTE \<and> c \<noteq> CHAR_LF \<and> c \<noteq> CHAR_CR" if "c \<in> set s" for c
    using s(2) that digit_other [of c] by (auto simp: char_defs)
  with s(1) have "last s \<noteq> CHAR_CR" by simp
  with a s(1) * value_ok_plain [of s] show ?thesis by (auto simp: line_attr_def attr_ok_def)
qed

text \<open>One step of the loop over a tag line and over a line that is not a tag.\<close>

lemma loop_tag_line:
  assumes "CHAR_LF \<notin> set q" "q = [] \<or> last q \<noteq> CHAR_CR"
  shows "manifest_loop env (''#EXT'' @ q @ CHAR_LF # s) st =
    ebind (manifest_tag env q s st) (\<lambda>r. case r of
        Continue i t \<Rightarrow> manifest_loop env i (t\<lparr>lineNum := lineNum t + 1\<rparr>)
      | Break retval t \<Rightarrow> Inr (retval, t))"
proof -
  have "CHAR_LF \<notin> set (''#EXT'' @ q)" "last (''#EXT'' @ q) \<noteq> CHAR_CR"
    using assms by (auto simp: char_defs)
  from first_line_write(1) [OF this(1)] first_line_write(2) [OF this(1)] this(2)
  have "first_line (''#EXT'' @ q @ CHAR_LF # s) = ''#EXT'' @ q" "after_line (''#EXT'' @ q @ CHAR_LF # s) = s"
    by simp_all
  moreover have "remove_prefix ''#EXT'' (''#EXT'' @ q) = Some q" by (simp add: remove_prefix_iff)
  ultimately show ?thesis by (subst manifest_loop.simps) simp
qed

lemma loop_other_line:
  assumes "CHAR_LF \<notin> set l" "remove_prefix ''#EXT'' (strip_cr l) = None"
  shows "manifest_loop env (l @ CHAR_LF # s) st = manifest_loop env s st"
proof -
  have "takeWhile (\<lambda>c. c \<noteq> CHAR_LF) (l @ CHAR_LF # s) = l" using assms(1) by (induction l) auto
  with assms(2) have "remove_prefix ''#EXT'' (first_line (l @ CHAR_LF # s)) = None" by (simp add: first_line_def)
  with first_line_write(2) [OF assms(1)] show ?thesis by (subst manifest_loop.simps) simp
qed

text \<open>
  The entries of a main manifest: a variant stream, an I-frame stream, a rendition, and any line that
  is not a tag.  A number of 0 and an empty text stand for an absent optional attribute.
\<close>

record variant =
  va_bandwidth :: nat
  va_average :: nat
  va_width :: nat
  va_height :: nat
  va_codecs :: string
  va_audio :: string
  va_uri :: string

record rendition =
  re_audio :: bool
  re_group :: string
  re_name :: string
  re_language :: string
  re_default :: bool
  re_channels :: nat
  re_uri :: string

datatype master_item = Variant variant | IFrame nat string | Rendition rendition | Other string

definition variant_attrs :: "variant \<Rightarrow> (string \<times> string) list" where
  "variant_attrs v =
     [(''BANDWIDTH'', show_nat (va_bandwidth v))]
     @ (if va_average v = 0 then [] else [(''AVERAGE-BANDWIDTH'', show_nat (va_average v))])
     @ [(''RESOLUTION'', show_nat (va_width v) @ CHR ''x'' # show_nat (va_height v)),
        (''CODECS'', quote (va_codecs v))]
     @ (if va_audio v = [] then [] else [(''AUDIO'', quote (va_audio v))])"

definition rendition_attrs :: "rendition \<Rightarrow> (string \<times> string) list" where
  "rendition_attrs r =
     [(''TYPE'', if re_audio r then ''AUDIO'' else ''SUBTITLES''), (''GROUP-ID'', quote (re_group r)),
      (''NAME'', quote (re_name r))]
     @ (if re_language r = [] then [] else [(''LANGUAGE'', quote (re_language r))])
     @ [(''DEFAULT'', if re_default r then ''YES'' else ''NO'')]
     @ (if re_channels r = 0 then [] else [(''CHANNELS'', quote (show_nat (re_channels r)))])
     @ (if re_uri r = [] then [] else [(''URI'', quote (re_uri r))])"

fun write_item :: "master_item \<Rightarrow> string" where
  "write_item (Variant v) =
     ''#EXT'' @ (''-X-STREAM-INF:'' @ write_attrs (variant_attrs v)) @ CHAR_LF # va_uri v @ [CHAR_LF]"
| "write_item (IFrame b u) =
     ''#EXT'' @ (''-X-I-FRAME-STREAM-INF:'' @ write_attrs [(''BANDWIDTH'', show_nat b), (''URI'', quote u)]) @ [CHAR_LF]"
| "write_item (Rendition r) =
     ''#EXT'' @ (''-X-MEDIA:'' @ write_attrs (rendition_attrs r)) @ [CHAR_LF]"
| "write_item (Other l) = l @ [CHAR_LF]"

definition write_master :: "master_item list \<Rightarrow> string" where
  "write_master items = ''#EXT'' @ ''M3U'' @ CHAR_LF # concat (map write_item items)"

fun item_ok :: "master_item \<Rightarrow> bool" where
  "item_ok (Variant v) \<longleftrightarrow> int (va_bandwidth v) \<le> INT64_MAX \<and> int (va_average v) \<le> INT64_MAX
     \<and> int (va_width v) \<le> INT_MAX \<and> int (va_height v) \<le> INT_MAX \<and> plain (va_codecs v) \<and> plain (va_audio v)
     \<and> CHAR_LF \<notin> set (va_uri v) \<and> (va_uri v = [] \<or> last (va_uri v) \<noteq> CHAR_CR)"
| "item_ok (IFrame b u) \<longleftrightarrow> int b \<le> INT64_MAX \<and> plain u \<and> u \<noteq> []"
| "item_ok (Rendition r) \<longleftrightarrow> plain (re_group r) \<and> plain (re_name r) \<and> plain (re_language r) \<and> plain (re_uri r)"
| "item_ok (Other l) \<longleftrightarrow> CHAR_LF \<notin> set l \<and> remove_prefix ''#EXT'' (strip_cr l) = None"

text \<open>What the parser is to store for an entry.\<close>

fun item_streams :: "'h hls_env \<Rightarrow> master_item \<Rightarrow> HlsStreamInfo list" where
  "item_streams env (Variant v) =
     [newStreamInfo\<lparr>
        si_bandwidth := (if va_average v \<noteq> 0 \<and> AvgBWForABR env then int (va_average v) else int (va_bandwidth v)),
        si_averageBandwidth := int (va_average v), si_width := int (va_width v), si_height := int (va_height v),
        si_framerate := 25, si_codecs := va_codecs v, si_audio := va_audio v, si_uri := va_uri v,
        si_audioFormat := codec_format (va_codecs v)\<rparr>]"
| "item_streams env (IFrame b u) =
     [newStreamInfo\<lparr>si_isIframeTrack := True, si_bandwidth := int b, si_uri := u\<rparr>]"
| "item_streams env _ = []"

fun item_media :: "master_item \<Rightarrow> MediaInfo list" where
  "item_media (Rendition r) =
     [newMediaInfo\<lparr>mi_type := (if re_audio r then eMEDIATYPE_AUDIO else eMEDIATYPE_SUBTITLE),
        mi_group_id := re_group r, mi_name := re_name r,
        mi_language := (if re_audio r \<and> re_language r = [] then re_name r else re_language r),
        mi_isDefault := re_default r, mi_channels := 0, mi_uri := re_uri r\<rparr>]"
| "item_media _ = []"

lemma variant_attrs_line: "item_ok (Variant v) \<Longrightarrow> \<forall>p \<in> set (variant_attrs v). line_attr p"
  using digits_show_nat
  by (auto simp: variant_attrs_def char_defs intro!: line_attr_quote line_attr_number)

lemma fold_variant_attrs:
  assumes "item_ok (Variant v)"
  shows "fold_attrs (stream_inf_attr rnd) (variant_attrs v) (setupStreamInfo newStreamInfo) =
    Inr (newStreamInfo\<lparr>si_bandwidth := int (va_bandwidth v), si_averageBandwidth := int (va_average v),
      si_width := int (va_width v), si_height := int (va_height v), si_framerate := 25,
      si_codecs := va_codecs v, si_audio := va_audio v\<rparr>)"
proof -
  have n: "int n \<le> INT64_MAX \<Longrightarrow> atoll_text (show_nat n) = Inr (int n)" for n
    using atoll_text_show [of n "[]"] by simp
  have "c_str (show_nat (va_width v) @ CHR ''x'' # show_nat (va_height v)) =
      show_nat (va_width v) @ CHR ''x'' # show_nat (va_height v)"
    using digits_show_nat digit_other unfolding c_str_def by (subst takeWhile_eq_all_conv) (auto simp: NUL_def)
  with assms n show ?thesis
    by (simp add: variant_attrs_def stream_inf_attr_def scan_resolution_show setupStreamInfo_def newStreamInfo_def)
qed

lemma loop_variant:
  assumes "item_ok (Variant v)" "length (streamInfoStore st) = mProfileCount st"
  shows "manifest_loop env (write_item (Variant v) @ s) st = manifest_loop env s
    (st\<lparr>streamInfoStore := streamInfoStore st @ item_streams env (Variant v), mProfileCount := mProfileCount st + 1,
        vProfileCount := vProfileCount st + 1, lineNum := lineNum st + 1\<rparr>)"
proof -
  let ?q = "''-X-STREAM-INF:'' @ write_attrs (variant_attrs v)"
  note a = variant_attrs_line [OF assms(1)]
  have uri: "first_line (va_uri v @ CHAR_LF # s) = va_uri v" "after_line (va_uri v @ CHAR_LF # s) = s"
    using assms(1) first_line_write [of "va_uri v" s] by simp_all
  have q: "CHAR_LF \<notin> set ?q" "last ?q \<noteq> CHAR_CR"
    using write_attrs_line [OF a] by (auto simp: char_defs)
  have "variant_tag env (write_attrs (variant_attrs v)) (va_uri v @ CHAR_LF # s) st =
     Inr (s, st\<lparr>streamInfoStore := streamInfoStore st @ item_streams env (Variant v),
        mProfileCount := mProfileCount st + 1, vProfileCount := vProfileCount st + 1\<rparr>)"
    unfolding variant_tag_def stream_tag_eq [OF assms(2)] attr_list_line [OF a] fold_variant_attrs [OF assms(1)]
    using assms uri
    by (simp add: put_stream_eq stream_result_def newStreamInfo_def c_str_plain codec_format_def)
  then have "manifest_tag env ?q (va_uri v @ CHAR_LF # s) st =
     Inr (Continue s (st\<lparr>streamInfoStore := streamInfoStore st @ item_streams env (Variant v),
        mProfileCount := mProfileCount st + 1, vProfileCount := vProfileCount st + 1\<rparr>))"
    by (simp add: manifest_tag_def on_prefix_def)
  with loop_tag_line [of ?q env "va_uri v @ CHAR_LF # s" st] q show ?thesis by simp
qed
lemma loop_iframe:
  assumes "item_ok (IFrame b u)" "length (streamInfoStore st) = mProfileCount st"
  shows "manifest_loop env (write_item (IFrame b u) @ s) st = manifest_loop env s
    (st\<lparr>streamInfoStore := streamInfoStore st @ item_streams env (IFrame b u), mProfileCount := mProfileCount st + 1,
        iFrameCount := iFrameCount st + 1, mIframeAvailable := True, lineNum := lineNum st + 1\<rparr>)"
proof -
  let ?ps = "[(''BANDWIDTH'', show_nat b), (''URI'', quote u)]"
  let ?q = "''-X-I-FRAME-STREAM-INF:'' @ write_attrs ?ps"
  have a: "\<forall>p \<in> set ?ps. line_attr p"
    using assms(1) digits_show_nat by (auto simp: char_defs intro!: line_attr_quote line_attr_number)
  have q: "CHAR_LF \<notin> set ?q" "last ?q \<noteq> CHAR_CR"
    using write_attrs_line [OF a] by (auto simp: char_defs)
  have f: "fold_attrs (stream_inf_attr (dbl env)) ?ps newStreamInfo =
      Inr (newStreamInfo\<lparr>si_bandwidth := int b, si_uri := u\<rparr>)"
    using assms(1) atoll_text_show [of b "[]"] by (simp add: stream_inf_attr_def)
  have "iframe_tag env (write_attrs ?ps) s st =
     Inr (s, st\<lparr>streamInfoStore := streamInfoStore st @ item_streams env (IFrame b u),
        mProfileCount := mProfileCount st + 1, iFrameCount := iFrameCount st + 1, mIframeAvailable := True\<rparr>)"
    unfolding iframe_tag_def stream_tag_eq [OF assms(2)] attr_list_line [OF a] f
    using assms by (simp add: put_stream_eq stream_result_def newStreamInfo_def)
  then have "manifest_tag env ?q s st =
     Inr (Continue s (st\<lparr>streamInfoStore := streamInfoStore st @ item_streams env (IFrame b u),
        mProfileCount := mProfileCount st + 1, iFrameCount := iFrameCount st + 1, mIframeAvailable := True\<rparr>))"
    by (simp add: manifest_tag_def on_prefix_def)
  with loop_tag_line [of ?q env s st] q show ?thesis by simp
qed

definition raw_media :: "rendition \<Rightarrow> MediaInfo" where
  "raw_media r = newMediaInfo\<lparr>mi_type := (if re_audio r then eMEDIATYPE_AUDIO else eMEDIATYPE_SUBTITLE),
     mi_group_id := re_group r, mi_name := re_name r, mi_language := re_language r,
     mi_isDefault := re_default r, mi_uri := re_uri r\<rparr>"

lemma atoll_quote [simp]: "atoll_text (quote s) = Inr 0"
  by (simp add: atoll_text_value quote_def is_digit_def digit_of_def char_defs width_defs)

lemma fold_rendition_attrs:
  "fold_attrs media_attr (rendition_attrs r) newMediaInfo = Inr (raw_media r)"
  by (simp add: rendition_attrs_def media_attr_def raw_media_def newMediaInfo_def has_prefix_def to_int32_def)

lemma rendition_attrs_line: "item_ok (Rendition r) \<Longrightarrow> \<forall>p \<in> set (rendition_attrs r). line_attr p"
proof -
  assume ok: "item_ok (Rendition r)"
  have "plain (show_nat n)" for n
    using digits_show_nat [of n] digit_other unfolding plain_def by blast
  with ok have "\<forall>p \<in> set (rendition_attrs r). snd p \<notin> {''AUDIO'', ''SUBTITLES'', ''YES'', ''NO''} \<longrightarrow> line_attr p"
    by (auto simp: rendition_attrs_def char_defs intro!: line_attr_quote)
  moreover have "\<forall>p \<in> set (rendition_attrs r). snd p \<in> {''AUDIO'', ''SUBTITLES'', ''YES'', ''NO''} \<longrightarrow>
      fst p \<in> {''TYPE'', ''DEFAULT''}"
    by (auto simp: rendition_attrs_def quote_def char_defs)
  moreover have "line_attr (a, w)" if "a \<in> {''TYPE'', ''DEFAULT''}" "w \<in> {''AUDIO'', ''SUBTITLES'', ''YES'', ''NO''}" for a w
    using that by (auto simp: line_attr_def attr_ok_def char_defs)
  ultimately show ?thesis by (metis prod.collapse)
qed

definition item_langs :: "'h hls_env \<Rightarrow> master_item \<Rightarrow> string list \<Rightarrow> string list" where
  "item_langs env i ls = (case i of Rendition r \<Rightarrow> media_langs env (raw_media r) ls | _ \<Rightarrow> ls)"

lemma media_done_raw: "[media_done (raw_media r)] = item_media (Rendition r)"
  by (simp add: media_done_def raw_media_def newMediaInfo_def)

lemma loop_rendition:
  assumes "item_ok (Rendition r)" "length (mediaInfoStore st) = mMediaCount st"
  shows "manifest_loop env (write_item (Rendition r) @ s) st = manifest_loop env s
    (st\<lparr>mediaInfoStore := mediaInfoStore st @ item_media (Rendition r),
        mLangList := item_langs env (Rendition r) (mLangList st), mMediaCount := mMediaCount st + 1,
        lineNum := lineNum st + 1\<rparr>)"
proof -
  let ?q = "''-X-MEDIA:'' @ write_attrs (rendition_attrs r)"
  note a = rendition_attrs_line [OF assms(1)]
  have q: "CHAR_LF \<notin> set ?q" "last ?q \<noteq> CHAR_CR"
    using write_attrs_line [OF a] by (auto simp: char_defs)
  have "media_tag env (write_attrs (rendition_attrs r)) st =
     Inr (st\<lparr>mediaInfoStore := mediaInfoStore st @ item_media (Rendition r),
        mLangList := item_langs env (Rendition r) (mLangList st), mMediaCount := mMediaCount st + 1\<rparr>)"
    unfolding media_tag_eq [OF assms(2)] attr_list_line [OF a] fold_rendition_attrs media_done_raw [symmetric]
    by (simp add: item_langs_def)
  then have "manifest_tag env ?q s st =
     Inr (Continue s (st\<lparr>mediaInfoStore := mediaInfoStore st @ item_media (Rendition r),
        mLangList := item_langs env (Rendition r) (mLangList st), mMediaCount := mMediaCount st + 1\<rparr>))"
    by (simp add: manifest_tag_def on_prefix_def)
  with loop_tag_line [of ?q env s st] q show ?thesis by simp
qed
fun is_variant :: "master_item \<Rightarrow> bool" where
  "is_variant (Variant v) = True"
| "is_variant _ = False"

fun is_iframe :: "master_item \<Rightarrow> bool" where
  "is_iframe (IFrame b u) = True"
| "is_iframe _ = False"

definition written_streams :: "'h hls_env \<Rightarrow> master_item list \<Rightarrow> HlsStreamInfo list" where
  "written_streams env items = concat (map (item_streams env) items)"

definition written_media :: "master_item list \<Rightarrow> MediaInfo list" where
  "written_media items = concat (map item_media items)"

definition written_langs :: "'h hls_env \<Rightarrow> master_item list \<Rightarrow> string list \<Rightarrow> string list" where
  "written_langs env items ls = fold (item_langs env) items ls"

lemmas written_defs = written_streams_def written_media_def written_langs_def

text \<open>What the loop makes of the entries.\<close>

definition after_items :: "'h hls_env \<Rightarrow> master_item list \<Rightarrow> 'h hls_context \<Rightarrow> 'h hls_context \<Rightarrow> bool" where
  "after_items env items st t \<longleftrightarrow>
     streamInfoStore t = streamInfoStore st @ written_streams env items
     \<and> mediaInfoStore t = mediaInfoStore st @ written_media items
     \<and> mLangList t = written_langs env items (mLangList st)
     \<and> mProfileCount t = length (streamInfoStore t) \<and> mMediaCount t = length (mediaInfoStore t)
     \<and> vProfileCount t = vProfileCount st + length (filter is_variant items)
     \<and> iFrameCount t = iFrameCount st + length (filter is_iframe items)"

lemma loop_items:
  "\<forall>i \<in> set items. item_ok i \<Longrightarrow> length (streamInfoStore st) = mProfileCount st \<Longrightarrow>
   length (mediaInfoStore st) = mMediaCount st \<Longrightarrow>
   \<exists>t. manifest_loop env (concat (map write_item items)) st = Inr (eAAMPSTATUS_OK, t) \<and> after_items env items st t"
proof (induction items arbitrary: st)
  case Nil
  then show ?case by (subst manifest_loop.simps) (simp add: after_items_def written_defs)
next
  case (Cons i items)
  let ?s = "concat (map write_item items)"
  from Cons.prems(1) have ok: "item_ok i" and oks: "\<forall>i \<in> set items. item_ok i" by simp_all
  show ?case
  proof (cases i)
    case (Variant v)
    from Cons.IH [OF oks, of "st\<lparr>streamInfoStore := streamInfoStore st @ item_streams env (Variant v),
        mProfileCount := mProfileCount st + 1, vProfileCount := vProfileCount st + 1, lineNum := lineNum st + 1\<rparr>"]
    show ?thesis
      using loop_variant [of v st env ?s] ok Cons.prems
      by (auto simp: Variant after_items_def written_defs item_langs_def simp del: write_item.simps item_streams.simps item_ok.simps)
        (auto)
  next
    case (IFrame b u)
    from Cons.IH [OF oks, of "st\<lparr>streamInfoStore := streamInfoStore st @ item_streams env (IFrame b u),
        mProfileCount := mProfileCount st + 1, iFrameCount := iFrameCount st + 1, mIframeAvailable := True,
        lineNum := lineNum st + 1\<rparr>"]
    show ?thesis
      using loop_iframe [of b u st env ?s] ok Cons.prems
      by (auto simp: IFrame after_items_def written_defs item_langs_def simp del: write_item.simps item_streams.simps item_ok.simps)
        (auto)
  next
    case (Rendition r)
    from Cons.IH [OF oks, of "st\<lparr>mediaInfoStore := mediaInfoStore st @ item_media (Rendition r),
        mLangList := item_langs env (Rendition r) (mLangList st), mMediaCount := mMediaCount st + 1,
        lineNum := lineNum st + 1\<rparr>"]
    show ?thesis
      using loop_rendition [of r st env ?s] ok Cons.prems
      by (auto simp: Rendition after_items_def written_defs simp del: write_item.simps item_media.simps item_ok.simps)
        (auto)
  next
    case (Other l)
    with ok loop_other_line [of l env ?s st] Cons.IH [OF oks, of st] Cons.prems show ?thesis
      by (auto simp: after_items_def written_defs item_langs_def)
  qed
qed

lemma loop_m3u:
  "lineNum st = 0 \<Longrightarrow> manifest_loop env (''#EXT'' @ ''M3U'' @ CHAR_LF # s) st = manifest_loop env s (st\<lparr>lineNum := 1\<rparr>)"
  using loop_tag_line [of "''M3U''" env s st] by (simp add: char_defs manifest_tag_def on_prefix_def)

section \<open>Properties\<close>

text \<open>
  C4: a main manifest of any variants, I-frame streams, renditions and other lines, in any order, is
  read back.  The stores hold one entry for every stream and every rendition, in order, with the
  written bandwidth (the average bandwidth when the player is configured for it), resolution, codecs,
  group and URI; an audio rendition without a language gets its name as language and the audio format
  of the first variant of its group; a channel count, which is a quoted string, is read as 0.  The status
  is a content error exactly when there is no variant.
\<close>

theorem main_manifest_roundtrip:
  assumes "\<forall>i \<in> set items. item_ok i"
  shows "\<exists>t. ParseMainManifest env (write_master items) st =
       Inr (if \<exists>i \<in> set items. is_variant i then eAAMPSTATUS_OK else eAAMPSTATUS_MANIFEST_CONTENT_ERROR, t)
     \<and> streamInfoStore t = written_streams env items
     \<and> mediaInfoStore t = (if \<exists>i \<in> set items. is_variant i
          then map (link_audio (written_streams env items)) (written_media items) else written_media items)
     \<and> mLangList t = written_langs env items (mLangList st)
     \<and> mProfileCount t = length (streamInfoStore t) \<and> mMediaCount t = length (mediaInfoStore t)
     \<and> iFrameCount t = length (filter is_iframe items)"
proof -
  obtain t where t: "manifest_loop env (write_master items) (parse_start st) = Inr (eAAMPSTATUS_OK, t)"
      "after_items env items ((parse_start st)\<lparr>lineNum := 1\<rparr>) t"
    using loop_items [OF assms, of "(parse_start st)\<lparr>lineNum := 1\<rparr>" env] loop_m3u [of "parse_start st" env]
    by (auto simp: write_master_def parse_start_def)
  have v: "vProfileCount t = 0 \<longleftrightarrow> \<not> (\<exists>i \<in> set items. is_variant i)"
    using t(2) by (auto simp: after_items_def parse_start_def filter_empty_conv)
  show ?thesis
    using t v by (auto simp: ParseMainManifest_start after_items_def parse_start_def)
qed

definition example_items :: "master_item list" where
  "example_items =
     [Other ''## main'',
      Rendition \<lparr>re_audio = True, re_group = ''a1'', re_name = ''English'', re_language = [], re_default = True,
        re_channels = 6, re_uri = ''a,en.m3u8''\<rparr>,
      Variant \<lparr>va_bandwidth = 2000000, va_average = 1500000, va_width = 1280, va_height = 720,
        va_codecs = ''avc1.64,ec-3'', va_audio = ''a1'', va_uri = ''v1.m3u8''\<rparr>,
      IFrame 90000 ''i.m3u8'']"

theorem main_manifest_roundtrip_witness:
  "\<forall>st. \<exists>t. ParseMainManifest example_env (write_master example_items) st = Inr (eAAMPSTATUS_OK, t)
     \<and> map si_bandwidth (streamInfoStore t) = [1500000, 90000]
     \<and> map mi_audioFormat (mediaInfoStore t) = [FORMAT_AUDIO_ES_EC3] \<and> map mi_channels (mediaInfoStore t) = [0]"
proof
  fix st
  have ok: "\<forall>i \<in> set example_items. item_ok i"
    by (simp add: example_items_def plain_def char_defs width_defs strip_cr_def)
  have v: "\<exists>i \<in> set example_items. is_variant i" by (simp add: example_items_def)
  have s: "map si_bandwidth (written_streams example_env example_items) = [1500000, 90000]"
    by (simp add: example_items_def example_env_def written_defs)
  have f: "codec_format ''avc1.64,ec-3'' = FORMAT_AUDIO_ES_EC3"
    by (simp add: codec_format_def GetAudioFormatForCodec_def mAudioFormatMap_def has_prefix_def)
  have m: "map mi_audioFormat (map (link_audio (written_streams example_env example_items)) (written_media example_items))
        = [FORMAT_AUDIO_ES_EC3]"
      "map mi_channels (map (link_audio (written_streams example_env example_items)) (written_media example_items)) = [0]"
    by (simp_all add: example_items_def example_env_def written_defs newStreamInfo_def newMediaInfo_def link_audio_def f)
  from main_manifest_roundtrip [OF ok, of example_env st] v s m
  show "\<exists>t. ParseMainManifest example_env (write_master example_items) st = Inr (eAAMPSTATUS_OK, t)
     \<and> map si_bandwidth (streamInfoStore t) = [1500000, 90000]
     \<and> map mi_audioFormat (mediaInfoStore t) = [FORMAT_AUDIO_ES_EC3] \<and> map mi_channels (mediaInfoStore t) = [0]"
    by auto
qed

text \<open>
  C24: what the parser rejects and where it goes wrong, whatever follows in the manifest: a media playlist
  is reported as such, a second \<open>#EXTM3U\<close> is a content error, a start tag without an offset reads an
  uninitialised variable, and a bandwidth beyond the \<open>long\<close> range overflows.
\<close>

theorem main_manifest_errors:
  assumes "CHAR_LF \<notin> set l" and "last l \<noteq> CHAR_CR" and "INT64_MAX < int n"
  shows "(\<exists>t. ParseMainManifest env (''#EXTM3U'' @ CHAR_LF # ''#EXTINF:'' @ l @ CHAR_LF # s) st
              = Inr (eAAMPSTATUS_PLAYLIST_PLAYBACK, t))
    \<and> (\<exists>t. ParseMainManifest env (''#EXTM3U'' @ CHAR_LF # ''#EXTM3U'' @ CHAR_LF # s) st
              = Inr (eAAMPSTATUS_MANIFEST_CONTENT_ERROR, t))
    \<and> ParseMainManifest env (''#EXTM3U'' @ CHAR_LF # ''#EXT-X-START:PRECISE=YES'' @ CHAR_LF # s) st
              = Inl ReadUninitialised
    \<and> ParseMainManifest env (''#EXTM3U'' @ CHAR_LF # ''#EXT-X-STREAM-INF:BANDWIDTH='' @ show_nat n @ CHAR_LF # s) st
              = Inl IntOverflow"
proof -
  let ?st = "(parse_start st)\<lparr>lineNum := 1\<rparr>"
  have start: "manifest_loop env (''#EXTM3U'' @ CHAR_LF # r) (parse_start st) = manifest_loop env r ?st" for r
    using loop_m3u [of "parse_start st" env r] by (simp add: parse_start_def)
  have tag: "manifest_loop env (''#EXT'' @ q @ CHAR_LF # s) ?st =
      ebind (manifest_tag env q s ?st) (\<lambda>r. case r of
        Continue i t \<Rightarrow> manifest_loop env i (t\<lparr>lineNum := lineNum t + 1\<rparr>) | Break retval t \<Rightarrow> Inr (retval, t))"
    if "CHAR_LF \<notin> set q" "last q \<noteq> CHAR_CR" for q
    using that by (intro loop_tag_line) simp_all
  have e1: "manifest_loop env (''#EXTINF:'' @ l @ CHAR_LF # s) ?st = Inr (eAAMPSTATUS_PLAYLIST_PLAYBACK, ?st)"
    using tag [of "''INF:'' @ l"] assms(1,2) by (auto simp: char_defs manifest_tag_def on_prefix_def)
  have e2: "manifest_loop env (''#EXTM3U'' @ CHAR_LF # s) ?st = Inr (eAAMPSTATUS_MANIFEST_CONTENT_ERROR, ?st)"
    using tag [of "''M3U''"] by (simp add: char_defs manifest_tag_def on_prefix_def)
  have "attr_list ''PRECISE=YES'' = [(''PRECISE'', ''YES'')]"
    using attr_list_write [of "[(''PRECISE'', ''YES'')]"] by (simp add: attr_ok_def char_defs)
  then have e3: "manifest_loop env (''#EXT-X-START:PRECISE=YES'' @ CHAR_LF # s) ?st = Inl ReadUninitialised"
    using tag [of "''-X-START:PRECISE=YES''"]
    by (simp add: char_defs manifest_tag_def on_prefix_def start_tag_def ParseXStartTimeOffset_def
        ParseXStartAttributeCallback_def)
  have b: "line_attr (''BANDWIDTH'', show_nat n)"
    using digits_show_nat by (auto simp: char_defs intro!: line_attr_number)
  then have al: "attr_list (''BANDWIDTH='' @ show_nat n) = [(''BANDWIDTH'', show_nat n)]"
    using attr_list_line [of "[(''BANDWIDTH'', show_nat n)]"] by simp
  have "atoll_text (show_nat n) = Inl IntOverflow"
    using digits_from_show [of n "[]"] assms(3) by (simp add: atoll_text_value)
  then have "manifest_tag env (''-X-STREAM-INF:BANDWIDTH='' @ show_nat n) s ?st = Inl IntOverflow"
    using al by (simp add: manifest_tag_def on_prefix_def variant_tag_def stream_tag_eq parse_start_def stream_inf_attr_def)
  moreover have "CHAR_LF \<notin> set (''-X-STREAM-INF:BANDWIDTH='' @ show_nat n)"
      "last (''-X-STREAM-INF:BANDWIDTH='' @ show_nat n) \<noteq> CHAR_CR"
    using b by (auto simp: line_attr_def char_defs)
  ultimately have e4: "manifest_loop env (''#EXT-X-STREAM-INF:BANDWIDTH='' @ show_nat n @ CHAR_LF # s) ?st = Inl IntOverflow"
    using tag [of "''-X-STREAM-INF:BANDWIDTH='' @ show_nat n"] by simp
  show ?thesis
    using start e1 e2 e3 e4 by (simp add: ParseMainManifest_start)
qed

theorem main_manifest_errors_witness:
  "\<forall>st. \<exists>t. ParseMainManifest example_env (''#EXTM3U'' @ CHAR_LF # ''#EXTINF:'' @ ''9.6,'' @ CHAR_LF # []) st
     = Inr (eAAMPSTATUS_PLAYLIST_PLAYBACK, t)"
proof
  fix st
  have "CHAR_LF \<notin> set ''9.6,''" "last ''9.6,'' \<noteq> CHAR_CR" "INT64_MAX < int 9223372036854775808"
    by (simp_all add: char_defs width_defs)
  from main_manifest_errors [OF this, of example_env "[]" st]
  show "\<exists>t. ParseMainManifest example_env (''#EXTM3U'' @ CHAR_LF # ''#EXTINF:'' @ ''9.6,'' @ CHAR_LF # []) st
     = Inr (eAAMPSTATUS_PLAYLIST_PLAYBACK, t)" by (rule conjunct1)
qed

end
