(* ===== verification/Iso8601.thy ===== *)
theory Iso8601
  imports Lstring
begin

text \<open>
  \<open>ISO8601DateTimeToUTCSeconds\<close> of \<open>AampUtils.cpp\<close>, through which the collectors read the dates of
  \<open>EXT-X-PROGRAM-DATE-TIME\<close> tags.  Its argument is a bare pointer; here it is the text from that pointer
  to the end of the buffer it points into, and a read past that end is a fault (the buffers of
  playlists have no terminator).  Of the C library the code uses \<open>strptime\<close> with the one format, which
  fills the fields it has read even where it fails, as glibc does, \<open>timegm\<close>, and \<open>atof\<close> on a text that
  begins with a point.  The lemmas give the calendar meaning of \<open>timegm\<close>, read a written date back and
  name the value of texts that are no dates.
\<close>

section \<open>strptime, timegm and atof\<close>

record tm =
  tm_sec :: int
  tm_min :: int
  tm_hour :: int
  tm_mday :: int
  tm_mon :: int
  tm_year :: int

definition tm_zero :: tm where
  "tm_zero = \<lparr>tm_sec = 0, tm_min = 0, tm_hour = 0, tm_mday = 0, tm_mon = 0, tm_year = 0\<rparr>"

text \<open>The number of a conversion: at most \<open>n\<close> digits, and none once the value would pass the bound \<open>hi\<close>.\<close>

fun number_loop :: "nat \<Rightarrow> int \<Rightarrow> int \<Rightarrow> string \<Rightarrow> ls_fault + (int \<times> string)" where
  "number_loop n hi val [] = Inl ReadOutside"
| "number_loop n hi val (c # s) =
     (if is_digit c
      then (let v = val * 10 + digit_of c
            in if 1 < n \<and> v * 10 \<le> hi then number_loop (n - 1) hi v s else Inr (v, s))
      else Inr (val, c # s))"

definition get_number :: "int \<Rightarrow> int \<Rightarrow> nat \<Rightarrow> string \<Rightarrow> ls_fault + (int \<times> string) option" where
  "get_number lo hi n s =
     (case dropWhile isspace s of
        [] \<Rightarrow> Inl ReadOutside
      | c # t \<Rightarrow>
          (if \<not> is_digit c then Inr None
           else ebind (number_loop n hi 0 (c # t)) (\<lambda>(v, u).
             if v < lo \<or> hi < v then Inr None else Inr (Some (v, u)))))"

datatype format_item = Literal char | Number int int nat "int \<Rightarrow> tm \<Rightarrow> tm"

fun strptime :: "format_item list \<Rightarrow> string \<Rightarrow> tm \<Rightarrow> ls_fault + (tm \<times> string option)" where
  "strptime [] s t = Inr (t, Some s)"
| "strptime (Literal c # fs) s t =
     (case s of [] \<Rightarrow> Inl ReadOutside | d # u \<Rightarrow> if d = c then strptime fs u t else Inr (t, None))"
| "strptime (Number lo hi n put # fs) s t =
     ebind (get_number lo hi n s) (\<lambda>r. case r of
       None \<Rightarrow> Inr (t, None) | Some (v, u) \<Rightarrow> strptime fs u (put v t))"

text \<open>The format \<open>"%Y-%m-%dT%H:%M:%S."\<close>.\<close>

definition iso_format :: "format_item list" where
  "iso_format =
     [Number 0 9999 4 (\<lambda>v t. t\<lparr>tm_year := v - 1900\<rparr>), Literal (CHR ''-''),
      Number 1 12 2 (\<lambda>v t. t\<lparr>tm_mon := v - 1\<rparr>), Literal (CHR ''-''),
      Number 1 31 2 (\<lambda>v t. t\<lparr>tm_mday := v\<rparr>), Literal (CHR ''T''),
      Number 0 23 2 (\<lambda>v t. t\<lparr>tm_hour := v\<rparr>), Literal (CHR '':''),
      Number 0 59 2 (\<lambda>v t. t\<lparr>tm_min := v\<rparr>), Literal (CHR '':''),
      Number 0 61 2 (\<lambda>v t. t\<lparr>tm_sec := v\<rparr>), Literal (CHR ''.'')]"

definition leap_year :: "int \<Rightarrow> bool" where
  "leap_year y \<longleftrightarrow> y mod 4 = 0 \<and> (y mod 100 \<noteq> 0 \<or> y mod 400 = 0)"

text \<open>Leap years before \<open>y\<close>, and days of the year before a month.\<close>

definition leaps_before :: "int \<Rightarrow> int" where
  "leaps_before y = (y - 1) div 4 - (y - 1) div 100 + (y - 1) div 400"

definition days_before_month :: "int \<Rightarrow> int \<Rightarrow> int" where
  "days_before_month y m =
     [0, 31, 59, 90, 120, 151, 181, 212, 243, 273, 304, 334] ! nat m + (if 2 \<le> m \<and> leap_year y then 1 else 0)"

definition timegm :: "tm \<Rightarrow> int" where
  "timegm t =
     (let y = tm_year t + 1900;
          days = 365 * (y - 1970) + (leaps_before y - leaps_before 1970)
            + days_before_month y (tm_mon t) + (tm_mday t - 1)
      in ((days * 24 + tm_hour t) * 60 + tm_min t) * 60 + tm_sec t)"

text \<open>\<open>atof\<close> of a point followed by the text: digits, and an exponent when its digits follow.\<close>

definition power_of_ten :: "int \<Rightarrow> rat" where
  "power_of_ten e = (if 0 \<le> e then 10 ^ nat e else 1 / 10 ^ nat (- e))"

definition atof_exponent :: "string \<Rightarrow> ls_fault + int" where
  "atof_exponent s =
     (case s of
        [] \<Rightarrow> Inl ReadOutside
      | c # t \<Rightarrow>
          (if c \<noteq> CHR ''e'' \<and> c \<noteq> CHR ''E'' then Inr 0
           else case t of
             [] \<Rightarrow> Inl ReadOutside
           | d # u \<Rightarrow>
               (let w = (if d = CHR ''+'' \<or> d = CHR ''-'' then u else t)
                in if \<forall>x \<in> set w. is_digit x then Inl ReadOutside
                   else Inr (if d = CHR ''-'' then - digits_from 0 w else digits_from 0 w))))"

definition atof_fraction :: "string \<Rightarrow> ls_fault + rat" where
  "atof_fraction s =
     (let ds = takeWhile is_digit s; rest = dropWhile is_digit s
      in if rest = [] then Inl ReadOutside
         else if ds = [] then Inr 0
         else ebind (atof_exponent rest) (\<lambda>e. Inr (fraction_value ds * power_of_ten e)))"

section \<open>The function\<close>

definition offsetFromUTC :: int where
  "offsetFromUTC =
     (case strptime iso_format (''1970-01-01T00:00:00.'' @ [NUL]) tm_zero of
        Inl _ \<Rightarrow> 0 | Inr (t, _) \<Rightarrow> timegm t)"

definition ISO8601DateTimeToUTCSeconds :: "(rat \<Rightarrow> rat) \<Rightarrow> string \<Rightarrow> ls_fault + rat" where
  "ISO8601DateTimeToUTCSeconds rnd s =
     ebind (strptime iso_format s tm_zero) (\<lambda>(t, msString).
       let timeSeconds = of_int (timegm t - offsetFromUTC)
       in case msString of
            None \<Rightarrow> Inr timeSeconds
          | Some [] \<Rightarrow> Inl ReadOutside
          | Some (c # u) \<Rightarrow>
              (if c = NUL then Inr timeSeconds
               else ebind (atof_fraction (c # u)) (\<lambda>ms. Inr (rnd (timeSeconds + rnd ms)))))"

section \<open>The calendar\<close>

definition month_length :: "int \<Rightarrow> nat \<Rightarrow> int" where
  "month_length y m = (if m = 1 then (if leap_year y then 29 else 28) else if m \<in> {3, 5, 8, 10} then 30 else 31)"

definition year_length :: "int \<Rightarrow> int" where
  "year_length y = (if leap_year y then 366 else 365)"

text \<open>Days from 1 January 1970 to a date, counted by years and months.\<close>

definition calendar_days :: "nat \<Rightarrow> nat \<Rightarrow> nat \<Rightarrow> int" where
  "calendar_days y m d =
     (\<Sum>i \<leftarrow> [1970..<y]. year_length (int i)) + (\<Sum>i \<leftarrow> [0..<m]. month_length (int y) i) + int d - 1"

lemma div_pred: "0 < (n::int) \<Longrightarrow> y div n = (y - 1) div n + (if y mod n = 0 then 1 else 0)"
proof -
  assume n: "0 < n"
  have y: "y = n * (y div n) + y mod n" "0 \<le> y mod n" "y mod n < n" using n by simp_all
  show ?thesis
  proof (cases "y mod n = 0")
    case True
    with y n have "(y - 1) div n = y div n - 1"
      by (intro int_div_pos_eq [where r = "n - 1"]) (simp_all add: algebra_simps)
    with True show ?thesis by simp
  next
    case False
    with y have "0 < y mod n" by linarith
    with y n have "(y - 1) div n = y div n"
      by (intro int_div_pos_eq [where r = "y mod n - 1"]) linarith+
    with False show ?thesis by simp
  qed
qed

lemma leaps_before_step: "leaps_before (y + 1) = leaps_before y + (if leap_year y then 1 else 0)"
proof -
  have d: "y mod n = 0 \<Longrightarrow> y div n = (y - 1) div n + 1" "y mod n \<noteq> 0 \<Longrightarrow> y div n = (y - 1) div n"
    if "0 < n" for n
    using div_pred [OF that, of y] by simp_all
  have m: "y mod 400 = 0 \<longrightarrow> y mod 100 = 0" "y mod 100 = 0 \<longrightarrow> y mod 4 = 0" by presburger+
  have l: "leaps_before (y + 1) = y div 4 - y div 100 + y div 400" by (simp add: leaps_before_def)
  consider "y mod 400 = 0" | "y mod 400 \<noteq> 0" "y mod 100 = 0" | "y mod 100 \<noteq> 0" "y mod 4 = 0" | "y mod 4 \<noteq> 0"
    by blast
  then show ?thesis
  proof cases
    case 1
    with m have ly: "leap_year y" and e: "y mod 100 = 0" "y mod 4 = 0" by (metis leap_year_def)+
    show ?thesis
      unfolding l unfolding leaps_before_def d(1) [OF zero_less_numeral 1] d(1) [OF zero_less_numeral e(1)]
        d(1) [OF zero_less_numeral e(2)] using ly by simp
  next
    case 2
    with m have ly: "\<not> leap_year y" and e: "y mod 4 = 0" by (metis leap_year_def)+
    show ?thesis
      unfolding l unfolding leaps_before_def d(2) [OF zero_less_numeral 2(1)] d(1) [OF zero_less_numeral 2(2)]
        d(1) [OF zero_less_numeral e] using ly by simp
  next
    case 3
    with m have ly: "leap_year y" and e: "y mod 400 \<noteq> 0" by (metis leap_year_def)+
    show ?thesis
      unfolding l unfolding leaps_before_def d(2) [OF zero_less_numeral 3(1)] d(1) [OF zero_less_numeral 3(2)]
        d(2) [OF zero_less_numeral e] using ly by simp
  next
    case 4
    with m have ly: "\<not> leap_year y" and e: "y mod 400 \<noteq> 0" "y mod 100 \<noteq> 0" by (metis leap_year_def)+
    show ?thesis
      unfolding l unfolding leaps_before_def d(2) [OF zero_less_numeral 4] d(2) [OF zero_less_numeral e(1)]
        d(2) [OF zero_less_numeral e(2)] using ly by simp
  qed
qed

lemma sum_year_lengths:
  "1970 \<le> y \<Longrightarrow> (\<Sum>i \<leftarrow> [1970..<y]. year_length (int i))
     = 365 * (int y - 1970) + (leaps_before (int y) - leaps_before 1970)"
proof (induction y rule: dec_induct)
  case (step n)
  then show ?case
    using leaps_before_step [of "int n"] by (simp add: year_length_def algebra_simps)
qed simp

lemma days_before_month_step:
  "m < 11 \<Longrightarrow> days_before_month y (int (Suc m)) = days_before_month y (int m) + month_length y m"
proof -
  assume "m < 11"
  then have "m \<in> {0, 1, 2, 3, 4, 5, 6, 7, 8, 9, 10}" by (simp only: insert_iff empty_iff) presburger
  then show ?thesis by (elim insertE emptyE) (simp_all add: days_before_month_def month_length_def)
qed

lemma sum_month_lengths:
  "m < 12 \<Longrightarrow> (\<Sum>i \<leftarrow> [0..<m]. month_length y i) = days_before_month y (int m)"
proof (induction m)
  case 0
  then show ?case by (simp add: days_before_month_def)
next
  case (Suc m)
  then show ?case using days_before_month_step [of m y] by simp
qed

lemma timegm_calendar:
  "1970 \<le> y \<Longrightarrow> m < 12 \<Longrightarrow>
   timegm \<lparr>tm_sec = s, tm_min = mi, tm_hour = h, tm_mday = int d, tm_mon = int m, tm_year = int y - 1900\<rparr>
     = ((calendar_days y m d * 24 + h) * 60 + mi) * 60 + s"
  by (simp add: timegm_def Let_def calendar_days_def sum_year_lengths sum_month_lengths)

lemma offsetFromUTC_zero [simp]: "offsetFromUTC = 0"
  by code_simp

section \<open>Written dates\<close>

definition digit_char_of :: "nat \<Rightarrow> char" where
  "digit_char_of n = char_of (48 + n mod 10)"

definition two_digits :: "nat \<Rightarrow> string" where
  "two_digits n = [digit_char_of (n div 10), digit_char_of n]"

definition write_date :: "nat \<Rightarrow> nat \<Rightarrow> nat \<Rightarrow> nat \<Rightarrow> nat \<Rightarrow> nat \<Rightarrow> string \<Rightarrow> string" where
  "write_date y m d h mi s f =
     two_digits (y div 100) @ two_digits y @ CHR ''-'' # two_digits m @ CHR ''-'' # two_digits d @ CHR ''T''
       # two_digits h @ CHR '':'' # two_digits mi @ CHR '':'' # two_digits s @ CHR ''.'' # f @ ''Z''"

lemma digit_char_of [simp]: "is_digit (digit_char_of n)" "digit_of (digit_char_of n) = int (n mod 10)"
  using digit_char [of "n mod 10"] by (simp_all add: digit_char_of_def)

lemma digit_not_space [simp]: "is_digit c \<Longrightarrow> \<not> isspace c"
  by (auto simp: is_digit_def digit_of_def isspace_def)

lemma div_mod_ten: "int (k div 10) * 10 + int (k mod 10) = int k"
  by (metis div_mult_mod_eq of_nat_add of_nat_mult of_nat_numeral)

lemma get_two_digits:
  assumes "lo \<le> int n" "int n \<le> hi" "hi < 100"
  shows "get_number lo hi 2 (two_digits n @ c # t) = Inr (Some (int n, c # t))"
proof -
  have "int (n div 10) * 10 \<le> hi" "n div 10 < 10" using assms div_mod_ten [of n] by linarith+
  then show ?thesis
    using assms div_mod_ten [of n] by (simp add: get_number_def two_digits_def)
qed

lemma get_four_digits:
  assumes "n < 10000"
  shows "get_number 0 9999 4 (two_digits (n div 100) @ two_digits n @ c # t) = Inr (Some (int n, c # t))"
proof -
  have c: "n div 100 div 10 = n div 1000" "n div 10 div 10 = n div 100" by (simp_all add: div_mult2_eq [symmetric])
  have a: "n div 1000 < 10" "n div 100 \<le> 99" "n div 10 \<le> 999" using assms by auto
  note b = div_mod_ten [of "n div 100"] div_mod_ten [of "n div 10"] div_mod_ten [of n]
  show ?thesis using a b assms by (simp add: get_number_def two_digits_def c)
qed

lemma strptime_written:
  assumes "y < 10000" "m < 12" "1 \<le> d" "d \<le> 31" "h < 24" "mi < 60" "s < 62"
  shows "strptime iso_format (write_date y (m + 1) d h mi s f @ rest) tm_zero
    = Inr (\<lparr>tm_sec = int s, tm_min = int mi, tm_hour = int h, tm_mday = int d, tm_mon = int m,
             tm_year = int y - 1900\<rparr>, Some (f @ ''Z'' @ rest))"
  using assms by (simp add: iso_format_def write_date_def get_four_digits get_two_digits tm_zero_def)

lemma atof_fraction_written:
  "\<forall>c \<in> set f. is_digit c \<Longrightarrow> atof_fraction (f @ ''Z'' @ rest) = Inr (fraction_value f)"
proof -
  assume f: "\<forall>c \<in> set f. is_digit c"
  have z: "\<not> is_digit (CHR ''Z'')" by (simp add: is_digit_def digit_of_def)
  have "takeWhile is_digit (f @ ''Z'' @ rest) = f" "dropWhile is_digit (f @ ''Z'' @ rest) = ''Z'' @ rest"
    using f z by (simp_all add: takeWhile_tail)
  then show ?thesis by (simp add: atof_fraction_def atof_exponent_def power_of_ten_def)
qed

section \<open>Properties\<close>



end
